(* ===== verification/Shm_Prelude.thy ===== *)
theory Shm_Prelude
  imports Main "HOL-Library.Word"
begin

text \<open>
  The vocabulary every component of the development shares: the C integer types at their
  width (LP64: \<open>size_t\<close> and \<open>uint64_t\<close> have 64 bits), the ways a C function can stop
  (a failed \<open>assert\<close>, \<open>abort()\<close>, undefined behaviour) as values, raw memory as a list of
  bytes with bounds-checked \<open>memcpy\<close>, little-endian 64-bit loads and stores, and the
  arithmetic of ring positions. Lemmas that rewrite word arithmetic to arithmetic on
  natural numbers are collected in \<open>word_nat\<close>; the laws of the result type are simp rules.
\<close>

unbundle bit_operations_syntax

named_theorems word_nat \<open>word comparisons and sums as statements on natural numbers\<close>

section \<open>Machine integers\<close>

type_synonym size_t = "64 word"
type_synonym uint64_t = "64 word"
type_synonym shm_kind = "64 word"
type_synonym shm_eventid = "64 word"
type_synonym byte = "8 word"

abbreviation SIZE_MAX :: size_t where
  "SIZE_MAX \<equiv> - 1"

lemma unat_less_2p64: "unat (x :: 64 word) < 18446744073709551616"
  using unsigned_less [of x] by simp

lemma unat_SIZE_MAX [simp]: "unat SIZE_MAX = 18446744073709551615"
  by (simp add: unsigned_minus_1_eq_mask mask_eq_exp_minus_1)

lemma unat_sub_64:
  "unat (a - b :: 64 word) =
     (if unat b \<le> unat a then unat a - unat b
      else unat a + 18446744073709551616 - unat b)"
  by (simp add: unat_sub_if')

lemma unat_add_64:
  "unat (a + b :: 64 word) =
     (if unat a + unat b < 18446744073709551616 then unat a + unat b
      else unat a + unat b - 18446744073709551616)"
  by (simp add: unat_plus_if')

lemma unat_mult_64:
  "unat (a * b :: 64 word) = (unat a * unat b) mod 18446744073709551616"
  by (simp add: unat_word_ariths)

lemma word_64_eq_iff: "(a :: 64 word) = b \<longleftrightarrow> unat a = unat b"
  by (simp add: word_unat_eq_iff)

lemmas word_nat_rules [word_nat] =
  word_less_nat_alt word_le_nat_alt word_64_eq_iff unat_sub_64 unat_add_64

lemma unat_of_nat_64: "n < 18446744073709551616 \<Longrightarrow> unat (of_nat n :: 64 word) = n"
  by (simp add: unat_of_nat)

section \<open>Results: a value, or the way the program stopped\<close>

datatype error =
    Assertion string  \<comment> \<open>a failed \<open>assert\<close> (the build without \<open>NDEBUG\<close>)\<close>
  | Abort string      \<comment> \<open>\<open>abort()\<close>\<close>
  | UB string         \<comment> \<open>undefined behaviour, e.g. an access out of bounds\<close>

type_synonym 'a res = "error + 'a"

definition bindE :: "'a res \<Rightarrow> ('a \<Rightarrow> 'b res) \<Rightarrow> 'b res" where
  "bindE m f = (case m of Inl e \<Rightarrow> Inl e | Inr x \<Rightarrow> f x)"

definition assertE :: "bool \<Rightarrow> string \<Rightarrow> 'a res \<Rightarrow> 'a res" where
  "assertE c msg k = (if c then k else Inl (Assertion msg))"

text \<open>
  A loop that waits for other threads takes a list of what they do between its iterations; it has
  returned, or the list has ended and it still waits.
\<close>

datatype 'a waiting = Returned 'a | Waiting

lemma bindE_Inr [simp]: "bindE (Inr x) f = f x"
  by (simp add: bindE_def)

lemma bindE_Inl [simp]: "bindE (Inl e) f = Inl e"
  by (simp add: bindE_def)

lemma bindE_eq_Inr [simp]: "bindE m f = Inr y \<longleftrightarrow> (\<exists>x. m = Inr x \<and> f x = Inr y)"
  by (cases m) simp_all

lemma bindE_cong [fundef_cong]:
  "m = m' \<Longrightarrow> (\<And>x. m' = Inr x \<Longrightarrow> f x = g x) \<Longrightarrow> bindE m f = bindE m' g"
  by (cases m') simp_all

lemma assertE_True [simp]: "assertE True msg k = k"
  by (simp add: assertE_def)

lemma assertE_False [simp]: "assertE False msg k = Inl (Assertion msg)"
  by (simp add: assertE_def)

lemma assertE_eq_Inr [simp]: "assertE c msg k = Inr y \<longleftrightarrow> c \<and> k = Inr y"
  by (simp add: assertE_def)

lemma assertE_cong [fundef_cong]:
  "c = c' \<Longrightarrow> (c' \<Longrightarrow> k = k') \<Longrightarrow> assertE c msg k = assertE c' msg k'"
  by (simp add: assertE_def)

lemma assertE_pass: "c \<Longrightarrow> assertE c msg k = k"
  by simp

section \<open>Lists\<close>

lemma map_upt_shift: "map (\<lambda>k. f (a + k)) [0..<n] = map f [a..<a + n]"
  by (rule nth_equalityI) auto

section \<open>Raw memory\<close>

text \<open>
  A block of memory is a list of bytes; a pointer into it is a byte offset. Reading or
  writing outside the block is undefined behaviour.
\<close>

definition mem_upd :: "byte list \<Rightarrow> nat \<Rightarrow> byte list \<Rightarrow> byte list" where
  "mem_upd mem off src = take off mem @ src @ drop (off + length src) mem"

definition mem_write :: "byte list \<Rightarrow> nat \<Rightarrow> byte list \<Rightarrow> byte list res" where
  "mem_write mem off src =
     (if off + length src \<le> length mem then Inr (mem_upd mem off src)
      else Inl (UB ''write out of bounds''))"

definition mem_read :: "byte list \<Rightarrow> nat \<Rightarrow> nat \<Rightarrow> byte list res" where
  "mem_read mem off n =
     (if off + n \<le> length mem then Inr (take n (drop off mem))
      else Inl (UB ''read out of bounds''))"

lemma length_mem_upd [simp]:
  "off + length src \<le> length mem \<Longrightarrow> length (mem_upd mem off src) = length mem"
  by (simp add: mem_upd_def)

lemma mem_upd_Nil [simp]: "mem_upd mem off [] = mem"
  by (simp add: mem_upd_def)

lemma mem_write_in [simp]:
  "off + length src \<le> length mem \<Longrightarrow> mem_write mem off src = Inr (mem_upd mem off src)"
  by (simp add: mem_write_def)

lemma mem_read_in [simp]:
  "off + n \<le> length mem \<Longrightarrow> mem_read mem off n = Inr (take n (drop off mem))"
  by (simp add: mem_read_def)

lemma nth_mem_upd:
  assumes "off + length src \<le> length mem" and "i < length mem"
  shows "mem_upd mem off src ! i =
    (if off \<le> i \<and> i < off + length src then src ! (i - off) else mem ! i)"
  using assms by (auto simp: mem_upd_def nth_append min_def)

text \<open>An array of elements of \<open>es\<close> bytes: the slot with index \<open>i\<close>.\<close>

definition slot :: "nat \<Rightarrow> byte list \<Rightarrow> nat \<Rightarrow> byte list" where
  "slot es mem i = take es (drop (i * es) mem)"

lemma slot_in_bounds: "i < n \<Longrightarrow> n * es \<le> length mem \<Longrightarrow> i * es + es \<le> length (mem :: byte list)"
proof -
  assume "i < n" and n: "n * es \<le> length mem"
  then have "Suc i * es \<le> n * es" by (intro mult_le_mono1) simp
  with n show ?thesis by simp
qed

lemma length_slot [simp]: "i * es + es \<le> length mem \<Longrightarrow> length (slot es mem i) = es"
  by (simp add: slot_def)

lemma nth_slot: "k < es \<Longrightarrow> i * es + es \<le> length mem \<Longrightarrow> slot es mem i ! k = mem ! (i * es + k)"
  by (simp add: slot_def)

lemma mem_read_slot:
  "i * es + es \<le> length mem \<Longrightarrow> mem_read mem (i * es) es = Inr (slot es mem i)"
  by (simp add: slot_def)

lemma slot_mem_upd_same:
  assumes "i * es + es \<le> length mem" and "length src \<le> es"
  shows "slot es (mem_upd mem (i * es) src) i = src @ drop (length src) (slot es mem i)"
proof (rule nth_equalityI)
  show "length (slot es (mem_upd mem (i * es) src) i) =
    length (src @ drop (length src) (slot es mem i))"
    using assms by simp
next
  fix k assume "k < length (slot es (mem_upd mem (i * es) src) i)"
  with assms have k: "k < es" by simp
  with assms show "slot es (mem_upd mem (i * es) src) i ! k =
    (src @ drop (length src) (slot es mem i)) ! k"
    by (simp add: nth_slot nth_mem_upd nth_append)
qed

lemma slot_mem_upd_full:
  "i * es + es \<le> length mem \<Longrightarrow> length src = es \<Longrightarrow> slot es (mem_upd mem (i * es) src) i = src"
  by (simp add: slot_mem_upd_same)

lemma slot_disjoint:
  fixes i j es k :: nat
  assumes "i \<noteq> j" and "k < es"
  shows "\<not> (i * es \<le> j * es + k \<and> j * es + k < i * es + es)"
proof (cases "i < j")
  case True
  then have "Suc i * es \<le> j * es" by (intro mult_le_mono1) simp
  then show ?thesis by simp
next
  case False
  with assms(1) have "Suc j * es \<le> i * es" by (intro mult_le_mono1) simp
  with assms(2) show ?thesis by simp
qed

lemma slot_mem_upd_other:
  assumes "i \<noteq> j" and "i * es + es \<le> length mem" and "j * es + es \<le> length mem"
    and "length src \<le> es"
  shows "slot es (mem_upd mem (i * es) src) j = slot es mem j"
proof (rule nth_equalityI)
  show "length (slot es (mem_upd mem (i * es) src) j) = length (slot es mem j)"
    using assms by simp
next
  fix k assume "k < length (slot es (mem_upd mem (i * es) src) j)"
  with assms have k: "k < es" by simp
  moreover have "\<not> (i * es \<le> j * es + k \<and> j * es + k < i * es + length src)"
    using slot_disjoint [OF assms(1) k] assms(4) by auto
  ultimately show "slot es (mem_upd mem (i * es) src) j ! k = slot es mem j ! k"
    using assms by (auto simp: nth_slot nth_mem_upd)
qed

text \<open>
  \<open>malloc\<close> as the containers rely on it: when it returns a block, the block has the requested size.
\<close>

definition malloc_ok :: "(size_t \<Rightarrow> byte list option) \<Rightarrow> bool" where
  "malloc_ok malloc \<longleftrightarrow> (\<forall>n block. malloc n = Some block \<longrightarrow> length block = unat n)"

definition zero_malloc :: "size_t \<Rightarrow> byte list option" where
  "zero_malloc n = Some (replicate (unat n) 0)"

lemma zero_malloc_ok: "malloc_ok zero_malloc"
  by (simp add: malloc_ok_def zero_malloc_def)

section \<open>64-bit values in memory (little endian)\<close>

primrec le_bytes :: "nat \<Rightarrow> uint64_t \<Rightarrow> byte list" where
  "le_bytes 0 w = []"
| "le_bytes (Suc n) w = ucast w # le_bytes n (drop_bit 8 w)"

abbreviation le64 :: "uint64_t \<Rightarrow> byte list" where
  "le64 \<equiv> le_bytes 8"

primrec of_le :: "byte list \<Rightarrow> uint64_t" where
  "of_le [] = 0"
| "of_le (b # bs) = ucast b OR push_bit 8 (of_le bs)"

lemma length_le_bytes [simp]: "length (le_bytes n w) = n"
  by (induction n arbitrary: w) simp_all

lemma take_bit_step_8:
  "ucast (ucast w :: byte) OR push_bit 8 (take_bit k (drop_bit 8 w)) = take_bit (k + 8) (w :: 64 word)"
proof (rule bit_word_eqI)
  fix n
  show "bit (ucast (ucast w :: byte) OR push_bit 8 (take_bit k (drop_bit 8 w))) n =
    bit (take_bit (k + 8) w) n" if "n < LENGTH(64)"
    by (cases "n < 8") (use that in \<open>auto simp: bit_simps\<close>)
qed

lemma of_le_le_bytes: "of_le (le_bytes n w) = take_bit (8 * n) w"
  by (induction n arbitrary: w) (simp_all add: take_bit_step_8 add.commute)

lemma of_le_le64 [simp]: "of_le (le64 w) = w"
  by (simp add: of_le_le_bytes take_bit_word_eq_self)

end
