(* ===== verification/Fifo_Spec.thy ===== *)
theory Fifo_Spec
  imports Shm_Prelude
begin

text \<open>
  The contract of a bounded FIFO queue, as an interface: an abstract queue that is a list
  with a bound, a locale stating what an implementation promises of \<open>push\<close> and \<open>pop\<close>, and
  the client's consequence that every sequence of calls behaves like the abstract queue.
  The locale is interpreted by \<open>core/par_queue.c\<close>, \<open>core/legacy/queue.c\<close> and by the
  shared-memory buffer of \<open>shmbuf/buffer.c\<close>.
\<close>

datatype 'a qop = Push 'a | Pop

datatype 'a qout = Pushed bool | Popped "'a option"

fun spec_step :: "nat \<Rightarrow> 'a list \<Rightarrow> 'a qop \<Rightarrow> 'a qout \<times> 'a list" where
  "spec_step cap xs (Push x) =
     (if length xs < cap then (Pushed True, xs @ [x]) else (Pushed False, xs))"
| "spec_step cap xs Pop =
     (case xs of [] \<Rightarrow> (Popped None, []) | y # ys \<Rightarrow> (Popped (Some y), ys))"

fun spec_run :: "nat \<Rightarrow> 'a list \<Rightarrow> 'a qop list \<Rightarrow> 'a qout list \<times> 'a list" where
  "spec_run cap xs [] = ([], xs)"
| "spec_run cap xs (p # ps) =
     (let (out, ys) = spec_step cap xs p; (outs, zs) = spec_run cap ys ps
      in (out # outs, zs))"

fun impl_step ::
    "('q \<Rightarrow> 'a \<Rightarrow> (bool \<times> 'q) res) \<Rightarrow> ('q \<Rightarrow> ('a option \<times> 'q) res) \<Rightarrow> 'q \<Rightarrow> 'a qop \<Rightarrow>
      ('a qout \<times> 'q) res" where
  "impl_step push pop q (Push x) = bindE (push q x) (\<lambda>(r, q'). Inr (Pushed r, q'))"
| "impl_step push pop q Pop = bindE (pop q) (\<lambda>(r, q'). Inr (Popped r, q'))"

fun impl_run ::
    "('q \<Rightarrow> 'a \<Rightarrow> (bool \<times> 'q) res) \<Rightarrow> ('q \<Rightarrow> ('a option \<times> 'q) res) \<Rightarrow> 'q \<Rightarrow> 'a qop list \<Rightarrow>
      ('a qout list \<times> 'q) res" where
  "impl_run push pop q [] = Inr ([], q)"
| "impl_run push pop q (p # ps) =
     bindE (impl_step push pop q p) (\<lambda>(out, q').
     bindE (impl_run push pop q' ps) (\<lambda>(outs, q''). Inr (out # outs, q'')))"

primrec qop_args :: "'a qop \<Rightarrow> 'a set" where
  "qop_args (Push x) = {x}"
| "qop_args Pop = {}"

lemma spec_step_bound: "length xs \<le> cap \<Longrightarrow> length (snd (spec_step cap xs p)) \<le> cap"
  by (cases p) (auto split: list.splits)

text \<open>The abstract queue never loses or reorders: what was popped, then what is left, is
  what was there at first followed by what was accepted.\<close>

fun accepted :: "'a qop list \<Rightarrow> 'a qout list \<Rightarrow> 'a list" where
  "accepted (Push x # ps) (Pushed True # os) = x # accepted ps os"
| "accepted (p # ps) (out # os) = accepted ps os"
| "accepted _ _ = []"

fun delivered :: "'a qout list \<Rightarrow> 'a list" where
  "delivered (Popped (Some x) # os) = x # delivered os"
| "delivered (out # os) = delivered os"
| "delivered [] = []"

lemma spec_run_fifo:
  "spec_run cap xs ps = (os, ys) \<Longrightarrow> delivered os @ ys = xs @ accepted ps os"
proof (induction ps arbitrary: xs os)
  case Nil
  then show ?case by simp
next
  case (Cons p ps)
  obtain out zs where s: "spec_step cap xs p = (out, zs)" by (cases "spec_step cap xs p")
  obtain os' ys' where r: "spec_run cap zs ps = (os', ys')" by (cases "spec_run cap zs ps")
  from Cons.prems s r have os: "os = out # os'" "ys = ys'" by simp_all
  have "delivered os' @ ys = zs @ accepted ps os'" using Cons.IH r os by simp
  with s os show ?case by (cases p) (auto split: if_splits list.splits)
qed

locale bounded_fifo =
  fixes invar :: "'q \<Rightarrow> bool"
    and elems :: "'q \<Rightarrow> 'a list"
    and cap :: "'q \<Rightarrow> nat"
    and fits :: "'q \<Rightarrow> 'a \<Rightarrow> bool"
    and push :: "'q \<Rightarrow> 'a \<Rightarrow> (bool \<times> 'q) res"
    and pop :: "'q \<Rightarrow> ('a option \<times> 'q) res"
  assumes push_law: "invar q \<Longrightarrow> fits q x \<Longrightarrow>
      \<exists>q'. push q x = Inr (length (elems q) < cap q, q') \<and> invar q' \<and> cap q' = cap q \<and>
        fits q' = fits q \<and>
        elems q' = (if length (elems q) < cap q then elems q @ [x] else elems q)"
    and pop_law: "invar q \<Longrightarrow>
      \<exists>q'. pop q = Inr (case elems q of [] \<Rightarrow> None | y # _ \<Rightarrow> Some y, q') \<and> invar q' \<and>
        cap q' = cap q \<and> fits q' = fits q \<and> elems q' = tl (elems q)"
begin

lemma step_refines:
  assumes "invar q" and "\<forall>x \<in> qop_args p. fits q x"
  shows "\<exists>q'. impl_step push pop q p = Inr (fst (spec_step (cap q) (elems q) p), q') \<and>
    invar q' \<and> cap q' = cap q \<and> fits q' = fits q \<and>
    elems q' = snd (spec_step (cap q) (elems q) p)"
proof (cases p)
  case (Push x)
  with assms push_law [of q x] show ?thesis by auto
next
  case Pop
  with assms(1) pop_law [of q] show ?thesis by (cases "elems q") auto
qed

lemma run_refines:
  assumes "invar q" and "\<forall>p \<in> set ps. \<forall>x \<in> qop_args p. fits q x"
  shows "\<exists>q'. impl_run push pop q ps = Inr (fst (spec_run (cap q) (elems q) ps), q') \<and>
    invar q' \<and> elems q' = snd (spec_run (cap q) (elems q) ps)"
  using assms
proof (induction ps arbitrary: q)
  case Nil
  then show ?case by simp
next
  case (Cons p ps)
  from Cons.prems have "\<forall>x \<in> qop_args p. fits q x" by simp
  with step_refines Cons.prems(1) obtain q1 where
    s: "impl_step push pop q p = Inr (fst (spec_step (cap q) (elems q) p), q1)" and
    i: "invar q1" "cap q1 = cap q" "fits q1 = fits q"
       "elems q1 = snd (spec_step (cap q) (elems q) p)" by blast
  have "\<forall>p \<in> set ps. \<forall>x \<in> qop_args p. fits q1 x" using Cons.prems(2) i(3) by simp
  with Cons.IH [OF i(1)] obtain q2 where
    "impl_run push pop q1 ps = Inr (fst (spec_run (cap q1) (elems q1) ps), q2)"
    "invar q2" "elems q2 = snd (spec_run (cap q1) (elems q1) ps)" by blast
  with s i show ?case by (auto simp: case_prod_beta Let_def)
qed

text \<open>The client's view: no call fails, and what is delivered is what was accepted, in order.\<close>

lemma run_delivers_in_order:
  assumes "invar q" and "\<forall>p \<in> set ps. \<forall>x \<in> qop_args p. fits q x"
  shows "\<exists>os q'. impl_run push pop q ps = Inr (os, q') \<and> invar q' \<and>
    delivered os @ elems q' = elems q @ accepted ps os"
  using run_refines [OF assms] spec_run_fifo [of "cap q" "elems q" ps]
  by (metis prod.collapse)

end

end
