(* ===== verification/Spsc_Ringbuf.thy ===== *)
theory Spsc_Ringbuf
  imports Shm_Prelude
begin

text \<open>
  The single-producer single-consumer ring buffer of \<open>core/spsc_ringbuf.c\<close>: positions only,
  the elements live with its users (\<open>core/par_queue.c\<close>, \<open>shmbuf/buffer.c\<close>). One position is
  kept free as a separator, so a buffer of capacity \<open>c\<close> holds at most \<open>c - 1\<close> elements.
  The producer owns \<open>head\<close> and a cached \<open>seen_tail\<close>, the consumer owns \<open>tail\<close> and a
  cached \<open>seen_head\<close>. All values are 64-bit words; the assertions of the build without
  \<open>NDEBUG\<close> (and its \<open>write_in_progress\<close> bookkeeping) are part of the model.
\<close>

section \<open>State and operations\<close>

record shm_spsc_ringbuf =
  rb_capacity :: size_t
  rb_tail :: size_t
  rb_seen_head :: size_t
  rb_seen_tail :: size_t
  rb_head :: size_t
  rb_wip_head :: size_t  \<comment> \<open>\<open>write_in_progress.head\<close>\<close>
  rb_wip_n :: size_t     \<comment> \<open>\<open>write_in_progress.n\<close>\<close>

definition shm_spsc_ringbuf_init :: "shm_spsc_ringbuf \<Rightarrow> size_t \<Rightarrow> shm_spsc_ringbuf res" where
  "shm_spsc_ringbuf_init b capacity =
     assertE (capacity > 0) ''capacity > 0''
     (assertE (capacity < SIZE_MAX - 1) ''Arith. in operations can overflow.''
     (Inr (b\<lparr>rb_capacity := capacity, rb_head := 0, rb_tail := 0,
             rb_seen_head := 0, rb_seen_tail := 0\<rparr>)))"

definition is_empty_pos :: "size_t \<Rightarrow> size_t \<Rightarrow> bool" where
  "is_empty_pos head tail = (head = tail)"

definition is_full_pos :: "size_t \<Rightarrow> size_t \<Rightarrow> size_t \<Rightarrow> bool" where
  "is_full_pos head tail capacity =
     (head + 1 = tail \<or> (head = capacity - 1 \<and> tail = 0))"

definition raw_written_num :: "size_t \<Rightarrow> size_t \<Rightarrow> size_t \<Rightarrow> size_t" where
  "raw_written_num head tail capacity =
     (if tail < head then head - tail
      else if tail = head then 0
      else capacity - tail + head)"

definition raw_free_num :: "size_t \<Rightarrow> size_t \<Rightarrow> size_t \<Rightarrow> size_t res" where
  "raw_free_num head tail capacity =
     assertE (head < capacity) ''head < capacity''
     (assertE (tail < capacity) ''tail < capacity''
     (if tail < head then Inr ((capacity - head - 1) + tail)
      else if head = tail then Inr (capacity - 1)
      else Inr (tail - head - 1)))"

text \<open>\<open>CHECK_IF(c, t)\<close> and \<open>CHECK_IFF(c, t)\<close> assert an implication and an equivalence.\<close>

definition CHECK_IF :: "bool \<Rightarrow> bool \<Rightarrow> 'a res \<Rightarrow> 'a res" where
  "CHECK_IF c t k = assertE (\<not> c \<or> t) ''!(c) || (t)'' k"

definition CHECK_IFF :: "bool \<Rightarrow> bool \<Rightarrow> 'a res \<Rightarrow> 'a res" where
  "CHECK_IFF c t k = CHECK_IF c t (CHECK_IF t c k)"

definition get_written_num :: "size_t \<Rightarrow> size_t \<Rightarrow> size_t \<Rightarrow> size_t res" where
  "get_written_num head tail capacity =
     assertE (head < capacity) ''head < capacity''
     (assertE (tail < capacity) ''tail < capacity''
     (let ret = raw_written_num head tail capacity in
      assertE (ret < capacity) ''ret < capacity''
      (CHECK_IFF (is_empty_pos head tail) (ret = 0)
      (CHECK_IFF (is_full_pos head tail capacity) (ret = capacity - 1)
      (CHECK_IF (tail < head) (ret = head - tail)
      (CHECK_IF (tail > head) (ret = head + (capacity - tail))
      (bindE (raw_free_num head tail capacity) (\<lambda>f.
       assertE (ret = capacity - 1 - f) ''ret == capacity - 1 - _get_free_num''
       (Inr ret)))))))))"

definition get_free_num :: "size_t \<Rightarrow> size_t \<Rightarrow> size_t \<Rightarrow> size_t res" where
  "get_free_num head tail capacity =
     assertE (head < capacity) ''head < capacity''
     (assertE (tail < capacity) ''tail < capacity''
     (bindE (raw_free_num head tail capacity) (\<lambda>ret.
      assertE (ret < capacity) ''ret < capacity''
      (CHECK_IFF (is_empty_pos head tail) (ret = capacity - 1)
      (CHECK_IFF (is_full_pos head tail capacity) (ret = 0)
      (assertE (ret = capacity - 1 - raw_written_num head tail capacity)
         ''ret == capacity - 1 - _get_written_num''
      (Inr ret)))))))"

definition shm_spsc_ringbuf_capacity :: "shm_spsc_ringbuf \<Rightarrow> size_t" where
  "shm_spsc_ringbuf_capacity b = rb_capacity b"

definition shm_spsc_ringbuf_max_size :: "shm_spsc_ringbuf \<Rightarrow> size_t" where
  "shm_spsc_ringbuf_max_size b = rb_capacity b - 1"

definition shm_spsc_ringbuf_size :: "shm_spsc_ringbuf \<Rightarrow> size_t res" where
  "shm_spsc_ringbuf_size b = get_written_num (rb_head b) (rb_tail b) (rb_capacity b)"

definition shm_spsc_ringbuf_empty :: "shm_spsc_ringbuf \<Rightarrow> bool" where
  "shm_spsc_ringbuf_empty b = is_empty_pos (rb_head b) (rb_tail b)"

definition shm_spsc_ringbuf_free_num :: "shm_spsc_ringbuf \<Rightarrow> size_t res" where
  "shm_spsc_ringbuf_free_num b = get_free_num (rb_head b) (rb_tail b) (rb_capacity b)"

definition shm_spsc_ringbuf_full :: "shm_spsc_ringbuf \<Rightarrow> bool" where
  "shm_spsc_ringbuf_full b = is_full_pos (rb_head b) (rb_tail b) (rb_capacity b)"

text \<open>
  \<open>get_write_off\<close>: the number of free elements, the value of \<open>*n\<close> and the value of
  \<open>*wrap_n\<close> (a caller that passes \<open>NULL\<close> for \<open>wrap_n\<close> ignores the last one).
\<close>

definition get_write_off :: "size_t \<Rightarrow> size_t \<Rightarrow> size_t \<Rightarrow> size_t \<times> size_t \<times> size_t" where
  "get_write_off head tail capacity =
     (if tail < head then
        (if tail = 0 then (capacity - head - 1, capacity - head - 1, 0)
         else (capacity - head + tail - 1, capacity - head, tail - 1))
      else if tail = head then (capacity - 1, capacity - 1, 0)
      else (tail - head - 1, tail - head - 1, 0))"

text \<open>Each producer call returns its offset (\<open>head\<close>), \<open>*n\<close>, \<open>*wrap_n\<close> and the new state.\<close>

definition shm_spsc_ringbuf_write_off ::
    "shm_spsc_ringbuf \<Rightarrow> size_t \<times> size_t \<times> size_t \<times> shm_spsc_ringbuf" where
  "shm_spsc_ringbuf_write_off b =
     (let head = rb_head b;
          (free, n, wrap_n) = get_write_off head (rb_seen_tail b) (rb_capacity b);
          b1 = (if free = 0 then b\<lparr>rb_seen_tail := rb_tail b\<rparr> else b);
          (n1, wrap_n1) =
            (if free = 0
             then (let (_, n', w') = get_write_off head (rb_seen_tail b1) (rb_capacity b1)
                   in (n', w'))
             else (n, wrap_n))
      in (head, n1, wrap_n1, b1\<lparr>rb_wip_head := head, rb_wip_n := n1 + wrap_n1\<rparr>))"

definition shm_spsc_ringbuf_write_off_nowrap ::
    "shm_spsc_ringbuf \<Rightarrow> size_t \<times> size_t \<times> shm_spsc_ringbuf" where
  "shm_spsc_ringbuf_write_off_nowrap b =
     (let head = rb_head b;
          (free, n, _) = get_write_off head (rb_seen_tail b) (rb_capacity b);
          refresh = (rb_seen_tail b = 0 \<or> free = 0);
          b1 = (if refresh then b\<lparr>rb_seen_tail := rb_tail b\<rparr> else b);
          n1 = (if refresh
                then (let (_, n', _) = get_write_off head (rb_seen_tail b1) (rb_capacity b1)
                      in n')
                else n)
      in (head, n1, b1\<lparr>rb_wip_head := head, rb_wip_n := n1\<rparr>))"

definition shm_spsc_ringbuf_acquire ::
    "shm_spsc_ringbuf \<Rightarrow> size_t \<Rightarrow> size_t \<times> size_t \<times> size_t \<times> shm_spsc_ringbuf" where
  "shm_spsc_ringbuf_acquire b req =
     (let head = rb_head b;
          (free, n, wrap_n) = get_write_off head (rb_seen_tail b) (rb_capacity b);
          b1 = (if free < req then b\<lparr>rb_seen_tail := rb_tail b\<rparr> else b);
          (n1, wrap_n1) =
            (if free < req
             then (let (_, n', w') = get_write_off head (rb_seen_tail b1) (rb_capacity b1)
                   in (n', w'))
             else (n, wrap_n))
      in (head, n1, wrap_n1, b1\<lparr>rb_wip_head := head, rb_wip_n := n1 + wrap_n1\<rparr>))"

definition shm_spsc_ringbuf_acquire_nowrap ::
    "shm_spsc_ringbuf \<Rightarrow> size_t \<Rightarrow> size_t \<times> size_t \<times> shm_spsc_ringbuf" where
  "shm_spsc_ringbuf_acquire_nowrap b req =
     (let head = rb_head b;
          (free, n, _) = get_write_off head (rb_seen_tail b) (rb_capacity b);
          b1 = (if free < req then b\<lparr>rb_seen_tail := rb_tail b\<rparr> else b);
          n1 = (if free < req
                then (let (_, n', _) = get_write_off head (rb_seen_tail b1) (rb_capacity b1)
                      in n')
                else n)
      in (head, n1, b1\<lparr>rb_wip_head := head, rb_wip_n := n1\<rparr>))"

definition shm_spsc_ringbuf_write_finish ::
    "shm_spsc_ringbuf \<Rightarrow> size_t \<Rightarrow> shm_spsc_ringbuf res" where
  "shm_spsc_ringbuf_write_finish b n =
     assertE (n \<le> rb_capacity b) ''n <= b->capacity''
     (assertE (rb_capacity b < SIZE_MAX - n) ''Possible overflow''
     (assertE (rb_wip_head b = rb_head b) ''Something moved after write_off was called''
     (assertE (rb_wip_n b \<ge> n) ''Trying to write more items than returned by write_off()''
     (let c = rb_capacity b;
          h = rb_head b + n;
          new_head = (if h \<ge> c then h - c else h)
      in assertE (new_head \<noteq> rb_tail b) ''Invalid head move''
         (Inr (b\<lparr>rb_head := new_head\<rparr>))))))"

definition shm_spsc_ringbuf_read_off_nowrap ::
    "shm_spsc_ringbuf \<Rightarrow> (size_t \<times> size_t \<times> shm_spsc_ringbuf) res" where
  "shm_spsc_ringbuf_read_off_nowrap b =
     (let tail = rb_tail b in
      bindE (get_written_num (rb_seen_head b) tail (rb_capacity b)) (\<lambda>tmp.
      if tmp = 0 then
        (let b1 = b\<lparr>rb_seen_head := rb_head b\<rparr> in
         bindE (get_written_num (rb_seen_head b1) tail (rb_capacity b)) (\<lambda>tmp1.
         Inr (tail, tmp1, b1)))
      else Inr (tail, tmp, b)))"

definition shm_spsc_ringbuf_read_acquire ::
    "shm_spsc_ringbuf \<Rightarrow> size_t \<Rightarrow> (size_t \<times> size_t \<times> shm_spsc_ringbuf) res" where
  "shm_spsc_ringbuf_read_acquire b n =
     (let tail = rb_tail b in
      bindE (get_written_num (rb_seen_head b) tail (rb_capacity b)) (\<lambda>tmp.
      if tmp < n then
        (let b1 = b\<lparr>rb_seen_head := rb_head b\<rparr> in
         bindE (get_written_num (rb_seen_head b1) tail (rb_capacity b)) (\<lambda>tmp1.
         Inr (tail, tmp1, b1)))
      else Inr (tail, tmp, b)))"

definition shm_spsc_ringbuf_consume ::
    "shm_spsc_ringbuf \<Rightarrow> size_t \<Rightarrow> shm_spsc_ringbuf res" where
  "shm_spsc_ringbuf_consume b n =
     assertE (n > 0) ''Consume 0 elems''
     (assertE (n \<le> rb_capacity b) ''n <= b->capacity''
     (assertE (rb_capacity b < SIZE_MAX - n) ''Possible overflow''
     (let c = rb_capacity b;
          t = rb_tail b + n;
          new_tail = (if t \<ge> c then t - c else t)
      in Inr (b\<lparr>rb_tail := new_tail\<rparr>))))"

definition shm_spsc_ringbuf_consume_upto ::
    "shm_spsc_ringbuf \<Rightarrow> size_t \<Rightarrow> (size_t \<times> shm_spsc_ringbuf) res" where
  "shm_spsc_ringbuf_consume_upto b n =
     assertE (n \<le> rb_capacity b) ''n <= b->capacity''
     (assertE (rb_capacity b < SIZE_MAX - n) ''Possible overflow''
     (let tail = rb_tail b in
      bindE (get_written_num (rb_seen_head b) tail (rb_capacity b)) (\<lambda>k.
      bindE (if k < n then
               (let b1 = b\<lparr>rb_seen_head := rb_head b\<rparr> in
                bindE (get_written_num (rb_seen_head b1) tail (rb_capacity b)) (\<lambda>k1.
                Inr (k1, b1)))
             else Inr (k, b)) (\<lambda>(k, b).
      let n = (if k < n then k else n) in
      if n > 0 then bindE (shm_spsc_ringbuf_consume b n) (\<lambda>b. Inr (n, b))
      else Inr (n, b)))))"

text \<open>
  \<open>peek\<close> returns the number of elements and, unless it returns early, the values written to
  \<open>*off\<close>, \<open>*len1\<close> and \<open>*len2\<close> (\<open>None\<close>: they were not set).
\<close>

definition shm_spsc_ringbuf_peek ::
    "shm_spsc_ringbuf \<Rightarrow> size_t \<Rightarrow>
      (size_t \<times> (size_t \<times> size_t \<times> size_t) option \<times> shm_spsc_ringbuf) res" where
  "shm_spsc_ringbuf_peek b n =
     (let tail = rb_tail b in
      bindE (get_written_num (rb_seen_head b) tail (rb_capacity b)) (\<lambda>cur.
      bindE (if cur < n \<or> n = 0 then
               (let b1 = b\<lparr>rb_seen_head := rb_head b\<rparr> in
                bindE (get_written_num (rb_head b) tail (rb_capacity b)) (\<lambda>cur1.
                Inr (rb_head b, cur1, b1)))
             else Inr (rb_seen_head b, cur, b)) (\<lambda>(head, cur, b).
      if n = 0 then Inr (cur, None, b)
      else if cur = 0 then Inr (0, None, b)
      else
        (let n = (if cur < n then cur else n) in
         assertE (n \<le> cur) ''n <= cur_elem_num''
         (bindE (if tail < head then Inr (n, 0)
                 else assertE (tail \<noteq> head) ''Ringbuf is empty''
                   (let c = rb_capacity b;
                        l1 = (if c - tail > n then n else c - tail)
                    in Inr (l1, if head < n - l1 then head else n - l1)))
            (\<lambda>(len1, len2).
          assertE (len1 + len2 = n) ''*len1 + *len2 == n''
          (Inr (cur, Some (tail, len1, len2), b))))))))"

section \<open>Ring arithmetic\<close>

definition ring_dist :: "nat \<Rightarrow> nat \<Rightarrow> nat \<Rightarrow> nat" where
  "ring_dist c t h = (h + c - t) mod c"

definition ring_add :: "nat \<Rightarrow> nat \<Rightarrow> nat \<Rightarrow> nat" where
  "ring_add c p n = (p + n) mod c"

lemma ring_dist_if: "t < c \<Longrightarrow> h < c \<Longrightarrow> ring_dist c t h = (if t \<le> h then h - t else c - t + h)"
proof -
  assume "t < c" "h < c"
  moreover have "(h + c - t) mod c = (h - t)" if "t \<le> h"
  proof -
    from that have "h + c - t = (h - t) + c" by simp
    then have "(h + c - t) mod c = (h - t) mod c" by (simp only: mod_add_self2)
    with \<open>h < c\<close> show ?thesis by simp
  qed
  ultimately show ?thesis by (auto simp: ring_dist_def)
qed

lemma ring_add_if: "p < c \<Longrightarrow> n \<le> c \<Longrightarrow> ring_add c p n = (if p + n < c then p + n else p + n - c)"
  by (auto simp: ring_add_def mod_if)

lemma ring_dist_less: "t < c \<Longrightarrow> h < c \<Longrightarrow> ring_dist c t h < c"
  by (simp add: ring_dist_def)

lemma ring_dist_0_iff: "t < c \<Longrightarrow> h < c \<Longrightarrow> ring_dist c t h = 0 \<longleftrightarrow> t = h"
  by (auto simp: ring_dist_if)

lemma unat_raw_written_num:
  "h < c \<Longrightarrow> t < c \<Longrightarrow> unat (raw_written_num h t c) = ring_dist (unat c) (unat t) (unat h)"
  using unat_less_2p64 [of c]
  by (auto simp: raw_written_num_def ring_dist_if word_nat)

lemma raw_free_num_ok:
  "h < c \<Longrightarrow> t < c \<Longrightarrow> raw_free_num h t c = Inr (c - 1 - raw_written_num h t c)"
  using unat_less_2p64 [of c]
  by (auto simp: raw_free_num_def raw_written_num_def word_nat)

lemma is_full_pos_iff:
  "h < c \<Longrightarrow> t < c \<Longrightarrow> is_full_pos h t c \<longleftrightarrow> ring_dist (unat c) (unat t) (unat h) = unat c - 1"
  using unat_less_2p64 [of c]
  by (auto simp: is_full_pos_def ring_dist_if word_nat)

lemma get_written_num_ok:
  assumes "h < c" and "t < c"
  shows "get_written_num h t c = Inr (raw_written_num h t c)"
proof -
  note u = unat_raw_written_num [OF assms]
  have b: "unat h < unat c" "unat t < unat c" using assms by (simp_all add: word_nat)
  have "raw_written_num h t c < c" using u b by (simp add: word_nat ring_dist_less)
  moreover have "raw_written_num h t c = 0 \<longleftrightarrow> is_empty_pos h t"
    using u b by (auto simp: is_empty_pos_def word_nat ring_dist_0_iff)
  moreover have "is_full_pos h t c \<longleftrightarrow> raw_written_num h t c = c - 1"
    using u b is_full_pos_iff [OF assms] by (simp add: word_nat)
  moreover have "t < h \<Longrightarrow> raw_written_num h t c = h - t"
    by (simp add: raw_written_num_def)
  moreover have "h < t \<Longrightarrow> raw_written_num h t c = h + (c - t)"
    by (auto simp: raw_written_num_def)
  ultimately show ?thesis
    using assms raw_free_num_ok [OF assms]
    by (auto simp: get_written_num_def CHECK_IF_def CHECK_IFF_def Let_def)
qed

lemma get_free_num_ok:
  assumes "h < c" and "t < c"
  shows "get_free_num h t c = Inr (c - 1 - raw_written_num h t c)"
proof -
  let ?f = "c - 1 - raw_written_num h t c"
  note u = unat_raw_written_num [OF assms]
  have b: "unat h < unat c" "unat t < unat c" using assms by (simp_all add: word_nat)
  have d: "ring_dist (unat c) (unat t) (unat h) < unat c" using b by (simp add: ring_dist_less)
  have u1: "unat (c - 1) = unat c - 1" using b by (simp add: unat_sub_64)
  have uf: "unat ?f = unat c - 1 - ring_dist (unat c) (unat t) (unat h)"
    using u b d u1 by (simp add: unat_sub_64)
  have "?f < c" using uf b unfolding word_less_nat_alt by linarith
  moreover have "is_empty_pos h t \<longleftrightarrow> ?f = c - 1"
    using uf u1 b d ring_dist_0_iff [OF b(2,1)]
    unfolding is_empty_pos_def word_64_eq_iff by linarith
  moreover have "is_full_pos h t c \<longleftrightarrow> ?f = 0"
    using uf b d is_full_pos_iff [OF assms] unfolding word_64_eq_iff unat_0 by linarith
  ultimately show ?thesis
    using assms raw_free_num_ok [OF assms]
    by (auto simp: get_free_num_def CHECK_IF_def CHECK_IFF_def)
qed

lemma get_write_off_ok:
  assumes "h < c" and "t < c" and "get_write_off h t c = (free, n, w)"
  shows "unat free = unat c - 1 - ring_dist (unat c) (unat t) (unat h)"
    and "unat n + unat w = unat free" and "n = 0 \<longleftrightarrow> free = 0"
  using assms unat_less_2p64 [of c]
  by (auto simp: get_write_off_def ring_dist_if word_nat split: if_splits)

lemma ring_add_less [simp]: "0 < c \<Longrightarrow> ring_add c p n < c"
  by (simp add: ring_add_def)

lemma ring_add_0 [simp]: "p < c \<Longrightarrow> ring_add c p 0 = p"
  by (simp add: ring_add_def)

lemma ring_add_add: "ring_add c (ring_add c p m) n = ring_add c p (m + n)"
  by (simp add: ring_add_def mod_add_left_eq add.assoc)

lemma ring_add_dist: "t < c \<Longrightarrow> h < c \<Longrightarrow> ring_add c t (ring_dist c t h) = h"
  by (auto simp: ring_add_def ring_dist_if)

lemma ring_dist_head:
  "t < c \<Longrightarrow> h < c \<Longrightarrow> ring_dist c t h + n < c \<Longrightarrow> ring_dist c t (ring_add c h n) = ring_dist c t h + n"
  by (auto simp: ring_dist_if ring_add_if split: if_splits)

lemma ring_dist_tail:
  "t < c \<Longrightarrow> h < c \<Longrightarrow> n \<le> ring_dist c t h \<Longrightarrow> ring_dist c (ring_add c t n) h = ring_dist c t h - n"
  by (auto simp: ring_dist_if ring_add_if split: if_splits)

lemma ring_add_inj: "i < c \<Longrightarrow> j < c \<Longrightarrow> p < c \<Longrightarrow> ring_add c p i = ring_add c p j \<longleftrightarrow> i = j"
  by (auto simp: ring_add_if split: if_splits)

lemma ring_dist_add: "p < c \<Longrightarrow> n < c \<Longrightarrow> ring_dist c p (ring_add c p n) = n"
  by (auto simp: ring_dist_if ring_add_if split: if_splits)

section \<open>The abstract view\<close>

text \<open>
  The buffer as the list of its occupied positions, oldest first, and the numbers each
  side derives from its own cache: \<open>rb_room\<close> is what the producer may write,
  \<open>rb_avail\<close> is what the consumer may read.
\<close>

definition rb_written :: "shm_spsc_ringbuf \<Rightarrow> nat" where
  "rb_written b = ring_dist (unat (rb_capacity b)) (unat (rb_tail b)) (unat (rb_head b))"

definition rb_avail :: "shm_spsc_ringbuf \<Rightarrow> nat" where
  "rb_avail b = ring_dist (unat (rb_capacity b)) (unat (rb_tail b)) (unat (rb_seen_head b))"

definition rb_room :: "shm_spsc_ringbuf \<Rightarrow> nat" where
  "rb_room b = unat (rb_capacity b) - 1 -
     ring_dist (unat (rb_capacity b)) (unat (rb_seen_tail b)) (unat (rb_head b))"

definition rb_slots :: "shm_spsc_ringbuf \<Rightarrow> nat list" where
  "rb_slots b = map (ring_add (unat (rb_capacity b)) (unat (rb_tail b))) [0..<rb_written b]"

text \<open>
  The invariant: positions are in range, and both caches are conservative. A cached tail
  never makes the producer see more room than there is, a cached head never makes the
  consumer see more elements than there are.
\<close>

definition rb_inv :: "shm_spsc_ringbuf \<Rightarrow> bool" where
  "rb_inv b \<longleftrightarrow>
     rb_capacity b < SIZE_MAX - 1 \<and>
     rb_head b < rb_capacity b \<and> rb_tail b < rb_capacity b \<and>
     rb_seen_head b < rb_capacity b \<and> rb_seen_tail b < rb_capacity b \<and>
     rb_avail b \<le> rb_written b \<and> rb_written b + rb_room b < unat (rb_capacity b)"

text \<open>The permission to publish \<open>n\<close> elements, which a producer call establishes.\<close>

definition rb_may_write :: "shm_spsc_ringbuf \<Rightarrow> nat \<Rightarrow> bool" where
  "rb_may_write b n \<longleftrightarrow> rb_wip_head b = rb_head b \<and> n \<le> unat (rb_wip_n b) \<and> n \<le> rb_room b"

lemma length_rb_slots [simp]: "length (rb_slots b) = rb_written b"
  by (simp add: rb_slots_def)

lemma rb_invD:
  assumes "rb_inv b"
  shows "unat (rb_head b) < unat (rb_capacity b)" "unat (rb_tail b) < unat (rb_capacity b)"
    "unat (rb_seen_head b) < unat (rb_capacity b)" "unat (rb_seen_tail b) < unat (rb_capacity b)"
    "unat (rb_capacity b) < 18446744073709551614"
    "rb_avail b \<le> rb_written b" "rb_written b + rb_room b < unat (rb_capacity b)"
  using assms by (simp_all add: rb_inv_def word_nat)

lemma rb_written_less: "rb_inv b \<Longrightarrow> rb_written b < unat (rb_capacity b)"
  using rb_invD(7) by fastforce

lemma rb_slots_in_range: "rb_inv b \<Longrightarrow> i \<in> set (rb_slots b) \<Longrightarrow> i < unat (rb_capacity b)"
  using rb_invD(1) by (fastforce simp: rb_slots_def)

lemma rb_slots_distinct:
  assumes "rb_inv b" shows "distinct (rb_slots b)"
proof -
  have "inj_on (ring_add (unat (rb_capacity b)) (unat (rb_tail b))) {0..<rb_written b}"
    using rb_written_less [OF assms] rb_invD [OF assms]
    by (intro inj_onI) (simp add: ring_add_inj)
  then show ?thesis by (simp add: rb_slots_def distinct_map)
qed

lemma rb_head_as_tail:
  "rb_inv b \<Longrightarrow> unat (rb_head b) = ring_add (unat (rb_capacity b)) (unat (rb_tail b)) (rb_written b)"
  by (simp add: rb_written_def ring_add_dist rb_invD)

text \<open>The positions the producer may still fill are not occupied.\<close>

lemma rb_write_pos_free:
  assumes "rb_inv b" and "i < rb_room b"
  shows "ring_add (unat (rb_capacity b)) (unat (rb_head b)) i \<notin> set (rb_slots b)"
proof
  let ?c = "unat (rb_capacity b)" and ?t = "unat (rb_tail b)"
  note inv = rb_invD [OF assms(1)]
  assume "ring_add ?c (unat (rb_head b)) i \<in> set (rb_slots b)"
  then obtain j where "j < rb_written b"
    and "ring_add ?c ?t (rb_written b + i) = ring_add ?c ?t j"
    by (auto simp: rb_slots_def rb_head_as_tail [OF assms(1)] ring_add_add)
  moreover have "rb_written b + i < ?c" using inv(7) assms(2) by linarith
  ultimately show False using inv(2) by (simp add: ring_add_inj)
qed

section \<open>Initialisation and observers\<close>

lemma shm_spsc_ringbuf_init_ok:
  assumes "0 < c" and "c < SIZE_MAX - 1"
  shows "\<exists>b'. shm_spsc_ringbuf_init b c = Inr b' \<and> rb_inv b' \<and> rb_slots b' = [] \<and> rb_capacity b' = c"
  using assms
  by (auto simp: shm_spsc_ringbuf_init_def rb_inv_def rb_slots_def rb_avail_def rb_written_def
      rb_room_def ring_dist_def word_nat)

lemma shm_spsc_ringbuf_size_ok:
  "rb_inv b \<Longrightarrow> shm_spsc_ringbuf_size b = Inr (of_nat (rb_written b))"
  unfolding shm_spsc_ringbuf_size_def
  by (simp add: get_written_num_ok rb_inv_def rb_written_def flip: unat_raw_written_num)

lemma shm_spsc_ringbuf_free_num_ok:
  assumes "rb_inv b"
  shows "shm_spsc_ringbuf_free_num b = Inr (of_nat (unat (rb_capacity b) - 1 - rb_written b))"
proof -
  have h: "rb_head b < rb_capacity b" "rb_tail b < rb_capacity b" using assms by (simp_all add: rb_inv_def)
  have eq: "unat (rb_capacity b - 1 - raw_written_num (rb_head b) (rb_tail b) (rb_capacity b)) =
    unat (rb_capacity b) - 1 - rb_written b"
    using unat_raw_written_num [OF h] rb_written_less [OF assms] rb_invD(1) [OF assms]
    by (simp add: unat_sub_64 rb_written_def)
  show ?thesis
    unfolding shm_spsc_ringbuf_free_num_def get_free_num_ok [OF h] eq [symmetric] by simp
qed

lemma shm_spsc_ringbuf_empty_iff: "rb_inv b \<Longrightarrow> shm_spsc_ringbuf_empty b \<longleftrightarrow> rb_slots b = []"
  using ring_dist_0_iff [OF rb_invD(2,1)]
  by (auto simp: shm_spsc_ringbuf_empty_def is_empty_pos_def rb_slots_def rb_written_def word_nat)

lemma shm_spsc_ringbuf_full_iff:
  "rb_inv b \<Longrightarrow> shm_spsc_ringbuf_full b \<longleftrightarrow> rb_written b = unat (shm_spsc_ringbuf_max_size b)"
  using rb_invD(1) [of b]
  by (auto simp: shm_spsc_ringbuf_full_def is_full_pos_iff rb_inv_def rb_written_def
      shm_spsc_ringbuf_max_size_def unat_sub_64)

section \<open>The producer's calls\<close>

text \<open>
  All four ways to ask for space reload the tail only when the cached one is not good
  enough; whichever branch is taken, the answer is zero exactly when the buffer is full.
\<close>

lemma rb_reload_tail:
  assumes "rb_inv b"
  shows "rb_inv (b\<lparr>rb_seen_tail := rb_tail b\<rparr>)"
    and "rb_room (b\<lparr>rb_seen_tail := rb_tail b\<rparr>) = unat (rb_capacity b) - 1 - rb_written b"
  using assms rb_written_less [OF assms]
  by (auto simp: rb_inv_def rb_room_def rb_written_def rb_avail_def)

lemma rb_room_get_write_off:
  assumes "rb_inv b" and "get_write_off (rb_head b) (rb_seen_tail b) (rb_capacity b) = (free, n, w)"
  shows "unat free = rb_room b" and "unat n + unat w = rb_room b" and "n = 0 \<longleftrightarrow> rb_room b = 0"
proof -
  have h: "rb_head b < rb_capacity b" "rb_seen_tail b < rb_capacity b"
    using assms(1) by (simp_all add: rb_inv_def)
  show f: "unat free = rb_room b"
    using get_write_off_ok(1) [OF h assms(2)] by (simp add: rb_room_def)
  show "unat n + unat w = rb_room b"
    using get_write_off_ok(2) [OF h assms(2)] f by simp
  show "n = 0 \<longleftrightarrow> rb_room b = 0"
    using get_write_off_ok(3) [OF h assms(2)] f by (simp add: word_64_eq_iff)
qed

lemma rb_update_wip [simp]:
  "rb_inv (b\<lparr>rb_wip_head := x, rb_wip_n := y\<rparr>) = rb_inv b"
  "rb_slots (b\<lparr>rb_wip_head := x, rb_wip_n := y\<rparr>) = rb_slots b"
  "rb_room (b\<lparr>rb_wip_head := x, rb_wip_n := y\<rparr>) = rb_room b"
  "rb_avail (b\<lparr>rb_wip_head := x, rb_wip_n := y\<rparr>) = rb_avail b"
  "rb_written (b\<lparr>rb_wip_head := x, rb_wip_n := y\<rparr>) = rb_written b"
  by (simp_all add: rb_inv_def rb_slots_def rb_room_def rb_avail_def rb_written_def)

lemma rb_reload_tail_frame [simp]:
  "rb_slots (b\<lparr>rb_seen_tail := t\<rparr>) = rb_slots b"
  "rb_written (b\<lparr>rb_seen_tail := t\<rparr>) = rb_written b"
  "rb_avail (b\<lparr>rb_seen_tail := t\<rparr>) = rb_avail b"
  by (simp_all add: rb_slots_def rb_avail_def rb_written_def)

text \<open>What a producer call leaves unchanged.\<close>

definition rb_producer_frame :: "shm_spsc_ringbuf \<Rightarrow> shm_spsc_ringbuf \<Rightarrow> bool" where
  "rb_producer_frame b b' \<longleftrightarrow>
     rb_capacity b' = rb_capacity b \<and> rb_head b' = rb_head b \<and> rb_tail b' = rb_tail b \<and>
     rb_seen_head b' = rb_seen_head b"

lemma rb_producer_frame_slots:
  "rb_producer_frame b b' \<Longrightarrow> rb_slots b' = rb_slots b \<and> rb_written b' = rb_written b \<and> rb_avail b' = rb_avail b"
  by (simp add: rb_producer_frame_def rb_slots_def rb_written_def rb_avail_def)

lemma write_off_core:
  assumes inv: "rb_inv b"
    and b1: "b1 = (if refresh then b\<lparr>rb_seen_tail := rb_tail b\<rparr> else b)"
    and refresh: "rb_room b = 0 \<Longrightarrow> refresh"
    and off: "get_write_off (rb_head b1) (rb_seen_tail b1) (rb_capacity b1) = (free, n, w)"
  shows "rb_inv b1" and "rb_producer_frame b b1" and "unat n + unat w = rb_room b1"
    and "n = 0 \<longleftrightarrow> rb_written b + 1 = unat (rb_capacity b)"
proof -
  show i1: "rb_inv b1" using b1 inv rb_reload_tail(1) by simp
  show "rb_producer_frame b b1" using b1 by (simp add: rb_producer_frame_def)
  show "unat n + unat w = rb_room b1" by (rule rb_room_get_write_off(2) [OF i1 off])
  have "rb_room b1 = 0 \<longleftrightarrow> rb_written b + 1 = unat (rb_capacity b)"
    using b1 refresh rb_reload_tail(2) [OF inv] rb_written_less [OF inv] rb_invD(7) [OF inv]
    by auto
  then show "n = 0 \<longleftrightarrow> rb_written b + 1 = unat (rb_capacity b)"
    using rb_room_get_write_off(3) [OF i1 off] by simp
qed

lemma shm_spsc_ringbuf_write_off_nowrap_ok:
  assumes "rb_inv b"
  shows "\<exists>n b'. shm_spsc_ringbuf_write_off_nowrap b = (rb_head b, n, b') \<and> rb_inv b' \<and>
    rb_producer_frame b b' \<and> rb_may_write b' (unat n) \<and>
    (n = 0 \<longleftrightarrow> rb_written b + 1 = unat (rb_capacity b))"
proof -
  obtain free n w where g: "get_write_off (rb_head b) (rb_seen_tail b) (rb_capacity b) = (free, n, w)"
    by (metis prod_cases3)
  define refresh where "refresh \<longleftrightarrow> rb_seen_tail b = 0 \<or> free = 0"
  define b1 where b1: "b1 = (if refresh then b\<lparr>rb_seen_tail := rb_tail b\<rparr> else b)"
  obtain free1 n1 w1 where
    g1: "get_write_off (rb_head b1) (rb_seen_tail b1) (rb_capacity b1) = (free1, n1, w1)"
    by (metis prod_cases3)
  have r: "rb_room b = 0 \<Longrightarrow> refresh"
    using rb_room_get_write_off(1) [OF assms g] by (simp add: refresh_def word_64_eq_iff)
  note core = write_off_core [OF assms b1 r g1]
  have eq: "shm_spsc_ringbuf_write_off_nowrap b =
      (rb_head b, n1, b1\<lparr>rb_wip_head := rb_head b1, rb_wip_n := n1\<rparr>)"
    using g g1
    by (cases refresh) (auto simp: b1 refresh_def shm_spsc_ringbuf_write_off_nowrap_def Let_def)
  show ?thesis
    unfolding eq using core by (auto simp: rb_producer_frame_def rb_may_write_def)
qed

lemma shm_spsc_ringbuf_write_off_ok:
  assumes "rb_inv b"
  shows "\<exists>n w b'. shm_spsc_ringbuf_write_off b = (rb_head b, n, w, b') \<and> rb_inv b' \<and>
    rb_producer_frame b b' \<and> rb_may_write b' (unat n + unat w) \<and> unat n + unat w = rb_room b' \<and>
    (n = 0 \<longleftrightarrow> rb_written b + 1 = unat (rb_capacity b))"
proof -
  obtain free n w where g: "get_write_off (rb_head b) (rb_seen_tail b) (rb_capacity b) = (free, n, w)"
    by (metis prod_cases3)
  define b1 where b1: "b1 = (if free = 0 then b\<lparr>rb_seen_tail := rb_tail b\<rparr> else b)"
  obtain free1 n1 w1 where
    g1: "get_write_off (rb_head b1) (rb_seen_tail b1) (rb_capacity b1) = (free1, n1, w1)"
    by (metis prod_cases3)
  have r: "rb_room b = 0 \<Longrightarrow> free = 0"
    using rb_room_get_write_off(1) [OF assms g] by (simp add: word_64_eq_iff)
  note core = write_off_core [OF assms b1 r g1]
  have eq: "shm_spsc_ringbuf_write_off b =
      (rb_head b, n1, w1, b1\<lparr>rb_wip_head := rb_head b1, rb_wip_n := n1 + w1\<rparr>)"
    using g g1 by (cases "free = 0") (auto simp: b1 shm_spsc_ringbuf_write_off_def Let_def)
  have "unat (n1 + w1) = unat n1 + unat w1"
    using core(3) rb_invD(5,7) [OF core(1)] by (simp add: unat_add_64)
  then show ?thesis
    unfolding eq using core by (auto simp: rb_producer_frame_def rb_may_write_def)
qed

text \<open>
  \<open>acquire\<close> asks for \<open>req\<close> elements: it grants at least that many, or all the room there is.
\<close>

lemma shm_spsc_ringbuf_acquire_ok:
  assumes "rb_inv b"
  shows "\<exists>n w b'. shm_spsc_ringbuf_acquire b req = (rb_head b, n, w, b') \<and> rb_inv b' \<and>
    rb_producer_frame b b' \<and> rb_may_write b' (unat n + unat w) \<and>
    (unat req \<le> unat n + unat w \<or> unat n + unat w = unat (rb_capacity b) - 1 - rb_written b)"
proof -
  obtain free n w where g: "get_write_off (rb_head b) (rb_seen_tail b) (rb_capacity b) = (free, n, w)"
    by (metis prod_cases3)
  define b1 where b1: "b1 = (if free < req then b\<lparr>rb_seen_tail := rb_tail b\<rparr> else b)"
  obtain free1 n1 w1 where
    g1: "get_write_off (rb_head b1) (rb_seen_tail b1) (rb_capacity b1) = (free1, n1, w1)"
    by (metis prod_cases3)
  have eq: "shm_spsc_ringbuf_acquire b req =
      (rb_head b, n1, w1, b1\<lparr>rb_wip_head := rb_head b1, rb_wip_n := n1 + w1\<rparr>)"
    using g g1 by (cases "free < req") (auto simp: b1 shm_spsc_ringbuf_acquire_def Let_def)
  have i1: "rb_inv b1" using b1 assms rb_reload_tail(1) by simp
  have room: "unat n1 + unat w1 = rb_room b1" by (rule rb_room_get_write_off(2) [OF i1 g1])
  have sum: "unat (n1 + w1) = unat n1 + unat w1"
    using room rb_invD(5,7) [OF i1] by (simp add: unat_add_64)
  have "unat req \<le> rb_room b1 \<or> rb_room b1 = unat (rb_capacity b) - 1 - rb_written b"
    using rb_room_get_write_off(1) [OF assms g] rb_reload_tail(2) [OF assms]
    by (auto simp: b1 word_less_nat_alt)
  then show ?thesis
    unfolding eq using i1 room sum
    by (auto simp: b1 rb_producer_frame_def rb_may_write_def)
qed

lemma shm_spsc_ringbuf_acquire_nowrap_ok:
  assumes "rb_inv b"
  shows "\<exists>n b'. shm_spsc_ringbuf_acquire_nowrap b req = (rb_head b, n, b') \<and> rb_inv b' \<and>
    rb_producer_frame b b' \<and> rb_may_write b' (unat n)"
proof -
  obtain free n w where g: "get_write_off (rb_head b) (rb_seen_tail b) (rb_capacity b) = (free, n, w)"
    by (metis prod_cases3)
  define b1 where b1: "b1 = (if free < req then b\<lparr>rb_seen_tail := rb_tail b\<rparr> else b)"
  obtain free1 n1 w1 where
    g1: "get_write_off (rb_head b1) (rb_seen_tail b1) (rb_capacity b1) = (free1, n1, w1)"
    by (metis prod_cases3)
  have eq: "shm_spsc_ringbuf_acquire_nowrap b req =
      (rb_head b, n1, b1\<lparr>rb_wip_head := rb_head b1, rb_wip_n := n1\<rparr>)"
    using g g1 by (cases "free < req") (auto simp: b1 shm_spsc_ringbuf_acquire_nowrap_def Let_def)
  have i1: "rb_inv b1" using b1 assms rb_reload_tail(1) by simp
  have room: "unat n1 + unat w1 = rb_room b1" by (rule rb_room_get_write_off(2) [OF i1 g1])
  then show ?thesis
    unfolding eq using i1 by (auto simp: b1 rb_producer_frame_def rb_may_write_def)
qed

text \<open>The position arithmetic of \<open>write_finish\<close> and \<open>consume\<close>: one conditional subtraction.\<close>

lemma advance_ring_add:
  assumes "p < c" and "n \<le> c" and "c < SIZE_MAX - n"
  shows "unat (if p + n \<ge> c then p + n - c else p + n) = ring_add (unat c) (unat p) (unat n)"
  using assms unat_less_2p64 [of p] by (auto simp: word_nat ring_add_if split: if_splits)

lemma shm_spsc_ringbuf_write_finish_ok:
  assumes inv: "rb_inv b" and may: "rb_may_write b (unat n)" and pos: "n > 0"
    and ov: "rb_capacity b < SIZE_MAX - n"
  shows "\<exists>b'. shm_spsc_ringbuf_write_finish b n = Inr b' \<and> rb_inv b' \<and>
    rb_capacity b' = rb_capacity b \<and> rb_tail b' = rb_tail b \<and>
    rb_room b' = rb_room b - unat n \<and> rb_avail b' = rb_avail b \<and>
    rb_slots b' = rb_slots b @
      map (ring_add (unat (rb_capacity b)) (unat (rb_head b))) [0..<unat n]"
proof -
  let ?c = "unat (rb_capacity b)" and ?t = "unat (rb_tail b)" and ?h = "unat (rb_head b)"
  let ?h' = "if rb_head b + n \<ge> rb_capacity b then rb_head b + n - rb_capacity b else rb_head b + n"
  let ?b' = "b\<lparr>rb_head := ?h'\<rparr>"
  note i = rb_invD [OF inv]
  have n: "0 < unat n" "unat n \<le> rb_room b" "rb_wip_head b = rb_head b" "n \<le> rb_wip_n b"
    using may pos by (simp_all add: rb_may_write_def word_nat)
  have nc: "n \<le> rb_capacity b" "rb_capacity b < SIZE_MAX - n"
    using n(2) ov by (simp_all add: word_le_nat_alt rb_room_def)
  have h': "unat ?h' = ring_add ?c ?h (unat n)"
    using inv nc by (intro advance_ring_add) (simp_all add: rb_inv_def)
  have w: "rb_written ?b' = rb_written b + unat n"
    using ring_dist_head [OF i(2,1), of "unat n"] n(2) i(7) h' by (simp add: rb_written_def)
  have "ring_dist ?c (unat (rb_seen_tail b)) ?h + unat n < ?c"
    using n(1,2) by (simp add: rb_room_def)
  then have r: "rb_room ?b' = rb_room b - unat n"
    using ring_dist_head [OF i(4,1), of "unat n"] h' by (simp add: rb_room_def)
  have "rb_inv ?b'"
    using inv w r n(2) i h' by (auto simp: rb_inv_def rb_avail_def word_less_nat_alt)
  moreover have "?h' \<noteq> rb_tail b"
    using w n(1) ring_dist_0_iff [OF i(2), of "unat ?h'"] i h'
    by (auto simp: rb_written_def)
  moreover have "rb_slots ?b' = rb_slots b @ map (ring_add ?c ?h) [0..<unat n]"
  proof -
    have "map (ring_add ?c ?h) [0..<unat n] = map (\<lambda>k. ring_add ?c ?t (rb_written b + k)) [0..<unat n]"
      by (simp add: rb_head_as_tail [OF inv] ring_add_add)
    also have "\<dots> = map (ring_add ?c ?t) [rb_written b..<rb_written b + unat n]"
      by (rule map_upt_shift)
    finally show ?thesis
      using upt_add_eq_append [of 0 "rb_written b" "unat n"] by (simp add: rb_slots_def w)
  qed
  ultimately show ?thesis
    using n nc r by (auto simp: shm_spsc_ringbuf_write_finish_def Let_def rb_avail_def)
qed

section \<open>The consumer's calls\<close>

lemma rb_reload_head:
  assumes "rb_inv b"
  shows "rb_inv (b\<lparr>rb_seen_head := rb_head b\<rparr>)"
    and "rb_avail (b\<lparr>rb_seen_head := rb_head b\<rparr>) = rb_written b"
  using assms by (auto simp: rb_inv_def rb_room_def rb_written_def rb_avail_def)

text \<open>What a consumer call that only looks leaves unchanged.\<close>

definition rb_consumer_frame :: "shm_spsc_ringbuf \<Rightarrow> shm_spsc_ringbuf \<Rightarrow> bool" where
  "rb_consumer_frame b b' \<longleftrightarrow> (\<exists>sh. b' = b\<lparr>rb_seen_head := sh\<rparr>)"

lemma rb_consumer_frame_simps:
  assumes "rb_consumer_frame b b'"
  shows "rb_slots b' = rb_slots b" "rb_written b' = rb_written b" "rb_capacity b' = rb_capacity b"
    "rb_tail b' = rb_tail b" "rb_head b' = rb_head b" "rb_room b' = rb_room b"
    "rb_may_write b' n = rb_may_write b n"
  using assms by (auto simp: rb_consumer_frame_def rb_slots_def rb_written_def rb_room_def rb_may_write_def)

lemma rb_consumer_frame_refl [simp]: "rb_consumer_frame b b"
  by (auto simp: rb_consumer_frame_def intro: exI [of _ "rb_seen_head b"])

lemma rb_consumer_frame_reload [simp]: "rb_consumer_frame b (b\<lparr>rb_seen_head := sh\<rparr>)"
  by (auto simp: rb_consumer_frame_def)

lemma get_written_num_seen:
  assumes "rb_inv b"
  shows "get_written_num (rb_seen_head b) (rb_tail b) (rb_capacity b) = Inr (of_nat (rb_avail b))"
    and "get_written_num (rb_head b) (rb_tail b) (rb_capacity b) = Inr (of_nat (rb_written b))"
  using assms
  by (simp_all add: get_written_num_ok rb_inv_def rb_avail_def rb_written_def flip: unat_raw_written_num)

lemma unat_of_nat_avail:
  assumes "rb_inv b"
  shows "unat (of_nat (rb_avail b) :: size_t) = rb_avail b"
    and "unat (of_nat (rb_written b) :: size_t) = rb_written b"
  using rb_written_less [OF assms] rb_invD(5,6) [OF assms] by (simp_all add: unat_of_nat_64)

lemma of_nat_avail_0_iff:
  "rb_inv b \<Longrightarrow> (of_nat (rb_avail b) :: size_t) = 0 \<longleftrightarrow> rb_avail b = 0"
  by (simp add: word_64_eq_iff unat_of_nat_avail)

lemma shm_spsc_ringbuf_read_off_nowrap_ok:
  assumes "rb_inv b"
  shows "\<exists>b'. shm_spsc_ringbuf_read_off_nowrap b = Inr (rb_tail b, of_nat (rb_avail b'), b') \<and>
    rb_inv b' \<and> rb_consumer_frame b b' \<and> (rb_avail b' = 0 \<longleftrightarrow> rb_slots b = [])"
proof (cases "rb_avail b = 0")
  case True
  let ?b = "b\<lparr>rb_seen_head := rb_head b\<rparr>"
  have "rb_inv ?b" "rb_avail ?b = rb_written b" "rb_slots b = [] \<longleftrightarrow> rb_written b = 0"
    using rb_reload_head [OF assms] by (simp_all flip: length_rb_slots)
  then show ?thesis
    using True by (auto simp: shm_spsc_ringbuf_read_off_nowrap_def Let_def get_written_num_seen [OF assms])
next
  case False
  moreover from False have "rb_slots b \<noteq> []" using rb_invD(6) [OF assms] by (auto simp flip: length_rb_slots)
  ultimately show ?thesis
    using assms of_nat_avail_0_iff [OF assms]
    by (auto simp: shm_spsc_ringbuf_read_off_nowrap_def Let_def get_written_num_seen [OF assms])
qed

text \<open>\<open>read_acquire\<close> asks for \<open>n\<close> elements: it finds at least that many, or all there are.\<close>

lemma shm_spsc_ringbuf_read_acquire_ok:
  assumes "rb_inv b"
  shows "\<exists>b'. shm_spsc_ringbuf_read_acquire b n = Inr (rb_tail b, of_nat (rb_avail b'), b') \<and>
    rb_inv b' \<and> rb_consumer_frame b b' \<and> (unat n \<le> rb_avail b' \<or> rb_avail b' = rb_written b)"
  using assms rb_reload_head [OF assms] unat_of_nat_avail [OF assms]
  by (auto simp: shm_spsc_ringbuf_read_acquire_def Let_def get_written_num_seen [OF assms] word_less_nat_alt)

lemma shm_spsc_ringbuf_consume_ok:
  assumes inv: "rb_inv b" and n: "0 < n" "unat n \<le> rb_avail b" and ov: "rb_capacity b < SIZE_MAX - n"
  shows "\<exists>b'. shm_spsc_ringbuf_consume b n = Inr b' \<and> rb_inv b' \<and>
    rb_capacity b' = rb_capacity b \<and> rb_head b' = rb_head b \<and>
    rb_avail b' = rb_avail b - unat n \<and> rb_slots b' = drop (unat n) (rb_slots b) \<and>
    rb_room b' = rb_room b \<and> (\<forall>m. rb_may_write b' m = rb_may_write b m)"
proof -
  let ?c = "unat (rb_capacity b)" and ?t = "unat (rb_tail b)" and ?h = "unat (rb_head b)"
  let ?t' = "if rb_tail b + n \<ge> rb_capacity b then rb_tail b + n - rb_capacity b else rb_tail b + n"
  let ?b' = "b\<lparr>rb_tail := ?t'\<rparr>"
  note i = rb_invD [OF inv]
  have nw: "unat n \<le> rb_written b" using n(2) i(6) by linarith
  have nc: "n \<le> rb_capacity b"
    using nw rb_written_less [OF inv] by (simp add: word_le_nat_alt)
  have t': "unat ?t' = ring_add ?c ?t (unat n)"
    using inv nc ov by (intro advance_ring_add) (simp_all add: rb_inv_def)
  have w: "rb_written ?b' = rb_written b - unat n"
    using ring_dist_tail [OF i(2,1), of "unat n"] nw t' by (simp add: rb_written_def)
  have a: "rb_avail ?b' = rb_avail b - unat n"
    using ring_dist_tail [OF i(2,3), of "unat n"] n(2) t' by (simp add: rb_avail_def)
  have r: "rb_room ?b' = rb_room b" by (simp add: rb_room_def)
  have "rb_inv ?b'"
    using inv w a r i t' nw by (auto simp: rb_inv_def word_less_nat_alt)
  moreover have "rb_slots ?b' = drop (unat n) (rb_slots b)"
  proof -
    have "rb_slots ?b' = map (\<lambda>k. ring_add ?c ?t (unat n + k)) [0..<rb_written b - unat n]"
      unfolding rb_slots_def w by (simp add: t' ring_add_add)
    also have "\<dots> = map (ring_add ?c ?t) [unat n..<rb_written b]"
      using nw by (simp add: map_upt_shift)
    finally show ?thesis by (simp add: rb_slots_def drop_map)
  qed
  ultimately show ?thesis
    using n(1) nc ov a r by (auto simp: shm_spsc_ringbuf_consume_def Let_def rb_may_write_def)
qed

lemma shm_spsc_ringbuf_consume_upto_ok:
  assumes inv: "rb_inv b" and n: "n \<le> rb_capacity b" "rb_capacity b < SIZE_MAX - n"
  shows "\<exists>k b'. shm_spsc_ringbuf_consume_upto b n = Inr (k, b') \<and> rb_inv b' \<and>
    unat k = min (unat n) (rb_written b) \<and> rb_capacity b' = rb_capacity b \<and> rb_head b' = rb_head b \<and>
    rb_slots b' = drop (unat k) (rb_slots b) \<and>
    rb_room b' = rb_room b \<and> (\<forall>m. rb_may_write b' m = rb_may_write b m)"
proof -
  define b1 where "b1 = (if rb_avail b < unat n then b\<lparr>rb_seen_head := rb_head b\<rparr> else b)"
  define k where "k = (if of_nat (rb_avail b1) < n then of_nat (rb_avail b1) else n)"
  have i1: "rb_inv b1" and fr: "rb_consumer_frame b b1"
    using inv rb_reload_head(1) [OF inv] by (simp_all add: b1_def)
  note fr = rb_consumer_frame_simps [OF fr]
  have k: "unat k = min (unat n) (rb_written b)" and ka: "unat k \<le> rb_avail b1"
    using unat_of_nat_avail [OF i1] rb_reload_head(2) [OF inv] rb_invD(6) [OF inv]
    by (auto simp: k_def b1_def word_less_nat_alt min_def)
  have kn: "unat k \<le> unat n" using k by simp
  have eq: "shm_spsc_ringbuf_consume_upto b n =
    (if k > 0 then bindE (shm_spsc_ringbuf_consume b1 k) (\<lambda>b'. Inr (k, b')) else Inr (k, b1))"
    using n unat_of_nat_avail [OF inv] rb_reload_head(2) [OF inv]
    by (auto simp: shm_spsc_ringbuf_consume_upto_def Let_def get_written_num_seen [OF inv]
        b1_def k_def word_less_nat_alt)
  show ?thesis
  proof (cases "k > 0")
    case True
    have "rb_capacity b1 < SIZE_MAX - k"
      using n(2) kn fr(3) unat_less_2p64 [of n] by (simp add: word_less_nat_alt unat_sub_64)
    from shm_spsc_ringbuf_consume_ok [OF i1 True ka this] show ?thesis
      unfolding eq using True k fr by auto
  next
    case False
    then have "k = 0" by (simp add: word_nat)
    then show ?thesis unfolding eq using i1 k fr by auto
  qed
qed

text \<open>\<open>peek\<close>: the two contiguous ranges it returns are the oldest elements, in order.\<close>

lemma ring_two_ranges:
  assumes "t < c" "h < c" "k \<le> ring_dist c t h" "\<not> t < h"
  shows "map (ring_add c t) [0..<k] = [t..<t + min k (c - t)] @ [0..<k - min k (c - t)]"
  using assms by (intro nth_equalityI) (auto simp: ring_add_if ring_dist_if nth_append min_def split: if_splits)

lemma ring_one_range:
  assumes "t < c" "h < c" "k \<le> ring_dist c t h" "t < h"
  shows "map (ring_add c t) [0..<k] = [t..<t + k]"
  using assms by (intro nth_equalityI) (auto simp: ring_add_if ring_dist_if split: if_splits)

definition peek_ranges :: "(size_t \<times> size_t \<times> size_t) \<Rightarrow> nat list" where
  "peek_ranges r = (case r of (off, len1, len2) \<Rightarrow>
     [unat off..<unat off + unat len1] @ [0..<unat len2])"

lemma shm_spsc_ringbuf_peek_0:
  assumes "rb_inv b"
  shows "shm_spsc_ringbuf_peek b 0 =
    Inr (of_nat (rb_written b), None, b\<lparr>rb_seen_head := rb_head b\<rparr>)"
  by (simp add: shm_spsc_ringbuf_peek_def Let_def get_written_num_seen [OF assms])

lemma shm_spsc_ringbuf_peek_ok:
  assumes inv: "rb_inv b" and n: "n \<noteq> 0"
  shows "\<exists>r b'. shm_spsc_ringbuf_peek b n = Inr (of_nat (rb_avail b'), r, b') \<and>
    rb_inv b' \<and> rb_consumer_frame b b' \<and>
    (unat n \<le> rb_avail b' \<or> rb_avail b' = rb_written b) \<and>
    (case r of None \<Rightarrow> rb_slots b = [] \<and> rb_avail b' = 0
     | Some (off, len1, len2) \<Rightarrow> rb_slots b \<noteq> [] \<and> len1 > 0 \<and> off = rb_tail b \<and>
         peek_ranges (off, len1, len2) = take (unat n) (rb_slots b))"
proof -
  define b1 where "b1 = (if rb_avail b < unat n then b\<lparr>rb_seen_head := rb_head b\<rparr> else b)"
  let ?c = "rb_capacity b" and ?t = "rb_tail b" and ?h = "rb_seen_head b1"
  have i1: "rb_inv b1" and fr1: "rb_consumer_frame b b1"
    using inv rb_reload_head(1) [OF inv] by (simp_all add: b1_def)
  note fr = rb_consumer_frame_simps [OF fr1] and u1 = unat_of_nat_avail [OF i1]
  note i = rb_invD [OF i1, unfolded fr]
  have ge: "unat n \<le> rb_avail b1 \<or> rb_avail b1 = rb_written b"
    using rb_reload_head(2) [OF inv] by (auto simp: b1_def)
  define m where "m = (if of_nat (rb_avail b1) < n then of_nat (rb_avail b1) else n)"
  have um: "unat m = min (unat n) (rb_avail b1)"
    using u1 by (auto simp: m_def word_less_nat_alt min_def)
  define l1 where "l1 = (if ?c - ?t > m then m else ?c - ?t)"
  define l2 where "l2 = (if ?h < m - l1 then ?h else m - l1)"
  have cond: "(of_nat (rb_avail b) < n \<or> n = 0) = (rb_avail b < unat n)"
    using n unat_of_nat_avail [OF inv] by (simp add: word_less_nat_alt)
  have step: "shm_spsc_ringbuf_peek b n =
    (if rb_avail b1 = 0 then Inr (0, None, b1)
     else assertE (m \<le> of_nat (rb_avail b1)) ''n <= cur_elem_num''
       (bindE (if ?t < ?h then Inr (m, 0)
               else assertE (?t \<noteq> ?h) ''Ringbuf is empty'' (Inr (l1, l2)))
         (\<lambda>(len1, len2). assertE (len1 + len2 = m) ''*len1 + *len2 == n''
           (Inr (of_nat (rb_avail b1), Some (?t, len1, len2), b1)))))"
    unfolding shm_spsc_ringbuf_peek_def Let_def get_written_num_seen [OF inv] bindE_Inr cond
    using n rb_reload_head [OF inv] of_nat_avail_0_iff [OF i1]
    by (auto simp: b1_def l1_def l2_def m_def cong: if_cong)
  show ?thesis
  proof (cases "rb_avail b1 = 0")
    case True
    then have "rb_slots b = []" using ge n by (auto simp: word_64_eq_iff simp flip: length_rb_slots)
    with True show ?thesis unfolding step using i1 fr1 ge by auto
  next
    case False
    then have ne: "rb_slots b \<noteq> []" using i(6) by (auto simp flip: length_rb_slots)
    have mle: "unat m \<le> ring_dist (unat ?c) (unat ?t) (unat ?h)"
      using um fr by (simp add: rb_avail_def)
    have mpos: "0 < unat m" using um n False by (simp add: word_64_eq_iff)
    have sl: "take (unat n) (rb_slots b) = map (ring_add (unat ?c) (unat ?t)) [0..<unat m]"
      using um ge i(6) by (auto simp: rb_slots_def take_map min_def)
    have mcur: "m \<le> of_nat (rb_avail b1)" using um u1 by (simp add: word_le_nat_alt)
    show ?thesis
    proof (cases "?t < ?h")
      case True
      then have "peek_ranges (?t, m, 0) = take (unat n) (rb_slots b)"
        unfolding sl using ring_one_range [OF i(2,3) mle] by (simp add: peek_ranges_def word_less_nat_alt)
      then show ?thesis unfolding step using True False mcur mpos ne i1 fr1 ge
        by (auto simp: word_less_nat_alt)
    next
      case nlt: False
      have th: "?t \<noteq> ?h" using False i ring_dist_0_iff [OF i(2,3)] fr by (auto simp: rb_avail_def)
      have ul1: "unat l1 = min (unat m) (unat ?c - unat ?t)"
        using i(2) by (auto simp: l1_def word_less_nat_alt unat_sub_64 min_def)
      have ul2: "unat l2 = unat m - unat l1"
        using ul1 mle nlt i ring_dist_if [OF i(2,3)] th
        by (auto simp: l2_def word_less_nat_alt unat_sub_64 min_def word_64_eq_iff split: if_splits)
      have sum: "l1 + l2 = m" using ul1 ul2 unat_less_2p64 [of m] by (simp add: word_64_eq_iff unat_add_64)
      have "peek_ranges (?t, l1, l2) = take (unat n) (rb_slots b)"
        unfolding sl using ring_two_ranges [OF i(2,3) mle] nlt ul1 ul2
        by (simp add: peek_ranges_def word_less_nat_alt)
      moreover have "0 < unat l1" using ul1 mpos i(2) by simp
      ultimately show ?thesis unfolding step using nlt th False mcur ne i1 fr1 ge sum
        by (auto simp: word_less_nat_alt)
    qed
  qed
qed

section \<open>Properties\<close>

text \<open>A buffer of capacity 4 that has wrapped around: the positions 3 and 0 are occupied.\<close>

definition rb_example :: shm_spsc_ringbuf where
  "rb_example = \<lparr>rb_capacity = 4, rb_tail = 3, rb_seen_head = 0, rb_seen_tail = 2, rb_head = 1,
     rb_wip_head = 0, rb_wip_n = 0\<rparr>"

lemma rb_example_inv: "rb_inv rb_example"
  by code_simp

text \<open>
  for every pair of positions in range, the counters of written and free elements return
  (none of the consistency assertions of the code fails), the number of written elements is
  the distance from tail to head modulo the capacity, and the two numbers add up to the
  capacity less the separator.
\<close>

theorem ringbuf_counts:
  assumes "h < c" and "t < c"
  shows "\<exists>n f. get_written_num h t c = Inr n \<and> get_free_num h t c = Inr f \<and>
    unat n = (unat h + unat c - unat t) mod unat c \<and> unat n + unat f + 1 = unat c"
proof -
  have u: "unat (raw_written_num h t c) = (unat h + unat c - unat t) mod unat c"
    using unat_raw_written_num [OF assms] by (simp add: ring_dist_def)
  then have l: "unat (raw_written_num h t c) < unat c" using assms(1) by (simp add: word_nat)
  then have "unat (c - 1) = unat c - 1" by (simp add: unat_sub_64)
  then have "unat (c - 1 - raw_written_num h t c) = unat c - 1 - unat (raw_written_num h t c)"
    using l by (simp add: unat_sub_64)
  then show ?thesis using u l get_written_num_ok [OF assms] get_free_num_ok [OF assms] by auto
qed

theorem ringbuf_counts_witness:
  "\<exists>n f. get_written_num 1 3 4 = Inr n \<and> get_free_num 1 3 4 = Inr f \<and> unat n = 2 \<and> unat f = 1"
  using ringbuf_counts [of 1 4 3] by auto

text \<open>
  C32: a write (asking for the offset without wrapping, then publishing \<open>k\<close> of the \<open>n\<close> elements
  it granted) never fails an assertion, keeps the invariant, leaves the old elements where
  they are, and appends the \<open>k\<close> positions that start at the returned offset; those positions
  held no element before, so no unread element is overwritten.
\<close>

theorem ringbuf_write:
  assumes "rb_inv b" and "shm_spsc_ringbuf_write_off_nowrap b = (off, n, b1)"
    and "0 < k" "k \<le> n" "rb_capacity b < SIZE_MAX - k"
  shows "\<exists>b2. shm_spsc_ringbuf_write_finish b1 k = Inr b2 \<and> rb_inv b2 \<and>
    rb_slots b2 = rb_slots b @ map (ring_add (unat (rb_capacity b)) (unat off)) [0..<unat k] \<and>
    distinct (rb_slots b2)"
proof -
  have b1: "off = rb_head b" "rb_inv b1" "rb_producer_frame b b1" "rb_may_write b1 (unat n)"
    using shm_spsc_ringbuf_write_off_nowrap_ok [OF assms(1)] assms(2) by auto
  have f: "rb_capacity b1 = rb_capacity b" "rb_head b1 = rb_head b" "rb_slots b1 = rb_slots b"
    using b1(3) rb_producer_frame_slots [OF b1(3)] by (auto simp: rb_producer_frame_def)
  have "rb_may_write b1 (unat k)" using b1(4) assms(4) by (auto simp: rb_may_write_def word_le_nat_alt)
  then show ?thesis
    using shm_spsc_ringbuf_write_finish_ok [OF b1(2) _ assms(3)] assms(5) f b1(1) rb_slots_distinct by auto
qed

theorem ringbuf_write_witness:
  "\<exists>off n b1 b2. shm_spsc_ringbuf_write_off_nowrap rb_example = (off, n, b1) \<and>
    shm_spsc_ringbuf_write_finish b1 1 = Inr b2 \<and> rb_slots b2 = [3, 0, 1]"
proof -
  let ?b1 = "rb_example\<lparr>rb_seen_tail := 3, rb_wip_head := 1, rb_wip_n := 1\<rparr>"
  have w: "shm_spsc_ringbuf_write_off_nowrap rb_example = (1, 1, ?b1)"
    by code_simp
  obtain b2 where "shm_spsc_ringbuf_write_finish ?b1 1 = Inr b2"
    "rb_slots b2 = rb_slots rb_example @ map (ring_add 4 1) [0..<1]"
    using ringbuf_write [OF rb_example_inv w, of 1] by (auto simp: rb_example_def)
  moreover have "rb_slots rb_example = [3, 0]" by code_simp
  ultimately show ?thesis using w by (auto simp: ring_add_def)
qed

text \<open>
  the offset for writing is refused (\<open>n\<close> is 0) exactly when the buffer is full, although
  the producer looks at the consumer's position only when its cached copy shows no room.
\<close>

theorem ringbuf_write_refused_iff_full:
  assumes "rb_inv b" and "shm_spsc_ringbuf_write_off_nowrap b = (off, n, b1)"
  shows "n = 0 \<longleftrightarrow> shm_spsc_ringbuf_full b"
proof -
  have "unat (shm_spsc_ringbuf_max_size b) = unat (rb_capacity b) - 1" "0 < unat (rb_capacity b)"
    using rb_invD [OF assms(1)] by (auto simp: shm_spsc_ringbuf_max_size_def unat_sub_64)
  then show ?thesis
    using shm_spsc_ringbuf_write_off_nowrap_ok [OF assms(1)] shm_spsc_ringbuf_full_iff [OF assms(1)] assms(2)
    by auto
qed

theorem ringbuf_write_refused_iff_full_witness:
  "\<exists>off n b1. shm_spsc_ringbuf_write_off_nowrap (rb_example\<lparr>rb_head := 2, rb_seen_tail := 3\<rparr>) = (off, n, b1) \<and>
    n = 0 \<and> shm_spsc_ringbuf_full (rb_example\<lparr>rb_head := 2, rb_seen_tail := 3\<rparr>)"
proof -
  let ?b = "rb_example\<lparr>rb_head := 2, rb_seen_tail := 3\<rparr>"
  have "rb_inv ?b" by code_simp
  moreover have w: "shm_spsc_ringbuf_write_off_nowrap ?b = (2, 0, ?b\<lparr>rb_seen_tail := 3, rb_wip_head := 2, rb_wip_n := 0\<rparr>)"
    by code_simp
  ultimately show ?thesis using ringbuf_write_refused_iff_full [of ?b] by blast
qed

text \<open>
  \<open>consume_upto(n)\<close> removes exactly \<open>min n size\<close> of the oldest elements and returns that
  number, whatever the consumer's cached head is; no assertion fails, and the producer's
  view (its room and its granted write) is unchanged.
\<close>

theorem ringbuf_consume_upto:
  assumes "rb_inv b" and "n \<le> rb_capacity b" and "rb_capacity b < SIZE_MAX - n"
  shows "\<exists>k b'. shm_spsc_ringbuf_consume_upto b n = Inr (k, b') \<and> rb_inv b' \<and>
    unat k = min (unat n) (length (rb_slots b)) \<and> rb_slots b' = drop (unat k) (rb_slots b) \<and>
    rb_room b' = rb_room b \<and> (\<forall>m. rb_may_write b' m = rb_may_write b m)"
  using shm_spsc_ringbuf_consume_upto_ok [OF assms] by auto

theorem ringbuf_consume_upto_witness:
  "\<exists>k b'. shm_spsc_ringbuf_consume_upto rb_example 1 = Inr (k, b') \<and> unat k = 1 \<and> rb_slots b' = [0]"
proof -
  have "rb_slots rb_example = [3, 0]" "rb_capacity rb_example = 4" "rb_written rb_example = 2"
    by code_simp+
  with ringbuf_consume_upto [OF rb_example_inv, of 1] show ?thesis by auto
qed

text \<open>
  \<open>peek(n)\<close> removes nothing and describes the oldest elements by two ranges of positions,
  the second starting at 0: read one after the other they are the first \<open>n\<close> occupied
  positions in order. It reports no ranges only when the buffer is empty.
\<close>

theorem ringbuf_peek:
  assumes "rb_inv b" and "n \<noteq> 0"
  shows "\<exists>num r b'. shm_spsc_ringbuf_peek b n = Inr (num, r, b') \<and> rb_inv b' \<and>
    rb_slots b' = rb_slots b \<and> min (unat n) (length (rb_slots b)) \<le> unat num \<and>
    unat num \<le> length (rb_slots b) \<and>
    (case r of None \<Rightarrow> rb_slots b = [] \<and> num = 0
     | Some (off, len1, len2) \<Rightarrow>
         [unat off..<unat off + unat len1] @ [0..<unat len2] = take (unat n) (rb_slots b))"
proof -
  obtain r b' where p: "shm_spsc_ringbuf_peek b n = Inr (of_nat (rb_avail b'), r, b')"
    and i: "rb_inv b'" and f: "rb_consumer_frame b b'"
    and av: "unat n \<le> rb_avail b' \<or> rb_avail b' = rb_written b"
    and r: "case r of None \<Rightarrow> rb_slots b = [] \<and> rb_avail b' = 0
     | Some (off, len1, len2) \<Rightarrow> rb_slots b \<noteq> [] \<and> len1 > 0 \<and> off = rb_tail b \<and>
         peek_ranges (off, len1, len2) = take (unat n) (rb_slots b)"
    using shm_spsc_ringbuf_peek_ok [OF assms] by auto
  have u: "unat (of_nat (rb_avail b') :: size_t) = rb_avail b'" by (rule unat_of_nat_avail(1) [OF i])
  have "rb_avail b' \<le> rb_written b" using rb_invD(6) [OF i] rb_consumer_frame_simps(2) [OF f] by simp
  with p i av r u rb_consumer_frame_simps(1) [OF f] show ?thesis
    by (auto simp: peek_ranges_def split: option.splits)
qed

theorem ringbuf_peek_witness:
  "\<exists>num off len1 len2 b'. shm_spsc_ringbuf_peek rb_example 5 = Inr (num, Some (off, len1, len2), b') \<and>
    [unat off..<unat off + unat len1] @ [0..<unat len2] = [3, 0]"
proof -
  have "rb_slots rb_example = [3, 0]" by code_simp
  with ringbuf_peek [OF rb_example_inv, of 5] show ?thesis by (auto split: option.splits)
qed

text \<open>
  When the buffer is empty and \<open>head\<close> is not 0, the offset returned for a write without
  wrapping comes with \<open>n = capacity - 1\<close>, although only \<open>capacity - head\<close> positions follow it
  contiguously: the code returns the total for an empty buffer.
\<close>

lemma write_off_nowrap_empty_not_contiguous:
  "\<exists>b off n b1. rb_inv b \<and> shm_spsc_ringbuf_write_off_nowrap b = (off, n, b1) \<and> rb_capacity b < off + n"
proof -
  let ?b = "rb_example\<lparr>rb_tail := 3, rb_head := 3, rb_seen_head := 3, rb_seen_tail := 3\<rparr>"
  have "rb_inv ?b" by code_simp
  moreover have "shm_spsc_ringbuf_write_off_nowrap ?b = (3, 3, ?b\<lparr>rb_wip_head := 3, rb_wip_n := 3\<rparr>)"
    by code_simp
  moreover have "rb_capacity ?b < 3 + 3" by code_simp
  ultimately show ?thesis by blast
qed

lemma write_finish_nothing_on_empty:
  "\<exists>b. rb_inv b \<and> rb_may_write b 0 \<and>
    shm_spsc_ringbuf_write_finish b 0 = Inl (Assertion ''Invalid head move'')"
proof -
  let ?b = "rb_example\<lparr>rb_tail := 3, rb_head := 3, rb_seen_head := 3, rb_seen_tail := 3, rb_wip_head := 3\<rparr>"
  have "rb_inv ?b \<and> rb_may_write ?b 0" by code_simp
  moreover have "shm_spsc_ringbuf_write_finish ?b 0 = Inl (Assertion ''Invalid head move'')" by code_simp
  ultimately show ?thesis by blast
qed

end
