(* ===== verification/Par_Queue.thy ===== *)
theory Par_Queue
  imports Spsc_Ringbuf Fifo_Spec
begin

text \<open>
  The element queue of \<open>core/par_queue.c\<close>: a ring buffer of positions together with a block
  of \<open>capacity + 1\<close> slots of \<open>elem_size\<close> bytes. Pointers into the block are byte offsets,
  \<open>NULL\<close> is \<open>None\<close>; \<open>malloc\<close> is an argument of the initialisation (its result for a
  requested size), and the products that compute addresses are taken on 64-bit words.
\<close>

section \<open>State and operations\<close>

record shm_par_queue =
  pq_ringbuf :: shm_spsc_ringbuf
  pq_elem_size :: size_t
  pq_capacity :: size_t
  pq_data :: "byte list"

definition shm_par_queue_init ::
    "(size_t \<Rightarrow> byte list option) \<Rightarrow> shm_par_queue \<Rightarrow> size_t \<Rightarrow> size_t \<Rightarrow> shm_par_queue res" where
  "shm_par_queue_init malloc q capacity elem_size =
     assertE (capacity > 0) ''capacity > 0''
     (assertE (elem_size > 0) ''elem_size > 0''
     (bindE (shm_spsc_ringbuf_init (pq_ringbuf q) (capacity + 1)) (\<lambda>rb.
      case malloc ((capacity + 1) * elem_size) of
        None \<Rightarrow> Inl (Assertion ''Allocation failed'')
      | Some block \<Rightarrow>
          Inr (q\<lparr>pq_ringbuf := rb, pq_capacity := capacity, pq_elem_size := elem_size,
                 pq_data := block\<rparr>))))"

text \<open>After \<open>free\<close> no byte of the block may be accessed.\<close>

definition shm_par_queue_destroy :: "shm_par_queue \<Rightarrow> shm_par_queue" where
  "shm_par_queue_destroy q = q\<lparr>pq_data := []\<rparr>"

definition shm_par_queue_write_ptr :: "shm_par_queue \<Rightarrow> size_t option \<times> shm_par_queue" where
  "shm_par_queue_write_ptr q =
     (let (off, n, rb) = shm_spsc_ringbuf_write_off_nowrap (pq_ringbuf q);
          q = q\<lparr>pq_ringbuf := rb\<rparr>
      in if n > 0 then (Some (off * pq_elem_size q), q) else (None, q))"

definition shm_par_queue_write_finish :: "shm_par_queue \<Rightarrow> shm_par_queue res" where
  "shm_par_queue_write_finish q =
     bindE (shm_spsc_ringbuf_write_finish (pq_ringbuf q) 1) (\<lambda>rb. Inr (q\<lparr>pq_ringbuf := rb\<rparr>))"

definition shm_par_queue_push ::
    "shm_par_queue \<Rightarrow> byte list \<Rightarrow> size_t \<Rightarrow> (bool \<times> shm_par_queue) res" where
  "shm_par_queue_push q elem sz =
     assertE (pq_elem_size q \<ge> sz) ''Size does not fit the slot''
     (case shm_par_queue_write_ptr q of
        (Some ptr, q) \<Rightarrow>
          bindE (mem_read elem 0 (unat sz)) (\<lambda>src.
          bindE (mem_write (pq_data q) (unat ptr) src) (\<lambda>data.
          bindE (shm_par_queue_write_finish (q\<lparr>pq_data := data\<rparr>)) (\<lambda>q.
          Inr (True, q))))
      | (None, q) \<Rightarrow> Inr (False, q))"

text \<open>\<open>pop\<close> returns the bytes it copies to the caller's buffer, or \<open>None\<close> for \<open>false\<close>.\<close>

definition shm_par_queue_pop :: "shm_par_queue \<Rightarrow> (byte list option \<times> shm_par_queue) res" where
  "shm_par_queue_pop q =
     bindE (shm_spsc_ringbuf_read_off_nowrap (pq_ringbuf q)) (\<lambda>(off, n, rb).
     let q = q\<lparr>pq_ringbuf := rb\<rparr> in
     if n > 0 then
       bindE (mem_read (pq_data q) (unat (off * pq_elem_size q)) (unat (pq_elem_size q))) (\<lambda>bytes.
       bindE (shm_spsc_ringbuf_consume (pq_ringbuf q) 1) (\<lambda>rb.
       Inr (Some bytes, q\<lparr>pq_ringbuf := rb\<rparr>)))
     else Inr (None, q))"

definition shm_par_queue_drop :: "shm_par_queue \<Rightarrow> size_t \<Rightarrow> shm_par_queue res" where
  "shm_par_queue_drop q k =
     bindE (shm_spsc_ringbuf_consume (pq_ringbuf q) k) (\<lambda>rb. Inr (q\<lparr>pq_ringbuf := rb\<rparr>))"

definition shm_par_queue_free_num :: "shm_par_queue \<Rightarrow> size_t res" where
  "shm_par_queue_free_num q = shm_spsc_ringbuf_free_num (pq_ringbuf q)"

definition shm_par_queue_capacity :: "shm_par_queue \<Rightarrow> size_t" where
  "shm_par_queue_capacity q = pq_capacity q"

definition shm_par_queue_size :: "shm_par_queue \<Rightarrow> size_t res" where
  "shm_par_queue_size q = shm_spsc_ringbuf_size (pq_ringbuf q)"

definition shm_par_queue_elem_size :: "shm_par_queue \<Rightarrow> size_t" where
  "shm_par_queue_elem_size q = pq_elem_size q"

definition shm_par_queue_top :: "shm_par_queue \<Rightarrow> (size_t option \<times> shm_par_queue) res" where
  "shm_par_queue_top q =
     bindE (shm_spsc_ringbuf_read_off_nowrap (pq_ringbuf q)) (\<lambda>(off, n, rb).
     let q = q\<lparr>pq_ringbuf := rb\<rparr> in
     if n > 0 then Inr (Some (off * pq_elem_size q), q) else Inr (None, q))"

text \<open>
  \<open>peek\<close> returns the number of elements and, when there are any, \<open>*ptr1\<close>, \<open>*len1\<close>, the
  value written to \<open>*ptr2\<close> (\<open>None\<close>: not written) and \<open>*len2\<close>.
\<close>

definition shm_par_queue_peek ::
    "shm_par_queue \<Rightarrow> size_t \<Rightarrow>
      (size_t \<times> (size_t \<times> size_t \<times> size_t option \<times> size_t) option \<times> shm_par_queue) res" where
  "shm_par_queue_peek q n =
     bindE (shm_spsc_ringbuf_peek (pq_ringbuf q) (if n = 0 then SIZE_MAX else n)) (\<lambda>(cur, out, rb).
     let q = q\<lparr>pq_ringbuf := rb\<rparr> in
     if cur > 0 then
       (case out of
          None \<Rightarrow> Inl (UB ''off and len2 not set'')
        | Some (off, len1, len2) \<Rightarrow>
            Inr (cur, Some (off * pq_elem_size q, len1,
                            (if len2 > 0 then Some 0 else None), len2), q))
     else Inr (cur, None, q))"

definition shm_par_queue_peek1 :: "shm_par_queue \<Rightarrow> (size_t \<times> size_t option \<times> shm_par_queue) res" where
  "shm_par_queue_peek1 q =
     bindE (shm_spsc_ringbuf_read_off_nowrap (pq_ringbuf q)) (\<lambda>(off, n, rb).
     let q = q\<lparr>pq_ringbuf := rb\<rparr> in
     Inr (n, (if n > 0 then Some (off * pq_elem_size q) else None), q))"

text \<open>The address of the element with index \<open>k\<close> of a peeked view.\<close>

definition view_at ::
    "size_t \<Rightarrow> (size_t \<times> size_t \<times> size_t option \<times> size_t) option \<Rightarrow> size_t \<Rightarrow> size_t res" where
  "view_at elem_size view k =
     (case view of
        None \<Rightarrow> Inl (UB ''len1 not set'')
      | Some (ptr1, len1, ptr2, len2) \<Rightarrow>
          if k < len1 then Inr (ptr1 + k * elem_size)
          else (let k = k - len1 in
            assertE (k < len2) ''k < len2''
            (case ptr2 of
               None \<Rightarrow> Inl (UB ''ptr2 not set'')
             | Some p \<Rightarrow> Inr (p + k * elem_size))))"

definition shm_par_queue_peek_at ::
    "shm_par_queue \<Rightarrow> size_t \<Rightarrow> (size_t option \<times> shm_par_queue) res" where
  "shm_par_queue_peek_at q k =
     bindE (shm_par_queue_peek q (if k = SIZE_MAX then k else k + 1)) (\<lambda>(n, view, q).
     if n \<le> k then Inr (None, q)
     else bindE (view_at (pq_elem_size q) view k) (\<lambda>p. Inr (Some p, q)))"

text \<open>\<open>peek_atmost_at\<close> also returns the value it leaves in \<open>*want_k\<close>.\<close>

definition shm_par_queue_peek_atmost_at ::
    "shm_par_queue \<Rightarrow> size_t \<Rightarrow> (size_t option \<times> size_t \<times> shm_par_queue) res" where
  "shm_par_queue_peek_atmost_at q want_k =
     bindE (shm_par_queue_peek q (if want_k = SIZE_MAX then want_k else want_k + 1)) (\<lambda>(n, view, q).
     if n = 0 then Inr (None, 0, q)
     else
       (let k = (if n \<le> want_k then n - 1 else want_k) in
        bindE (view_at (pq_elem_size q) view k) (\<lambda>p. Inr (Some p, k, q))))"

section \<open>Invariant and abstract content\<close>

definition pq_inv :: "shm_par_queue \<Rightarrow> bool" where
  "pq_inv q \<longleftrightarrow>
     rb_inv (pq_ringbuf q) \<and> 0 < pq_capacity q \<and> 0 < pq_elem_size q \<and>
     unat (rb_capacity (pq_ringbuf q)) = unat (pq_capacity q) + 1 \<and>
     (unat (pq_capacity q) + 1) * unat (pq_elem_size q) < 18446744073709551616 \<and>
     length (pq_data q) = (unat (pq_capacity q) + 1) * unat (pq_elem_size q)"

definition pq_elems :: "shm_par_queue \<Rightarrow> byte list list" where
  "pq_elems q = map (slot (unat (pq_elem_size q)) (pq_data q)) (rb_slots (pq_ringbuf q))"

text \<open>The element a pointer into the queue points to.\<close>

definition pq_deref :: "shm_par_queue \<Rightarrow> size_t \<Rightarrow> byte list" where
  "pq_deref q p = take (unat (pq_elem_size q)) (drop (unat p) (pq_data q))"

lemma length_pq_elems [simp]: "length (pq_elems q) = rb_written (pq_ringbuf q)"
  by (simp add: pq_elems_def)

lemma pq_elems_bound: "pq_inv q \<Longrightarrow> length (pq_elems q) \<le> unat (pq_capacity q)"
  using rb_written_less [of "pq_ringbuf q"] by (simp add: pq_inv_def)

lemma pq_slot_bounds:
  assumes "pq_inv q" and "i < unat (rb_capacity (pq_ringbuf q))"
  shows "i * unat (pq_elem_size q) + unat (pq_elem_size q) \<le> length (pq_data q)"
  using assms by (intro slot_in_bounds [of _ "unat (rb_capacity (pq_ringbuf q))"]) (simp_all add: pq_inv_def)

lemma pq_inv_rb: "pq_inv q \<Longrightarrow> rb_inv (pq_ringbuf q)"
  by (simp add: pq_inv_def)

lemma pq_elem_length: "pq_inv q \<Longrightarrow> x \<in> set (pq_elems q) \<Longrightarrow> length x = unat (pq_elem_size q)"
  using pq_slot_bounds rb_slots_in_range [OF pq_inv_rb] by (auto simp: pq_elems_def)

lemma pq_addr:
  assumes "pq_inv q" and "i < unat (rb_capacity (pq_ringbuf q))" and "unat off = i"
  shows "unat (off * pq_elem_size q) = i * unat (pq_elem_size q)"
proof -
  have "i * unat (pq_elem_size q) \<le> length (pq_data q)"
    using pq_slot_bounds [OF assms(1,2)] by simp
  then show ?thesis using assms(1,3) by (simp add: unat_mult_64 pq_inv_def)
qed

section \<open>Correctness of the operations\<close>

lemma shm_par_queue_init_ok:
  assumes "0 < c" "0 < es" "(unat c + 1) * unat es < 18446744073709551616" "c + 1 < SIZE_MAX - 1"
    and "malloc ((c + 1) * es) = Some block" "length block = unat ((c + 1) * es)"
  shows "\<exists>q'. shm_par_queue_init malloc q c es = Inr q' \<and> pq_inv q' \<and> pq_elems q' = [] \<and>
    pq_capacity q' = c \<and> pq_elem_size q' = es"
proof -
  have "unat c + 1 \<le> (unat c + 1) * unat es" using assms(2) mult_le_mono2 [of 1 "unat es" "unat c + 1"] by (simp add: word_less_nat_alt)
  then have less: "unat c < 18446744073709551615" using assms(3) by linarith
  then have c1: "unat (c + 1) = unat c + 1" "0 < c + 1"
    using less by (simp_all add: word_nat)
  have len: "length block = (unat c + 1) * unat es"
    using assms(3,6) c1 by (simp add: unat_mult_64)
  obtain rb where rb: "shm_spsc_ringbuf_init (pq_ringbuf q) (c + 1) = Inr rb" "rb_inv rb"
    "rb_slots rb = []" "rb_capacity rb = c + 1"
    using shm_spsc_ringbuf_init_ok [OF c1(2) assms(4)] by blast
  show ?thesis
    using assms c1 len rb by (auto simp: shm_par_queue_init_def pq_inv_def pq_elems_def)
qed

lemma pq_full_iff:
  "pq_inv q \<Longrightarrow> rb_written (pq_ringbuf q) + 1 = unat (rb_capacity (pq_ringbuf q)) \<longleftrightarrow>
    \<not> length (pq_elems q) < unat (pq_capacity q)"
  using pq_elems_bound [of q] by (auto simp: pq_inv_def)

text \<open>Only the positions matter for the invariant; the content also needs the data.\<close>

lemma pq_inv_update:
  "pq_inv q \<Longrightarrow> rb_inv rb \<Longrightarrow> rb_capacity rb = rb_capacity (pq_ringbuf q) \<Longrightarrow> pq_inv (q\<lparr>pq_ringbuf := rb\<rparr>)"
  by (simp add: pq_inv_def)

lemma rb_cap_SIZE_MAX_1: "rb_inv b \<Longrightarrow> rb_capacity b < SIZE_MAX - 1"
  by (simp add: rb_inv_def)

lemma shm_par_queue_write_ptr_ok:
  assumes "pq_inv q"
  shows "\<exists>p q'. shm_par_queue_write_ptr q = (p, q') \<and> pq_inv q' \<and> pq_elems q' = pq_elems q \<and>
    pq_capacity q' = pq_capacity q \<and> pq_elem_size q' = pq_elem_size q \<and> pq_data q' = pq_data q \<and>
    rb_head (pq_ringbuf q') = rb_head (pq_ringbuf q) \<and>
    rb_producer_frame (pq_ringbuf q) (pq_ringbuf q') \<and>
    (if length (pq_elems q) < unat (pq_capacity q)
     then p = Some (rb_head (pq_ringbuf q) * pq_elem_size q) \<and> rb_may_write (pq_ringbuf q') 1
     else p = None)"
proof -
  obtain n rb where w: "shm_spsc_ringbuf_write_off_nowrap (pq_ringbuf q) = (rb_head (pq_ringbuf q), n, rb)"
    and rb: "rb_inv rb" "rb_producer_frame (pq_ringbuf q) rb" "rb_may_write rb (unat n)"
      "n = 0 \<longleftrightarrow> rb_written (pq_ringbuf q) + 1 = unat (rb_capacity (pq_ringbuf q))"
    using shm_spsc_ringbuf_write_off_nowrap_ok [OF pq_inv_rb [OF assms]] by blast
  have "rb_capacity rb = rb_capacity (pq_ringbuf q)" "rb_head rb = rb_head (pq_ringbuf q)"
    using rb(2) by (simp_all add: rb_producer_frame_def)
  moreover have "n > 0 \<longleftrightarrow> length (pq_elems q) < unat (pq_capacity q)"
    using rb(4) pq_full_iff [OF assms] by (auto simp: word_nat)
  moreover have "n > 0 \<Longrightarrow> rb_may_write rb 1"
    using rb(3) by (simp add: rb_may_write_def word_nat)
  ultimately show ?thesis
    using pq_inv_update [OF assms rb(1)] rb_producer_frame_slots [OF rb(2)] rb(2) w
    by (auto simp: shm_par_queue_write_ptr_def pq_elems_def)
qed

lemma rb_head_not_occupied:
  assumes "rb_inv b" and "0 < rb_room b"
  shows "unat (rb_head b) \<notin> set (rb_slots b)"
  using rb_write_pos_free [OF assms] rb_invD(1) [OF assms(1)] by simp

text \<open>
  Writing at the write pointer does not touch the queued elements; \<open>write_finish\<close> then
  publishes the slot.
\<close>

lemma pq_write_slot:
  assumes inv: "pq_inv q" and may: "rb_may_write (pq_ringbuf q) 1"
    and len: "length src \<le> unat (pq_elem_size q)"
  defines "h \<equiv> unat (rb_head (pq_ringbuf q))" and "es \<equiv> unat (pq_elem_size q)"
  defines "q1 \<equiv> q\<lparr>pq_data := mem_upd (pq_data q) (h * es) src\<rparr>"
  shows "mem_write (pq_data q) (unat (rb_head (pq_ringbuf q) * pq_elem_size q)) src = Inr (pq_data q1)"
    and "pq_inv q1" and "pq_elems q1 = pq_elems q"
    and "slot es (pq_data q1) h = src @ drop (length src) (slot es (pq_data q) h)"
proof -
  have h: "h < unat (rb_capacity (pq_ringbuf q))" using rb_invD(1) [OF pq_inv_rb [OF inv]] by (simp add: h_def)
  have b: "h * es + es \<le> length (pq_data q)" using pq_slot_bounds [OF inv h] by (simp add: es_def)
  have a: "unat (rb_head (pq_ringbuf q) * pq_elem_size q) = h * es"
    using pq_addr [OF inv h] by (simp add: h_def es_def)
  have l: "h * es + length src \<le> length (pq_data q)" using b len by (simp add: es_def)
  show "mem_write (pq_data q) (unat (rb_head (pq_ringbuf q) * pq_elem_size q)) src = Inr (pq_data q1)"
    using l by (simp add: a q1_def)
  show "pq_inv q1" using inv l by (simp add: q1_def pq_inv_def)
  show "slot es (pq_data q1) h = src @ drop (length src) (slot es (pq_data q) h)"
    using slot_mem_upd_same [OF b] len by (simp add: q1_def es_def)
  have "slot es (pq_data q1) i = slot es (pq_data q) i" if "i \<in> set (rb_slots (pq_ringbuf q))" for i
  proof -
    have "i \<noteq> h" using that rb_head_not_occupied [OF pq_inv_rb [OF inv]] may
      by (auto simp: h_def rb_may_write_def)
    moreover have "i * es + es \<le> length (pq_data q)"
      using that rb_slots_in_range [OF pq_inv_rb [OF inv]] pq_slot_bounds [OF inv] by (simp add: es_def)
    ultimately show ?thesis
      using slot_mem_upd_other [of h i es "pq_data q" src] b len by (simp add: q1_def es_def)
  qed
  then show "pq_elems q1 = pq_elems q" by (simp add: pq_elems_def q1_def es_def)
qed

lemma shm_par_queue_write_finish_ok:
  assumes inv: "pq_inv q" and may: "rb_may_write (pq_ringbuf q) 1"
  shows "\<exists>q'. shm_par_queue_write_finish q = Inr q' \<and> pq_inv q' \<and>
    pq_capacity q' = pq_capacity q \<and> pq_elem_size q' = pq_elem_size q \<and>
    pq_elems q' = pq_elems q @ [slot (unat (pq_elem_size q)) (pq_data q) (unat (rb_head (pq_ringbuf q)))]"
proof -
  note i = pq_inv_rb [OF inv]
  obtain rb where rb: "shm_spsc_ringbuf_write_finish (pq_ringbuf q) 1 = Inr rb" "rb_inv rb"
    "rb_capacity rb = rb_capacity (pq_ringbuf q)"
    "rb_slots rb = rb_slots (pq_ringbuf q) @ [unat (rb_head (pq_ringbuf q))]"
    using shm_spsc_ringbuf_write_finish_ok [OF i, of 1] may rb_cap_SIZE_MAX_1 [OF i] rb_invD(1) [OF i]
    by auto
  show ?thesis
    using rb pq_inv_update [OF inv rb(2,3)] by (auto simp: shm_par_queue_write_finish_def pq_elems_def)
qed

lemma shm_par_queue_push_ok:
  assumes inv: "pq_inv q" and sz: "sz \<le> pq_elem_size q" and elem: "unat sz \<le> length elem"
  shows "\<exists>q' pad. shm_par_queue_push q elem sz = Inr (length (pq_elems q) < unat (pq_capacity q), q') \<and>
    pq_inv q' \<and> pq_capacity q' = pq_capacity q \<and> pq_elem_size q' = pq_elem_size q \<and>
    pq_elems q' = (if length (pq_elems q) < unat (pq_capacity q)
                   then pq_elems q @ [take (unat sz) elem @ pad] else pq_elems q) \<and>
    length pad = unat (pq_elem_size q) - unat sz"
proof (cases "length (pq_elems q) < unat (pq_capacity q)")
  case False
  then obtain q1 where "shm_par_queue_write_ptr q = (None, q1)" "pq_inv q1" "pq_elems q1 = pq_elems q"
    "pq_capacity q1 = pq_capacity q" "pq_elem_size q1 = pq_elem_size q"
    using shm_par_queue_write_ptr_ok [OF inv] by auto
  moreover have "\<exists>pad :: byte list. length pad = unat (pq_elem_size q) - unat sz"
    by (rule exI [of _ "replicate _ 0"]) simp
  ultimately show ?thesis using False sz by (auto simp: shm_par_queue_push_def simp del: length_pq_elems)
next
  case True
  let ?src = "take (unat sz) elem"
  obtain q1 where w: "shm_par_queue_write_ptr q = (Some (rb_head (pq_ringbuf q) * pq_elem_size q), q1)"
    and q1: "pq_inv q1" "pq_elems q1 = pq_elems q" "pq_capacity q1 = pq_capacity q"
      "pq_elem_size q1 = pq_elem_size q" "pq_data q1 = pq_data q"
      "rb_head (pq_ringbuf q1) = rb_head (pq_ringbuf q)" "rb_may_write (pq_ringbuf q1) 1"
    using shm_par_queue_write_ptr_ok [OF inv] True by auto
  let ?h = "unat (rb_head (pq_ringbuf q))" and ?es = "unat (pq_elem_size q)"
  have len: "length ?src \<le> unat (pq_elem_size q1)" using sz q1(4) elem by (simp add: word_le_nat_alt)
  note ws = pq_write_slot [OF q1(1,7) len, unfolded q1(4,5,6)]
  let ?q2 = "q1\<lparr>pq_data := mem_upd (pq_data q) (?h * ?es) ?src\<rparr>"
  obtain q3 where f: "shm_par_queue_write_finish ?q2 = Inr q3" and q3: "pq_inv q3"
    "pq_capacity q3 = pq_capacity q" "pq_elem_size q3 = pq_elem_size q"
    "pq_elems q3 = pq_elems q @ [?src @ drop (length ?src) (slot ?es (pq_data q) ?h)]"
    using shm_par_queue_write_finish_ok [OF ws(2)] q1 ws(3,4) by auto
  have "length (slot ?es (pq_data q) ?h) = ?es"
    using pq_slot_bounds [OF inv rb_invD(1) [OF pq_inv_rb [OF inv]]] by simp
  moreover have "shm_par_queue_push q elem sz = Inr (True, q3)"
    using sz w f ws(1) elem q1(5) by (simp add: shm_par_queue_push_def)
  ultimately show ?thesis using True q3 elem by (auto simp: min_absorb2)
qed

text \<open>Writing a whole element through the pointer \<open>write_ptr\<close> returns.\<close>

lemma write_through_pointer:
  assumes inv: "pq_inv q" and room: "length (pq_elems q) < unat (pq_capacity q)"
  shows "\<exists>p q1 old. shm_par_queue_write_ptr q = (Some p, q1) \<and>
    mem_read (pq_data q1) (unat p) (unat (pq_elem_size q1)) = Inr old \<and> length old = unat (pq_elem_size q) \<and>
    (\<forall>x. length x = unat (pq_elem_size q) \<longrightarrow> (\<exists>d q2. mem_write (pq_data q1) (unat p) x = Inr d \<and>
       shm_par_queue_write_finish (q1\<lparr>pq_data := d\<rparr>) = Inr q2 \<and> pq_inv q2 \<and> pq_elems q2 = pq_elems q @ [x] \<and>
       pq_capacity q2 = pq_capacity q \<and> pq_elem_size q2 = pq_elem_size q))"
proof -
  let ?p = "rb_head (pq_ringbuf q) * pq_elem_size q" and ?h = "unat (rb_head (pq_ringbuf q))" and ?es = "unat (pq_elem_size q)"
  obtain q1 where w: "shm_par_queue_write_ptr q = (Some ?p, q1)"
    and q1: "pq_inv q1" "pq_elems q1 = pq_elems q" "pq_capacity q1 = pq_capacity q"
      "pq_elem_size q1 = pq_elem_size q" "pq_data q1 = pq_data q"
      "rb_head (pq_ringbuf q1) = rb_head (pq_ringbuf q)" "rb_may_write (pq_ringbuf q1) 1"
    using shm_par_queue_write_ptr_ok [OF inv] room by auto
  have h: "rb_head (pq_ringbuf q) < rb_capacity (pq_ringbuf q)" using pq_inv_rb [OF inv] by (simp add: rb_inv_def)
  have b: "?h * ?es + ?es \<le> length (pq_data q)" and a: "unat ?p = ?h * ?es"
    using pq_slot_bounds [OF inv rb_invD(1) [OF pq_inv_rb [OF inv]]] pq_addr [OF inv rb_invD(1) [OF pq_inv_rb [OF inv]]] by simp_all
  have "\<exists>d q2. mem_write (pq_data q1) (unat ?p) x = Inr d \<and>
       shm_par_queue_write_finish (q1\<lparr>pq_data := d\<rparr>) = Inr q2 \<and> pq_inv q2 \<and> pq_elems q2 = pq_elems q @ [x] \<and>
       pq_capacity q2 = pq_capacity q \<and> pq_elem_size q2 = pq_elem_size q" if len: "length x = ?es" for x
  proof -
    have le: "length x \<le> unat (pq_elem_size q1)" using len q1(4) by simp
    note ws = pq_write_slot [OF q1(1,7) le, unfolded q1(4,5,6)]
    obtain q2 where "shm_par_queue_write_finish (q1\<lparr>pq_data := mem_upd (pq_data q) (?h * ?es) x\<rparr>) = Inr q2" "pq_inv q2"
        "pq_capacity q2 = pq_capacity q" "pq_elem_size q2 = pq_elem_size q"
        "pq_elems q2 = pq_elems q @ [x @ drop (length x) (slot ?es (pq_data q) ?h)]"
      using shm_par_queue_write_finish_ok [OF ws(2)] q1 ws(3,4) by auto
    then show ?thesis using a b q1(5) len by auto
  qed
  then show ?thesis using w q1(4,5) a b by auto
qed

lemma shm_par_queue_read_ok:
  assumes inv: "pq_inv q" and rb: "rb_inv rb" "rb_consumer_frame (pq_ringbuf q) rb"
  shows "pq_inv (q\<lparr>pq_ringbuf := rb\<rparr>)" and "pq_elems (q\<lparr>pq_ringbuf := rb\<rparr>) = pq_elems q"
  using pq_inv_update [OF inv rb(1)] rb_consumer_frame_simps [OF rb(2)] by (simp_all add: pq_elems_def)

lemma of_nat_rb_avail_pos:
  "rb_inv b \<Longrightarrow> (0 :: size_t) < of_nat (rb_avail b) \<longleftrightarrow> 0 < rb_avail b"
  by (simp add: word_less_nat_alt unat_of_nat_avail)

lemma rb_slots_tail:
  "rb_inv b \<Longrightarrow> rb_slots b \<noteq> [] \<Longrightarrow> hd (rb_slots b) = unat (rb_tail b)"
  by (auto simp: rb_slots_def hd_map upt_conv_Cons rb_invD split: if_splits)

lemma pq_top_slot:
  assumes "pq_inv q" and "pq_elems q \<noteq> []"
  shows "pq_deref q (rb_tail (pq_ringbuf q) * pq_elem_size q) = hd (pq_elems q)"
    and "unat (rb_tail (pq_ringbuf q) * pq_elem_size q) + unat (pq_elem_size q) \<le> length (pq_data q)"
proof -
  note i = pq_inv_rb [OF assms(1)]
  have a: "unat (rb_tail (pq_ringbuf q) * pq_elem_size q) =
      unat (rb_tail (pq_ringbuf q)) * unat (pq_elem_size q)"
    using pq_addr [OF assms(1) rb_invD(2) [OF i]] by simp
  show "unat (rb_tail (pq_ringbuf q) * pq_elem_size q) + unat (pq_elem_size q) \<le> length (pq_data q)"
    using pq_slot_bounds [OF assms(1) rb_invD(2) [OF i]] a by simp
  show "pq_deref q (rb_tail (pq_ringbuf q) * pq_elem_size q) = hd (pq_elems q)"
    using rb_slots_tail [OF i] assms(2) by (simp add: pq_elems_def hd_map pq_deref_def a slot_def)
qed

lemma shm_par_queue_pop_ok:
  assumes inv: "pq_inv q"
  shows "\<exists>q'. shm_par_queue_pop q = Inr (case pq_elems q of [] \<Rightarrow> None | y # _ \<Rightarrow> Some y, q') \<and>
    pq_inv q' \<and> pq_capacity q' = pq_capacity q \<and> pq_elem_size q' = pq_elem_size q \<and>
    pq_elems q' = tl (pq_elems q)"
proof -
  note i = pq_inv_rb [OF inv]
  obtain rb where r: "shm_spsc_ringbuf_read_off_nowrap (pq_ringbuf q) =
      Inr (rb_tail (pq_ringbuf q), of_nat (rb_avail rb), rb)"
    and rb: "rb_inv rb" "rb_consumer_frame (pq_ringbuf q) rb" "rb_avail rb = 0 \<longleftrightarrow> rb_slots (pq_ringbuf q) = []"
    using shm_spsc_ringbuf_read_off_nowrap_ok [OF i] by auto
  let ?q1 = "q\<lparr>pq_ringbuf := rb\<rparr>"
  note q1 = shm_par_queue_read_ok [OF inv rb(1,2)] and fr = rb_consumer_frame_simps [OF rb(2)]
  show ?thesis
  proof (cases "pq_elems q")
    case Nil
    then have "rb_avail rb = 0" using rb(3) by (simp add: pq_elems_def)
    then show ?thesis using Nil q1 r by (simp add: shm_par_queue_pop_def)
  next
    case (Cons y ys)
    then have "0 < rb_avail rb" using rb(3) by (auto simp: pq_elems_def)
    then have pos: "(0::size_t) < of_nat (rb_avail rb)" "unat (1 :: size_t) \<le> rb_avail rb"
      using of_nat_rb_avail_pos [OF rb(1)] by simp_all
    obtain rb2 where c: "shm_spsc_ringbuf_consume rb 1 = Inr rb2" and rb2: "rb_inv rb2"
      "rb_capacity rb2 = rb_capacity rb" "rb_slots rb2 = drop 1 (rb_slots rb)"
      using shm_spsc_ringbuf_consume_ok [OF rb(1) _ pos(2) rb_cap_SIZE_MAX_1 [OF rb(1)]] by auto
    have rd: "mem_read (pq_data q) (unat (rb_tail (pq_ringbuf q) * pq_elem_size q)) (unat (pq_elem_size q)) = Inr y"
      using pq_top_slot [OF inv] Cons by (simp add: pq_deref_def)
    have "pq_elems (q\<lparr>pq_ringbuf := rb2\<rparr>) = tl (pq_elems q)"
      using rb2(3) fr(1) by (simp add: pq_elems_def drop_Suc flip: map_tl)
    then show ?thesis
      using r pos(1) rd c Cons pq_inv_update [OF inv rb2(1)] rb2(2) fr(3)
      by (simp add: shm_par_queue_pop_def)
  qed
qed

lemma shm_par_queue_top_ok:
  assumes inv: "pq_inv q"
  shows "\<exists>p q'. shm_par_queue_top q = Inr (p, q') \<and> pq_inv q' \<and> pq_elems q' = pq_elems q \<and>
    rb_consumer_frame (pq_ringbuf q) (pq_ringbuf q') \<and> q' = q\<lparr>pq_ringbuf := pq_ringbuf q'\<rparr> \<and>
    (case p of None \<Rightarrow> pq_elems q = []
     | Some a \<Rightarrow> pq_elems q \<noteq> [] \<and> pq_deref q a = hd (pq_elems q) \<and> 0 < rb_avail (pq_ringbuf q'))"
proof -
  obtain rb where r: "shm_spsc_ringbuf_read_off_nowrap (pq_ringbuf q) =
      Inr (rb_tail (pq_ringbuf q), of_nat (rb_avail rb), rb)"
    and rb: "rb_inv rb" "rb_consumer_frame (pq_ringbuf q) rb" "rb_avail rb = 0 \<longleftrightarrow> rb_slots (pq_ringbuf q) = []"
    using shm_spsc_ringbuf_read_off_nowrap_ok [OF pq_inv_rb [OF inv]] by auto
  show ?thesis
  proof (cases "pq_elems q = []")
    case True
    then show ?thesis
      using rb r shm_par_queue_read_ok [OF inv rb(1,2)]
      by (simp add: shm_par_queue_top_def pq_elems_def)
  next
    case False
    then have "0 < rb_avail rb" using rb(3) by (simp add: pq_elems_def)
    with False show ?thesis
      using rb r shm_par_queue_read_ok [OF inv rb(1,2)] pq_top_slot(1) [OF inv False]
        of_nat_rb_avail_pos [OF rb(1)]
      by (simp add: shm_par_queue_top_def)
  qed
qed

lemma shm_par_queue_drop_ok:
  assumes inv: "pq_inv q" and k: "0 < k" "unat k \<le> rb_avail (pq_ringbuf q)"
    and ov: "rb_capacity (pq_ringbuf q) < SIZE_MAX - k"
  shows "\<exists>q'. shm_par_queue_drop q k = Inr q' \<and> pq_inv q' \<and> pq_capacity q' = pq_capacity q \<and>
    pq_elem_size q' = pq_elem_size q \<and> pq_elems q' = drop (unat k) (pq_elems q)"
proof -
  obtain rb where "shm_spsc_ringbuf_consume (pq_ringbuf q) k = Inr rb" "rb_inv rb"
    "rb_capacity rb = rb_capacity (pq_ringbuf q)" "rb_slots rb = drop (unat k) (rb_slots (pq_ringbuf q))"
    using shm_spsc_ringbuf_consume_ok [OF pq_inv_rb [OF inv] k ov] by blast
  then show ?thesis using pq_inv_update [OF inv] by (simp add: shm_par_queue_drop_def pq_elems_def drop_map)
qed

section \<open>Peeking\<close>

text \<open>A view describes the \<open>m\<close> oldest elements (or all of them, if there are fewer).\<close>

definition view_ok ::
    "shm_par_queue \<Rightarrow> nat \<Rightarrow> (size_t \<times> size_t \<times> size_t option \<times> size_t) option \<Rightarrow> bool" where
  "view_ok q m view =
     (case view of
        None \<Rightarrow> pq_elems q = []
      | Some (ptr1, len1, ptr2, len2) \<Rightarrow>
          pq_elems q \<noteq> [] \<and> len1 > 0 \<and> ptr1 = rb_tail (pq_ringbuf q) * pq_elem_size q \<and>
          ptr2 = (if len2 > 0 then Some 0 else None) \<and>
          peek_ranges (rb_tail (pq_ringbuf q), len1, len2) = take m (rb_slots (pq_ringbuf q)))"

lemma shm_par_queue_peek_ok:
  assumes inv: "pq_inv q" and m: "m = (if n = 0 then SIZE_MAX else n)"
  shows "\<exists>view rb'. shm_par_queue_peek q n = Inr (of_nat (rb_avail rb'), view, q\<lparr>pq_ringbuf := rb'\<rparr>) \<and>
    rb_inv rb' \<and> rb_consumer_frame (pq_ringbuf q) rb' \<and>
    (unat m \<le> rb_avail rb' \<or> rb_avail rb' = length (pq_elems q)) \<and> view_ok q (unat m) view \<and>
    (view = None \<longleftrightarrow> rb_avail rb' = 0)"
proof -
  have "m \<noteq> 0" using m by (simp add: word_64_eq_iff)
  then obtain r rb where p: "shm_spsc_ringbuf_peek (pq_ringbuf q) m = Inr (of_nat (rb_avail rb), r, rb)"
    and rb: "rb_inv rb" "rb_consumer_frame (pq_ringbuf q) rb"
      "unat m \<le> rb_avail rb \<or> rb_avail rb = rb_written (pq_ringbuf q)"
    and r: "case r of None \<Rightarrow> rb_slots (pq_ringbuf q) = [] \<and> rb_avail rb = 0
     | Some (off, len1, len2) \<Rightarrow> rb_slots (pq_ringbuf q) \<noteq> [] \<and> len1 > 0 \<and> off = rb_tail (pq_ringbuf q) \<and>
         peek_ranges (off, len1, len2) = take (unat m) (rb_slots (pq_ringbuf q))"
    using shm_spsc_ringbuf_peek_ok [OF pq_inv_rb [OF inv], of m] by auto
  show ?thesis
  proof (cases r)
    case None
    with r p rb show ?thesis
      by (intro exI [of _ None] exI [of _ rb])
        (simp add: shm_par_queue_peek_def view_ok_def pq_elems_def flip: m)
  next
    case (Some out)
    obtain off len1 len2 where out: "out = (off, len1, len2)" by (cases out)
    have "0 < rb_avail rb"
      using r Some out rb(3) \<open>m \<noteq> 0\<close> by (auto simp: word_64_eq_iff simp flip: length_greater_0_conv)
    with Some out r p rb show ?thesis
      using of_nat_rb_avail_pos [OF rb(1)]
      by (auto simp: shm_par_queue_peek_def view_ok_def pq_elems_def simp flip: m)
  qed
qed

lemma pq_deref_slot:
  assumes "pq_inv q" and "unat off = rb_slots (pq_ringbuf q) ! i" and "i < length (pq_elems q)"
  shows "pq_deref q (off * pq_elem_size q) = pq_elems q ! i"
proof -
  have "unat off < unat (rb_capacity (pq_ringbuf q))"
    using rb_slots_in_range [OF pq_inv_rb [OF assms(1)], of "unat off"] assms(2,3) by simp
  then show ?thesis
    using pq_addr [OF assms(1), of "unat off" off] assms(2,3) by (simp add: pq_deref_def pq_elems_def slot_def)
qed

lemma view_at_ok:
  assumes inv: "pq_inv q" and v: "view_ok q m view" and k: "unat k < m" "unat k < length (pq_elems q)"
  shows "\<exists>p. view_at (pq_elem_size q) view k = Inr p \<and> pq_deref q p = pq_elems q ! unat k"
proof -
  let ?t = "rb_tail (pq_ringbuf q)" and ?sl = "rb_slots (pq_ringbuf q)"
  have ne: "pq_elems q \<noteq> []" using k(2) by (auto simp del: length_pq_elems)
  obtain len1 len2 where view: "view = Some (?t * pq_elem_size q, len1, if len2 > 0 then Some 0 else None, len2)"
    and pr: "peek_ranges (?t, len1, len2) = take m ?sl"
    using v ne by (auto simp: view_ok_def split: option.splits)
  have len: "unat len1 + unat len2 = min m (length ?sl)"
    using arg_cong [OF pr, of length] by (simp add: peek_ranges_def min.commute)
  have kl: "unat k < unat len1 + unat len2" using len k by simp
  have nth: "peek_ranges (?t, len1, len2) ! unat k = ?sl ! unat k" using pr k(1) by simp
  show ?thesis
  proof (cases "k < len1")
    case True
    have s: "?sl ! unat k = unat ?t + unat k"
      using nth True by (simp add: peek_ranges_def nth_append word_less_nat_alt)
    moreover have "?sl ! unat k < unat (rb_capacity (pq_ringbuf q))"
      using rb_slots_in_range [OF pq_inv_rb [OF inv], of "?sl ! unat k"] k(2) by simp
    ultimately have "unat (?t + k) = ?sl ! unat k"
      using rb_invD(5) [OF pq_inv_rb [OF inv]] by (simp add: unat_add_64)
    then have "pq_deref q ((?t + k) * pq_elem_size q) = pq_elems q ! unat k"
      using pq_deref_slot [OF inv _ k(2)] by simp
    then show ?thesis using True by (simp add: view view_at_def distrib_right)
  next
    case False
    then have u: "unat (k - len1) = unat k - unat len1" by (simp add: unat_sub_64 word_less_nat_alt)
    have s: "?sl ! unat k = unat (k - len1)"
      using nth False kl u by (simp add: peek_ranges_def nth_append word_less_nat_alt)
    have "k - len1 < len2" "0 < len2" using u kl False by (auto simp: word_less_nat_alt)
    moreover have "pq_deref q ((k - len1) * pq_elem_size q) = pq_elems q ! unat k"
      using pq_deref_slot [OF inv _ k(2)] s by simp
    ultimately show ?thesis using False by (simp add: view view_at_def Let_def)
  qed
qed

lemma pq_deref_upd [simp]: "pq_deref (q\<lparr>pq_ringbuf := rb\<rparr>) p = pq_deref q p"
  by (simp add: pq_deref_def)

lemma unat_succ_or_max:
  "unat k < unat (if k = SIZE_MAX then k else k + 1) \<or> (k = SIZE_MAX \<and> unat (if k = SIZE_MAX then k else k + 1) = unat k)"
  using unat_less_2p64 [of k] by (auto simp: word_64_eq_iff unat_add_64)

lemma pq_elems_less_max: "pq_inv q \<Longrightarrow> length (pq_elems q) < 18446744073709551614"
  using rb_written_less [of "pq_ringbuf q"] rb_invD(5) [of "pq_ringbuf q"] by (simp add: pq_inv_def)

lemma shm_par_queue_peek_at_ok:
  assumes inv: "pq_inv q"
  shows "\<exists>p rb'. shm_par_queue_peek_at q k = Inr (p, q\<lparr>pq_ringbuf := rb'\<rparr>) \<and>
    rb_inv rb' \<and> rb_consumer_frame (pq_ringbuf q) rb' \<and>
    map_option (pq_deref q) p = (if unat k < length (pq_elems q) then Some (pq_elems q ! unat k) else None)"
proof -
  define n where "n = (if k = SIZE_MAX then k else k + 1)"
  define m where "m = (if n = 0 then SIZE_MAX else n)"
  have n0: "n \<noteq> 0" using unat_less_2p64 [of k] by (auto simp: n_def word_64_eq_iff unat_add_64 split: if_splits)
  obtain view rb where p: "shm_par_queue_peek q n = Inr (of_nat (rb_avail rb), view, q\<lparr>pq_ringbuf := rb\<rparr>)"
    and rb: "rb_inv rb" "rb_consumer_frame (pq_ringbuf q) rb"
      "unat m \<le> rb_avail rb \<or> rb_avail rb = length (pq_elems q)" and v: "view_ok q (unat m) view"
    using shm_par_queue_peek_ok [OF inv m_def] by (elim exE conjE) (rule that)
  have le: "rb_avail rb \<le> length (pq_elems q)"
    using rb_invD(6) [OF rb(1)] rb_consumer_frame_simps [OF rb(2)] by simp
  have un: "unat (of_nat (rb_avail rb) :: size_t) = rb_avail rb" by (rule unat_of_nat_avail(1) [OF rb(1)])
  have mk: "unat k < unat m \<or> (unat k = 18446744073709551615 \<and> unat m = unat k)"
    using unat_succ_or_max [of k] n0 by (auto simp: m_def n_def)
  show ?thesis
  proof (cases "unat k < length (pq_elems q)")
    case True
    then have "unat k < unat m" using mk pq_elems_less_max [OF inv] by linarith
    then obtain a where a: "view_at (pq_elem_size q) view k = Inr a" "pq_deref q a = pq_elems q ! unat k"
      using view_at_ok [OF inv v _ True] by blast
    have "\<not> of_nat (rb_avail rb) \<le> k"
      using rb(3) un True \<open>unat k < unat m\<close> by (auto simp: word_le_nat_alt)
    then show ?thesis using True p a rb(1,2) by (auto simp: shm_par_queue_peek_at_def simp flip: n_def)
  next
    case False
    then have "of_nat (rb_avail rb) \<le> k" using le un by (simp add: word_le_nat_alt)
    then show ?thesis using False p rb(1,2) by (auto simp: shm_par_queue_peek_at_def simp flip: n_def)
  qed
qed

lemma shm_par_queue_peek_atmost_at_ok:
  assumes inv: "pq_inv q"
  shows "\<exists>p k' rb'. shm_par_queue_peek_atmost_at q k = Inr (p, k', q\<lparr>pq_ringbuf := rb'\<rparr>) \<and>
    rb_inv rb' \<and> rb_consumer_frame (pq_ringbuf q) rb' \<and>
    (if pq_elems q = [] then p = None \<and> k' = 0
     else map_option (pq_deref q) p = Some (pq_elems q ! unat k') \<and>
       unat k' = min (unat k) (length (pq_elems q) - 1) \<and> unat k' < rb_avail rb')"
proof -
  define n where "n = (if k = SIZE_MAX then k else k + 1)"
  define m where "m = (if n = 0 then SIZE_MAX else n)"
  have n0: "n \<noteq> 0" using unat_less_2p64 [of k] by (auto simp: n_def word_64_eq_iff unat_add_64 split: if_splits)
  obtain view rb where p: "shm_par_queue_peek q n = Inr (of_nat (rb_avail rb), view, q\<lparr>pq_ringbuf := rb\<rparr>)"
    and rb: "rb_inv rb" "rb_consumer_frame (pq_ringbuf q) rb"
      "unat m \<le> rb_avail rb \<or> rb_avail rb = length (pq_elems q)" and v: "view_ok q (unat m) view"
      "view = None \<longleftrightarrow> rb_avail rb = 0"
    using shm_par_queue_peek_ok [OF inv m_def] by (elim exE conjE) (rule that)
  have le: "rb_avail rb \<le> length (pq_elems q)"
    using rb_invD(6) [OF rb(1)] rb_consumer_frame_simps [OF rb(2)] by simp
  have un: "unat (of_nat (rb_avail rb) :: size_t) = rb_avail rb" by (rule unat_of_nat_avail(1) [OF rb(1)])
  have mk: "unat k < unat m \<or> (unat k = 18446744073709551615 \<and> unat m = unat k)"
    using unat_succ_or_max [of k] n0 by (auto simp: m_def n_def)
  show ?thesis
  proof (cases "pq_elems q = []")
    case True
    then have "rb_avail rb = 0" using le by simp
    then show ?thesis using True p rb(1,2) by (auto simp: shm_par_queue_peek_atmost_at_def simp flip: n_def)
  next
    case False
    then have pos: "0 < rb_avail rb" using v by (auto simp: view_ok_def split: option.splits)
    define k' where "k' = (if of_nat (rb_avail rb) \<le> k then of_nat (rb_avail rb) - 1 else k)"
    have uk: "unat k' = min (unat k) (rb_avail rb - 1)"
      using pos un by (auto simp: k'_def word_le_nat_alt unat_sub_64)
    have all: "rb_avail rb \<le> unat k \<Longrightarrow> rb_avail rb = length (pq_elems q)"
      using rb(3) mk le pq_elems_less_max [OF inv] by linarith
    have k': "unat k' = min (unat k) (length (pq_elems q) - 1)" using uk all pos le by (auto simp: min_def)
    have "unat k' < unat m" using mk uk pos le pq_elems_less_max [OF inv] all rb(3) by linarith
    moreover have "unat k' < length (pq_elems q)" using uk le pos by linarith
    ultimately obtain a where a: "view_at (pq_elem_size q) view k' = Inr a" "pq_deref q a = pq_elems q ! unat k'"
      using view_at_ok [OF inv v(1)] by blast
    have "(of_nat (rb_avail rb) :: size_t) \<noteq> 0" using pos un by (simp add: word_64_eq_iff)
    moreover have "unat k' < rb_avail rb" using uk pos by simp
    ultimately show ?thesis
      using False p rb(1,2) a k' by (auto simp: shm_par_queue_peek_atmost_at_def Let_def simp flip: n_def k'_def)
  qed
qed

section \<open>The queue as a bounded FIFO\<close>

text \<open>Pushes of whole elements, and pops, as the interface sees them.\<close>

definition pq_push :: "shm_par_queue \<Rightarrow> byte list \<Rightarrow> (bool \<times> shm_par_queue) res" where
  "pq_push q x = shm_par_queue_push q x (pq_elem_size q)"

lemma pq_push_ok:
  assumes inv: "pq_inv q" and x: "length x = unat (pq_elem_size q)"
  shows "\<exists>q'. pq_push q x = Inr (length (pq_elems q) < unat (pq_capacity q), q') \<and> pq_inv q' \<and>
    pq_capacity q' = pq_capacity q \<and> pq_elem_size q' = pq_elem_size q \<and>
    pq_elems q' = (if length (pq_elems q) < unat (pq_capacity q) then pq_elems q @ [x] else pq_elems q)"
  using shm_par_queue_push_ok [OF inv, of "pq_elem_size q" x] x by (auto simp: pq_push_def)

interpretation pq: bounded_fifo pq_inv pq_elems "\<lambda>q. unat (pq_capacity q)"
    "\<lambda>q x. length x = unat (pq_elem_size q)" pq_push shm_par_queue_pop
proof unfold_locales
  fix q :: shm_par_queue and x :: "byte list"
  assume "pq_inv q" and "length x = unat (pq_elem_size q)"
  from pq_push_ok [OF this] show "\<exists>q'. pq_push q x = Inr (length (pq_elems q) < unat (pq_capacity q), q') \<and>
      pq_inv q' \<and> unat (pq_capacity q') = unat (pq_capacity q) \<and>
      (\<lambda>x :: byte list. length x = unat (pq_elem_size q')) = (\<lambda>x. length x = unat (pq_elem_size q)) \<and>
      pq_elems q' = (if length (pq_elems q) < unat (pq_capacity q) then pq_elems q @ [x] else pq_elems q)"
    by auto
next
  fix q :: shm_par_queue
  assume "pq_inv q"
  from shm_par_queue_pop_ok [OF this] show "\<exists>q'. shm_par_queue_pop q =
      Inr (case pq_elems q of [] \<Rightarrow> None | y # _ \<Rightarrow> Some y, q') \<and> pq_inv q' \<and>
      unat (pq_capacity q') = unat (pq_capacity q) \<and>
      (\<lambda>x :: byte list. length x = unat (pq_elem_size q')) = (\<lambda>x. length x = unat (pq_elem_size q)) \<and>
      pq_elems q' = tl (pq_elems q)"
    by auto
qed

section \<open>Properties\<close>

definition pq_raw :: shm_par_queue where
  "pq_raw = \<lparr>pq_ringbuf = rb_example, pq_elem_size = 0, pq_capacity = 0, pq_data = []\<rparr>"

text \<open>A queue of capacity 3 with elements of two bytes that has wrapped around and holds two.\<close>

definition pq_example :: shm_par_queue where
  "pq_example = \<lparr>pq_ringbuf = rb_example, pq_elem_size = 2, pq_capacity = 3,
     pq_data = [30, 31, 0, 0, 0, 0, 10, 11]\<rparr>"

lemma pq_example_inv: "pq_inv pq_example"
  using rb_example_inv by (simp add: pq_inv_def pq_example_def) (simp add: rb_example_def)

lemma pq_example_elems: "pq_elems pq_example = [[10, 11], [30, 31]]"
  by code_simp

text \<open>
  C31: a queue made by \<open>shm_par_queue_init\<close> refines a bounded list: every sequence of pushes (of
  elements of the queue's size) and pops runs without a failed assertion or an access out
  of bounds, and returns what a list bounded by the capacity returns.
\<close>

theorem par_queue_refines_bounded_list:
  assumes "0 < c" "0 < es" "(unat c + 1) * unat es < 18446744073709551616" "c + 1 < SIZE_MAX - 1"
    and "malloc_ok malloc" "malloc ((c + 1) * es) = Some block"
    and "\<forall>p \<in> set ps. \<forall>x \<in> qop_args p. length x = unat es"
  shows "\<exists>q q'. shm_par_queue_init malloc q0 c es = Inr q \<and>
    impl_run pq_push shm_par_queue_pop q ps = Inr (fst (spec_run (unat c) [] ps), q') \<and>
    pq_inv q' \<and> pq_elems q' = snd (spec_run (unat c) [] ps)"
proof -
  have "length block = unat ((c + 1) * es)" using assms(5,6) by (simp add: malloc_ok_def)
  then obtain q where q: "shm_par_queue_init malloc q0 c es = Inr q" "pq_inv q" "pq_elems q = []"
    "pq_capacity q = c" "pq_elem_size q = es"
    using shm_par_queue_init_ok [OF assms(1-4), of malloc block] assms(6) by blast
  then show ?thesis using pq.run_refines [OF q(2), of ps] assms(7) by simp
qed

theorem par_queue_refines_bounded_list_witness:
  "\<exists>q q'. shm_par_queue_init zero_malloc pq_raw 2 1 = Inr q \<and>
    impl_run pq_push shm_par_queue_pop q [Push [7], Push [8], Push [9], Pop] =
      Inr ([Pushed True, Pushed True, Pushed False, Popped (Some [7])], q') \<and>
    pq_elems q' = [[8]]"
proof -
  let ?ps = "[Push [7], Push [8], Push [9], Pop] :: byte list qop list"
  have "spec_run 2 [] ?ps = ([Pushed True, Pushed True, Pushed False, Popped (Some [7])], [[8]])" by simp
  moreover have "\<forall>p \<in> set ?ps. \<forall>x \<in> qop_args p. length x = unat (1 :: size_t)" by simp
  moreover have "zero_malloc ((2 + 1) * 1) = Some (replicate 3 0)" by (simp add: zero_malloc_def)
  ultimately show ?thesis
    using par_queue_refines_bounded_list [of 2 1 zero_malloc "replicate 3 0" ?ps pq_raw] zero_malloc_ok
    by (simp del: impl_run.simps) blast
qed

text \<open>
  \<open>shm_par_queue_push\<close> of an element of any size up to the element size fails exactly when
  the queue holds \<open>capacity\<close> elements; otherwise it appends one element whose first bytes
  are the pushed ones, and every element already in the queue keeps its bytes.
\<close>

theorem par_queue_push:
  assumes "pq_inv q" and "sz \<le> pq_elem_size q" and "unat sz \<le> length elem"
  shows "\<exists>q' ok. shm_par_queue_push q elem sz = Inr (ok, q') \<and> pq_inv q' \<and>
    (ok \<longleftrightarrow> length (pq_elems q) < unat (pq_capacity q)) \<and>
    (if ok then \<exists>x. pq_elems q' = pq_elems q @ [x] \<and> length x = unat (pq_elem_size q) \<and>
        take (unat sz) x = take (unat sz) elem
     else pq_elems q' = pq_elems q)"
proof -
  from shm_par_queue_push_ok [OF assms] obtain q' pad where
    q': "shm_par_queue_push q elem sz = Inr (length (pq_elems q) < unat (pq_capacity q), q')" "pq_inv q'"
      "pq_elems q' = (if length (pq_elems q) < unat (pq_capacity q)
         then pq_elems q @ [take (unat sz) elem @ pad] else pq_elems q)"
    and pad: "length pad = unat (pq_elem_size q) - unat sz" by auto
  have "length (take (unat sz) elem @ pad) = unat (pq_elem_size q)"
    using pad assms(2,3) by (simp add: word_le_nat_alt)
  with q' assms(3) show ?thesis by (auto intro!: exI [of _ "take (unat sz) elem @ pad"])
qed

theorem par_queue_push_witness:
  "\<exists>q' x. shm_par_queue_push pq_example [5] 1 = Inr (True, q') \<and>
    pq_elems q' = [[10, 11], [30, 31], x] \<and> take 1 x = [5]"
proof -
  have "pq_elem_size pq_example = 2" "pq_capacity pq_example = 3" by code_simp+
  with par_queue_push [OF pq_example_inv, of 1 "[5]"] pq_example_elems show ?thesis by auto
qed

text \<open>
  \<open>shm_par_queue_peek_at(k)\<close> returns a pointer to the \<open>k\<close>-th oldest element, also when the
  contents wrap around the end of the array, and \<open>NULL\<close> exactly when there is none; the
  queue's contents do not change.
\<close>

theorem par_queue_peek_at:
  assumes "pq_inv q"
  shows "\<exists>p q'. shm_par_queue_peek_at q k = Inr (p, q') \<and> pq_inv q' \<and> pq_elems q' = pq_elems q \<and>
    map_option (pq_deref q') p = (if unat k < length (pq_elems q) then Some (pq_elems q ! unat k) else None)"
proof -
  from shm_par_queue_peek_at_ok [OF assms, of k] obtain p rb' where
    "shm_par_queue_peek_at q k = Inr (p, q\<lparr>pq_ringbuf := rb'\<rparr>)" "rb_inv rb'" "rb_consumer_frame (pq_ringbuf q) rb'"
    "map_option (pq_deref q) p = (if unat k < length (pq_elems q) then Some (pq_elems q ! unat k) else None)"
    by (elim exE conjE) (rule that)
  moreover have "pq_deref (q\<lparr>pq_ringbuf := rb'\<rparr>) = pq_deref q" by (rule ext) simp
  ultimately show ?thesis using shm_par_queue_read_ok [OF assms] by auto
qed

theorem par_queue_peek_at_witness:
  "\<exists>p q'. shm_par_queue_peek_at pq_example 1 = Inr (p, q') \<and> map_option (pq_deref q') p = Some [30, 31]"
  using par_queue_peek_at [OF pq_example_inv, of 1] by (auto simp: pq_example_elems simp del: length_pq_elems)

text \<open>
  \<open>shm_par_queue_peek_atmost_at(k)\<close> on a non-empty queue returns the \<open>k\<close>-th oldest element
  or, when there are fewer, the newest one, and stores its index in \<open>*k\<close>.
\<close>

theorem par_queue_peek_atmost_at:
  assumes "pq_inv q"
  shows "\<exists>p k' q'. shm_par_queue_peek_atmost_at q k = Inr (p, k', q') \<and> pq_inv q' \<and> pq_elems q' = pq_elems q \<and>
    (if pq_elems q = [] then p = None \<and> k' = 0
     else map_option (pq_deref q') p = Some (pq_elems q ! unat k') \<and>
       unat k' = min (unat k) (length (pq_elems q) - 1))"
proof -
  from shm_par_queue_peek_atmost_at_ok [OF assms, of k] obtain p k' rb' where
    "shm_par_queue_peek_atmost_at q k = Inr (p, k', q\<lparr>pq_ringbuf := rb'\<rparr>)"
    "rb_inv rb'" "rb_consumer_frame (pq_ringbuf q) rb'"
    "if pq_elems q = [] then p = None \<and> k' = 0
     else map_option (pq_deref q) p = Some (pq_elems q ! unat k') \<and>
       unat k' = min (unat k) (length (pq_elems q) - 1) \<and> unat k' < rb_avail rb'"
    by (elim exE conjE) (rule that)
  moreover have "pq_deref (q\<lparr>pq_ringbuf := rb'\<rparr>) = pq_deref q" by (rule ext) simp
  ultimately show ?thesis using shm_par_queue_read_ok [OF assms] by (auto split: if_splits)
qed

theorem par_queue_peek_atmost_at_witness:
  "\<exists>p k' q'. shm_par_queue_peek_atmost_at pq_example 9 = Inr (p, k', q') \<and>
    map_option (pq_deref q') p = Some [30, 31] \<and> unat k' = 1"
  using par_queue_peek_atmost_at [OF pq_example_inv, of 9]
  by (auto simp: pq_example_elems simp del: length_pq_elems)

end
