(* ===== verification/Spsc_Queues.thy ===== *)
theory Spsc_Queues
  imports Fifo_Spec Spsc_Ringbuf
begin

text \<open>
  The two older queues of the repository: the offset queue \<open>core/queue_spsc.c\<close>, which keeps
  an atomic element count beside \<open>head\<close> and \<open>tail\<close>, and the sequential byte queue
  \<open>core/legacy/queue.c\<close>, the second implementation of the FIFO interface.
\<close>

section \<open>The offset queue \<open>queue_spsc.c\<close>\<close>

record shm_queue_spsc =
  qs_capacity :: size_t
  qs_elem_num :: size_t
  qs_head :: size_t
  qs_tail :: size_t
  qs_partial_head :: size_t
  qs_writing_k_elems :: size_t

text \<open>
  \<open>elem_num_inc\<close> and \<open>elem_num_dec\<close> take their argument as an \<open>int\<close>: the count is
  truncated to 32 bits and sign-extended before it is added.
\<close>

definition size_to_int :: "size_t \<Rightarrow> size_t" where
  "size_to_int k = scast (ucast k :: 32 word)"

definition elem_num_inc :: "shm_queue_spsc \<Rightarrow> size_t \<Rightarrow> shm_queue_spsc" where
  "elem_num_inc q k = q\<lparr>qs_elem_num := qs_elem_num q + size_to_int k\<rparr>"

definition elem_num_dec :: "shm_queue_spsc \<Rightarrow> size_t \<Rightarrow> shm_queue_spsc" where
  "elem_num_dec q k = q\<lparr>qs_elem_num := qs_elem_num q - size_to_int k\<rparr>"

definition elem_num :: "shm_queue_spsc \<Rightarrow> size_t" where
  "elem_num q = qs_elem_num q"

definition shm_queue_spsc_init :: "shm_queue_spsc \<Rightarrow> size_t \<Rightarrow> shm_queue_spsc res" where
  "shm_queue_spsc_init q capacity =
     assertE (capacity > 0) ''capacity > 0''
     (Inr (q\<lparr>qs_elem_num := 0, qs_capacity := capacity, qs_head := 0, qs_tail := 0\<rparr>))"

definition shm_queue_spsc_destroy :: "shm_queue_spsc \<Rightarrow> shm_queue_spsc" where
  "shm_queue_spsc_destroy q = q\<lparr>qs_capacity := 0, qs_elem_num := 0\<rparr>"

definition shm_queue_spsc_write_offset :: "shm_queue_spsc \<Rightarrow> size_t option \<times> shm_queue_spsc" where
  "shm_queue_spsc_write_offset q =
     (if elem_num q = qs_capacity q then (None, q)
      else (Some (qs_head q), q\<lparr>qs_partial_head := qs_head q, qs_writing_k_elems := 1\<rparr>))"

definition shm_queue_spsc_writes_finish :: "shm_queue_spsc \<Rightarrow> size_t \<Rightarrow> shm_queue_spsc res" where
  "shm_queue_spsc_writes_finish q written_num =
     assertE (qs_partial_head q = qs_head q) ''Inconsistent head''
     (assertE (written_num \<le> qs_writing_k_elems q) ''written_num <= q->writing_k_elems''
     (assertE (qs_head q + written_num \<le> qs_capacity q) ''q->head + written_num <= q->capacity''
     (let h = qs_head q + written_num;
          h = (if h = qs_capacity q then 0 else h)
      in Inr (elem_num_inc (q\<lparr>qs_head := h\<rparr>) written_num))))"

definition shm_queue_spsc_write_finish :: "shm_queue_spsc \<Rightarrow> shm_queue_spsc res" where
  "shm_queue_spsc_write_finish q = shm_queue_spsc_writes_finish q 1"

definition shm_queue_spsc_consume :: "shm_queue_spsc \<Rightarrow> size_t \<Rightarrow> (size_t \<times> shm_queue_spsc) res" where
  "shm_queue_spsc_consume q k =
     assertE (k > 0) ''k > 0''
     (let num = elem_num q;
          k = (if num < k then num else k);
          t = qs_tail q + k;
          t = (if t \<ge> qs_capacity q then t - qs_capacity q else t);
          q = q\<lparr>qs_tail := t\<rparr>
      in assertE (elem_num q \<ge> k) ''elem_num(q) >= k'' (Inr (k, elem_num_dec q k)))"

definition shm_queue_spsc_free_num :: "shm_queue_spsc \<Rightarrow> size_t" where
  "shm_queue_spsc_free_num q = qs_capacity q - elem_num q"

definition shm_queue_spsc_capacity :: "shm_queue_spsc \<Rightarrow> size_t" where
  "shm_queue_spsc_capacity q = qs_capacity q"

definition shm_queue_spsc_size :: "shm_queue_spsc \<Rightarrow> size_t" where
  "shm_queue_spsc_size q = elem_num q"

text \<open>\<open>peek\<close> returns the element count, \<open>*off1\<close>, \<open>*len1\<close>, \<open>*off2\<close> (if written) and \<open>*len2\<close>.\<close>

definition shm_queue_spsc_peek ::
    "shm_queue_spsc \<Rightarrow> size_t \<Rightarrow> (size_t \<times> size_t \<times> size_t \<times> size_t option \<times> size_t) res" where
  "shm_queue_spsc_peek q n =
     (let cur_elem_num = elem_num q;
          n = (if n > cur_elem_num then cur_elem_num else n);
          pos_end = n + qs_tail q;
          (off1, len1, off2, len2) =
            (if pos_end \<ge> qs_capacity q
             then (qs_tail q, qs_capacity q - qs_tail q, Some 0, pos_end - qs_capacity q)
             else (qs_tail q, n, None, 0))
      in assertE (len1 + len2 = n) ''*len1 + *len2 == n'' (Inr (cur_elem_num, off1, len1, off2, len2)))"

definition shm_queue_spsc_read_offset :: "shm_queue_spsc \<Rightarrow> size_t \<times> size_t" where
  "shm_queue_spsc_read_offset q = (elem_num q, qs_tail q)"

text \<open>\<open>peek_atmost_at\<close>: the result, the value left in \<open>*want_k\<close>, and \<open>*offset\<close> if written.\<close>

definition shm_queue_spsc_peek_atmost_at ::
    "shm_queue_spsc \<Rightarrow> size_t \<Rightarrow> size_t \<times> size_t \<times> size_t option" where
  "shm_queue_spsc_peek_atmost_at q want_k =
     (let num = elem_num q in
      if num = 0 then (0, want_k, None)
      else
        (let (want_k, num) = (if want_k \<ge> num then (num - 1, num - 1) else (want_k, num));
             pos_end = want_k + qs_tail q;
             offset = (if pos_end \<ge> qs_capacity q then pos_end - qs_capacity q else pos_end)
         in (num, want_k, Some offset)))"

text \<open>
  Its invariant: the count is the distance from tail to head, a full queue (head equal to
  tail) being distinguished from an empty one by the count alone.
\<close>

definition qs_inv :: "shm_queue_spsc \<Rightarrow> bool" where
  "qs_inv q \<longleftrightarrow>
     0 < qs_capacity q \<and> unat (qs_capacity q) < 2147483648 \<and>
     qs_head q < qs_capacity q \<and> qs_tail q < qs_capacity q \<and> qs_elem_num q \<le> qs_capacity q \<and>
     unat (qs_head q) = ring_add (unat (qs_capacity q)) (unat (qs_tail q)) (unat (qs_elem_num q))"

definition qs_slots :: "shm_queue_spsc \<Rightarrow> nat list" where
  "qs_slots q = map (ring_add (unat (qs_capacity q)) (unat (qs_tail q))) [0..<unat (qs_elem_num q)]"

lemma size_to_int_small:
  assumes "unat k < 2147483648" shows "size_to_int k = k"
proof -
  have u: "uint k = int (unat k)" by simp
  then have "- 2147483648 \<le> uint k" "uint k < 2147483648" using assms by linarith+
  then have "signed_take_bit 31 (uint k) = uint k"
    by (intro signed_take_bit_int_eq_self) simp_all
  then have "sint (ucast k :: 32 word) = uint k"
    unfolding signed_ucast_eq by simp
  then have "(of_int (sint (ucast k :: 32 word)) :: 64 word) = of_int (uint k)" by simp
  then show ?thesis
    unfolding size_to_int_def of_int_sint of_int_uint by simp
qed

lemma qs_invD:
  assumes "qs_inv q"
  shows "0 < unat (qs_capacity q)" "unat (qs_capacity q) < 2147483648"
    "unat (qs_head q) < unat (qs_capacity q)" "unat (qs_tail q) < unat (qs_capacity q)"
    "unat (qs_elem_num q) \<le> unat (qs_capacity q)"
    "unat (qs_head q) = ring_add (unat (qs_capacity q)) (unat (qs_tail q)) (unat (qs_elem_num q))"
  using assms by (simp_all add: qs_inv_def word_nat)

lemma shm_queue_spsc_init_ok:
  assumes "0 < c" and "unat c < 2147483648"
  shows "\<exists>q'. shm_queue_spsc_init q c = Inr q' \<and> qs_inv q' \<and> qs_slots q' = [] \<and> qs_capacity q' = c"
  using assms by (auto simp: shm_queue_spsc_init_def qs_inv_def qs_slots_def word_nat)

text \<open>Asking for an offset and finishing the write appends that offset.\<close>

lemma shm_queue_spsc_write_ok:
  assumes inv: "qs_inv q"
  shows "if unat (qs_elem_num q) = unat (qs_capacity q)
    then shm_queue_spsc_write_offset q = (None, q)
    else \<exists>q1 q2. shm_queue_spsc_write_offset q = (Some (qs_head q), q1) \<and> qs_inv q1 \<and> qs_slots q1 = qs_slots q \<and>
      shm_queue_spsc_write_finish q1 = Inr q2 \<and> qs_inv q2 \<and> qs_capacity q2 = qs_capacity q \<and>
      qs_slots q2 = qs_slots q @ [unat (qs_head q)]"
proof (cases "unat (qs_elem_num q) = unat (qs_capacity q)")
  case True
  then show ?thesis by (simp add: shm_queue_spsc_write_offset_def elem_num_def word_64_eq_iff)
next
  case False
  note i = qs_invD [OF inv]
  let ?q1 = "q\<lparr>qs_partial_head := qs_head q, qs_writing_k_elems := 1\<rparr>"
  let ?h = "if qs_head q + 1 = qs_capacity q then 0 else qs_head q + 1"
  let ?q2 = "?q1\<lparr>qs_head := ?h, qs_elem_num := qs_elem_num q + 1\<rparr>"
  have h: "unat ?h = ring_add (unat (qs_capacity q)) (unat (qs_head q)) 1"
    using i(2,3) by (auto simp: ring_add_if unat_add_64 word_64_eq_iff split: if_splits)
  have n: "unat (qs_elem_num q + 1) = unat (qs_elem_num q) + 1"
    using i(2,5) by (simp add: unat_add_64)
  have le: "qs_head q + 1 \<le> qs_capacity q" using i(2,3) by (simp add: word_le_nat_alt unat_add_64)
  have hd: "unat ?h = ring_add (unat (qs_capacity q)) (unat (qs_tail q)) (unat (qs_elem_num q) + 1)"
    unfolding h by (subst i(6)) (simp add: ring_add_add)
  have inv2: "qs_inv ?q2"
    using inv False i h n hd ring_add_less [OF i(1)]
    by (simp add: qs_inv_def word_less_nat_alt word_le_nat_alt del: if_split)
  have sl: "qs_slots ?q2 = qs_slots q @ [unat (qs_head q)]"
    using n i(6) by (simp add: qs_slots_def)
  have "shm_queue_spsc_write_finish ?q1 = Inr ?q2"
    using le size_to_int_small [of 1]
    by (simp add: shm_queue_spsc_write_finish_def shm_queue_spsc_writes_finish_def elem_num_inc_def Let_def)
  moreover have "shm_queue_spsc_write_offset q = (Some (qs_head q), ?q1)"
    using False by (simp add: shm_queue_spsc_write_offset_def elem_num_def word_64_eq_iff)
  moreover have "qs_inv ?q1" "qs_slots ?q1 = qs_slots q"
    using inv by (simp_all add: qs_inv_def qs_slots_def)
  moreover have "qs_capacity ?q2 = qs_capacity q" by simp
  ultimately show ?thesis using False inv2 sl by metis
qed

lemma shm_queue_spsc_consume_ok:
  assumes inv: "qs_inv q" and k: "0 < k"
  shows "\<exists>k' q'. shm_queue_spsc_consume q k = Inr (k', q') \<and> unat k' = min (unat k) (unat (qs_elem_num q)) \<and>
    qs_inv q' \<and> qs_capacity q' = qs_capacity q \<and> qs_slots q' = drop (unat k') (qs_slots q)"
proof -
  note i = qs_invD [OF inv]
  define k' where "k' = (if qs_elem_num q < k then qs_elem_num q else k)"
  define t where "t = (if qs_tail q + k' \<ge> qs_capacity q then qs_tail q + k' - qs_capacity q else qs_tail q + k')"
  let ?q' = "q\<lparr>qs_tail := t, qs_elem_num := qs_elem_num q - k'\<rparr>"
  have uk: "unat k' = min (unat k) (unat (qs_elem_num q))"
    by (auto simp: k'_def word_less_nat_alt min_def)
  have kc: "k' \<le> qs_capacity q" "qs_capacity q < SIZE_MAX - k'" "unat k' < 2147483648"
    using uk i(2,5) by (auto simp: word_nat)
  have ut: "unat t = ring_add (unat (qs_capacity q)) (unat (qs_tail q)) (unat k')"
    unfolding t_def using advance_ring_add [OF _ kc(1,2)] i(4) by (simp add: word_less_nat_alt)
  have un: "unat (qs_elem_num q - k') = unat (qs_elem_num q) - unat k'" using uk by (simp add: unat_sub_64)
  have "ring_add (unat (qs_capacity q)) (unat t) (unat (qs_elem_num q) - unat k') = unat (qs_head q)"
    unfolding ut i(6) using uk by (simp add: ring_add_add)
  then have inv': "qs_inv ?q'"
    using inv i ut un ring_add_less [OF i(1)] by (auto simp: qs_inv_def word_nat)
  have "qs_slots ?q' = map (\<lambda>j. ring_add (unat (qs_capacity q)) (unat (qs_tail q)) (unat k' + j))
      [0..<unat (qs_elem_num q) - unat k']"
    by (simp add: qs_slots_def ut un ring_add_add)
  also have "\<dots> = drop (unat k') (qs_slots q)"
    unfolding map_upt_shift using uk by (simp add: qs_slots_def drop_map)
  finally have sl: "qs_slots ?q' = drop (unat k') (qs_slots q)" .
  have "k' \<le> qs_elem_num q" using uk by (simp add: word_le_nat_alt)
  then have "shm_queue_spsc_consume q k = Inr (k', ?q')"
    using k size_to_int_small [OF kc(3)]
    by (simp add: shm_queue_spsc_consume_def elem_num_def elem_num_dec_def Let_def t_def flip: k'_def)
  then show ?thesis using inv' sl uk by auto
qed

lemma ring_ranges_split:
  assumes "t < c" "k \<le> c"
  shows "map (ring_add c t) [0..<k] =
    (if c \<le> k + t then [t..<c] @ [0..<k + t - c] else [t..<t + k])"
  using assms by (intro nth_equalityI) (auto simp: ring_add_if nth_append)

lemma shm_queue_spsc_peek_ok:
  assumes inv: "qs_inv q"
  shows "\<exists>len1 off2 len2. shm_queue_spsc_peek q n = Inr (qs_elem_num q, qs_tail q, len1, off2, len2) \<and>
    (off2 = None \<longrightarrow> len2 = 0) \<and> (off2 = None \<or> off2 = Some 0) \<and>
    peek_ranges (qs_tail q, len1, len2) = take (unat n) (qs_slots q)"
proof -
  note i = qs_invD [OF inv]
  define m where "m = (if n > qs_elem_num q then qs_elem_num q else n)"
  have um: "unat m = min (unat n) (unat (qs_elem_num q))" by (auto simp: m_def word_less_nat_alt min_def)
  have ue: "unat (m + qs_tail q) = unat m + unat (qs_tail q)" using um i(2,4,5) by (auto simp: unat_add_64 min_def)
  have tk: "take (unat n) (qs_slots q) = map (ring_add (unat (qs_capacity q)) (unat (qs_tail q))) [0..<unat m]"
    using um by (auto simp: qs_slots_def take_map min_def)
  have mc: "unat m \<le> unat (qs_capacity q)" using um i(5) by simp
  show ?thesis
  proof (cases "m + qs_tail q \<ge> qs_capacity q")
    case True
    let ?l1 = "qs_capacity q - qs_tail q" and ?l2 = "m + qs_tail q - qs_capacity q"
    have u: "unat ?l1 = unat (qs_capacity q) - unat (qs_tail q)"
      "unat ?l2 = unat m + unat (qs_tail q) - unat (qs_capacity q)"
      using True i(4) ue by (simp_all add: unat_sub_64 word_le_nat_alt)
    have "peek_ranges (qs_tail q, ?l1, ?l2) = take (unat n) (qs_slots q)"
      unfolding tk ring_ranges_split [OF i(4) mc] using True u ue i(4) by (simp add: peek_ranges_def word_le_nat_alt)
    moreover have "?l1 + ?l2 = m" by simp
    ultimately show ?thesis
      using True by (simp add: shm_queue_spsc_peek_def elem_num_def Let_def flip: m_def)
  next
    case False
    have "peek_ranges (qs_tail q, m, 0) = take (unat n) (qs_slots q)"
      unfolding tk ring_ranges_split [OF i(4) mc] using False ue by (simp add: peek_ranges_def word_le_nat_alt)
    then show ?thesis
      using False by (simp add: shm_queue_spsc_peek_def elem_num_def Let_def flip: m_def)
  qed
qed

text \<open>
  \<open>peek_atmost_at\<close> finds the right offset, but its return value is the element count only
  when the wanted index exists; otherwise it is one less (so 0 for a queue of one element).
\<close>

lemma shm_queue_spsc_peek_atmost_at_ok:
  assumes inv: "qs_inv q" and ne: "qs_elem_num q \<noteq> 0"
  shows "\<exists>k' off. shm_queue_spsc_peek_atmost_at q k =
      (if k < qs_elem_num q then qs_elem_num q else qs_elem_num q - 1, k', Some off) \<and>
    unat k' = min (unat k) (unat (qs_elem_num q) - 1) \<and> unat off = qs_slots q ! unat k'"
proof -
  note i = qs_invD [OF inv]
  define k' where "k' = (if k \<ge> qs_elem_num q then qs_elem_num q - 1 else k)"
  define e where "e = k' + qs_tail q"
  define off where "off = (if e \<ge> qs_capacity q then e - qs_capacity q else e)"
  have n0: "0 < unat (qs_elem_num q)" using ne by (simp add: word_64_eq_iff)
  have uk: "unat k' = min (unat k) (unat (qs_elem_num q) - 1)"
    using n0 by (auto simp: k'_def word_nat)
  have ue: "unat e = unat (qs_tail q) + unat k'" using uk i(2,4,5) by (auto simp: e_def unat_add_64 min_def)
  have "unat off = ring_add (unat (qs_capacity q)) (unat (qs_tail q)) (unat k')"
    using ue uk i by (auto simp: off_def ring_add_if word_nat)
  moreover have "unat k' < unat (qs_elem_num q)" using uk n0 by simp
  ultimately have "unat off = qs_slots q ! unat k'" by (simp add: qs_slots_def)
  moreover have "shm_queue_spsc_peek_atmost_at q k =
      (if k < qs_elem_num q then qs_elem_num q else qs_elem_num q - 1, k', Some off)"
    using ne by (auto simp: shm_queue_spsc_peek_atmost_at_def elem_num_def k'_def e_def off_def Let_def)
  ultimately show ?thesis using uk by blast
qed

section \<open>The sequential byte queue \<open>legacy/queue.c\<close>\<close>

record shm_queue =
  lq_size :: size_t
  lq_elem_num :: size_t
  lq_elem_size :: size_t
  lq_head :: size_t
  lq_tail :: size_t
  lq_data :: "byte list"

text \<open>A failed \<open>malloc\<close> is not checked: the block is then empty and no access to it is valid.\<close>

definition shm_queue_init ::
    "(size_t \<Rightarrow> byte list option) \<Rightarrow> size_t \<Rightarrow> size_t \<Rightarrow> shm_queue res" where
  "shm_queue_init malloc sz elem_size =
     assertE (sz > 0) ''size > 0''
     (assertE (elem_size > 0) ''elem_size > 0''
     (Inr \<lparr>lq_size = sz, lq_elem_num = 0, lq_elem_size = elem_size, lq_head = 0, lq_tail = 0,
           lq_data = (case malloc (sz * elem_size) of None \<Rightarrow> [] | Some block \<Rightarrow> block)\<rparr>))"

definition shm_queue_destroy :: "shm_queue \<Rightarrow> shm_queue" where
  "shm_queue_destroy q = q\<lparr>lq_data := []\<rparr>"

definition shm_queue_extend :: "shm_queue \<Rightarrow> size_t option \<times> shm_queue" where
  "shm_queue_extend q =
     (if lq_elem_num q = lq_size q then (None, q)
      else
        (let pos = lq_head q * lq_elem_size q;
             q = q\<lparr>lq_head := lq_head q + 1, lq_elem_num := lq_elem_num q + 1\<rparr>;
             q = (if lq_head q = lq_size q then q\<lparr>lq_head := 0\<rparr> else q)
         in (Some pos, q)))"

definition shm_queue_push :: "shm_queue \<Rightarrow> byte list \<Rightarrow> (bool \<times> shm_queue) res" where
  "shm_queue_push q elem =
     (case shm_queue_extend q of
        (Some pos, q) \<Rightarrow>
          bindE (mem_read elem 0 (unat (lq_elem_size q))) (\<lambda>src.
          bindE (mem_write (lq_data q) (unat pos) src) (\<lambda>data.
          Inr (True, q\<lparr>lq_data := data\<rparr>)))
      | (None, q) \<Rightarrow> Inr (False, q))"

definition shm_queue_pop :: "shm_queue \<Rightarrow> (byte list option \<times> shm_queue) res" where
  "shm_queue_pop q =
     (if lq_elem_num q = 0 then Inr (None, q)
      else
        bindE (mem_read (lq_data q) (unat (lq_tail q * lq_elem_size q)) (unat (lq_elem_size q))) (\<lambda>bytes.
        let q = q\<lparr>lq_tail := lq_tail q + 1, lq_elem_num := lq_elem_num q - 1\<rparr>;
            q = (if lq_tail q = lq_size q then q\<lparr>lq_tail := 0\<rparr> else q)
        in Inr (Some bytes, q)))"

definition shm_queue_max_size :: "shm_queue \<Rightarrow> size_t" where
  "shm_queue_max_size q = lq_size q"

definition shm_queue_size :: "shm_queue \<Rightarrow> size_t" where
  "shm_queue_size q = lq_elem_num q"

definition lq_inv :: "shm_queue \<Rightarrow> bool" where
  "lq_inv q \<longleftrightarrow>
     0 < lq_elem_size q \<and> lq_head q < lq_size q \<and> lq_tail q < lq_size q \<and> lq_elem_num q \<le> lq_size q \<and>
     unat (lq_head q) = ring_add (unat (lq_size q)) (unat (lq_tail q)) (unat (lq_elem_num q)) \<and>
     unat (lq_size q) * unat (lq_elem_size q) < 18446744073709551616 \<and>
     length (lq_data q) = unat (lq_size q) * unat (lq_elem_size q)"

definition lq_slots :: "shm_queue \<Rightarrow> nat list" where
  "lq_slots q = map (ring_add (unat (lq_size q)) (unat (lq_tail q))) [0..<unat (lq_elem_num q)]"

definition lq_elems :: "shm_queue \<Rightarrow> byte list list" where
  "lq_elems q = map (slot (unat (lq_elem_size q)) (lq_data q)) (lq_slots q)"

lemma length_lq_elems [simp]: "length (lq_elems q) = unat (lq_elem_num q)"
  by (simp add: lq_elems_def lq_slots_def)

lemma lq_invD:
  assumes "lq_inv q"
  shows "unat (lq_head q) < unat (lq_size q)" "unat (lq_tail q) < unat (lq_size q)"
    "unat (lq_elem_num q) \<le> unat (lq_size q)"
    "unat (lq_head q) = ring_add (unat (lq_size q)) (unat (lq_tail q)) (unat (lq_elem_num q))"
  using assms by (simp_all add: lq_inv_def word_nat)

lemma lq_slot_bounds:
  assumes "lq_inv q" and "i < unat (lq_size q)"
  shows "i * unat (lq_elem_size q) + unat (lq_elem_size q) \<le> length (lq_data q)"
  using assms by (intro slot_in_bounds [of _ "unat (lq_size q)"]) (simp_all add: lq_inv_def)

lemma lq_addr:
  assumes "lq_inv q" and "unat off < unat (lq_size q)"
  shows "unat (off * lq_elem_size q) = unat off * unat (lq_elem_size q)"
  using assms(1) lq_slot_bounds [OF assms] by (simp add: unat_mult_64 lq_inv_def)

text \<open>Stepping a position by one, with the wrap-around the code writes as an equality test.\<close>

lemma succ_ring_add:
  assumes "unat p < unat c"
  shows "unat (if p + 1 = c then 0 else p + 1 :: size_t) = ring_add (unat c) (unat p) 1"
  using assms unat_less_2p64 [of c] by (auto simp: ring_add_if word_64_eq_iff unat_add_64 split: if_splits)

lemma shm_queue_init_ok:
  assumes "0 < sz" "0 < es" "unat sz * unat es < 18446744073709551616"
    and "malloc (sz * es) = Some block" "length block = unat (sz * es)"
  shows "\<exists>q. shm_queue_init malloc sz es = Inr q \<and> lq_inv q \<and> lq_elems q = [] \<and> lq_size q = sz \<and> lq_elem_size q = es"
  using assms by (auto simp: shm_queue_init_def lq_inv_def lq_elems_def lq_slots_def unat_mult_64 word_nat)

lemma shm_queue_push_ok:
  assumes inv: "lq_inv q" and x: "length x = unat (lq_elem_size q)"
  shows "\<exists>q'. shm_queue_push q x = Inr (length (lq_elems q) < unat (lq_size q), q') \<and> lq_inv q' \<and>
    lq_size q' = lq_size q \<and> lq_elem_size q' = lq_elem_size q \<and>
    lq_elems q' = (if length (lq_elems q) < unat (lq_size q) then lq_elems q @ [x] else lq_elems q)"
proof (cases "unat (lq_elem_num q) < unat (lq_size q)")
  case False
  then have "lq_elem_num q = lq_size q" using lq_invD(3) [OF inv] by (simp add: word_64_eq_iff)
  then show ?thesis using inv by (simp add: shm_queue_push_def shm_queue_extend_def)
next
  case True
  note i = lq_invD [OF inv]
  let ?es = "unat (lq_elem_size q)" and ?h = "unat (lq_head q)" and ?c = "unat (lq_size q)"
  let ?h' = "if lq_head q + 1 = lq_size q then 0 else lq_head q + 1"
  let ?d = "mem_upd (lq_data q) (?h * ?es) x"
  let ?q' = "q\<lparr>lq_head := ?h', lq_elem_num := lq_elem_num q + 1, lq_data := ?d\<rparr>"
  have b: "?h * ?es + ?es \<le> length (lq_data q)" by (rule lq_slot_bounds [OF inv i(1)])
  have un: "unat (lq_elem_num q + 1) = unat (lq_elem_num q) + 1"
    using True unat_less_2p64 [of "lq_size q"] by (simp add: unat_add_64)
  have uh: "unat ?h' = ring_add ?c (unat (lq_tail q)) (unat (lq_elem_num q) + 1)"
    unfolding succ_ring_add [OF i(1)] by (subst i(4)) (simp add: ring_add_add)
  have free: "?h \<notin> set (lq_slots q)"
    unfolding i(4) lq_slots_def using True i(2) by (auto simp: ring_add_inj)
  have keep: "slot ?es ?d j = slot ?es (lq_data q) j" if "j \<in> set (lq_slots q)" for j
  proof -
    have "j < ?c" using that i(1) by (auto simp: lq_slots_def)
    moreover have "?h \<noteq> j" using that free by auto
    ultimately show ?thesis using slot_mem_upd_other [OF _ b lq_slot_bounds [OF inv]] x by simp
  qed
  have sl: "lq_slots ?q' = lq_slots q @ [?h]" using un i(4) by (simp add: lq_slots_def)
  have "lq_elems ?q' = lq_elems q @ [x]"
    unfolding lq_elems_def sl using keep slot_mem_upd_full [OF b x] by simp
  moreover have "0 < ?c" using i(1) by simp
  then have "lq_inv ?q'"
    using inv True un uh b x ring_add_less [of ?c]
    by (simp add: lq_inv_def word_less_nat_alt word_le_nat_alt del: if_split)
  moreover have "shm_queue_push q x = Inr (True, ?q')"
    using True b x lq_addr [OF inv i(1)]
    by (auto simp: shm_queue_push_def shm_queue_extend_def Let_def word_64_eq_iff)
  ultimately show ?thesis using True by auto
qed

lemma shm_queue_pop_ok:
  assumes inv: "lq_inv q"
  shows "\<exists>q'. shm_queue_pop q = Inr (case lq_elems q of [] \<Rightarrow> None | y # _ \<Rightarrow> Some y, q') \<and> lq_inv q' \<and>
    lq_size q' = lq_size q \<and> lq_elem_size q' = lq_elem_size q \<and> lq_elems q' = tl (lq_elems q)"
proof (cases "lq_elem_num q = 0")
  case True
  then have "lq_elems q = []" by (simp add: lq_elems_def lq_slots_def)
  with True show ?thesis using inv by (simp add: shm_queue_pop_def)
next
  case False
  note i = lq_invD [OF inv]
  let ?es = "unat (lq_elem_size q)" and ?t = "unat (lq_tail q)" and ?c = "unat (lq_size q)"
  let ?t' = "if lq_tail q + 1 = lq_size q then 0 else lq_tail q + 1"
  let ?q' = "q\<lparr>lq_tail := ?t', lq_elem_num := lq_elem_num q - 1\<rparr>"
  have pos: "0 < unat (lq_elem_num q)" using False by (simp add: word_64_eq_iff)
  then have un: "unat (lq_elem_num q - 1) = unat (lq_elem_num q) - 1" by (simp add: unat_sub_64)
  note ut = succ_ring_add [OF i(2)]
  have "lq_slots ?q' = map (\<lambda>k. ring_add ?c ?t (1 + k)) [0..<unat (lq_elem_num q) - 1]"
    by (simp add: lq_slots_def un ut ring_add_add del: if_split)
  also have "\<dots> = map (ring_add ?c ?t) [1..<unat (lq_elem_num q)]"
    unfolding map_upt_shift using pos by simp
  finally have sl: "lq_slots q = ?t # lq_slots ?q'"
    using pos i(2) by (simp add: lq_slots_def upt_conv_Cons)
  then have el: "lq_elems q = slot ?es (lq_data q) ?t # lq_elems ?q'" by (simp add: lq_elems_def)
  have "ring_add ?c (unat ?t') (unat (lq_elem_num q) - 1) = unat (lq_head q)"
    unfolding ut i(4) using pos by (simp add: ring_add_add)
  moreover have "0 < ?c" using i(1) by simp
  ultimately have "lq_inv ?q'"
    using inv un ut i(3) by (simp add: lq_inv_def word_less_nat_alt word_le_nat_alt del: if_split)
  moreover have "shm_queue_pop q = Inr (Some (slot ?es (lq_data q) ?t), ?q')"
    using False lq_slot_bounds [OF inv i(2)] lq_addr [OF inv i(2)]
    by (auto simp: shm_queue_pop_def slot_def Let_def)
  ultimately show ?thesis using el by auto
qed

interpretation lq: bounded_fifo lq_inv lq_elems "\<lambda>q. unat (lq_size q)"
    "\<lambda>q x. length x = unat (lq_elem_size q)" shm_queue_push shm_queue_pop
proof unfold_locales
  fix q :: shm_queue and x :: "byte list"
  assume "lq_inv q" and "length x = unat (lq_elem_size q)"
  from shm_queue_push_ok [OF this] show "\<exists>q'. shm_queue_push q x = Inr (length (lq_elems q) < unat (lq_size q), q') \<and>
      lq_inv q' \<and> unat (lq_size q') = unat (lq_size q) \<and>
      (\<lambda>x :: byte list. length x = unat (lq_elem_size q')) = (\<lambda>x. length x = unat (lq_elem_size q)) \<and>
      lq_elems q' = (if length (lq_elems q) < unat (lq_size q) then lq_elems q @ [x] else lq_elems q)"
    by auto
next
  fix q :: shm_queue
  assume "lq_inv q"
  from shm_queue_pop_ok [OF this] show "\<exists>q'. shm_queue_pop q =
      Inr (case lq_elems q of [] \<Rightarrow> None | y # _ \<Rightarrow> Some y, q') \<and> lq_inv q' \<and>
      unat (lq_size q') = unat (lq_size q) \<and>
      (\<lambda>x :: byte list. length x = unat (lq_elem_size q')) = (\<lambda>x. length x = unat (lq_elem_size q)) \<and>
      lq_elems q' = tl (lq_elems q)"
    by auto
qed

lemma qs_slots_distinct:
  assumes "qs_inv q" shows "distinct (qs_slots q)"
proof -
  have "inj_on (ring_add (unat (qs_capacity q)) (unat (qs_tail q))) {0..<unat (qs_elem_num q)}"
    using qs_invD [OF assms] by (intro inj_onI) (simp add: ring_add_inj)
  then show ?thesis by (simp add: qs_slots_def distinct_map)
qed

section \<open>Properties\<close>

definition qs_example :: shm_queue_spsc where
  "qs_example = \<lparr>qs_capacity = 4, qs_elem_num = 3, qs_head = 1, qs_tail = 2, qs_partial_head = 0,
     qs_writing_k_elems = 0\<rparr>"

lemma qs_example_inv: "qs_inv qs_example"
  by (simp add: qs_inv_def qs_example_def ring_add_def)

lemma qs_example_slots: "qs_slots qs_example = [2, 3, 0]"
  by code_simp

text \<open>
  in \<open>queue_spsc\<close> (which counts its elements and uses all its slots) a write is refused
  exactly when the queue is full; otherwise asking for the offset and finishing the write
  passes every assertion and appends that slot, which was free, to the occupied ones.
\<close>

theorem queue_spsc_write:
  assumes "qs_inv q"
  shows "if length (qs_slots q) = unat (qs_capacity q)
    then shm_queue_spsc_write_offset q = (None, q)
    else \<exists>off q1 q2. shm_queue_spsc_write_offset q = (Some off, q1) \<and> shm_queue_spsc_write_finish q1 = Inr q2 \<and>
      qs_inv q2 \<and> qs_slots q2 = qs_slots q @ [unat off] \<and> distinct (qs_slots q2)"
  using shm_queue_spsc_write_ok [OF assms] qs_slots_distinct
  by (auto simp: qs_slots_def split: if_splits)

theorem queue_spsc_write_witness:
  "\<exists>off q1 q2. shm_queue_spsc_write_offset qs_example = (Some off, q1) \<and>
    shm_queue_spsc_write_finish q1 = Inr q2 \<and> qs_slots q2 = [2, 3, 0, unat off] \<and> distinct (qs_slots q2)"
proof -
  have "unat (qs_capacity qs_example) = 4" by code_simp
  with queue_spsc_write [OF qs_example_inv] qs_example_slots show ?thesis by auto
qed

text \<open>
  \<open>shm_queue_spsc_consume(k)\<close> drops the \<open>min k size\<close> oldest slots and returns that number,
  and \<open>peek(n)\<close> before it describes the first \<open>n\<close> slots, oldest first, as two ranges.
\<close>

theorem queue_spsc_peek_consume:
  assumes "qs_inv q" and "0 < k"
  shows "\<exists>num off1 len1 off2 len2 k' q'. shm_queue_spsc_peek q k = Inr (num, off1, len1, off2, len2) \<and>
    unat num = length (qs_slots q) \<and>
    [unat off1..<unat off1 + unat len1] @ [0..<unat len2] = take (unat k) (qs_slots q) \<and>
    shm_queue_spsc_consume q k = Inr (k', q') \<and> unat k' = min (unat k) (length (qs_slots q)) \<and>
    qs_inv q' \<and> qs_slots q' = drop (unat k) (qs_slots q)"
proof -
  have len: "length (qs_slots q) = unat (qs_elem_num q)" by (simp add: qs_slots_def)
  obtain len1 off2 len2 where p: "shm_queue_spsc_peek q k = Inr (qs_elem_num q, qs_tail q, len1, off2, len2)"
    "peek_ranges (qs_tail q, len1, len2) = take (unat k) (qs_slots q)"
    using shm_queue_spsc_peek_ok [OF assms(1), of k] by blast
  obtain k' q' where c: "shm_queue_spsc_consume q k = Inr (k', q')"
    "unat k' = min (unat k) (unat (qs_elem_num q))" "qs_inv q'" "qs_slots q' = drop (unat k') (qs_slots q)"
    using shm_queue_spsc_consume_ok [OF assms] by blast
  have "drop (unat k') (qs_slots q) = drop (unat k) (qs_slots q)"
    using c(2) len by (auto simp: min_def)
  with p c len show ?thesis by (auto simp: peek_ranges_def)
qed

theorem queue_spsc_peek_consume_witness:
  "\<exists>num off1 len1 off2 len2 k' q'. shm_queue_spsc_peek qs_example 2 = Inr (num, off1, len1, off2, len2) \<and>
    [unat off1..<unat off1 + unat len1] @ [0..<unat len2] = [2, 3] \<and>
    shm_queue_spsc_consume qs_example 2 = Inr (k', q') \<and> qs_slots q' = [0]"
  using queue_spsc_peek_consume [OF qs_example_inv, of 2] by (simp add: qs_example_slots) blast

text \<open>
  When at least as many elements are asked for as there are, \<open>peek_atmost_at\<close> returns the
  number of elements less one; for a queue with a single element it returns 0 although it
  hands out an offset.
\<close>

lemma peek_atmost_at_returns_num_minus_1:
  "shm_queue_spsc_peek_atmost_at (qs_example\<lparr>qs_elem_num := 1, qs_head := 3\<rparr>) 0 = (1, 0, Some 2) \<and>
   shm_queue_spsc_peek_atmost_at (qs_example\<lparr>qs_elem_num := 1, qs_head := 3\<rparr>) 1 = (0, 0, Some 2)"
  by code_simp

text \<open>
  C34: the legacy queue made by \<open>shm_queue_init\<close> refines a bounded list: every sequence of
  pushes and pops runs without an access out of bounds and returns what the list returns.
\<close>

theorem legacy_queue_refines_bounded_list:
  assumes "0 < sz" "0 < es" "unat sz * unat es < 18446744073709551616"
    and "malloc_ok malloc" "malloc (sz * es) = Some block"
    and "\<forall>p \<in> set ps. \<forall>x \<in> qop_args p. length x = unat es"
  shows "\<exists>q q'. shm_queue_init malloc sz es = Inr q \<and>
    impl_run shm_queue_push shm_queue_pop q ps = Inr (fst (spec_run (unat sz) [] ps), q') \<and>
    lq_inv q' \<and> lq_elems q' = snd (spec_run (unat sz) [] ps)"
proof -
  have "length block = unat (sz * es)" using assms(4,5) by (simp add: malloc_ok_def)
  then obtain q where q: "shm_queue_init malloc sz es = Inr q" "lq_inv q" "lq_elems q = []"
    "lq_size q = sz" "lq_elem_size q = es"
    using shm_queue_init_ok [OF assms(1-3), of malloc block] assms(5) by blast
  then show ?thesis using lq.run_refines [OF q(2), of ps] assms(6) by simp
qed

theorem legacy_queue_refines_bounded_list_witness:
  "\<exists>q q'. shm_queue_init zero_malloc 1 2 = Inr q \<and>
    impl_run shm_queue_push shm_queue_pop q [Push [7, 8], Push [8, 9], Pop, Pop] =
      Inr ([Pushed True, Pushed False, Popped (Some [7, 8]), Popped None], q') \<and>
    lq_elems q' = []"
proof -
  let ?ps = "[Push [7, 8], Push [8, 9], Pop, Pop] :: byte list qop list"
  have "spec_run 1 [] ?ps = ([Pushed True, Pushed False, Popped (Some [7, 8]), Popped None], [])" by simp
  moreover have "\<forall>p \<in> set ?ps. \<forall>x \<in> qop_args p. length x = unat (2 :: size_t)" by simp
  moreover have "zero_malloc (1 * 2) = Some (replicate 2 0)" by (simp add: zero_malloc_def)
  ultimately show ?thesis
    using legacy_queue_refines_bounded_list [of 1 2 zero_malloc "replicate 2 0" ?ps] zero_malloc_ok
    by (simp del: impl_run.simps) blast
qed

end
