(* ===== verification/Spsc_Concurrent.thy ===== *)
theory Spsc_Concurrent
  imports Par_Queue
begin

text \<open>
  One producer thread in \<open>shm_par_queue_push\<close> and one consumer thread in
  \<open>shm_par_queue_pop\<close>, interleaved. A step is one access to memory the other thread also
  accesses: a load of the other side's position, the copy of an element, the store of
  one's own position; everything between two such accesses touches only variables of the
  thread itself. Loads and stores are sequentially consistent here; the weaker orders of
  the source (acquire, release, relaxed) are not modelled.
\<close>

section \<open>The two halves of the calls\<close>

text \<open>
  \<open>write_off_nowrap\<close> up to the load of \<open>tail\<close>: the answer from the cached tail, or
  \<open>None\<close> when the code reloads; and the rest of it, after the load.
\<close>

definition write_off_cached :: "shm_spsc_ringbuf \<Rightarrow> (size_t \<times> shm_spsc_ringbuf) option" where
  "write_off_cached b =
     (let (free, n, _) = get_write_off (rb_head b) (rb_seen_tail b) (rb_capacity b)
      in if rb_seen_tail b = 0 \<or> free = 0 then None
         else Some (n, b\<lparr>rb_wip_head := rb_head b, rb_wip_n := n\<rparr>))"

definition write_off_reload :: "shm_spsc_ringbuf \<Rightarrow> size_t \<times> shm_spsc_ringbuf" where
  "write_off_reload b =
     (let b = b\<lparr>rb_seen_tail := rb_tail b\<rparr>;
          (_, n, _) = get_write_off (rb_head b) (rb_seen_tail b) (rb_capacity b)
      in (n, b\<lparr>rb_wip_head := rb_head b, rb_wip_n := n\<rparr>))"

lemma write_off_nowrap_halves:
  "shm_spsc_ringbuf_write_off_nowrap b =
     (case write_off_cached b of
        Some (n, b') \<Rightarrow> (rb_head b, n, b')
      | None \<Rightarrow> (case write_off_reload b of (n, b') \<Rightarrow> (rb_head b, n, b')))"
  by (auto simp: shm_spsc_ringbuf_write_off_nowrap_def write_off_cached_def write_off_reload_def
      Let_def split: prod.splits)

text \<open>Likewise \<open>read_off_nowrap\<close>: the answer from the cached head, or a reload.\<close>

definition read_off_cached :: "shm_spsc_ringbuf \<Rightarrow> size_t res" where
  "read_off_cached b = get_written_num (rb_seen_head b) (rb_tail b) (rb_capacity b)"

definition read_off_reload :: "shm_spsc_ringbuf \<Rightarrow> (size_t \<times> shm_spsc_ringbuf) res" where
  "read_off_reload b =
     (let b = b\<lparr>rb_seen_head := rb_head b\<rparr> in
      bindE (get_written_num (rb_seen_head b) (rb_tail b) (rb_capacity b)) (\<lambda>n. Inr (n, b)))"

lemma read_off_nowrap_halves:
  "shm_spsc_ringbuf_read_off_nowrap b =
     bindE (read_off_cached b) (\<lambda>n.
     if n = 0 then bindE (read_off_reload b) (\<lambda>(n, b'). Inr (rb_tail b, n, b'))
     else Inr (rb_tail b, n, b))"
  by (simp add: shm_spsc_ringbuf_read_off_nowrap_def read_off_cached_def read_off_reload_def
      Let_def bindE_def split: sum.splits)

section \<open>The interleaving\<close>

datatype prod_pc =
    P_idle
  | P_reload "byte list"   \<comment> \<open>about to load \<open>tail\<close>\<close>
  | P_copy "byte list"     \<comment> \<open>about to copy the element into the slot at \<open>head\<close>\<close>
  | P_publish "byte list"  \<comment> \<open>about to store \<open>head\<close>\<close>

datatype cons_pc =
    C_idle
  | C_reload               \<comment> \<open>about to load \<open>head\<close>\<close>
  | C_copy                 \<comment> \<open>about to copy the element out of the slot at \<open>tail\<close>\<close>
  | C_release "byte list"  \<comment> \<open>about to store \<open>tail\<close>\<close>

record conc =
  c_queue :: shm_par_queue
  c_prod :: prod_pc
  c_cons :: cons_pc
  c_pushed :: "byte list list"  \<comment> \<open>elements whose push returned \<open>true\<close>, in order\<close>
  c_popped :: "byte list list"  \<comment> \<open>elements whose pop returned \<open>true\<close>, in order\<close>

abbreviation set_rb :: "conc \<Rightarrow> shm_spsc_ringbuf \<Rightarrow> conc" where
  "set_rb s rb \<equiv> s\<lparr>c_queue := (c_queue s)\<lparr>pq_ringbuf := rb\<rparr>\<rparr>"

abbreviation c_rb :: "conc \<Rightarrow> shm_spsc_ringbuf" where
  "c_rb s \<equiv> pq_ringbuf (c_queue s)"

inductive prod_step :: "conc \<Rightarrow> conc \<Rightarrow> bool" where
  p_start_cached:
    "c_prod s = P_idle \<Longrightarrow> length x = unat (pq_elem_size (c_queue s)) \<Longrightarrow>
     write_off_cached (c_rb s) = Some (n, rb) \<Longrightarrow>
     prod_step s ((set_rb s rb)\<lparr>c_prod := (if n > 0 then P_copy x else P_idle)\<rparr>)"
| p_start_reload:
    "c_prod s = P_idle \<Longrightarrow> length x = unat (pq_elem_size (c_queue s)) \<Longrightarrow>
     write_off_cached (c_rb s) = None \<Longrightarrow>
     prod_step s (s\<lparr>c_prod := P_reload x\<rparr>)"
| p_reload:
    "c_prod s = P_reload x \<Longrightarrow> write_off_reload (c_rb s) = (n, rb) \<Longrightarrow>
     prod_step s ((set_rb s rb)\<lparr>c_prod := (if n > 0 then P_copy x else P_idle)\<rparr>)"
| p_copy:
    "c_prod s = P_copy x \<Longrightarrow>
     mem_write (pq_data (c_queue s)) (unat (rb_head (c_rb s) * pq_elem_size (c_queue s))) x = Inr d \<Longrightarrow>
     prod_step s (s\<lparr>c_queue := (c_queue s)\<lparr>pq_data := d\<rparr>, c_prod := P_publish x\<rparr>)"
| p_publish:
    "c_prod s = P_publish x \<Longrightarrow> shm_spsc_ringbuf_write_finish (c_rb s) 1 = Inr rb \<Longrightarrow>
     prod_step s ((set_rb s rb)\<lparr>c_prod := P_idle, c_pushed := c_pushed s @ [x]\<rparr>)"

inductive cons_step :: "conc \<Rightarrow> conc \<Rightarrow> bool" where
  c_start:
    "c_cons s = C_idle \<Longrightarrow> read_off_cached (c_rb s) = Inr n \<Longrightarrow>
     cons_step s (s\<lparr>c_cons := (if n = 0 then C_reload else C_copy)\<rparr>)"
| c_reload:
    "c_cons s = C_reload \<Longrightarrow> read_off_reload (c_rb s) = Inr (n, rb) \<Longrightarrow>
     cons_step s ((set_rb s rb)\<lparr>c_cons := (if n > 0 then C_copy else C_idle)\<rparr>)"
| c_copy:
    "c_cons s = C_copy \<Longrightarrow>
     mem_read (pq_data (c_queue s)) (unat (rb_tail (c_rb s) * pq_elem_size (c_queue s)))
       (unat (pq_elem_size (c_queue s))) = Inr x \<Longrightarrow>
     cons_step s (s\<lparr>c_cons := C_release x\<rparr>)"
| c_release:
    "c_cons s = C_release x \<Longrightarrow> shm_spsc_ringbuf_consume (c_rb s) 1 = Inr rb \<Longrightarrow>
     cons_step s ((set_rb s rb)\<lparr>c_cons := C_idle, c_popped := c_popped s @ [x]\<rparr>)"

definition conc_init :: "shm_par_queue \<Rightarrow> conc" where
  "conc_init q = \<lparr>c_queue = q, c_prod = P_idle, c_cons = C_idle, c_pushed = [], c_popped = []\<rparr>"

inductive reach :: "shm_par_queue \<Rightarrow> conc \<Rightarrow> bool" for q where
  reach_init: "reach q (conc_init q)"
| reach_prod: "reach q s \<Longrightarrow> prod_step s t \<Longrightarrow> reach q t"
| reach_cons: "reach q s \<Longrightarrow> cons_step s t \<Longrightarrow> reach q t"

section \<open>The invariant\<close>

primrec prod_ok :: "shm_par_queue \<Rightarrow> prod_pc \<Rightarrow> bool" where
  "prod_ok q P_idle = True"
| "prod_ok q (P_reload x) = (length x = unat (pq_elem_size q))"
| "prod_ok q (P_copy x) = (length x = unat (pq_elem_size q) \<and> rb_may_write (pq_ringbuf q) 1)"
| "prod_ok q (P_publish x) =
     (length x = unat (pq_elem_size q) \<and> rb_may_write (pq_ringbuf q) 1 \<and>
      slot (unat (pq_elem_size q)) (pq_data q) (unat (rb_head (pq_ringbuf q))) = x)"

primrec cons_ok :: "shm_par_queue \<Rightarrow> cons_pc \<Rightarrow> bool" where
  "cons_ok q C_idle = True"
| "cons_ok q C_reload = True"
| "cons_ok q C_copy = (0 < rb_avail (pq_ringbuf q))"
| "cons_ok q (C_release x) = (0 < rb_avail (pq_ringbuf q) \<and> hd (pq_elems q) = x)"

definition conc_inv :: "conc \<Rightarrow> bool" where
  "conc_inv s \<longleftrightarrow> pq_inv (c_queue s) \<and> prod_ok (c_queue s) (c_prod s) \<and>
     cons_ok (c_queue s) (c_cons s) \<and> c_pushed s = c_popped s @ pq_elems (c_queue s)"

text \<open>What one thread's step must preserve for the other: the interference conditions.\<close>

definition keeps_cons :: "shm_par_queue \<Rightarrow> shm_par_queue \<Rightarrow> bool" where
  "keeps_cons q q' \<longleftrightarrow> rb_avail (pq_ringbuf q') = rb_avail (pq_ringbuf q) \<and>
     (\<exists>zs. pq_elems q' = pq_elems q @ zs)"

definition keeps_prod :: "shm_par_queue \<Rightarrow> shm_par_queue \<Rightarrow> bool" where
  "keeps_prod q q' \<longleftrightarrow> pq_data q' = pq_data q \<and> pq_elem_size q' = pq_elem_size q \<and>
     rb_head (pq_ringbuf q') = rb_head (pq_ringbuf q) \<and>
     rb_may_write (pq_ringbuf q') = rb_may_write (pq_ringbuf q)"

lemma rb_avail_elems: "pq_inv q \<Longrightarrow> 0 < rb_avail (pq_ringbuf q) \<Longrightarrow> pq_elems q \<noteq> []"
  using rb_invD(6) [OF pq_inv_rb, of q] by (auto simp flip: length_greater_0_conv)

lemma cons_ok_stable:
  "keeps_cons q q' \<Longrightarrow> pq_inv q \<Longrightarrow> cons_ok q pc \<Longrightarrow> cons_ok q' pc"
  using rb_avail_elems [of q] by (cases pc) (auto simp: keeps_cons_def hd_append)

lemma prod_ok_stable: "keeps_prod q q' \<Longrightarrow> prod_ok q pc \<Longrightarrow> prod_ok q' pc"
  by (cases pc) (simp_all add: keeps_prod_def)

lemma write_off_halves_ok:
  assumes inv: "pq_inv q"
    and w: "write_off_cached (pq_ringbuf q) = Some (n, rb) \<or> write_off_reload (pq_ringbuf q) = (n, rb)"
  defines "q' \<equiv> q\<lparr>pq_ringbuf := rb\<rparr>"
  shows "pq_inv q'" "pq_elems q' = pq_elems q" "rb_avail rb = rb_avail (pq_ringbuf q)"
    and "n > 0 \<Longrightarrow> rb_may_write rb 1"
proof -
  let ?b = "pq_ringbuf q"
  note i = pq_inv_rb [OF inv]
  have "\<exists>b1 free w. rb_inv b1 \<and> (b1 = ?b \<or> b1 = ?b\<lparr>rb_seen_tail := rb_tail ?b\<rparr>) \<and>
      get_write_off (rb_head b1) (rb_seen_tail b1) (rb_capacity b1) = (free, n, w) \<and>
      rb = b1\<lparr>rb_wip_head := rb_head b1, rb_wip_n := n\<rparr>"
    using w
  proof
    assume "write_off_cached ?b = Some (n, rb)"
    then show ?thesis using i
      by (auto simp: write_off_cached_def split: prod.splits if_splits intro!: exI [of _ ?b])
  next
    assume "write_off_reload ?b = (n, rb)"
    then show ?thesis using rb_reload_tail(1) [OF i]
      by (auto simp: write_off_reload_def Let_def split: prod.splits
          intro!: exI [of _ "?b\<lparr>rb_seen_tail := rb_tail ?b\<rparr>"])
  qed
  then obtain b1 free v where b1: "rb_inv b1" "b1 = ?b \<or> b1 = ?b\<lparr>rb_seen_tail := rb_tail ?b\<rparr>"
    and g: "get_write_off (rb_head b1) (rb_seen_tail b1) (rb_capacity b1) = (free, n, v)"
    and rb: "rb = b1\<lparr>rb_wip_head := rb_head b1, rb_wip_n := n\<rparr>" by auto
  have cap: "rb_capacity rb = rb_capacity ?b" "rb_slots rb = rb_slots ?b" using b1(2) rb by auto
  show "pq_inv q'" using pq_inv_update [OF inv _ cap(1)] b1(1) rb by (simp add: q'_def)
  show "pq_elems q' = pq_elems q" using cap(2) by (simp add: q'_def pq_elems_def)
  show "rb_avail rb = rb_avail ?b" using b1(2) rb by auto
  show "rb_may_write rb 1" if "n > 0"
    using rb_room_get_write_off(2,3) [OF b1(1) g] that rb by (auto simp: rb_may_write_def word_nat)
qed

lemma publish_ok:
  assumes inv: "pq_inv q" and may: "rb_may_write (pq_ringbuf q) 1"
  shows "\<exists>rb. shm_spsc_ringbuf_write_finish (pq_ringbuf q) 1 = Inr rb \<and> pq_inv (q\<lparr>pq_ringbuf := rb\<rparr>) \<and>
    rb_avail rb = rb_avail (pq_ringbuf q) \<and>
    pq_elems (q\<lparr>pq_ringbuf := rb\<rparr>) =
      pq_elems q @ [slot (unat (pq_elem_size q)) (pq_data q) (unat (rb_head (pq_ringbuf q)))]"
proof -
  note i = pq_inv_rb [OF inv]
  obtain rb where "shm_spsc_ringbuf_write_finish (pq_ringbuf q) 1 = Inr rb" "rb_inv rb"
    "rb_capacity rb = rb_capacity (pq_ringbuf q)" "rb_avail rb = rb_avail (pq_ringbuf q)"
    "rb_slots rb = rb_slots (pq_ringbuf q) @ [unat (rb_head (pq_ringbuf q))]"
    using shm_spsc_ringbuf_write_finish_ok [OF i, of 1] may rb_cap_SIZE_MAX_1 [OF i] rb_invD(1) [OF i]
    by auto
  then show ?thesis using pq_inv_update [OF inv] by (auto simp: pq_elems_def)
qed

lemma release_ok:
  assumes inv: "pq_inv q" and avail: "0 < rb_avail (pq_ringbuf q)"
  shows "\<exists>rb. shm_spsc_ringbuf_consume (pq_ringbuf q) 1 = Inr rb \<and> pq_inv (q\<lparr>pq_ringbuf := rb\<rparr>) \<and>
    keeps_prod q (q\<lparr>pq_ringbuf := rb\<rparr>) \<and> pq_elems (q\<lparr>pq_ringbuf := rb\<rparr>) = tl (pq_elems q)"
proof -
  note i = pq_inv_rb [OF inv]
  obtain rb where "shm_spsc_ringbuf_consume (pq_ringbuf q) 1 = Inr rb" "rb_inv rb"
    "rb_capacity rb = rb_capacity (pq_ringbuf q)" "rb_head rb = rb_head (pq_ringbuf q)"
    "rb_slots rb = drop 1 (rb_slots (pq_ringbuf q))"
    "\<forall>m. rb_may_write rb m = rb_may_write (pq_ringbuf q) m"
    using shm_spsc_ringbuf_consume_ok [OF i, of 1] avail rb_cap_SIZE_MAX_1 [OF i] by auto
  then show ?thesis using pq_inv_update [OF inv]
    by (auto simp: pq_elems_def keeps_prod_def drop_Suc simp flip: map_tl)
qed

lemma read_off_halves_ok:
  assumes inv: "pq_inv q"
  shows "read_off_cached (pq_ringbuf q) = Inr (of_nat (rb_avail (pq_ringbuf q)))"
    and "\<exists>rb. read_off_reload (pq_ringbuf q) = Inr (of_nat (rb_avail rb), rb) \<and>
      pq_inv (q\<lparr>pq_ringbuf := rb\<rparr>) \<and> pq_elems (q\<lparr>pq_ringbuf := rb\<rparr>) = pq_elems q \<and>
      keeps_prod q (q\<lparr>pq_ringbuf := rb\<rparr>)"
proof -
  let ?b = "pq_ringbuf q"
  note i = pq_inv_rb [OF inv]
  show "read_off_cached ?b = Inr (of_nat (rb_avail ?b))"
    by (simp add: read_off_cached_def get_written_num_seen [OF i])
  have "keeps_prod q (q\<lparr>pq_ringbuf := ?b\<lparr>rb_seen_head := rb_head ?b\<rparr>\<rparr>)"
    by (auto simp: keeps_prod_def rb_may_write_def rb_room_def)
  then show "\<exists>rb. read_off_reload ?b = Inr (of_nat (rb_avail rb), rb) \<and>
      pq_inv (q\<lparr>pq_ringbuf := rb\<rparr>) \<and> pq_elems (q\<lparr>pq_ringbuf := rb\<rparr>) = pq_elems q \<and>
      keeps_prod q (q\<lparr>pq_ringbuf := rb\<rparr>)"
    using rb_reload_head [OF i] shm_par_queue_read_ok [OF inv rb_reload_head(1) [OF i]]
    by (auto simp: read_off_reload_def Let_def get_written_num_seen [OF i])
qed

lemma copy_out_ok:
  assumes "pq_inv q" and "0 < rb_avail (pq_ringbuf q)"
  shows "mem_read (pq_data q) (unat (rb_tail (pq_ringbuf q) * pq_elem_size q)) (unat (pq_elem_size q)) =
    Inr (hd (pq_elems q))"
  using pq_top_slot [OF assms(1) rb_avail_elems [OF assms]] by (simp add: pq_deref_def)

lemma prod_step_inv:
  assumes "prod_step s t" and "conc_inv s"
  shows "conc_inv t \<and> keeps_cons (c_queue s) (c_queue t)"
proof -
  have inv: "pq_inv (c_queue s)" and co: "cons_ok (c_queue s) (c_cons s)"
    and po: "prod_ok (c_queue s) (c_prod s)" and hist: "c_pushed s = c_popped s @ pq_elems (c_queue s)"
    using assms(2) by (simp_all add: conc_inv_def)
  from assms(1) have all: "keeps_cons (c_queue s) (c_queue t) \<and> pq_inv (c_queue t) \<and>
    prod_ok (c_queue t) (c_prod t) \<and> c_cons t = c_cons s \<and> c_pushed t = c_popped t @ pq_elems (c_queue t)"
  proof (cases rule: prod_step.cases)
    case (p_start_cached x n rb)
    note w = write_off_halves_ok [OF inv, of n rb]
    show ?thesis using p_start_cached w hist by (auto simp: keeps_cons_def)
  next
    case (p_start_reload x)
    then show ?thesis using inv hist by (auto simp: keeps_cons_def)
  next
    case (p_reload x n rb)
    note w = write_off_halves_ok [OF inv, of n rb]
    show ?thesis using p_reload w hist po by (auto simp: keeps_cons_def)
  next
    case (p_copy x d)
    let ?q = "c_queue s"
    have may: "rb_may_write (c_rb s) 1" and len: "length x = unat (pq_elem_size ?q)" using p_copy po by simp_all
    note w = pq_write_slot [OF inv may eq_imp_le [OF len]]
    have "d = mem_upd (pq_data ?q) (unat (rb_head (c_rb s)) * unat (pq_elem_size ?q)) x"
      using p_copy w(1) by simp
    moreover have "length (slot (unat (pq_elem_size ?q)) (pq_data ?q) (unat (rb_head (c_rb s)))) = length x"
      using pq_slot_bounds [OF inv rb_invD(1) [OF pq_inv_rb [OF inv]]] len by simp
    ultimately show ?thesis using p_copy w(2,3,4) may len hist by (auto simp: keeps_cons_def)
  next
    case (p_publish x rb)
    then have may: "rb_may_write (c_rb s) 1" using po by simp
    show ?thesis using publish_ok [OF inv may] p_publish po hist by (auto simp: keeps_cons_def)
  qed
  with cons_ok_stable [OF _ inv co] show ?thesis by (simp add: conc_inv_def)
qed

lemma cons_step_inv:
  assumes "cons_step s t" and "conc_inv s"
  shows "conc_inv t \<and> keeps_prod (c_queue s) (c_queue t)"
proof -
  have inv: "pq_inv (c_queue s)" and co: "cons_ok (c_queue s) (c_cons s)"
    and po: "prod_ok (c_queue s) (c_prod s)" and hist: "c_pushed s = c_popped s @ pq_elems (c_queue s)"
    using assms(2) by (simp_all add: conc_inv_def)
  note pos = of_nat_rb_avail_pos [OF pq_inv_rb] and zero = of_nat_avail_0_iff [OF pq_inv_rb]
  from assms(1) have all: "keeps_prod (c_queue s) (c_queue t) \<and> pq_inv (c_queue t) \<and>
    cons_ok (c_queue t) (c_cons t) \<and> c_prod t = c_prod s \<and> c_pushed t = c_popped t @ pq_elems (c_queue t)"
  proof (cases rule: cons_step.cases)
    case (c_start n)
    then show ?thesis using read_off_halves_ok(1) [OF inv] zero [OF inv] inv hist by (auto simp: keeps_prod_def)
  next
    case (c_reload n rb)
    then show ?thesis using read_off_halves_ok(2) [OF inv] pos [of "(c_queue s)\<lparr>pq_ringbuf := rb\<rparr>"] hist by auto
  next
    case (c_copy x)
    then show ?thesis using copy_out_ok [OF inv] co inv hist by (auto simp: keeps_prod_def)
  next
    case (c_release x rb)
    then have "0 < rb_avail (c_rb s)" "hd (pq_elems (c_queue s)) = x" using co by simp_all
    moreover from this have "pq_elems (c_queue s) = x # tl (pq_elems (c_queue s))"
      using rb_avail_elems [OF inv] by auto
    ultimately show ?thesis using release_ok [OF inv] c_release hist by auto
  qed
  with prod_ok_stable [OF _ po] show ?thesis by (simp add: conc_inv_def)
qed

lemma reach_inv: "reach q s \<Longrightarrow> pq_inv q \<Longrightarrow> pq_elems q = [] \<Longrightarrow> conc_inv s"
  by (induction rule: reach.induct)
    (auto simp: conc_inv_def conc_init_def dest: prod_step_inv cons_step_inv)

lemma reach_frame:
  "reach q s \<Longrightarrow> pq_capacity (c_queue s) = pq_capacity q \<and> pq_elem_size (c_queue s) = pq_elem_size q"
  by (induction rule: reach.induct) (auto simp: conc_init_def elim!: prod_step.cases cons_step.cases)

lemma prod_never_stuck:
  assumes "conc_inv s"
  shows "\<exists>t. prod_step s t"
proof -
  have inv: "pq_inv (c_queue s)" and po: "prod_ok (c_queue s) (c_prod s)"
    using assms by (simp_all add: conc_inv_def)
  show ?thesis
  proof (cases "c_prod s")
    case P_idle
    have "length (replicate (unat (pq_elem_size (c_queue s))) 0 :: byte list) = unat (pq_elem_size (c_queue s))"
      by simp
    from p_start_reload [OF P_idle this] p_start_cached [OF P_idle this] show ?thesis
      by (cases "write_off_cached (c_rb s)") auto
  next
    case (P_reload x)
    then show ?thesis by (cases "write_off_reload (c_rb s)") (auto intro: prod_step.intros)
  next
    case (P_copy x)
    then have may: "rb_may_write (c_rb s) 1" and len: "length x \<le> unat (pq_elem_size (c_queue s))"
      using po by simp_all
    show ?thesis using pq_write_slot(1) [OF inv may len] P_copy by (auto intro: prod_step.intros)
  next
    case (P_publish x)
    then show ?thesis using publish_ok [OF inv] po by (auto intro: prod_step.intros)
  qed
qed

lemma cons_never_stuck:
  assumes "conc_inv s"
  shows "\<exists>t. cons_step s t"
proof -
  have inv: "pq_inv (c_queue s)" and co: "cons_ok (c_queue s) (c_cons s)"
    using assms by (simp_all add: conc_inv_def)
  show ?thesis
  proof (cases "c_cons s")
    case C_idle
    then show ?thesis using read_off_halves_ok(1) [OF inv] by (auto intro: cons_step.intros)
  next
    case C_reload
    then show ?thesis using read_off_halves_ok(2) [OF inv] by (auto intro: cons_step.intros)
  next
    case C_copy
    then show ?thesis using copy_out_ok [OF inv] co by (auto intro: cons_step.intros)
  next
    case (C_release x)
    then show ?thesis using release_ok [OF inv] co by (auto intro: cons_step.intros)
  qed
qed

text \<open>When a call gives up: the cases of one step.\<close>

lemma cons_gives_up:
  assumes inv: "pq_inv (c_queue s)" and st: "cons_step s t" "c_cons t = C_idle" "c_popped t = c_popped s"
  shows "pq_elems (c_queue s) = []"
  using st
proof (cases rule: cons_step.cases)
  case (c_reload n rb)
  note i = pq_inv_rb [OF inv]
  have "n = of_nat (rb_written (c_rb s))"
    using c_reload(3) get_written_num_seen(2) [OF i] by (simp add: read_off_reload_def)
  moreover have "n = 0" using c_reload(1) st(2) by (auto simp: word_gt_0 split: if_splits)
  ultimately have "rb_written (c_rb s) = 0" using unat_of_nat_avail(2) [OF i] by simp
  then show ?thesis by (simp add: pq_elems_def rb_slots_def)
qed (use st(2,3) in \<open>auto split: if_splits\<close>)

lemma prod_gives_up:
  assumes inv: "pq_inv (c_queue s)" and st: "prod_step s t" "c_prod t = P_idle" "c_pushed t = c_pushed s"
  shows "length (pq_elems (c_queue s)) = unat (pq_capacity (c_queue s))"
  using st
proof (cases rule: prod_step.cases)
  case (p_start_cached x n rb)
  then have "n = 0" using st(2) by (auto simp: word_gt_0 split: if_splits)
  moreover obtain free w where
    "get_write_off (rb_head (c_rb s)) (rb_seen_tail (c_rb s)) (rb_capacity (c_rb s)) = (free, n, w)" "free \<noteq> 0"
    using p_start_cached(4) by (auto simp: write_off_cached_def split: prod.splits if_splits)
  moreover from this(1) have "unat free = rb_room (c_rb s)" "n = 0 \<longleftrightarrow> rb_room (c_rb s) = 0"
    using rb_room_get_write_off(1,3) [OF pq_inv_rb [OF inv]] by blast+
  ultimately show ?thesis by (simp add: word_64_eq_iff)
next
  case (p_reload x n rb)
  note i = pq_inv_rb [OF inv]
  let ?b = "(c_rb s)\<lparr>rb_seen_tail := rb_tail (c_rb s)\<rparr>"
  have "n = 0" using p_reload(1) st(2) by (auto simp: word_gt_0 split: if_splits)
  moreover obtain free w where "get_write_off (rb_head ?b) (rb_seen_tail ?b) (rb_capacity ?b) = (free, n, w)"
    using p_reload(3) by (auto simp: write_off_reload_def Let_def split: prod.splits)
  ultimately have "rb_room ?b = 0" using rb_room_get_write_off(3) [OF rb_reload_tail(1) [OF i]] by blast
  then have "rb_written (c_rb s) + 1 = unat (rb_capacity (c_rb s))"
    using rb_reload_tail(2) [OF i] rb_written_less [OF i] by simp
  then show ?thesis using inv by (simp add: pq_inv_def)
qed (use st(2,3) in \<open>auto split: if_splits\<close>)

section \<open>Properties\<close>

definition pq_small :: shm_par_queue where
  "pq_small = \<lparr>pq_ringbuf = rb_example\<lparr>rb_tail := 0, rb_head := 0, rb_seen_head := 0, rb_seen_tail := 0\<rparr>,
     pq_elem_size = 2, pq_capacity = 3, pq_data = replicate 8 0\<rparr>"

lemma pq_small_ok: "pq_inv pq_small" "pq_elems pq_small = []"
proof -
  have "rb_inv (pq_ringbuf pq_small)" by code_simp
  then show "pq_inv pq_small" by (simp add: pq_inv_def) (simp add: pq_small_def rb_example_def)
  show "pq_elems pq_small = []" by code_simp
qed

text \<open>
  C1: in every interleaving of one producer pushing and one consumer popping on an initially
  empty queue, what the consumer has popped is a prefix of what the producer has pushed,
  the elements in between are exactly the queue's contents in order, and there are at most
  \<open>capacity\<close> of them: nothing is lost, duplicated, reordered or torn.
\<close>

theorem concurrent_fifo:
  assumes "reach q s" and "pq_inv q" and "pq_elems q = []"
  shows "c_pushed s = c_popped s @ pq_elems (c_queue s) \<and> pq_inv (c_queue s) \<and>
    length (pq_elems (c_queue s)) \<le> unat (pq_capacity q)"
proof -
  have "conc_inv s" by (rule reach_inv [OF assms])
  then have "pq_inv (c_queue s)" "c_pushed s = c_popped s @ pq_elems (c_queue s)"
    by (simp_all add: conc_inv_def)
  then show ?thesis using pq_elems_bound [of "c_queue s"] reach_frame [OF assms(1)] by simp
qed

theorem concurrent_fifo_witness:
  "\<exists>s. reach pq_small s \<and> c_prod s = P_reload [1, 2] \<and> c_pushed s = c_popped s @ pq_elems (c_queue s)"
proof -
  let ?s = "(conc_init pq_small)\<lparr>c_prod := P_reload [1, 2]\<rparr>"
  have "write_off_cached (c_rb (conc_init pq_small)) = None" by code_simp
  moreover have "c_prod (conc_init pq_small) = P_idle"
    "length [1, 2 :: byte] = unat (pq_elem_size (c_queue (conc_init pq_small)))"
    by (simp_all add: conc_init_def pq_small_def)
  ultimately have "prod_step (conc_init pq_small) ?s" by (intro p_start_reload)
  then have "reach pq_small ?s" by (rule reach_prod [OF reach_init])
  with concurrent_fifo [OF this pq_small_ok] show ?thesis by (auto intro!: exI [of _ ?s])
qed

text \<open>
  C2: the producer copies an element in while the consumer copies one out only at different
  slots, in every reachable state: there is no data race on the elements.
\<close>

theorem concurrent_no_slot_race:
  assumes "reach q s" and "pq_inv q" and "pq_elems q = []"
    and "c_prod s = P_copy x" and "c_cons s = C_copy"
  shows "rb_head (c_rb s) \<noteq> rb_tail (c_rb s)"
proof -
  have "conc_inv s" by (rule reach_inv [OF assms(1-3)])
  then have i: "pq_inv (c_queue s)" "rb_may_write (c_rb s) 1" "0 < rb_avail (c_rb s)"
    using assms(4,5) by (auto simp: conc_inv_def)
  have "rb_inv (c_rb s)" by (rule pq_inv_rb [OF i(1)])
  moreover have "0 < rb_room (c_rb s)" using i(2) by (simp add: rb_may_write_def)
  moreover have ne: "rb_slots (c_rb s) \<noteq> []" using rb_avail_elems [OF i(1,3)] by (simp add: pq_elems_def)
  ultimately have "unat (rb_head (c_rb s)) \<notin> set (rb_slots (c_rb s))"
    "unat (rb_tail (c_rb s)) \<in> set (rb_slots (c_rb s))"
    using rb_head_not_occupied rb_slots_tail [OF _ ne] list.set_sel(1) [OF ne] by auto
  then show ?thesis by auto
qed

text \<open>A run that reaches a state in which both threads are about to copy.\<close>

definition conc_at ::
    "size_t \<Rightarrow> size_t \<Rightarrow> size_t \<Rightarrow> size_t \<Rightarrow> byte list \<Rightarrow> prod_pc \<Rightarrow> cons_pc \<Rightarrow> byte list list \<Rightarrow> conc" where
  "conc_at sh h wh wn d p c pushed =
     \<lparr>c_queue = \<lparr>pq_ringbuf = \<lparr>rb_capacity = 4, rb_tail = 0, rb_seen_head = sh, rb_seen_tail = 0, rb_head = h,
          rb_wip_head = wh, rb_wip_n = wn\<rparr>, pq_elem_size = 2, pq_capacity = 3, pq_data = d\<rparr>,
      c_prod = p, c_cons = c, c_pushed = pushed, c_popped = []\<rparr>"

lemma conc_run_example:
  "reach pq_small (conc_at 1 1 1 2 [1, 2, 0, 0, 0, 0, 0, 0] (P_copy [3, 4]) C_copy [[1, 2]])"
proof -
  let ?d0 = "replicate 8 0 :: byte list" and ?d1 = "[1, 2, 0, 0, 0, 0, 0, 0] :: byte list"
  note defs = conc_at_def write_off_cached_def write_off_reload_def get_write_off_def mem_upd_def
  have "reach pq_small (conc_at 0 0 0 0 ?d0 P_idle C_idle [])"
    using reach_init [of pq_small] by (simp add: conc_init_def pq_small_def conc_at_def rb_example_def)
  then have "reach pq_small (conc_at 0 0 0 0 ?d0 (P_reload [1, 2]) C_idle [])"
    using reach_prod p_start_reload [of "conc_at 0 0 0 0 ?d0 P_idle C_idle []" "[1, 2]"]
    by (simp add: defs)
  then have "reach pq_small (conc_at 0 0 0 3 ?d0 (P_copy [1, 2]) C_idle [])"
    using reach_prod p_reload [of "conc_at 0 0 0 0 ?d0 (P_reload [1, 2]) C_idle []"]
    by (simp add: defs)
  then have "reach pq_small (conc_at 0 0 0 3 ?d1 (P_publish [1, 2]) C_idle [])"
    using reach_prod p_copy [of "conc_at 0 0 0 3 ?d0 (P_copy [1, 2]) C_idle []" "[1, 2]" ?d1]
    by (simp add: defs numeral_eq_Suc)
  then have "reach pq_small (conc_at 0 1 0 3 ?d1 P_idle C_idle [[1, 2]])"
    using reach_prod p_publish [of "conc_at 0 0 0 3 ?d1 (P_publish [1, 2]) C_idle []"]
    by (simp add: defs shm_spsc_ringbuf_write_finish_def Let_def word_le_nat_alt)
  then have "reach pq_small (conc_at 0 1 0 3 ?d1 (P_reload [3, 4]) C_idle [[1, 2]])"
    using reach_prod p_start_reload [of "conc_at 0 1 0 3 ?d1 P_idle C_idle [[1, 2]]" "[3, 4]"]
    by (simp add: defs)
  then have "reach pq_small (conc_at 0 1 1 2 ?d1 (P_copy [3, 4]) C_idle [[1, 2]])"
    using reach_prod p_reload [of "conc_at 0 1 0 3 ?d1 (P_reload [3, 4]) C_idle [[1, 2]]"]
    by (simp add: defs)
  then have "reach pq_small (conc_at 0 1 1 2 ?d1 (P_copy [3, 4]) C_reload [[1, 2]])"
    using reach_cons c_start [of "conc_at 0 1 1 2 ?d1 (P_copy [3, 4]) C_idle [[1, 2]]" 0]
    by (simp add: defs read_off_cached_def get_written_num_ok raw_written_num_def)
  then show ?thesis
    using reach_cons c_reload [of "conc_at 0 1 1 2 ?d1 (P_copy [3, 4]) C_reload [[1, 2]]"]
    by (simp add: defs read_off_reload_def get_written_num_ok raw_written_num_def)
qed

theorem concurrent_no_slot_race_witness:
  "\<exists>s. reach pq_small s \<and> c_prod s = P_copy [3, 4] \<and> c_cons s = C_copy \<and>
    rb_head (c_rb s) \<noteq> rb_tail (c_rb s)"
proof -
  let ?s = "conc_at 1 1 1 2 [1, 2, 0, 0, 0, 0, 0, 0] (P_copy [3, 4]) C_copy [[1, 2]]"
  have "c_prod ?s = P_copy [3, 4]" "c_cons ?s = C_copy" by (simp_all add: conc_at_def)
  with concurrent_no_slot_race [OF conc_run_example pq_small_ok] conc_run_example show ?thesis by blast
qed

text \<open>
  C3: neither thread can get stuck, in any interleaving: its next step exists, which means that
  none of the assertions of the ring buffer fails and no access is out of bounds.
\<close>

theorem concurrent_no_failure:
  assumes "reach q s" and "pq_inv q" and "pq_elems q = []"
  shows "(\<exists>t. prod_step s t) \<and> (\<exists>t. cons_step s t)"
  using prod_never_stuck cons_never_stuck reach_inv [OF assms] by blast

theorem concurrent_no_failure_witness:
  "\<exists>s. reach pq_small s \<and> c_prod s = P_copy [3, 4] \<and> (\<exists>t. prod_step s t) \<and> (\<exists>t. cons_step s t)"
proof -
  let ?s = "conc_at 1 1 1 2 [1, 2, 0, 0, 0, 0, 0, 0] (P_copy [3, 4]) C_copy [[1, 2]]"
  have "c_prod ?s = P_copy [3, 4]" by (simp add: conc_at_def)
  with concurrent_no_failure [OF conc_run_example pq_small_ok] conc_run_example show ?thesis by blast
qed

text \<open>
  C4: a pop gives up (its thread goes back to idle without an element) only in a step in which
  the queue is empty, and a push gives up only in a step in which the queue is full, whatever
  the cached positions were.
\<close>

theorem concurrent_calls_give_up_only_when_they_must:
  assumes "reach q s" and "pq_inv q" and "pq_elems q = []"
  shows "(\<forall>t. cons_step s t \<and> c_cons t = C_idle \<and> c_popped t = c_popped s \<longrightarrow> pq_elems (c_queue s) = []) \<and>
    (\<forall>t. prod_step s t \<and> c_prod t = P_idle \<and> c_pushed t = c_pushed s \<longrightarrow>
       length (pq_elems (c_queue s)) = unat (pq_capacity q))"
proof (intro conjI allI impI; elim conjE)
  have inv: "pq_inv (c_queue s)" using reach_inv [OF assms] by (simp add: conc_inv_def)
  fix t
  show "pq_elems (c_queue s) = []"
    if "cons_step s t" "c_cons t = C_idle" "c_popped t = c_popped s"
    using that cons_gives_up [OF inv] by blast
  show "length (pq_elems (c_queue s)) = unat (pq_capacity q)"
    if "prod_step s t" "c_prod t = P_idle" "c_pushed t = c_pushed s"
    using that prod_gives_up [OF inv] reach_frame [OF assms(1)] by simp
qed

theorem concurrent_calls_give_up_only_when_they_must_witness:
  "\<exists>s t. reach pq_small s \<and> cons_step s t \<and> c_cons t = C_idle \<and> c_popped t = c_popped s \<and>
    pq_elems (c_queue s) = []"
proof -
  let ?d = "replicate 8 0 :: byte list"
  let ?s0 = "conc_at 0 0 0 0 ?d P_idle C_idle []" and ?s1 = "conc_at 0 0 0 0 ?d P_idle C_reload []"
  have "reach pq_small ?s0"
    using reach_init [of pq_small] by (simp add: conc_init_def pq_small_def conc_at_def rb_example_def)
  moreover have "cons_step ?s0 ?s1" using c_start [of ?s0 0]
    by (simp add: conc_at_def read_off_cached_def get_written_num_ok raw_written_num_def)
  ultimately have r: "reach pq_small ?s1" by (rule reach_cons)
  have st: "cons_step ?s1 ?s0" using c_reload [of ?s1 0]
    by (simp add: conc_at_def read_off_reload_def get_written_num_ok raw_written_num_def)
  have "c_cons ?s0 = C_idle" "c_popped ?s0 = c_popped ?s1" by (simp_all add: conc_at_def)
  with r st concurrent_calls_give_up_only_when_they_must [OF r pq_small_ok] show ?thesis by blast
qed

end
