(* ===== verification/Event_Source.thy ===== *)
theory Event_Source
  imports Shm_Prelude
begin

text \<open>
  Events, event signatures and source descriptions: \<open>core/event.c\<close>, \<open>core/signatures.c\<close>
  and \<open>core/source.c\<close>. An event in memory starts with its kind and its id (two 64-bit
  values); a source describes the events it can send by an array of records (name, kind,
  size, signature), which it may give as a text such as \<open>open:ic,close:i\<close>.
  A C string argument is the list of its characters without the terminating NUL; a
  character array of the source (\<open>char name[64]\<close>) is a list with its NULs.
\<close>

section \<open>Events\<close>

definition SIZEOF_EVENT :: nat where
  "SIZEOF_EVENT = 16"

definition SIZEOF_DEFAULT_HOLE :: nat where
  "SIZEOF_DEFAULT_HOLE = 24"

definition hole_kind :: shm_kind where
  "hole_kind = 1"

definition last_special_kind :: shm_kind where
  "last_special_kind = 1"

text \<open>The fields of an event given as bytes, and the reads of the code through a pointer.\<close>

definition ev_kind :: "byte list \<Rightarrow> shm_kind" where
  "ev_kind bs = of_le (take 8 bs)"

definition ev_id :: "byte list \<Rightarrow> shm_eventid" where
  "ev_id bs = of_le (take 8 (drop 8 bs))"

definition mk_event :: "shm_kind \<Rightarrow> shm_eventid \<Rightarrow> byte list \<Rightarrow> byte list" where
  "mk_event k i payload = le64 k @ le64 i @ payload"

definition shm_event_kind :: "byte list \<Rightarrow> nat \<Rightarrow> shm_kind res" where
  "shm_event_kind mem p = bindE (mem_read mem p 8) (\<lambda>bs. Inr (of_le bs))"

definition shm_event_id :: "byte list \<Rightarrow> nat \<Rightarrow> shm_eventid res" where
  "shm_event_id mem p = bindE (mem_read mem (p + 8) 8) (\<lambda>bs. Inr (of_le bs))"

definition initialize_events :: "unit res" where
  "initialize_events =
     assertE (hole_kind = 1) ''We assume that the 'hole_kind' is 1 for now''
     (assertE (hole_kind > 0) ''Events not initialized'' (Inr ()))"

definition shm_event_is_hole :: "byte list \<Rightarrow> nat \<Rightarrow> bool res" where
  "shm_event_is_hole mem p =
     assertE (hole_kind > 0) ''hole_kind > 0''
     (bindE (shm_event_kind mem p) (\<lambda>k. Inr (k = hole_kind)))"

definition shm_get_hole_kind :: "shm_kind res" where
  "shm_get_hole_kind =
     assertE (hole_kind > 0) ''hole_kind > 0''
     (assertE (last_special_kind \<ge> hole_kind) ''last_special_kind >= hole_kind'' (Inr hole_kind))"

definition shm_get_last_special_kind :: "shm_kind res" where
  "shm_get_last_special_kind =
     assertE (last_special_kind > 0) ''last_special_kind > 0'' (Inr last_special_kind)"

lemma ev_mk_event [simp]:
  "ev_kind (mk_event k i payload) = k" "ev_id (mk_event k i payload) = i"
  by (simp_all add: ev_kind_def ev_id_def mk_event_def)

lemma shm_event_id_read:
  "p + 16 \<le> length mem \<Longrightarrow> 16 \<le> n \<Longrightarrow> shm_event_id mem p = Inr (ev_id (take n (drop p mem)))"
  by (simp add: shm_event_id_def ev_id_def take_drop min_def add.commute)

lemma shm_event_kind_read:
  "p + 16 \<le> length mem \<Longrightarrow> 16 \<le> n \<Longrightarrow> shm_event_kind mem p = Inr (ev_kind (take n (drop p mem)))"
  by (simp add: shm_event_kind_def ev_kind_def min_def)

section \<open>Signatures\<close>

definition signature_op_get_size :: "char \<Rightarrow> size_t res" where
  "signature_op_get_size c =
     (if c = CHR ''c'' then Inr 1
      else if c = CHR ''h'' then Inr 2
      else if c = CHR ''i'' then Inr 4
      else if c = CHR ''l'' then Inr 8
      else if c = CHR ''f'' then Inr 8
      else if c = CHR ''d'' then Inr 8
      else if c = CHR ''p'' then Inr 8
      else if c = CHR ''t'' then Inr 8
      else if c = CHR ''S'' \<or> c = CHR ''L'' \<or> c = CHR ''M'' then Inr 8
      else if c = CHR ''?'' then Inr 8
      else if c = CHR ''_'' then Inr 0
      else Inl (Assertion ''Invalid op type''))"

primrec signature_size_from :: "string \<Rightarrow> size_t \<Rightarrow> size_t res" where
  "signature_size_from [] n = Inr n"
| "signature_size_from (c # cs) n =
     bindE (signature_op_get_size c) (\<lambda>k. signature_size_from cs (n + k))"

definition signature_get_size :: "string \<Rightarrow> size_t res" where
  "signature_get_size sig = signature_size_from sig 0"

definition valid_op :: "char \<Rightarrow> bool" where
  "valid_op c = (c \<in> set ''chilfdptSLM?_'')"

lemma signature_op_get_size_ok:
  "valid_op c \<Longrightarrow> \<exists>k. signature_op_get_size c = Inr k \<and> unat k \<le> 8"
  by (auto simp: valid_op_def signature_op_get_size_def)

lemma signature_op_get_size_err:
  "\<not> valid_op c \<Longrightarrow> signature_op_get_size c = Inl (Assertion ''Invalid op type'')"
  by (auto simp: valid_op_def signature_op_get_size_def)

text \<open>The size of a signature, without wrap-around, is the sum of the operand sizes.\<close>

definition op_size :: "char \<Rightarrow> nat" where
  "op_size c = (case signature_op_get_size c of Inl _ \<Rightarrow> 0 | Inr k \<Rightarrow> unat k)"

lemma op_size_le: "op_size c \<le> 8"
  using signature_op_get_size_ok [of c] signature_op_get_size_err [of c]
  by (cases "valid_op c") (auto simp: op_size_def)

lemma signature_size_from_ok:
  "list_all valid_op cs \<Longrightarrow> unat n + 8 * length cs < 18446744073709551616 \<Longrightarrow>
    \<exists>k. signature_size_from cs n = Inr k \<and> unat k = unat n + sum_list (map op_size cs)"
proof (induction cs arbitrary: n)
  case Nil
  then show ?case by simp
next
  case (Cons c cs)
  obtain k where k: "signature_op_get_size c = Inr k" "unat k \<le> 8"
    using Cons.prems(1) signature_op_get_size_ok by auto
  have u: "unat (n + k) = unat n + unat k" using Cons.prems(2) k(2) by (simp add: unat_add_64)
  then have "unat (n + k) + 8 * length cs < 18446744073709551616" using Cons.prems(2) k(2) by simp
  with Cons.IH [of "n + k"] Cons.prems(1) k u show ?case by (auto simp: op_size_def)
qed

lemma signature_size_from_err:
  "\<not> list_all valid_op cs \<Longrightarrow> signature_size_from cs n = Inl (Assertion ''Invalid op type'')"
proof (induction cs arbitrary: n)
  case Nil
  then show ?case by simp
next
  case (Cons c cs)
  then show ?case
    using signature_op_get_size_ok [of c] signature_op_get_size_err [of c]
    by (cases "valid_op c") auto
qed

lemma signature_get_size_ok:
  assumes "list_all valid_op sig" and "length sig < 1000"
  shows "\<exists>k. signature_get_size sig = Inr k \<and> unat k = sum_list (map op_size sig)"
  using signature_size_from_ok [OF assms(1), of 0] assms(2) by (auto simp: signature_get_size_def)

section \<open>C strings\<close>

abbreviation NUL :: char where
  "NUL \<equiv> CHR 0x00"

definition cstr :: "string \<Rightarrow> string" where
  "cstr arr = takeWhile (\<lambda>c. c \<noteq> NUL) arr"

text \<open>\<open>strncpy(dst, src, n)\<close> into an array: at most \<open>n\<close> characters, padded with NULs.\<close>

definition strncpy :: "string \<Rightarrow> string \<Rightarrow> nat \<Rightarrow> string" where
  "strncpy dst src n = take n (src @ replicate n NUL) @ drop n dst"

text \<open>\<open>strncmp(a, b, n) == 0\<close> for an array \<open>a\<close> and a C string \<open>b\<close>.\<close>

definition strncmp_eq :: "string \<Rightarrow> string \<Rightarrow> nat \<Rightarrow> bool" where
  "strncmp_eq a b n \<longleftrightarrow> take n (cstr a @ [NUL]) = take n (b @ [NUL])"

definition is_cstr :: "string \<Rightarrow> bool" where
  "is_cstr s \<longleftrightarrow> NUL \<notin> set s"

lemma cstr_is_cstr [simp]: "is_cstr (cstr arr)"
  by (auto simp: is_cstr_def cstr_def dest: set_takeWhileD)

lemma cstr_padded: "is_cstr s \<Longrightarrow> cstr (s @ NUL # rest) = s"
  by (simp add: cstr_def is_cstr_def takeWhile_append)

section \<open>Source descriptions\<close>

record event_record =
  er_name :: string       \<comment> \<open>\<open>char name[64]\<close>\<close>
  er_kind :: shm_kind
  er_size :: size_t
  er_signature :: string  \<comment> \<open>\<open>unsigned char signature[32]\<close>\<close>

record source_control =
  sc_size :: size_t
  sc_events :: "event_record list"

abbreviation SIZEOF_RECORD :: size_t where
  "SIZEOF_RECORD \<equiv> 112"

definition source_control_get_records_num :: "source_control \<Rightarrow> size_t" where
  "source_control_get_records_num sc = (sc_size sc - 8) div SIZEOF_RECORD"

text \<open>The loops over the records: an index past the allocated records is out of bounds.\<close>

definition rec_at :: "event_record list \<Rightarrow> nat \<Rightarrow> event_record res" where
  "rec_at es i = (if i < length es then Inr (es ! i) else Inl (UB ''events[i] out of bounds''))"

primrec max_event_size_loop :: "event_record list \<Rightarrow> nat list \<Rightarrow> size_t \<Rightarrow> size_t res" where
  "max_event_size_loop es [] m = Inr m"
| "max_event_size_loop es (i # is) m =
     bindE (rec_at es i) (\<lambda>r. max_event_size_loop es is (if m < er_size r then er_size r else m))"

definition source_control_max_event_size :: "source_control \<Rightarrow> size_t res" where
  "source_control_max_event_size control =
     max_event_size_loop (sc_events control) [0..<unat (source_control_get_records_num control)] 0"

primrec get_event_loop :: "event_record list \<Rightarrow> string \<Rightarrow> nat list \<Rightarrow> nat option res" where
  "get_event_loop es name [] = Inr None"
| "get_event_loop es name (i # is) =
     bindE (rec_at es i) (\<lambda>r.
     if strncmp_eq (er_name r) name 64 then Inr (Some i) else get_event_loop es name is)"

definition source_control_get_event :: "source_control \<Rightarrow> string \<Rightarrow> nat option res" where
  "source_control_get_event control name =
     get_event_loop (sc_events control) name [0..<unat (source_control_get_records_num control)]"

definition init_record :: "event_record \<Rightarrow> string \<Rightarrow> string \<Rightarrow> event_record res" where
  "init_record ev name sig =
     assertE (length name \<le> 63) ''strlen(name) <= max_name_size''
     (let n = (strncpy (er_name ev) name 63)[63 := NUL] in
      assertE (length sig \<le> 31) ''strlen(sig) <= max_sig_size''
      (let s = (strncpy (er_signature ev) sig 31)[31 := NUL] in
       bindE (signature_get_size sig) (\<lambda>k.
       Inr (ev\<lparr>er_name := n, er_signature := s, er_size := k + of_nat SIZEOF_EVENT,
               er_kind := 0\<rparr>))))"

text \<open>
  \<open>malloc\<close> of a description: the records it returns hold indeterminate values (an argument
  of the model), \<open>None\<close> is a failed allocation.
\<close>

definition control_bytes :: "size_t \<Rightarrow> size_t" where
  "control_bytes ev_nums = 8 + ev_nums * SIZEOF_RECORD"

definition source_control_allocate ::
    "(size_t \<Rightarrow> event_record list option) \<Rightarrow> size_t \<Rightarrow> source_control res" where
  "source_control_allocate malloc ev_nums =
     (case malloc (control_bytes ev_nums) of
        None \<Rightarrow> Inl (Assertion ''Allocation failed'')
      | Some recs \<Rightarrow> Inr \<lparr>sc_size = control_bytes ev_nums, sc_events = recs\<rparr>)"

definition set_rec :: "source_control \<Rightarrow> nat \<Rightarrow> string \<Rightarrow> string \<Rightarrow> source_control res" where
  "set_rec control i name sig =
     bindE (rec_at (sc_events control) i) (\<lambda>r.
     bindE (init_record r name sig) (\<lambda>r'.
     Inr (control\<lparr>sc_events := (sc_events control)[i := r']\<rparr>)))"

text \<open>
  The variadic and the pairwise definitions write the given names and signatures from
  index \<open>i\<close> on; too few arguments are undefined behaviour.
\<close>

fun define_from :: "source_control \<Rightarrow> nat \<Rightarrow> nat \<Rightarrow> (string \<times> string) list \<Rightarrow> source_control res" where
  "define_from control i 0 args = Inr control"
| "define_from control i (Suc k) [] = Inl (UB ''missing argument'')"
| "define_from control i (Suc k) ((name, sig) # args) =
     bindE (set_rec control i name sig) (\<lambda>c. define_from c (Suc i) k args)"

definition source_control_define ::
    "(size_t \<Rightarrow> event_record list option) \<Rightarrow> size_t \<Rightarrow> (string \<times> string) list \<Rightarrow> source_control res" where
  "source_control_define malloc ev_nums args =
     bindE (source_control_allocate malloc ev_nums) (\<lambda>control.
     define_from control 0 (unat ev_nums) args)"

definition source_control_define_pairwise ::
    "(size_t \<Rightarrow> event_record list option) \<Rightarrow> size_t \<Rightarrow> string list \<Rightarrow> string list \<Rightarrow> source_control res" where
  "source_control_define_pairwise malloc ev_nums names sigs =
     bindE (source_control_allocate malloc ev_nums) (\<lambda>control.
     define_from control 0 (unat ev_nums) (zip names sigs))"

primrec check_no_gap :: "event_record list \<Rightarrow> nat list \<Rightarrow> unit res" where
  "check_no_gap es [] = Inr ()"
| "check_no_gap es (i # is) =
     bindE (rec_at es i) (\<lambda>r.
     assertE (er_size r > 0) ''Gap in partially defining source control'' (check_no_gap es is))"

fun define_partially_loop ::
    "source_control \<Rightarrow> nat \<Rightarrow> nat \<Rightarrow> (string \<times> string) list \<Rightarrow> source_control res" where
  "define_partially_loop control i 0 args = Inr control"
| "define_partially_loop control i (Suc k) args =
     assertE (i < unat (source_control_get_records_num control)) ''i < source_control_get_records_num''
     (case args of
        [] \<Rightarrow> Inl (UB ''missing argument'')
      | (name, sig) # args' \<Rightarrow>
          bindE (set_rec control i name sig) (\<lambda>c. define_partially_loop c (Suc i) k args'))"

text \<open>The loop runs from \<open>from\<close> to \<open>from + ev_nums\<close>, a sum of 64-bit words.\<close>

definition source_control_define_partially ::
    "source_control \<Rightarrow> size_t \<Rightarrow> size_t \<Rightarrow> (string \<times> string) list \<Rightarrow> source_control res" where
  "source_control_define_partially control from_ix ev_nums args =
     bindE (check_no_gap (sc_events control) [0..<unat from_ix]) (\<lambda>_.
     define_partially_loop control (unat from_ix) (unat (from_ix + ev_nums) - unat from_ix) args)"

definition source_control_define_pairwise_partially ::
    "source_control \<Rightarrow> size_t \<Rightarrow> size_t \<Rightarrow> string list \<Rightarrow> string list \<Rightarrow> source_control res" where
  "source_control_define_pairwise_partially control from_ix ev_nums names sigs =
     source_control_define_partially control from_ix ev_nums (zip names sigs)"

section \<open>A source description given as text\<close>

text \<open>\<open>strchr\<close>: the text before the first occurrence of \<open>c\<close> and the text after it.\<close>

fun split_at :: "char \<Rightarrow> string \<Rightarrow> (string \<times> string) option" where
  "split_at c [] = None"
| "split_at c (x # xs) =
     (if x = c then Some ([], xs)
      else (case split_at c xs of None \<Rightarrow> None | Some (a, b) \<Rightarrow> Some (x # a, b)))"

text \<open>
  The loop of \<open>source_control_define_str\<close>: \<open>k\<close> is \<open>ev_nums - i\<close>, \<open>name\<close> and \<open>sig\<close> are the
  texts between the pointers, and \<open>rst\<close> is \<open>None\<close> when \<open>s_end\<close> points to the end of the text
  and the text after the comma otherwise. The result \<open>Inr None\<close> is \<open>NULL\<close>. The local array
  \<open>name\<close> has 63 characters, so the terminating NUL of a name of 63 characters is written
  out of bounds.
\<close>

fun define_str_loop ::
    "nat \<Rightarrow> source_control \<Rightarrow> nat \<Rightarrow> string \<Rightarrow> string \<Rightarrow> string option \<Rightarrow> source_control option res" where
  "define_str_loop ev_nums control 0 name sig rst = Inr (Some control)"
| "define_str_loop ev_nums control (Suc k) name sig rst =
     assertE (length name \<le> 63) ''n_end - n_start <= max_name_size''
     (if length name \<ge> 63 then Inl (UB ''name[n_end - n_start] out of bounds'')
      else assertE (length sig \<le> 31) ''s_end - s_start <= max_sig_size''
        (bindE (set_rec control (ev_nums - Suc k) name sig) (\<lambda>control.
         case rst of
           None \<Rightarrow> Inr (Some control)
         | Some rest \<Rightarrow>
             if rest = [] then Inr (Some control)
             else (case split_at CHR '':'' rest of
                 None \<Rightarrow> Inr None
               | Some (name, s) \<Rightarrow>
                   (case split_at CHR '','' s of
                      Some (sig, rst) \<Rightarrow> define_str_loop ev_nums control k name sig (Some rst)
                    | None \<Rightarrow>
                        if ev_nums - k = ev_nums - 1
                        then define_str_loop ev_nums control k name s None
                        else Inr None)))))"

definition source_control_define_str ::
    "(size_t \<Rightarrow> event_record list option) \<Rightarrow> string \<Rightarrow> source_control option res" where
  "source_control_define_str malloc str =
     (let ev_nums = count_list str CHR '':''; com_nums = count_list str CHR '','' in
      if \<not> (ev_nums > 0 \<and> (ev_nums = com_nums \<or> ev_nums = com_nums + 1)) then Inr None
      else
        (case malloc (control_bytes (of_nat ev_nums)) of
           None \<Rightarrow> Inl (Assertion ''control'')
         | Some recs \<Rightarrow>
             (let control = \<lparr>sc_size = control_bytes (of_nat ev_nums), sc_events = recs\<rparr> in
              case split_at CHR '':'' str of
                None \<Rightarrow> Inr None
              | Some (name, s) \<Rightarrow>
                  (case split_at CHR '','' s of
                     Some (sig, rst) \<Rightarrow> define_str_loop ev_nums control ev_nums name sig (Some rst)
                   | None \<Rightarrow>
                       if ev_nums > 1 then Inr None
                       else define_str_loop ev_nums control ev_nums name s None))))"

text \<open>The text of a description: \<open>name:sig\<close> pairs separated by commas.\<close>

fun print_source :: "(string \<times> string) list \<Rightarrow> string" where
  "print_source [] = []"
| "print_source [(n, s)] = n @ CHR '':'' # s"
| "print_source ((n, s) # p # ps) = n @ CHR '':'' # s @ CHR '','' # print_source (p # ps)"

definition plain_pair :: "string \<times> string \<Rightarrow> bool" where
  "plain_pair p \<longleftrightarrow> length (fst p) < 63 \<and> length (snd p) \<le> 31 \<and>
     CHR '':'' \<notin> set (fst p) \<and> CHR '','' \<notin> set (fst p) \<and> list_all valid_op (snd p)"

lemma split_at_append:
  "c \<notin> set a \<Longrightarrow> split_at c (a @ c # b) = Some (a, b)"
  by (induction a) auto

lemma split_at_none: "c \<notin> set a \<Longrightarrow> split_at c a = None"
  by (induction a) auto

lemma sep_not_valid_op: "\<not> valid_op CHR '':''" "\<not> valid_op CHR '',''"
  by (simp_all add: valid_op_def)

lemma valid_op_not_sep: "list_all valid_op s \<Longrightarrow> CHR '':'' \<notin> set s \<and> CHR '','' \<notin> set s"
  using sep_not_valid_op by (metis list_all_iff)

lemma plain_pairD:
  assumes "plain_pair (n, s)"
  shows "length n < 63" "length s \<le> 31" "CHR '':'' \<notin> set n" "CHR '','' \<notin> set n"
    "CHR '':'' \<notin> set s" "CHR '','' \<notin> set s"
  using assms valid_op_not_sep [of s] by (auto simp: plain_pair_def)

lemma count_list_none: "c \<notin> set xs \<Longrightarrow> count_list xs c = 0"
  by (induction xs) auto

lemma print_source_counts:
  "ps \<noteq> [] \<Longrightarrow> list_all plain_pair ps \<Longrightarrow>
    count_list (print_source ps) CHR '':'' = length ps \<and>
    Suc (count_list (print_source ps) CHR '','') = length ps"
  by (induction ps rule: print_source.induct) (auto simp: count_list_none plain_pairD)

lemma print_source_Cons_nonempty [simp]: "print_source (p # ps) \<noteq> []"
  by (cases p; cases ps) auto

text \<open>What the loop sees of a printed description.\<close>

definition print_tail :: "(string \<times> string) list \<Rightarrow> string option" where
  "print_tail ps = (if ps = [] then None else Some (print_source ps))"

lemma split_print_source:
  assumes "plain_pair (n, s)"
  shows "split_at CHR '':'' (print_source ((n, s) # ps)) =
      Some (n, s @ (case print_tail ps of None \<Rightarrow> [] | Some t \<Rightarrow> CHR '','' # t))"
    and "split_at CHR '','' (s @ (case print_tail ps of None \<Rightarrow> [] | Some t \<Rightarrow> CHR '','' # t)) =
      (case print_tail ps of None \<Rightarrow> None | Some t \<Rightarrow> Some (s, t))"
  using plain_pairD [OF assms]
  by (cases ps; simp add: split_at_append split_at_none print_tail_def)+

lemma define_str_loop_print:
  "list_all plain_pair ((n, s) # ps) \<Longrightarrow> i + Suc (length ps) = ev_nums \<Longrightarrow>
   define_str_loop ev_nums control (Suc (length ps)) n s (print_tail ps) =
     bindE (define_from control i (Suc (length ps)) ((n, s) # ps)) (\<lambda>c. Inr (Some c))"
proof (induction ps arbitrary: n s i control)
  case Nil
  then have "length n < 63" "length s \<le> 31" using plain_pairD [of n s] by auto
  with Nil show ?case by (auto simp: print_tail_def bindE_def split: sum.splits)
next
  case (Cons p ps)
  obtain n' s' where p: "p = (n', s')" by (cases p)
  have pl: "length n < 63" "length s \<le> 31" "plain_pair (n', s')"
    using Cons.prems(1) p plain_pairD [of n s] by auto
  have ih: "define_str_loop ev_nums c (Suc (length ps)) n' s' (print_tail ps) =
     bindE (define_from c (Suc i) (Suc (length ps)) (p # ps)) (\<lambda>c. Inr (Some c))" for c
    using Cons.IH [of n' s' "Suc i"] Cons.prems p by simp
  have i: "ev_nums - Suc (Suc (length ps)) = i" using Cons.prems(2) by simp
  have last: "ps = [] \<Longrightarrow> ev_nums - Suc (length ps) = ev_nums - 1" by simp
  show ?case
    using pl i ih split_print_source [OF pl(3), of ps]
    by (cases "set_rec control i n s"; cases ps; simp add: print_tail_def p)
qed

lemma source_control_define_str_print:
  assumes ps: "ps \<noteq> []" "list_all plain_pair ps"
    and m: "malloc (control_bytes (of_nat (length ps))) = Some recs"
    and len: "length ps < 18446744073709551616"
  shows "source_control_define_str malloc (print_source ps) =
    bindE (source_control_define_pairwise malloc (of_nat (length ps)) (map fst ps) (map snd ps))
      (\<lambda>c. Inr (Some c))"
proof -
  obtain n s ps' where ps': "ps = (n, s) # ps'" using ps(1) by (cases ps) auto
  have pl: "plain_pair (n, s)" using ps(2) ps' by simp
  have cnt: "count_list (print_source ps) CHR '':'' = Suc (length ps')"
    "Suc (count_list (print_source ps) CHR '','') = Suc (length ps')"
    using print_source_counts [OF ps] ps' by auto
  have u: "unat (of_nat (length ps) :: size_t) = Suc (length ps')"
    using len ps' unat_of_nat_64 [of "length ps"] by simp
  have z: "zip (map fst ps) (map snd ps) = ps" by (simp add: zip_map_fst_snd)
  let ?c = "\<lparr>sc_size = control_bytes (of_nat (length ps)), sc_events = recs\<rparr>"
  have "source_control_define_str malloc (print_source ps) =
    define_str_loop (length ps) ?c (Suc (length ps')) n s (print_tail ps')"
    using cnt m ps' split_print_source [OF pl, of ps']
    by (cases ps') (auto simp: source_control_define_str_def Let_def print_tail_def)
  also have "\<dots> = bindE (define_from ?c 0 (Suc (length ps')) ps) (\<lambda>c. Inr (Some c))"
    using define_str_loop_print [of n s ps' 0 "length ps" ?c] ps(2) ps' by simp
  finally show ?thesis
    using m u z by (simp add: source_control_define_pairwise_def source_control_allocate_def)
qed

section \<open>What a defined description holds\<close>

definition wf_record :: "event_record \<Rightarrow> bool" where
  "wf_record r \<longleftrightarrow> length (er_name r) = 64 \<and> length (er_signature r) = 32"

definition valid_pair :: "string \<times> string \<Rightarrow> bool" where
  "valid_pair p \<longleftrightarrow> is_cstr (fst p) \<and> length (fst p) \<le> 63 \<and> length (snd p) \<le> 31 \<and>
     list_all valid_op (snd p)"

definition describes :: "event_record \<Rightarrow> string \<times> string \<Rightarrow> bool" where
  "describes r p \<longleftrightarrow> wf_record r \<and> cstr (er_name r) = fst p \<and> cstr (er_signature r) = snd p \<and>
     er_kind r = 0 \<and> unat (er_size r) = SIZEOF_EVENT + sum_list (map op_size (snd p))"

lemma strncpy_terminated:
  assumes "length src \<le> n" and "length dst = Suc n"
  shows "(strncpy dst src n)[n := NUL] = src @ replicate (Suc n - length src) NUL"
proof (rule nth_equalityI)
  show "length ((strncpy dst src n)[n := NUL]) = length (src @ replicate (Suc n - length src) NUL)"
    using assms by (simp add: strncpy_def)
next
  fix i assume "i < length ((strncpy dst src n)[n := NUL])"
  then have "i \<le> n" using assms by (simp add: strncpy_def)
  then show "(strncpy dst src n)[n := NUL] ! i = (src @ replicate (Suc n - length src) NUL) ! i"
    using assms by (cases "i = n") (auto simp: strncpy_def nth_append nth_list_update)
qed

lemma cstr_strncpy:
  assumes "is_cstr src" "length src \<le> n" "length dst = Suc n"
  shows "cstr ((strncpy dst src n)[n := NUL]) = src"
    and "length ((strncpy dst src n)[n := NUL]) = Suc n"
proof -
  have "Suc n - length src = Suc (n - length src)" using assms(2) by simp
  with strncpy_terminated [OF assms(2,3)]
  have "(strncpy dst src n)[n := NUL] = src @ NUL # replicate (n - length src) NUL" by simp
  with cstr_padded [OF assms(1)] assms(2) show
    "cstr ((strncpy dst src n)[n := NUL]) = src" "length ((strncpy dst src n)[n := NUL]) = Suc n"
    by auto
qed

lemma NUL_not_valid_op: "\<not> valid_op NUL"
  by (simp add: valid_op_def)

lemma valid_op_is_cstr: "list_all valid_op s \<Longrightarrow> is_cstr s"
  using NUL_not_valid_op by (metis is_cstr_def list_all_iff)

lemma sum_op_size_le: "sum_list (map op_size s) \<le> 8 * length s"
proof (induction s)
  case (Cons c s)
  then show ?case using op_size_le [of c] by simp
qed simp

lemma init_record_ok:
  assumes "wf_record ev" and "valid_pair (name, sig)"
  shows "\<exists>r. init_record ev name sig = Inr r \<and> describes r (name, sig)"
proof -
  have v: "is_cstr name" "length name \<le> 63" "length sig \<le> 31" "list_all valid_op sig"
    and w: "length (er_name ev) = Suc 63" "length (er_signature ev) = Suc 31"
    using assms by (auto simp: valid_pair_def wf_record_def)
  obtain k where k: "signature_get_size sig = Inr k" "unat k = sum_list (map op_size sig)"
    using signature_get_size_ok [OF v(4)] v(3) by auto
  have "unat k \<le> 8 * 31" using sum_op_size_le [of sig] v(3) k(2) by linarith
  then have "unat (k + of_nat SIZEOF_EVENT) = SIZEOF_EVENT + sum_list (map op_size sig)"
    using k(2) by (simp add: unat_add_64 SIZEOF_EVENT_def)
  with v w k cstr_strncpy [OF v(1,2) w(1)] cstr_strncpy [OF valid_op_is_cstr [OF v(4)] v(3) w(2)]
  show ?thesis by (auto simp: init_record_def describes_def wf_record_def Let_def)
qed

lemma define_from_ok:
  assumes "list_all valid_pair args" and "list_all wf_record (drop i (sc_events control))"
    and "i + length args = length (sc_events control)"
  shows "\<exists>rs. define_from control i (length args) args =
      Inr (control\<lparr>sc_events := take i (sc_events control) @ rs\<rparr>) \<and> list_all2 describes rs args"
  using assms
proof (induction args arbitrary: i control)
  case Nil
  then show ?case by simp
next
  case (Cons p args)
  obtain n s where p: "p = (n, s)" by (cases p)
  let ?es = "sc_events control"
  have i: "i < length ?es" using Cons.prems(3) by simp
  then have "wf_record (?es ! i)" using Cons.prems(2) by (simp add: Cons_nth_drop_Suc [symmetric])
  then obtain r where r: "init_record (?es ! i) n s = Inr r" "describes r (n, s)"
    using init_record_ok Cons.prems(1) p by fastforce
  let ?c = "control\<lparr>sc_events := ?es[i := r]\<rparr>"
  have set: "set_rec control i n s = Inr ?c" using i r(1) by (simp add: set_rec_def rec_at_def)
  have "list_all wf_record (drop (Suc i) (sc_events ?c))"
    using i Cons.prems(2) by (simp add: Cons_nth_drop_Suc [symmetric])
  moreover have "Suc i + length args = length (sc_events ?c)" using Cons.prems(3) by simp
  moreover have "list_all valid_pair args" using Cons.prems(1) by simp
  ultimately obtain rs where rs: "define_from ?c (Suc i) (length args) args =
      Inr (?c\<lparr>sc_events := take (Suc i) (sc_events ?c) @ rs\<rparr>)" "list_all2 describes rs args"
    using Cons.IH by blast
  have "take (Suc i) (?es[i := r]) = take i ?es @ [r]" using i by (simp add: take_Suc_conv_app_nth)
  with rs set p r(2) show ?case by (auto intro!: exI [of _ "r # rs"])
qed

text \<open>A description of \<open>length args\<close> events: the records in the order of the arguments.\<close>

definition describes_all :: "source_control \<Rightarrow> (string \<times> string) list \<Rightarrow> bool" where
  "describes_all sc args \<longleftrightarrow> list_all2 describes (sc_events sc) args \<and>
     source_control_get_records_num sc = of_nat (length args) \<and> 112 * length args < 18446744073709551608"

lemma records_num_control_bytes:
  assumes "112 * unat n < 18446744073709551608"
  shows "(control_bytes n - 8) div SIZEOF_RECORD = n"
proof -
  have "control_bytes n - 8 = n * SIZEOF_RECORD" by (simp add: control_bytes_def)
  moreover have "unat (n * SIZEOF_RECORD) = unat n * 112" using assms by (simp add: unat_mult_64)
  ultimately show ?thesis by (simp add: word_64_eq_iff unat_div)
qed

lemma source_control_define_pairwise_ok:
  assumes "list_all valid_pair args" and n: "112 * length args < 18446744073709551608"
    and m: "malloc (control_bytes (of_nat (length args))) = Some recs"
      "list_all wf_record recs" "length recs = length args"
  shows "\<exists>c. source_control_define_pairwise malloc (of_nat (length args)) (map fst args) (map snd args) = Inr c \<and>
    describes_all c args"
proof -
  have u: "unat (of_nat (length args) :: size_t) = length args" using n by (simp add: unat_of_nat_64)
  let ?c = "\<lparr>sc_size = control_bytes (of_nat (length args)), sc_events = recs\<rparr>"
  obtain rs where "define_from ?c 0 (length args) args = Inr (?c\<lparr>sc_events := rs\<rparr>)"
    "list_all2 describes rs args"
    using define_from_ok [OF assms(1), of 0 ?c] m by auto
  with u m n show ?thesis
    by (simp add: source_control_define_pairwise_def source_control_allocate_def zip_map_fst_snd
        describes_all_def source_control_get_records_num_def records_num_control_bytes)
qed

lemma describes_allD:
  assumes "describes_all sc args"
  shows "unat (source_control_get_records_num sc) = length args" "length (sc_events sc) = length args"
    "\<And>i. i < length args \<Longrightarrow> describes (sc_events sc ! i) (args ! i)"
  using assms by (auto simp: describes_all_def unat_of_nat_64 list_all2_conv_all_nth)

lemma strncmp_eq_name:
  assumes "is_cstr a" "is_cstr b" "length a \<le> 63" "length b \<le> 63" and "cstr arr = a"
  shows "strncmp_eq arr b 64 \<longleftrightarrow> a = b"
  using assms by (auto simp: strncmp_eq_def)

text \<open>The name lookup finds the first record of that name, or nothing.\<close>

fun find_name :: "string \<Rightarrow> (string \<times> string) list \<Rightarrow> nat \<Rightarrow> nat option" where
  "find_name name [] i = None"
| "find_name name ((n, s) # ps) i = (if n = name then Some i else find_name name ps (Suc i))"

lemma get_event_loop_ok:
  assumes "is_cstr name" "length name \<le> 63"
  shows "list_all2 describes (drop i es) args \<Longrightarrow> list_all valid_pair args \<Longrightarrow> i + length args = length es \<Longrightarrow>
    get_event_loop es name [i..<i + length args] = Inr (find_name name args i)"
proof (induction args arbitrary: i)
  case Nil
  then show ?case by simp
next
  case (Cons p args)
  obtain n s where p: "p = (n, s)" by (cases p)
  have i: "i < length es" using Cons.prems(3) by simp
  have d: "describes (es ! i) (n, s)" "list_all2 describes (drop (Suc i) es) args"
    using Cons.prems(1) i p by (simp_all add: Cons_nth_drop_Suc [symmetric])
  have e: "strncmp_eq (er_name (es ! i)) name 64 \<longleftrightarrow> n = name"
    using d(1) Cons.prems(2) p assms
    by (intro strncmp_eq_name) (auto simp: describes_def valid_pair_def)
  have "get_event_loop es name [Suc i..<Suc i + length args] = Inr (find_name name args (Suc i))"
    using Cons.IH [OF d(2)] Cons.prems by simp
  moreover have "[i..<i + length (p # args)] = i # [Suc i..<Suc i + length args]"
    by (simp add: upt_conv_Cons del: upt_Suc)
  ultimately show ?case using e i p by (simp add: rec_at_def del: upt_Suc)
qed

lemma source_control_get_event_ok:
  assumes "describes_all sc args" "list_all valid_pair args" "is_cstr name" "length name \<le> 63"
  shows "source_control_get_event sc name = Inr (find_name name args 0)"
  using get_event_loop_ok [OF assms(3,4), of 0 "sc_events sc" args] assms(1,2) describes_allD(1,2) [OF assms(1)]
  by (simp add: source_control_get_event_def describes_all_def)

lemma max_event_size_loop_ok:
  "\<forall>i \<in> set is. i < length es \<Longrightarrow>
    \<exists>k. max_event_size_loop es is m = Inr k \<and>
      unat k = Max (insert (unat m) ((\<lambda>i. unat (er_size (es ! i))) ` set is))"
proof (induction "is" arbitrary: m)
  case Nil
  then show ?case by simp
next
  case (Cons i "is")
  then have i: "i < length es" and ih: "\<forall>i \<in> set is. i < length es" by auto
  let ?m = "if m < er_size (es ! i) then er_size (es ! i) else m"
  let ?f = "\<lambda>i. unat (er_size (es ! i))"
  obtain k where k: "max_event_size_loop es is ?m = Inr k" "unat k = Max (insert (unat ?m) (?f ` set is))"
    using Cons.IH [OF ih] by blast
  have "unat ?m = max (unat m) (?f i)" by (simp add: word_less_nat_alt)
  moreover have "Max (insert (max (unat m) (?f i)) (?f ` set is)) = Max (insert (unat m) (?f ` set (i # is)))"
    by (cases "is = []") (auto simp: max.assoc)
  ultimately show ?case using k i by (auto simp: rec_at_def)
qed

lemma source_control_max_event_size_ok:
  assumes "describes_all sc args"
  shows "\<exists>k. source_control_max_event_size sc = Inr k \<and>
    unat k = Max (insert 0 ((\<lambda>p. SIZEOF_EVENT + sum_list (map op_size (snd p))) ` set args))"
proof -
  note D = describes_allD [OF assms]
  have "(\<lambda>i. unat (er_size (sc_events sc ! i))) ` set [0..<length args] =
    (\<lambda>i. SIZEOF_EVENT + sum_list (map op_size (snd (args ! i)))) ` set [0..<length args]"
    by (rule image_cong) (use D(3) in \<open>auto simp: describes_def\<close>)
  also have "\<dots> = (\<lambda>p. SIZEOF_EVENT + sum_list (map op_size (snd p))) ` (!) args ` set [0..<length args]"
    by (simp only: image_image)
  also have "(!) args ` set [0..<length args] = set args"
    by (simp only: set_map [symmetric] map_nth)
  finally show ?thesis
    using max_event_size_loop_ok [of "[0..<length args]" "sc_events sc" 0] D(1,2)
    by (auto simp: source_control_max_event_size_def)
qed

section \<open>Properties\<close>

definition example_pairs :: "(string \<times> string) list" where
  "example_pairs = [(''open'', ''ic''), (''close'', ''i'')]"

definition blank_record :: event_record where
  "blank_record = \<lparr>er_name = replicate 64 NUL, er_kind = 0, er_size = 0, er_signature = replicate 32 NUL\<rparr>"

definition blank_malloc :: "size_t \<Rightarrow> event_record list option" where
  "blank_malloc n = Some (replicate (unat ((n - 8) div SIZEOF_RECORD)) blank_record)"

lemma example_pairs_ok: "list_all valid_pair example_pairs" "list_all plain_pair example_pairs"
  by (simp_all add: example_pairs_def valid_pair_def plain_pair_def is_cstr_def valid_op_def)

lemma example_malloc:
  "blank_malloc (control_bytes (of_nat (length example_pairs))) = Some [blank_record, blank_record]"
  by code_simp

text \<open>
  C33: parsing the text of a description gives what defining the same events from arrays gives:
  \<open>source_control_define_str\<close> inverts the printing of \<open>name:signature\<close> pairs separated by
  commas, for names without separators that fit the buffer and valid signatures.
\<close>

theorem define_str_parses_printed_source:
  assumes "ps \<noteq> []" and "list_all plain_pair ps" and "length ps < 18446744073709551616"
    and "malloc (control_bytes (of_nat (length ps))) = Some recs"
  shows "source_control_define_str malloc (print_source ps) =
    bindE (source_control_define_pairwise malloc (of_nat (length ps)) (map fst ps) (map snd ps))
      (\<lambda>c. Inr (Some c))"
  using source_control_define_str_print [of ps malloc recs] assms by blast

theorem define_str_parses_printed_source_witness:
  "print_source example_pairs = ''open:ic,close:i'' \<and>
   source_control_define_str blank_malloc ''open:ic,close:i'' =
    bindE (source_control_define_pairwise blank_malloc 2 [''open'', ''close''] [''ic'', ''i''])
      (\<lambda>c. Inr (Some c))"
proof -
  have p: "print_source example_pairs = ''open:ic,close:i''" by (simp add: example_pairs_def)
  have "length example_pairs = 2" "map fst example_pairs = [''open'', ''close'']"
    "map snd example_pairs = [''ic'', ''i'']" "example_pairs \<noteq> []"
    by (simp_all add: example_pairs_def)
  with p define_str_parses_printed_source [of example_pairs blank_malloc] example_pairs_ok(2)
    example_malloc show ?thesis by simp
qed

text \<open>
  a description defined from valid names and signatures holds one record per event, in
  order, with the name and signature as NUL-terminated strings, kind 0, and the size of the
  event header plus the sizes of the operands; looking up a name finds the first record of
  that name, or nothing, and the maximal event size is the maximum over the records.
\<close>

theorem source_control_define_lookup:
  assumes "list_all valid_pair args" and "112 * length args < 18446744073709551608"
    and "malloc (control_bytes (of_nat (length args))) = Some recs"
    and "list_all wf_record recs" "length recs = length args"
    and "is_cstr name" "length name \<le> 63"
  shows "\<exists>c k. source_control_define_pairwise malloc (of_nat (length args)) (map fst args) (map snd args) = Inr c \<and>
    list_all2 describes (sc_events c) args \<and>
    source_control_get_event c name = Inr (find_name name args 0) \<and>
    source_control_max_event_size c = Inr k \<and>
    unat k = Max (insert 0 ((\<lambda>p. SIZEOF_EVENT + sum_list (map op_size (snd p))) ` set args))"
proof -
  obtain c where c: "source_control_define_pairwise malloc (of_nat (length args)) (map fst args) (map snd args) = Inr c"
    "describes_all c args"
    using source_control_define_pairwise_ok [of args malloc recs] assms(1-5) by blast
  with source_control_get_event_ok [OF c(2) assms(1,6,7)] source_control_max_event_size_ok [OF c(2)]
  show ?thesis by (auto simp: describes_all_def)
qed

theorem source_control_define_lookup_witness:
  "\<exists>c k. source_control_define_pairwise blank_malloc 2 [''open'', ''close''] [''ic'', ''i''] = Inr c \<and>
    source_control_get_event c ''close'' = Inr (Some 1) \<and>
    source_control_max_event_size c = Inr k \<and> unat k = 21"
proof -
  have "length example_pairs = 2" "map fst example_pairs = [''open'', ''close'']"
    "map snd example_pairs = [''ic'', ''i'']" "find_name ''close'' example_pairs 0 = Some 1"
    by (simp_all add: example_pairs_def)
  moreover have "Max (insert 0 ((\<lambda>p. SIZEOF_EVENT + sum_list (map op_size (snd p))) ` set example_pairs)) = 21"
    by code_simp
  moreover have "list_all wf_record [blank_record, blank_record]" by (simp add: wf_record_def blank_record_def)
  moreover have "is_cstr ''close''" by (simp add: is_cstr_def)
  ultimately show ?thesis
    using source_control_define_lookup [of example_pairs blank_malloc "[blank_record, blank_record]" "''close''"]
      example_pairs_ok(1) example_malloc by auto
qed



text \<open>
  The local array for names in \<open>source_control_define_str\<close> has 63 characters, but the assertion
  lets a name of 63 characters pass: its terminating NUL is written behind the array.
\<close>

lemma define_str_name_overflow:
  assumes "length n = 63" "CHR '':'' \<notin> set n" "CHR '','' \<notin> set n"
    and "malloc (control_bytes 1) = Some recs"
  shows "source_control_define_str malloc (n @ '':i'') = Inl (UB ''name[n_end - n_start] out of bounds'')"
proof -
  have "count_list (n @ '':i'') CHR '':'' = 1" "count_list (n @ '':i'') CHR '','' = 0"
    using assms(2,3) by (simp_all add: count_list_none)
  moreover have "split_at CHR '':'' (n @ '':i'') = Some (n, ''i'')" using assms(2) by (simp add: split_at_append)
  ultimately show ?thesis using assms(1,4) by (simp add: source_control_define_str_def)
qed

text \<open>The documented operand \<open>s\<close> (short) is not accepted, and \<open>f\<close> (float) has the size of a long.\<close>

lemma signature_short_and_float:
  "signature_op_get_size CHR ''s'' = Inl (Assertion ''Invalid op type'') \<and> signature_op_get_size CHR ''f'' = Inr 8"
  by (simp add: signature_op_get_size_def)

end
