(* ===== verification/Shm_Buffer.thy ===== *)
theory Shm_Buffer
  imports Par_Queue Event_Source
begin

text \<open>
  The shared-memory buffer between a monitored program and the monitor: \<open>shmbuf/buffer.c\<close>
  with the structures of \<open>shmbuf/buffer-private.h\<close>. The shared part (\<open>struct shmbuffer\<close>) is
  the header and the data area; the local handle (\<open>struct buffer\<close>) refers to it and to the
  auxiliary buffers for strings, which are shared-memory segments found by their index.
  A handle's view of the shared memory is part of its record. The data area is addressed
  by byte offsets from \<open>BUFF_START\<close>.
\<close>

section \<open>State\<close>

record shmbuffer =
  sb_ringbuf :: shm_spsc_ringbuf
  sb_allocated_size :: size_t
  sb_capacity :: size_t
  sb_elem_size :: size_t
  sb_last_processed_id :: shm_eventid
  sb_dropped_ranges :: "(shm_eventid \<times> shm_eventid) list"
  sb_dropped_ranges_next :: size_t
  sb_dropped_ranges_lock :: bool
  sb_subbuffers_no :: size_t
  sb_destroyed :: bool
  sb_monitor_attached :: bool
  sb_data :: "byte list"

record aux_buffer =
  ab_size :: size_t
  ab_head :: size_t
  ab_idx :: size_t
  ab_first_event_id :: uint64_t
  ab_last_event_id :: uint64_t
  ab_reusable :: bool
  ab_data :: "byte list"

text \<open>A pointer to an auxiliary buffer is the index of its segment.\<close>

record buffer =
  bf_shm :: shmbuffer
  bf_segs :: "size_t \<Rightarrow> aux_buffer option"
  bf_control :: source_control
  bf_cur_aux :: "size_t option"
  bf_aux_buffers :: "size_t list"
  bf_aux_buf_idx :: size_t
  bf_aux_age :: "size_t list"
  bf_fd :: int
  bf_key :: string
  bf_mode :: "32 word"
  bf_last_subbufer_no :: size_t

definition DROPPED_RANGES_NUM :: size_t where
  "DROPPED_RANGES_NUM = 5"

abbreviation upd_shm :: "(shmbuffer \<Rightarrow> shmbuffer) \<Rightarrow> buffer \<Rightarrow> buffer" where
  "upd_shm f b \<equiv> b\<lparr>bf_shm := f (bf_shm b)\<rparr>"

abbreviation bf_ringbuf :: "buffer \<Rightarrow> shm_spsc_ringbuf" where
  "bf_ringbuf b \<equiv> sb_ringbuf (bf_shm b)"

abbreviation set_ringbuf :: "buffer \<Rightarrow> shm_spsc_ringbuf \<Rightarrow> buffer" where
  "set_ringbuf b rb \<equiv> b\<lparr>bf_shm := (bf_shm b)\<lparr>sb_ringbuf := rb\<rparr>\<rparr>"

text \<open>\<open>BUFF_END\<close> as the number of bytes after \<open>BUFF_START\<close>.\<close>

definition buff_end :: "buffer \<Rightarrow> size_t" where
  "buff_end b = sb_elem_size (bf_shm b) * (sb_capacity (bf_shm b) + 1)"

section \<open>Queries and attributes\<close>

definition buffer_is_ready :: "buffer \<Rightarrow> bool" where
  "buffer_is_ready buff = (\<not> sb_destroyed (bf_shm buff))"

definition buffer_monitor_attached :: "buffer \<Rightarrow> bool" where
  "buffer_monitor_attached buff = sb_monitor_attached (bf_shm buff)"

definition buffer_capacity :: "buffer \<Rightarrow> size_t" where
  "buffer_capacity buff = sb_capacity (bf_shm buff)"

definition buffer_size :: "buffer \<Rightarrow> size_t res" where
  "buffer_size buff = shm_spsc_ringbuf_size (bf_ringbuf buff)"

definition buffer_elem_size :: "buffer \<Rightarrow> size_t" where
  "buffer_elem_size buff = sb_elem_size (bf_shm buff)"

definition buffer_get_key :: "buffer \<Rightarrow> string" where
  "buffer_get_key buff = bf_key buff"

definition buffer_get_sub_buffers_no :: "buffer \<Rightarrow> size_t" where
  "buffer_get_sub_buffers_no buff = sb_subbuffers_no (bf_shm buff)"

definition buffer_get_avail_events :: "buffer \<Rightarrow> size_t \<times> event_record list" where
  "buffer_get_avail_events buff =
     (source_control_get_records_num (bf_control buff), sc_events (bf_control buff))"

definition buffer_set_attached :: "buffer \<Rightarrow> bool \<Rightarrow> buffer" where
  "buffer_set_attached buff val =
     (if \<not> sb_destroyed (bf_shm buff) then upd_shm (\<lambda>s. s\<lparr>sb_monitor_attached := val\<rparr>) buff else buff)"

definition buffer_set_last_processed_id :: "buffer \<Rightarrow> shm_eventid \<Rightarrow> buffer res" where
  "buffer_set_last_processed_id buff i =
     assertE (sb_last_processed_id (bf_shm buff) \<le> i) ''The IDs are not monotonic''
     (Inr (upd_shm (\<lambda>s. s\<lparr>sb_last_processed_id := i\<rparr>) buff))"

section \<open>Reading and writing elements\<close>

definition buffer_read_pointer :: "buffer \<Rightarrow> (size_t option \<times> size_t \<times> buffer) res" where
  "buffer_read_pointer buff =
     bindE (shm_spsc_ringbuf_read_off_nowrap (bf_ringbuf buff)) (\<lambda>(tail, n, rb).
     let buff = set_ringbuf buff rb in
     Inr (if n = 0 then None else Some (tail * sb_elem_size (bf_shm buff)), n, buff))"

definition buffer_consume :: "buffer \<Rightarrow> size_t \<Rightarrow> (size_t \<times> buffer) res" where
  "buffer_consume buff k =
     bindE (shm_spsc_ringbuf_consume_upto (bf_ringbuf buff) k) (\<lambda>(n, rb).
     Inr (n, set_ringbuf buff rb))"

definition buffer_drop_k :: "buffer \<Rightarrow> size_t \<Rightarrow> (bool \<times> buffer) res" where
  "buffer_drop_k buff k =
     bindE (shm_spsc_ringbuf_consume_upto (bf_ringbuf buff) k) (\<lambda>(n, rb).
     Inr (n = k, set_ringbuf buff rb))"

definition buffer_start_push :: "buffer \<Rightarrow> (size_t option \<times> buffer) res" where
  "buffer_start_push buff =
     assertE (\<not> sb_destroyed (bf_shm buff)) ''Writing to a destroyed buffer''
     (let (off, n, rb) = shm_spsc_ringbuf_write_off_nowrap (bf_ringbuf buff);
          buff = set_ringbuf buff rb
      in if n = 0 then Inr (None, buff)
         else
           (let mem = off * sb_elem_size (bf_shm buff) in
            assertE (mem < buff_end buff) ''mem < BUFF_END'' (Inr (Some mem, buff))))"

definition buffer_partial_push ::
    "buffer \<Rightarrow> size_t \<Rightarrow> byte list \<Rightarrow> size_t \<Rightarrow> (size_t \<times> buffer) res" where
  "buffer_partial_push buff prev_push elem sz =
     assertE (buffer_is_ready buff) ''Writing to a destroyed buffer''
     (assertE (prev_push < buff_end buff) ''prev_push < BUFF_END''
     (assertE (unat prev_push + unat sz \<le> unat (buff_end buff)) ''prev_push <= BUFF_END - size''
     (bindE (mem_read elem 0 (unat sz)) (\<lambda>src.
      bindE (mem_write (sb_data (bf_shm buff)) (unat prev_push) src) (\<lambda>d.
      Inr (prev_push + sz, upd_shm (\<lambda>s. s\<lparr>sb_data := d\<rparr>) buff))))))"

definition buffer_finish_push :: "buffer \<Rightarrow> buffer res" where
  "buffer_finish_push buff =
     assertE (\<not> sb_destroyed (bf_shm buff)) ''Writing to a destroyed buffer''
     (bindE (shm_spsc_ringbuf_write_finish (bf_ringbuf buff) 1) (\<lambda>rb. Inr (set_ringbuf buff rb)))"

definition buffer_push :: "buffer \<Rightarrow> byte list \<Rightarrow> size_t \<Rightarrow> (bool \<times> buffer) res" where
  "buffer_push buff elem sz =
     assertE (\<not> sb_destroyed (bf_shm buff)) ''Writing to a destroyed buffer''
     (assertE (sb_elem_size (bf_shm buff) \<ge> sz) ''Size does not fit the slot''
     (bindE (buffer_start_push buff) (\<lambda>(dst, buff).
      case dst of
        None \<Rightarrow> Inr (False, buff)
      | Some dst \<Rightarrow>
          bindE (mem_read elem 0 (unat sz)) (\<lambda>src.
          bindE (mem_write (sb_data (bf_shm buff)) (unat dst) src) (\<lambda>d.
          bindE (buffer_finish_push (upd_shm (\<lambda>s. s\<lparr>sb_data := d\<rparr>) buff)) (\<lambda>buff.
          Inr (True, buff)))))))"

definition buffer_pop :: "buffer \<Rightarrow> (byte list option \<times> buffer) res" where
  "buffer_pop buff =
     assertE (\<not> sb_destroyed (bf_shm buff)) ''Reading from a destroyed buffer''
     (bindE (buffer_read_pointer buff) (\<lambda>(pos, sz, buff).
      if sz > 0 then
        (case pos of
           None \<Rightarrow> Inl (UB ''memcpy from NULL'')
         | Some pos \<Rightarrow>
             bindE (mem_read (sb_data (bf_shm buff)) (unat pos) (unat (sb_elem_size (bf_shm buff)))) (\<lambda>bytes.
             bindE (shm_spsc_ringbuf_consume (bf_ringbuf buff) 1) (\<lambda>rb.
             Inr (Some bytes, set_ringbuf buff rb))))
      else Inr (None, buff)))"

section \<open>Dropped ranges\<close>

definition drop_ranges_unlock :: "buffer \<Rightarrow> buffer" where
  "drop_ranges_unlock buff = upd_shm (\<lambda>s. s\<lparr>sb_dropped_ranges_lock := False\<rparr>) buff"

text \<open>
  The loop of \<open>drop_ranges_lock\<close> repeats while the compare-and-exchange from \<open>false\<close> to
  \<open>true\<close> succeeds (an exchange that does not fail spuriously). The argument is the value of
  the lock, the result its value when the loop ends.
\<close>

function lock_loop :: "bool \<Rightarrow> bool" where
  "lock_loop l = (if l = False then lock_loop True else l)"
  by auto
termination
  by (relation "measure (\<lambda>l. if l then 0 else 1)") auto

declare lock_loop.simps [simp del]

definition drop_ranges_lock :: "buffer \<Rightarrow> buffer" where
  "drop_ranges_lock buff =
     upd_shm (\<lambda>s. s\<lparr>sb_dropped_ranges_lock := lock_loop (sb_dropped_ranges_lock s)\<rparr>) buff"

definition set_range :: "nat \<Rightarrow> shm_eventid \<times> shm_eventid \<Rightarrow> buffer \<Rightarrow> buffer" where
  "set_range i r buff =
     drop_ranges_unlock
       (upd_shm (\<lambda>s. s\<lparr>sb_dropped_ranges := (sb_dropped_ranges s)[i := r]\<rparr>) (drop_ranges_lock buff))"

definition buffer_notify_dropped :: "buffer \<Rightarrow> uint64_t \<Rightarrow> uint64_t \<Rightarrow> buffer res" where
  "buffer_notify_dropped buff begin_id end_id =
     (let idx = sb_dropped_ranges_next (bf_shm buff); rs = sb_dropped_ranges (bf_shm buff) in
      if \<not> unat idx < length rs then Inl (UB ''dropped_ranges[idx] out of bounds'')
      else
        (let r = rs ! unat idx in
         if fst r = begin_id \<or> snd r = fst r - 1 then
           Inr (set_range (unat idx) (fst r, end_id) buff)
         else
           (let next = (if idx + 1 = DROPPED_RANGES_NUM then 0 else idx + 1);
                buff = upd_shm (\<lambda>s. s\<lparr>sb_dropped_ranges_next := next\<rparr>) buff
            in Inr (set_range (unat next) (begin_id, end_id) buff))))"

section \<open>Registering events\<close>

text \<open>The kinds are stored in the shared description; \<open>-1\<close> is an unknown name.\<close>

definition set_kind :: "buffer \<Rightarrow> nat \<Rightarrow> shm_kind \<Rightarrow> buffer" where
  "set_kind b i k =
     b\<lparr>bf_control := (bf_control b)\<lparr>sc_events :=
        (sc_events (bf_control b))[i := (sc_events (bf_control b) ! i)\<lparr>er_kind := k\<rparr>]\<rparr>\<rparr>"

definition buffer_register_event :: "buffer \<Rightarrow> string \<Rightarrow> uint64_t \<Rightarrow> (int \<times> buffer) res" where
  "buffer_register_event b name kind =
     bindE (source_control_get_event (bf_control b) name) (\<lambda>r.
     case r of None \<Rightarrow> Inr (-1, b) | Some i \<Rightarrow> Inr (0, set_kind b i kind))"

primrec buffer_register_events :: "buffer \<Rightarrow> (string \<times> shm_kind) list \<Rightarrow> (int \<times> buffer) res" where
  "buffer_register_events b [] = Inr (0, b)"
| "buffer_register_events b (p # ps) =
     bindE (buffer_register_event b (fst p) (snd p)) (\<lambda>(r, b).
     if r < 0 then Inr (-1, b) else buffer_register_events b ps)"

primrec register_all_loop :: "buffer \<Rightarrow> nat list \<Rightarrow> buffer res" where
  "register_all_loop b [] = Inr b"
| "register_all_loop b (i # is) =
     bindE shm_get_last_special_kind (\<lambda>k.
     bindE (rec_at (sc_events (bf_control b)) i) (\<lambda>_.
     register_all_loop (set_kind b i (1 + of_nat i + k)) is))"

definition buffer_register_all_events :: "buffer \<Rightarrow> (int \<times> buffer) res" where
  "buffer_register_all_events b =
     bindE (register_all_loop b [0..<unat (source_control_get_records_num (bf_control b))]) (\<lambda>b.
     Inr (0, b))"

section \<open>The elements as a parallel queue\<close>

text \<open>
  The ring buffer and the data area of a shared buffer form a queue like that of
  \<open>core/par_queue.c\<close>; the bytes behind \<open>BUFF_END\<close> (the mapping is rounded up to pages) are
  not part of it.
\<close>

definition queue_bytes :: "shmbuffer \<Rightarrow> nat" where
  "queue_bytes s = (unat (sb_capacity s) + 1) * unat (sb_elem_size s)"

definition sb_queue :: "shmbuffer \<Rightarrow> shm_par_queue" where
  "sb_queue s = \<lparr>pq_ringbuf = sb_ringbuf s, pq_elem_size = sb_elem_size s, pq_capacity = sb_capacity s,
     pq_data = take (queue_bytes s) (sb_data s)\<rparr>"

definition put_queue :: "buffer \<Rightarrow> shm_par_queue \<Rightarrow> buffer" where
  "put_queue b q = upd_shm (\<lambda>s. s\<lparr>sb_ringbuf := pq_ringbuf q,
     sb_data := pq_data q @ drop (queue_bytes s) (sb_data s)\<rparr>) b"

definition bf_ok :: "buffer \<Rightarrow> bool" where
  "bf_ok b \<longleftrightarrow> pq_inv (sb_queue (bf_shm b))"

definition bf_elems :: "buffer \<Rightarrow> byte list list" where
  "bf_elems b = pq_elems (sb_queue (bf_shm b))"

lemma mem_upd_take:
  assumes "off + length src \<le> n" and "n \<le> length d"
  shows "mem_upd (take n d) off src @ drop n d = mem_upd d off src"
proof -
  have "drop (off + length src) d = drop (off + length src) (take n d) @ drop n d"
    using assms by (metis append_take_drop_id drop_append drop_take length_take min.absorb2 diff_is_0_eq drop0)
  then show ?thesis using assms by (simp add: mem_upd_def min_def)
qed

lemma bf_ok_queue_bytes: "bf_ok b \<Longrightarrow> queue_bytes (bf_shm b) \<le> length (sb_data (bf_shm b))"
  by (auto simp: bf_ok_def pq_inv_def sb_queue_def queue_bytes_def min_def split: if_splits)

lemma sb_queue_put:
  assumes "bf_ok b" and "pq_elem_size q = sb_elem_size (bf_shm b)" "pq_capacity q = sb_capacity (bf_shm b)"
    and "length (pq_data q) = queue_bytes (bf_shm b)"
  shows "sb_queue (bf_shm (put_queue b q)) = q"
  using assms by (simp add: sb_queue_def put_queue_def queue_bytes_def)

lemma put_queue_frame [simp]:
  "sb_destroyed (bf_shm (put_queue b q)) = sb_destroyed (bf_shm b)"
  "sb_capacity (bf_shm (put_queue b q)) = sb_capacity (bf_shm b)"
  "sb_elem_size (bf_shm (put_queue b q)) = sb_elem_size (bf_shm b)"
  "sb_last_processed_id (bf_shm (put_queue b q)) = sb_last_processed_id (bf_shm b)"
  "bf_control (put_queue b q) = bf_control b" "bf_segs (put_queue b q) = bf_segs b"
  by (simp_all add: put_queue_def)

lemma put_queue_ringbuf:
  assumes "bf_ok b"
  shows "put_queue b ((sb_queue (bf_shm b))\<lparr>pq_ringbuf := rb\<rparr>) = set_ringbuf b rb"
  using assms by (simp add: put_queue_def sb_queue_def)

lemma bf_ok_ringbuf:
  "bf_ok b \<Longrightarrow> rb_inv rb \<Longrightarrow> rb_capacity rb = rb_capacity (bf_ringbuf b) \<Longrightarrow> bf_ok (set_ringbuf b rb)"
  using pq_inv_update [of "sb_queue (bf_shm b)" rb]
  by (simp add: bf_ok_def sb_queue_def queue_bytes_def)

lemma sb_queue_set_ringbuf [simp]:
  "sb_queue (s\<lparr>sb_ringbuf := rb\<rparr>) = (sb_queue s)\<lparr>pq_ringbuf := rb\<rparr>"
  by (simp add: sb_queue_def queue_bytes_def)

lemma buff_end_eq:
  assumes "bf_ok b"
  shows "unat (buff_end b) = queue_bytes (bf_shm b)"
proof -
  have i: "unat (rb_capacity (bf_ringbuf b)) = unat (sb_capacity (bf_shm b)) + 1"
    "(unat (sb_capacity (bf_shm b)) + 1) * unat (sb_elem_size (bf_shm b)) < 18446744073709551616"
    using assms by (simp_all add: bf_ok_def pq_inv_def sb_queue_def)
  then have "unat (sb_capacity (bf_shm b) + 1) = unat (sb_capacity (bf_shm b)) + 1"
    using unat_less_2p64 [of "rb_capacity (bf_ringbuf b)"] by (simp add: unat_add_64)
  then show ?thesis using i(2) by (simp add: buff_end_def queue_bytes_def unat_mult_64 mult.commute)
qed

lemma buffer_push_as_queue:
  assumes ok: "bf_ok b" and nd: "\<not> sb_destroyed (bf_shm b)"
    and sz: "sz \<le> sb_elem_size (bf_shm b)" and el: "unat sz \<le> length elem"
  shows "buffer_push b elem sz =
    bindE (shm_par_queue_push (sb_queue (bf_shm b)) elem sz) (\<lambda>(r, q). Inr (r, put_queue b q))"
proof -
  let ?q = "sb_queue (bf_shm b)" and ?es = "sb_elem_size (bf_shm b)"
  have inv: "pq_inv ?q" using ok by (simp add: bf_ok_def)
  obtain off n rb where w: "shm_spsc_ringbuf_write_off_nowrap (bf_ringbuf b) = (off, n, rb)"
    by (cases "shm_spsc_ringbuf_write_off_nowrap (bf_ringbuf b)")
  have w': "shm_spsc_ringbuf_write_off_nowrap (pq_ringbuf ?q) = (off, n, rb)" using w by (simp add: sb_queue_def)
  show ?thesis
  proof (cases "n = 0")
    case True
    then show ?thesis using w w' nd sz ok
      by (simp add: buffer_push_def buffer_start_push_def shm_par_queue_push_def shm_par_queue_write_ptr_def
          put_queue_ringbuf) (simp add: sb_queue_def put_queue_def)
  next
    case False
    have off: "off = rb_head (bf_ringbuf b)"
      using shm_spsc_ringbuf_write_off_nowrap_ok [OF pq_inv_rb [OF inv]] w' by (auto simp: sb_queue_def)
    have lt: "unat off < unat (rb_capacity (pq_ringbuf ?q))"
      using off rb_invD(1) [OF pq_inv_rb [OF inv]] by (simp add: sb_queue_def)
    have addr: "unat (off * ?es) = unat off * unat ?es"
      using pq_addr [OF inv lt, of off] by (simp add: sb_queue_def)
    have "unat off * unat ?es + unat ?es \<le> length (pq_data ?q)"
      using pq_slot_bounds [OF inv lt] by (simp add: sb_queue_def)
    then have b1: "unat (off * ?es) + unat ?es \<le> queue_bytes (bf_shm b)"
      using addr bf_ok_queue_bytes [OF ok] by (simp add: sb_queue_def)
    have "0 < unat ?es" using inv by (simp add: pq_inv_def sb_queue_def word_less_nat_alt)
    then have e: "off * ?es < buff_end (set_ringbuf b rb)"
      using b1 buff_end_eq [OF ok] by (simp add: word_less_nat_alt buff_end_def)
    let ?src = "take (unat sz) elem"
    have fits: "unat (off * ?es) + length ?src \<le> queue_bytes (bf_shm b)"
      using b1 sz el by (simp add: word_le_nat_alt)
    have lens: "queue_bytes (bf_shm b) \<le> length (sb_data (bf_shm b))" by (rule bf_ok_queue_bytes [OF ok])
    have m1: "mem_write (sb_data (bf_shm b)) (unat (off * ?es)) ?src =
        Inr (mem_upd (take (queue_bytes (bf_shm b)) (sb_data (bf_shm b))) (unat (off * ?es)) ?src
          @ drop (queue_bytes (bf_shm b)) (sb_data (bf_shm b)))"
      using fits lens by (simp add: mem_upd_take)
    have m2: "mem_write (pq_data ?q) (unat (off * ?es)) ?src =
        Inr (mem_upd (take (queue_bytes (bf_shm b)) (sb_data (bf_shm b))) (unat (off * ?es)) ?src)"
      using fits lens by (simp add: sb_queue_def)
    have pos: "0 < n" using False by (simp add: word_gt_0)
    have es: "pq_elem_size ?q = ?es" by (simp add: sb_queue_def)
    have lhs: "buffer_push b elem sz =
      bindE (shm_spsc_ringbuf_write_finish rb 1) (\<lambda>rb'. Inr (True, put_queue b
        (?q\<lparr>pq_ringbuf := rb', pq_data := mem_upd (take (queue_bytes (bf_shm b)) (sb_data (bf_shm b))) (unat (off * ?es)) ?src\<rparr>)))"
      using w nd sz el False e m1
      by (cases "shm_spsc_ringbuf_write_finish rb 1")
        (simp_all add: buffer_push_def buffer_start_push_def buffer_finish_push_def put_queue_def)
    show ?thesis unfolding lhs
      using w' sz el pos m2 es
      by (cases "shm_spsc_ringbuf_write_finish rb 1")
        (simp_all add: shm_par_queue_push_def shm_par_queue_write_ptr_def shm_par_queue_write_finish_def put_queue_def)
  qed
qed

lemma mem_read_take:
  "off + n \<le> m \<Longrightarrow> m \<le> length d \<Longrightarrow> mem_read (take m d) off n = mem_read d off n"
  by (simp add: take_drop min_def add.commute)

lemma buffer_pop_as_queue:
  assumes ok: "bf_ok b" and nd: "\<not> sb_destroyed (bf_shm b)"
  shows "buffer_pop b =
    bindE (shm_par_queue_pop (sb_queue (bf_shm b))) (\<lambda>(r, q). Inr (r, put_queue b q))"
proof -
  let ?q = "sb_queue (bf_shm b)" and ?es = "sb_elem_size (bf_shm b)"
  have inv: "pq_inv ?q" using ok by (simp add: bf_ok_def)
  obtain rb where r: "shm_spsc_ringbuf_read_off_nowrap (bf_ringbuf b) =
      Inr (rb_tail (bf_ringbuf b), of_nat (rb_avail rb), rb)"
    using shm_spsc_ringbuf_read_off_nowrap_ok [OF pq_inv_rb [OF inv]] by (auto simp: sb_queue_def)
  have r': "shm_spsc_ringbuf_read_off_nowrap (pq_ringbuf ?q) =
      Inr (rb_tail (bf_ringbuf b), of_nat (rb_avail rb), rb)" using r by (simp add: sb_queue_def)
  have lt: "unat (rb_tail (bf_ringbuf b)) < unat (rb_capacity (pq_ringbuf ?q))"
    using rb_invD(2) [OF pq_inv_rb [OF inv]] by (simp add: sb_queue_def)
  have addr: "unat (rb_tail (bf_ringbuf b) * ?es) = unat (rb_tail (bf_ringbuf b)) * unat ?es"
    using pq_addr [OF inv lt, of "rb_tail (bf_ringbuf b)"] by (simp add: sb_queue_def)
  have "unat (rb_tail (bf_ringbuf b)) * unat ?es + unat ?es \<le> length (pq_data ?q)"
    using pq_slot_bounds [OF inv lt] by (simp add: sb_queue_def)
  then have "unat (rb_tail (bf_ringbuf b) * ?es) + unat ?es \<le> queue_bytes (bf_shm b)"
    using addr bf_ok_queue_bytes [OF ok] by (simp add: sb_queue_def)
  then have m: "mem_read (take (queue_bytes (bf_shm b)) (sb_data (bf_shm b))) (unat (rb_tail (bf_ringbuf b) * ?es)) (unat ?es) =
      mem_read (sb_data (bf_shm b)) (unat (rb_tail (bf_ringbuf b) * ?es)) (unat ?es)"
    using bf_ok_queue_bytes [OF ok] by (intro mem_read_take)
  show ?thesis
  proof (cases "(of_nat (rb_avail rb) :: size_t) = 0")
    case True
    then show ?thesis using r r' nd ok
      by (simp add: buffer_pop_def buffer_read_pointer_def shm_par_queue_pop_def put_queue_ringbuf)
  next
    case False
    then have "(0 :: size_t) < of_nat (rb_avail rb)" by (simp add: word_gt_0)
    then show ?thesis using r r' nd m False
      by (cases "mem_read (sb_data (bf_shm b)) (unat (rb_tail (bf_ringbuf b) * ?es)) (unat ?es)";
          cases "shm_spsc_ringbuf_consume rb 1")
        (simp_all add: buffer_pop_def buffer_read_pointer_def shm_par_queue_pop_def put_queue_def sb_queue_def)
  qed
qed

lemma bf_ok_put_queue:
  assumes "bf_ok b" and "pq_inv q" "pq_elem_size q = sb_elem_size (bf_shm b)" "pq_capacity q = sb_capacity (bf_shm b)"
  shows "bf_ok (put_queue b q)" and "bf_elems (put_queue b q) = pq_elems q"
proof -
  have "length (pq_data q) = queue_bytes (bf_shm b)"
    using assms(2-4) by (simp add: pq_inv_def queue_bytes_def)
  then have "sb_queue (bf_shm (put_queue b q)) = q" using sb_queue_put assms by blast
  with assms(2) show "bf_ok (put_queue b q)" "bf_elems (put_queue b q) = pq_elems q"
    by (simp_all add: bf_ok_def bf_elems_def)
qed

definition bf_push :: "buffer \<Rightarrow> byte list \<Rightarrow> (bool \<times> buffer) res" where
  "bf_push b x = buffer_push b x (sb_elem_size (bf_shm b))"

text \<open>The invariant of a buffer in use: well formed and not destroyed.\<close>

definition bf_live :: "buffer \<Rightarrow> bool" where
  "bf_live b \<longleftrightarrow> bf_ok b \<and> \<not> sb_destroyed (bf_shm b)"

lemma buffer_push_ok:
  assumes live: "bf_live b" and sz: "sz \<le> sb_elem_size (bf_shm b)" "unat sz \<le> length elem"
  shows "\<exists>b' pad. buffer_push b elem sz = Inr (length (bf_elems b) < unat (sb_capacity (bf_shm b)), b') \<and>
    bf_live b' \<and> sb_capacity (bf_shm b') = sb_capacity (bf_shm b) \<and> sb_elem_size (bf_shm b') = sb_elem_size (bf_shm b) \<and>
    bf_elems b' = (if length (bf_elems b) < unat (sb_capacity (bf_shm b))
                   then bf_elems b @ [take (unat sz) elem @ pad] else bf_elems b) \<and>
    length pad = unat (sb_elem_size (bf_shm b)) - unat sz \<and>
    sb_dropped_ranges (bf_shm b') = sb_dropped_ranges (bf_shm b) \<and>
    sb_dropped_ranges_next (bf_shm b') = sb_dropped_ranges_next (bf_shm b)"
proof -
  let ?q = "sb_queue (bf_shm b)"
  have ok: "bf_ok b" "\<not> sb_destroyed (bf_shm b)" and inv: "pq_inv ?q"
    using live by (simp_all add: bf_live_def bf_ok_def)
  have f: "pq_elem_size ?q = sb_elem_size (bf_shm b)" "pq_capacity ?q = sb_capacity (bf_shm b)"
    by (simp_all add: sb_queue_def)
  from shm_par_queue_push_ok [OF inv, of sz elem] sz f obtain q' pad where
    p: "shm_par_queue_push ?q elem sz = Inr (length (pq_elems ?q) < unat (pq_capacity ?q), q')" "pq_inv q'"
      "pq_capacity q' = sb_capacity (bf_shm b)" "pq_elem_size q' = sb_elem_size (bf_shm b)"
      "pq_elems q' = (if length (pq_elems ?q) < unat (pq_capacity ?q) then pq_elems ?q @ [take (unat sz) elem @ pad] else pq_elems ?q)"
      "length pad = unat (sb_elem_size (bf_shm b)) - unat sz" by auto
  have "buffer_push b elem sz = Inr (length (bf_elems b) < unat (sb_capacity (bf_shm b)), put_queue b q')"
    using buffer_push_as_queue [OF ok sz] p(1) f by (simp add: bf_elems_def)
  moreover have "bf_ok (put_queue b q')" "bf_elems (put_queue b q') = pq_elems q'"
    using bf_ok_put_queue [OF ok(1) p(2,4,3)] by simp_all
  ultimately show ?thesis using p f ok(2)
    by (intro exI [of _ "put_queue b q'"] exI [of _ pad]) (simp add: bf_live_def bf_elems_def, simp add: put_queue_def)
qed

lemma buffer_pop_ok:
  assumes live: "bf_live b"
  shows "\<exists>b'. buffer_pop b = Inr (case bf_elems b of [] \<Rightarrow> None | y # _ \<Rightarrow> Some y, b') \<and>
    bf_live b' \<and> sb_capacity (bf_shm b') = sb_capacity (bf_shm b) \<and> sb_elem_size (bf_shm b') = sb_elem_size (bf_shm b) \<and>
    bf_elems b' = tl (bf_elems b)"
proof -
  let ?q = "sb_queue (bf_shm b)"
  have ok: "bf_ok b" "\<not> sb_destroyed (bf_shm b)" and inv: "pq_inv ?q"
    using live by (simp_all add: bf_live_def bf_ok_def)
  from shm_par_queue_pop_ok [OF inv] obtain q' where
    p: "shm_par_queue_pop ?q = Inr (case pq_elems ?q of [] \<Rightarrow> None | y # _ \<Rightarrow> Some y, q')" "pq_inv q'"
      "pq_capacity q' = sb_capacity (bf_shm b)" "pq_elem_size q' = sb_elem_size (bf_shm b)" "pq_elems q' = tl (pq_elems ?q)"
    by (auto simp: sb_queue_def)
  have "buffer_pop b = Inr (case bf_elems b of [] \<Rightarrow> None | y # _ \<Rightarrow> Some y, put_queue b q')"
    using buffer_pop_as_queue [OF ok] p(1) by (simp add: bf_elems_def)
  moreover have "bf_ok (put_queue b q')" "bf_elems (put_queue b q') = pq_elems q'"
    using bf_ok_put_queue [OF ok(1) p(2,4,3)] by simp_all
  ultimately show ?thesis using p ok(2) by (auto simp: bf_live_def bf_elems_def)
qed

interpretation shb: bounded_fifo bf_live bf_elems "\<lambda>b. unat (sb_capacity (bf_shm b))"
    "\<lambda>b x. length x = unat (sb_elem_size (bf_shm b))" bf_push buffer_pop
proof unfold_locales
  fix b :: buffer and x :: "byte list"
  assume "bf_live b" and x: "length x = unat (sb_elem_size (bf_shm b))"
  from buffer_push_ok [OF this(1), of "sb_elem_size (bf_shm b)" x] x
  show "\<exists>b'. bf_push b x = Inr (length (bf_elems b) < unat (sb_capacity (bf_shm b)), b') \<and> bf_live b' \<and>
      unat (sb_capacity (bf_shm b')) = unat (sb_capacity (bf_shm b)) \<and>
      (\<lambda>x :: byte list. length x = unat (sb_elem_size (bf_shm b'))) = (\<lambda>x. length x = unat (sb_elem_size (bf_shm b))) \<and>
      bf_elems b' = (if length (bf_elems b) < unat (sb_capacity (bf_shm b)) then bf_elems b @ [x] else bf_elems b)"
    by (auto simp: bf_push_def)
next
  fix b :: buffer
  assume "bf_live b"
  from buffer_pop_ok [OF this] show "\<exists>b'. buffer_pop b =
      Inr (case bf_elems b of [] \<Rightarrow> None | y # _ \<Rightarrow> Some y, b') \<and> bf_live b' \<and>
      unat (sb_capacity (bf_shm b')) = unat (sb_capacity (bf_shm b)) \<and>
      (\<lambda>x :: byte list. length x = unat (sb_elem_size (bf_shm b'))) = (\<lambda>x. length x = unat (sb_elem_size (bf_shm b))) \<and>
      bf_elems b' = tl (bf_elems b)"
    by auto
qed

section \<open>The monitor's side\<close>

definition bf_deref :: "buffer \<Rightarrow> size_t \<Rightarrow> byte list" where
  "bf_deref b p = take (unat (sb_elem_size (bf_shm b))) (drop (unat p) (sb_data (bf_shm b)))"

lemma buffer_read_pointer_ok:
  assumes ok: "bf_ok b"
  shows "\<exists>p rb. buffer_read_pointer b = Inr (p, of_nat (rb_avail rb), set_ringbuf b rb) \<and> rb_inv rb \<and>
    rb_consumer_frame (bf_ringbuf b) rb \<and> bf_ok (set_ringbuf b rb) \<and> bf_elems (set_ringbuf b rb) = bf_elems b \<and>
    (case p of None \<Rightarrow> bf_elems b = []
     | Some a \<Rightarrow> bf_elems b \<noteq> [] \<and> bf_deref b a = hd (bf_elems b) \<and>
        unat a + unat (sb_elem_size (bf_shm b)) \<le> length (sb_data (bf_shm b)) \<and>
        0 < rb_avail rb)"
proof -
  let ?q = "sb_queue (bf_shm b)"
  have inv: "pq_inv ?q" using ok by (simp add: bf_ok_def)
  note i = pq_inv_rb [OF inv]
  obtain rb where r: "shm_spsc_ringbuf_read_off_nowrap (bf_ringbuf b) =
      Inr (rb_tail (bf_ringbuf b), of_nat (rb_avail rb), rb)" "rb_inv rb" "rb_consumer_frame (bf_ringbuf b) rb"
    "rb_avail rb = 0 \<longleftrightarrow> rb_slots (bf_ringbuf b) = []"
    using shm_spsc_ringbuf_read_off_nowrap_ok [OF i] by (auto simp: sb_queue_def)
  have f: "bf_ok (set_ringbuf b rb)" "bf_elems (set_ringbuf b rb) = bf_elems b"
    using shm_par_queue_read_ok [OF inv r(2)] r(3) by (simp_all add: bf_ok_def bf_elems_def sb_queue_def queue_bytes_def)
  have e: "bf_elems b = [] \<longleftrightarrow> rb_avail rb = 0" using r(4) by (simp add: bf_elems_def pq_elems_def sb_queue_def)
  let ?a = "rb_tail (bf_ringbuf b) * sb_elem_size (bf_shm b)"
  have d: "bf_deref b ?a = hd (bf_elems b)"
    "unat ?a + unat (sb_elem_size (bf_shm b)) \<le> queue_bytes (bf_shm b)" if "bf_elems b \<noteq> []"
  proof -
    have t: "pq_deref ?q ?a = hd (bf_elems b)"
      "unat ?a + unat (sb_elem_size (bf_shm b)) \<le> length (pq_data ?q)"
      using pq_top_slot [OF inv] that by (simp_all add: bf_elems_def sb_queue_def)
    then show "unat ?a + unat (sb_elem_size (bf_shm b)) \<le> queue_bytes (bf_shm b)"
      using bf_ok_queue_bytes [OF ok] by (simp add: sb_queue_def)
    then have "min (unat (sb_elem_size (bf_shm b))) (queue_bytes (bf_shm b) - unat ?a) = unat (sb_elem_size (bf_shm b))"
      by linarith
    then show "bf_deref b ?a = hd (bf_elems b)" using t(1)
      by (simp add: pq_deref_def bf_deref_def sb_queue_def drop_take)
  qed
  have "(of_nat (rb_avail rb) :: size_t) = 0 \<longleftrightarrow> rb_avail rb = 0" by (rule of_nat_avail_0_iff [OF r(2)])
  moreover have "unat ?a + unat (sb_elem_size (bf_shm b)) \<le> length (sb_data (bf_shm b))" if "bf_elems b \<noteq> []"
    using d(2) [OF that] bf_ok_queue_bytes [OF ok] by (rule le_trans)
  ultimately show ?thesis using r(1-3) f e d(1)
    by (intro exI [of _ "if rb_avail rb = 0 then None else Some ?a"] exI [of _ rb])
      (simp add: buffer_read_pointer_def)
qed

lemma buffer_drop_k_ok:
  assumes ok: "bf_ok b" and k: "unat k \<le> unat (sb_capacity (bf_shm b))" "rb_capacity (bf_ringbuf b) < SIZE_MAX - k"
  shows "\<exists>rb. buffer_drop_k b k = Inr (unat k \<le> length (bf_elems b), set_ringbuf b rb) \<and>
    bf_ok (set_ringbuf b rb) \<and> bf_elems (set_ringbuf b rb) = drop (unat k) (bf_elems b)"
proof -
  let ?q = "sb_queue (bf_shm b)"
  have inv: "pq_inv ?q" using ok by (simp add: bf_ok_def)
  have i: "rb_inv (bf_ringbuf b)" using pq_inv_rb [OF inv] by (simp add: sb_queue_def)
  have c: "unat (rb_capacity (bf_ringbuf b)) = unat (sb_capacity (bf_shm b)) + 1"
    using inv by (simp add: pq_inv_def sb_queue_def)
  have "k \<le> rb_capacity (bf_ringbuf b)" using k(1) c by (simp add: word_le_nat_alt)
  from shm_spsc_ringbuf_consume_upto_ok [OF i this k(2)] obtain n rb where
    r: "shm_spsc_ringbuf_consume_upto (bf_ringbuf b) k = Inr (n, rb)" "rb_inv rb"
      "unat n = min (unat k) (rb_written (bf_ringbuf b))" "rb_capacity rb = rb_capacity (bf_ringbuf b)"
      "rb_slots rb = drop (unat n) (rb_slots (bf_ringbuf b))" by (elim exE conjE) (rule that)
  have len: "length (bf_elems b) = rb_written (bf_ringbuf b)" by (simp add: bf_elems_def sb_queue_def)
  have "n = k \<longleftrightarrow> unat k \<le> length (bf_elems b)" using r(3) len by (auto simp: word_64_eq_iff)
  moreover have "bf_ok (set_ringbuf b rb)" by (rule bf_ok_ringbuf [OF ok r(2,4)])
  moreover have "bf_elems (set_ringbuf b rb) = drop (unat n) (bf_elems b)"
    using r(5) by (simp add: bf_elems_def pq_elems_def sb_queue_def queue_bytes_def drop_map)
  moreover have "drop (unat n) (bf_elems b) = drop (unat k) (bf_elems b)"
    using r(3) len by (auto simp: min_def)
  ultimately show ?thesis using r(1) by (auto simp: buffer_drop_k_def)
qed

section \<open>A push in several steps\<close>

text \<open>
  The protocol of partial pushes: every piece is copied behind the previous one, and only
  \<open>buffer_finish_push\<close> makes the element visible.
\<close>

fun partial_pushes :: "buffer \<Rightarrow> size_t \<Rightarrow> byte list list \<Rightarrow> buffer res" where
  "partial_pushes b p [] = Inr b"
| "partial_pushes b p (x # xs) =
     bindE (buffer_partial_push b p x (of_nat (length x))) (\<lambda>(p, b). partial_pushes b p xs)"

definition push_in_steps :: "buffer \<Rightarrow> byte list list \<Rightarrow> (bool \<times> buffer) res" where
  "push_in_steps b xs =
     bindE (buffer_start_push b) (\<lambda>(p, b).
     case p of
       None \<Rightarrow> Inr (False, b)
     | Some p \<Rightarrow> bindE (partial_pushes b p xs) (\<lambda>b. bindE (buffer_finish_push b) (\<lambda>b. Inr (True, b))))"

lemma mem_upd_mem_upd:
  assumes "off + length x + length y \<le> length d"
  shows "mem_upd (mem_upd d off x) (off + length x) y = mem_upd d off (x @ y)"
  using assms by (simp add: mem_upd_def ac_simps)

definition set_data :: "buffer \<Rightarrow> byte list \<Rightarrow> buffer" where
  "set_data b d = upd_shm (\<lambda>s. s\<lparr>sb_data := d\<rparr>) b"

lemma set_data_simps [simp]:
  "sb_data (bf_shm (set_data b d)) = d" "sb_destroyed (bf_shm (set_data b d)) = sb_destroyed (bf_shm b)"
  "buff_end (set_data b d) = buff_end b" "set_data (set_data b d) e = set_data b e"
  "bf_ringbuf (set_data b d) = bf_ringbuf b" "set_data b (sb_data (bf_shm b)) = b"
  by (simp_all add: set_data_def buff_end_def)

lemma partial_pushes_ok:
  assumes "\<not> sb_destroyed (bf_shm b)" and "list_all (\<lambda>x. x \<noteq> []) xs"
    and "unat p + length (concat xs) \<le> unat (buff_end b)" and "unat (buff_end b) \<le> length (sb_data (bf_shm b))"
  shows "partial_pushes b p xs = Inr (set_data b (mem_upd (sb_data (bf_shm b)) (unat p) (concat xs)))"
  using assms
proof (induction xs arbitrary: b p)
  case Nil
  then show ?case by simp
next
  case (Cons x xs)
  have big: "unat p + length x < 18446744073709551616"
    using Cons.prems(3) unat_less_2p64 [of "buff_end b"] by simp
  then have ux: "unat (of_nat (length x) :: size_t) = length x" by (simp add: unat_of_nat_64)
  then have up: "unat (p + of_nat (length x)) = unat p + length x" using big by (simp add: unat_add_64)
  let ?b = "set_data b (mem_upd (sb_data (bf_shm b)) (unat p) x)"
  have "0 < length x" using Cons.prems(2) by simp
  then have p: "p < buff_end b" "unat p + length x \<le> unat (buff_end b)"
    using Cons.prems(3) unfolding word_less_nat_alt concat.simps length_append by linarith+
  have fit: "unat p + length x \<le> length (sb_data (bf_shm b))" using p(2) Cons.prems(4) by simp
  have "buffer_partial_push b p x (of_nat (length x)) = Inr (p + of_nat (length x), ?b)"
    using p ux fit Cons.prems(1) by (simp add: buffer_partial_push_def buffer_is_ready_def set_data_def)
  moreover have "partial_pushes ?b (p + of_nat (length x)) xs =
      Inr (set_data ?b (mem_upd (sb_data (bf_shm ?b)) (unat p + length x) (concat xs)))"
    using Cons.IH [of ?b "p + of_nat (length x)"] Cons.prems up fit by (simp add: add.assoc)
  moreover have "mem_upd (mem_upd (sb_data (bf_shm b)) (unat p) x) (unat p + length x) (concat xs) =
      mem_upd (sb_data (bf_shm b)) (unat p) (x @ concat xs)"
    using Cons.prems(3,4) by (intro mem_upd_mem_upd) simp
  ultimately show ?case by simp
qed

lemma buffer_start_push_ok:
  assumes live: "bf_live b"
  shows "\<exists>p b1. buffer_start_push b = Inr (p, b1) \<and> (\<exists>rb. b1 = set_ringbuf b rb) \<and> bf_live b1 \<and>
    bf_elems b1 = bf_elems b \<and>
    (case p of None \<Rightarrow> \<not> length (bf_elems b) < unat (sb_capacity (bf_shm b))
     | Some a \<Rightarrow> unat a + unat (sb_elem_size (bf_shm b)) \<le> queue_bytes (bf_shm b))"
proof -
  let ?q = "sb_queue (bf_shm b)"
  have ok: "bf_ok b" "\<not> sb_destroyed (bf_shm b)" and inv: "pq_inv ?q"
    using live by (simp_all add: bf_live_def bf_ok_def)
  note i = pq_inv_rb [OF inv]
  obtain n rb where w: "shm_spsc_ringbuf_write_off_nowrap (bf_ringbuf b) = (rb_head (bf_ringbuf b), n, rb)"
    "rb_inv rb" "rb_producer_frame (bf_ringbuf b) rb"
    "n = 0 \<longleftrightarrow> rb_written (bf_ringbuf b) + 1 = unat (rb_capacity (bf_ringbuf b))"
    using shm_spsc_ringbuf_write_off_nowrap_ok [OF i] by (auto simp: sb_queue_def)
  have cap: "rb_capacity rb = rb_capacity (bf_ringbuf b)" "rb_slots rb = rb_slots (bf_ringbuf b)"
    using w(3) rb_producer_frame_slots [OF w(3)] by (auto simp: rb_producer_frame_def)
  have l1: "bf_live (set_ringbuf b rb)" "bf_elems (set_ringbuf b rb) = bf_elems b"
    using bf_ok_ringbuf [OF ok(1) w(2) cap(1)] ok(2) cap(2)
    by (simp_all add: bf_live_def bf_elems_def pq_elems_def sb_queue_def queue_bytes_def)
  have lt: "unat (rb_head (bf_ringbuf b)) < unat (rb_capacity (pq_ringbuf ?q))"
    using rb_invD(1) [OF i] by (simp add: sb_queue_def)
  let ?a = "rb_head (bf_ringbuf b) * sb_elem_size (bf_shm b)"
  have "unat ?a + unat (sb_elem_size (bf_shm b)) \<le> length (pq_data ?q)"
    using pq_slot_bounds [OF inv lt] pq_addr [OF inv lt, of "rb_head (bf_ringbuf b)"] by (simp add: sb_queue_def)
  then have a: "unat ?a + unat (sb_elem_size (bf_shm b)) \<le> queue_bytes (bf_shm b)"
    using bf_ok_queue_bytes [OF ok(1)] by (simp add: sb_queue_def)
  have "0 < unat (sb_elem_size (bf_shm b))" using inv by (simp add: pq_inv_def sb_queue_def word_less_nat_alt)
  then have e: "?a < buff_end (set_ringbuf b rb)"
    using a buff_end_eq [OF ok(1)] by (simp add: word_less_nat_alt buff_end_def)
  have full: "n = 0 \<longleftrightarrow> \<not> length (bf_elems b) < unat (sb_capacity (bf_shm b))"
    using w(4) pq_full_iff [OF inv] by (simp add: bf_elems_def sb_queue_def)
  show ?thesis
  proof (cases "n = 0")
    case True
    then show ?thesis using w(1) l1 full ok(2) by (auto simp: buffer_start_push_def)
  next
    case False
    then show ?thesis using w(1) l1 e a ok(2)
      by (intro exI [of _ "Some ?a"] exI [of _ "set_ringbuf b rb"]) (auto simp: buffer_start_push_def)
  qed
qed

lemma push_in_steps_eq:
  assumes live: "bf_live b" and xs: "list_all (\<lambda>x. x \<noteq> []) xs" "length (concat xs) \<le> unat (sb_elem_size (bf_shm b))"
  shows "push_in_steps b xs = buffer_push b (concat xs) (of_nat (length (concat xs)))"
proof -
  obtain p b1 where s: "buffer_start_push b = Inr (p, b1)" "bf_live b1"
    and rb: "\<exists>rb. b1 = set_ringbuf b rb"
    and p: "case p of None \<Rightarrow> \<not> length (bf_elems b) < unat (sb_capacity (bf_shm b))
     | Some a \<Rightarrow> unat a + unat (sb_elem_size (bf_shm b)) \<le> queue_bytes (bf_shm b)"
    using buffer_start_push_ok [OF live] by (elim exE conjE) (rule that, assumption+, blast, assumption)
  have u: "unat (of_nat (length (concat xs)) :: size_t) = length (concat xs)"
    using xs(2) unat_less_2p64 [of "sb_elem_size (bf_shm b)"] by (simp add: unat_of_nat_64)
  then have le: "of_nat (length (concat xs)) \<le> sb_elem_size (bf_shm b)" using xs(2) by (simp add: word_le_nat_alt)
  have nd: "\<not> sb_destroyed (bf_shm b)" using live by (simp add: bf_live_def)
  show ?thesis
  proof (cases p)
    case None
    then show ?thesis using s(1) nd le by (simp add: push_in_steps_def buffer_push_def)
  next
    case (Some a)
    have ok1: "bf_ok b1" "\<not> sb_destroyed (bf_shm b1)" using s(2) by (simp_all add: bf_live_def)
    have qb: "queue_bytes (bf_shm b1) = queue_bytes (bf_shm b)" using rb by (auto simp: queue_bytes_def)
    have end_le: "unat (buff_end b1) \<le> length (sb_data (bf_shm b1))"
      using buff_end_eq [OF ok1(1)] bf_ok_queue_bytes [OF ok1(1)] by simp
    have "unat a + length (concat xs) \<le> unat (buff_end b1)"
      using p Some xs(2) qb buff_end_eq [OF ok1(1)] by simp
    then have "partial_pushes b1 a xs = Inr (set_data b1 (mem_upd (sb_data (bf_shm b1)) (unat a) (concat xs)))"
      and "unat a + length (concat xs) \<le> length (sb_data (bf_shm b1))"
      using partial_pushes_ok [OF ok1(2) xs(1) _ end_le] end_le by simp_all
    then show ?thesis using s(1) nd le u Some
      by (simp add: push_in_steps_def buffer_push_def set_data_def)
  qed
qed

section \<open>Dropped ranges\<close>

lemma lock_loop_True [simp]: "lock_loop l = True"
  by (cases l) (simp_all add: lock_loop.simps)

definition ranges_ok :: "buffer \<Rightarrow> bool" where
  "ranges_ok b \<longleftrightarrow> length (sb_dropped_ranges (bf_shm b)) = 5 \<and> sb_dropped_ranges_next (bf_shm b) < 5"

lemma set_range_simps [simp]:
  "sb_dropped_ranges (bf_shm (set_range i r b)) = (sb_dropped_ranges (bf_shm b))[i := r]"
  "sb_dropped_ranges_next (bf_shm (set_range i r b)) = sb_dropped_ranges_next (bf_shm b)"
  "sb_dropped_ranges_lock (bf_shm (set_range i r b)) = False"
  "sb_queue (bf_shm (set_range i r b)) = sb_queue (bf_shm b)"
  "sb_destroyed (bf_shm (set_range i r b)) = sb_destroyed (bf_shm b)"
  "sb_last_processed_id (bf_shm (set_range i r b)) = sb_last_processed_id (bf_shm b)"
  "sb_data (bf_shm (set_range i r b)) = sb_data (bf_shm b)"
  "sb_queue (sb_dropped_ranges_next_update f s) = sb_queue s"
  by (simp_all add: set_range_def drop_ranges_unlock_def drop_ranges_lock_def sb_queue_def queue_bytes_def)

lemma next_range_ok:
  assumes "idx < 5"
  shows "(if idx + 1 = DROPPED_RANGES_NUM then 0 else idx + 1 :: size_t) < 5"
  using assms by (auto simp: DROPPED_RANGES_NUM_def word_nat)

lemma buffer_notify_dropped_ok:
  assumes "ranges_ok b"
  shows "\<exists>b'. buffer_notify_dropped b begin_id end_id = Inr b' \<and> ranges_ok b' \<and>
    sb_queue (bf_shm b') = sb_queue (bf_shm b) \<and> sb_destroyed (bf_shm b') = sb_destroyed (bf_shm b) \<and>
    sb_last_processed_id (bf_shm b') = sb_last_processed_id (bf_shm b) \<and> sb_data (bf_shm b') = sb_data (bf_shm b) \<and>
    (let s = bf_shm b; r = sb_dropped_ranges s ! unat (sb_dropped_ranges_next s);
         i = unat (sb_dropped_ranges_next (bf_shm b'))
     in sb_dropped_ranges (bf_shm b') = (sb_dropped_ranges s)[i :=
          (if fst r = begin_id \<or> snd r = fst r - 1 then (fst r, end_id) else (begin_id, end_id))])"
proof -
  let ?s = "bf_shm b"
  have i: "unat (sb_dropped_ranges_next ?s) < length (sb_dropped_ranges ?s)" and n: "sb_dropped_ranges_next ?s < 5"
    using assms by (simp_all add: ranges_ok_def word_less_nat_alt)
  show ?thesis
  proof (cases "fst (sb_dropped_ranges ?s ! unat (sb_dropped_ranges_next ?s)) = begin_id \<or>
      snd (sb_dropped_ranges ?s ! unat (sb_dropped_ranges_next ?s)) =
      fst (sb_dropped_ranges ?s ! unat (sb_dropped_ranges_next ?s)) - 1")
    case True
    then show ?thesis using i n assms
      by (intro exI [of _ "set_range (unat (sb_dropped_ranges_next ?s))
          (fst (sb_dropped_ranges ?s ! unat (sb_dropped_ranges_next ?s)), end_id) b"])
        (simp add: buffer_notify_dropped_def ranges_ok_def Let_def)
  next
    case False
    then show ?thesis using i next_range_ok [OF n] assms
      by (simp add: buffer_notify_dropped_def ranges_ok_def Let_def)
  qed
qed

lemma set_kind_events [simp]:
  "sc_events (bf_control (set_kind b i k)) =
     (sc_events (bf_control b))[i := (sc_events (bf_control b) ! i)\<lparr>er_kind := k\<rparr>]"
  "sc_size (bf_control (set_kind b i k)) = sc_size (bf_control b)"
  "bf_shm (set_kind b i k) = bf_shm b"
  by (simp_all add: set_kind_def)

lemma register_all_loop_ok:
  "i \<le> n \<Longrightarrow> n = length (sc_events (bf_control b)) \<Longrightarrow>
    \<exists>b'. register_all_loop b [i..<n] = Inr b' \<and> bf_shm b' = bf_shm b \<and>
      sc_size (bf_control b') = sc_size (bf_control b) \<and>
      sc_events (bf_control b') = take i (sc_events (bf_control b)) @
        map (\<lambda>j. (sc_events (bf_control b) ! j)\<lparr>er_kind := 2 + of_nat j\<rparr>) [i..<n]"
proof (induction "n - i" arbitrary: i b)
  case 0
  then show ?case by simp
next
  case (Suc k)
  let ?es = "sc_events (bf_control b)"
  let ?b = "set_kind b i (1 + of_nat i + 1)"
  have i: "i < n" using Suc.hyps(2) by simp
  have "Suc i \<le> n" "n = length (sc_events (bf_control ?b))" "k = n - Suc i" using Suc.prems Suc.hyps(2) by simp_all
  then obtain b' where b': "register_all_loop ?b [Suc i..<n] = Inr b'" "bf_shm b' = bf_shm b"
    "sc_size (bf_control b') = sc_size (bf_control b)"
    "sc_events (bf_control b') = take (Suc i) (sc_events (bf_control ?b)) @
        map (\<lambda>j. (sc_events (bf_control ?b) ! j)\<lparr>er_kind := 2 + of_nat j\<rparr>) [Suc i..<n]"
    using Suc.hyps(1) [of "Suc i" ?b] by auto
  have kind: "(1 + of_nat i + 1 :: shm_kind) = 2 + of_nat i" by simp
  have upd: "take (Suc i) (sc_events (bf_control ?b)) = take i ?es @ [(?es ! i)\<lparr>er_kind := 2 + of_nat i\<rparr>]"
    using i Suc.prems(2) kind by (simp add: take_Suc_conv_app_nth)
  have rest: "map (\<lambda>j. (sc_events (bf_control ?b) ! j)\<lparr>er_kind := 2 + of_nat j\<rparr>) [Suc i..<n] =
      map (\<lambda>j. (?es ! j)\<lparr>er_kind := 2 + of_nat j\<rparr>) [Suc i..<n]"
    by simp
  have "register_all_loop b [i..<n] = register_all_loop ?b [Suc i..<n]"
    using i Suc.prems(2)
    by (simp add: upt_conv_Cons shm_get_last_special_kind_def last_special_kind_def rec_at_def)
  then have "register_all_loop b [i..<n] = Inr b'" using b'(1) by (rule trans)
  moreover have "sc_events (bf_control b') = take i ?es @ map (\<lambda>j. (?es ! j)\<lparr>er_kind := 2 + of_nat j\<rparr>) [i..<n]"
    unfolding b'(4) upd rest using i by (simp add: upt_conv_Cons)
  ultimately show ?case using b'(2,3) by (intro exI [of _ b'] conjI)
qed

lemma buffer_register_all_events_ok:
  assumes "unat (source_control_get_records_num (bf_control b)) = length (sc_events (bf_control b))"
  shows "\<exists>b'. buffer_register_all_events b = Inr (0, b') \<and> bf_shm b' = bf_shm b \<and>
    sc_size (bf_control b') = sc_size (bf_control b) \<and>
    sc_events (bf_control b') =
      map (\<lambda>j. (sc_events (bf_control b) ! j)\<lparr>er_kind := 2 + of_nat j\<rparr>) [0..<length (sc_events (bf_control b))]"
  using register_all_loop_ok [of 0 "length (sc_events (bf_control b))" b] assms
  by (auto simp: buffer_register_all_events_def)

section \<open>Properties\<close>

definition sb_example :: shmbuffer where
  "sb_example = \<lparr>sb_ringbuf = rb_example, sb_allocated_size = 4096, sb_capacity = 3, sb_elem_size = 2,
     sb_last_processed_id = 7, sb_dropped_ranges = replicate 5 (0, 0), sb_dropped_ranges_next = 4,
     sb_dropped_ranges_lock = False, sb_subbuffers_no = 0, sb_destroyed = False, sb_monitor_attached = False,
     sb_data = [30, 31, 0, 0, 0, 0, 10, 11, 255, 255]\<rparr>"

definition bf_example :: buffer where
  "bf_example = \<lparr>bf_shm = sb_example, bf_segs = (\<lambda>_. None),
     bf_control = \<lparr>sc_size = control_bytes 2, sc_events = [blank_record, blank_record]\<rparr>, bf_cur_aux = None,
     bf_aux_buffers = [], bf_aux_buf_idx = 0, bf_aux_age = [], bf_fd = 3, bf_key = ''/buf'', bf_mode = 448,
     bf_last_subbufer_no = 0\<rparr>"

lemma bf_example_queue: "sb_queue (bf_shm bf_example) = pq_example"
  by (simp add: bf_example_def sb_example_def sb_queue_def pq_example_def queue_bytes_def)

lemma bf_example_live: "bf_live bf_example"
  using pq_example_inv bf_example_queue
  by (simp add: bf_live_def bf_ok_def) (simp add: bf_example_def sb_example_def)

text \<open>
  C36: the shared-memory buffer refines a bounded list: every sequence of pushes of whole elements
  by the monitored program and pops by the monitor runs without a failed assertion or an access
  outside the data area and returns what a list bounded by the capacity returns.
\<close>

theorem shm_buffer_refines_bounded_list:
  assumes "bf_live b" and "\<forall>p \<in> set ps. \<forall>x \<in> qop_args p. length x = unat (sb_elem_size (bf_shm b))"
  shows "\<exists>b'. impl_run bf_push buffer_pop b ps =
      Inr (fst (spec_run (unat (sb_capacity (bf_shm b))) (bf_elems b) ps), b') \<and> bf_live b' \<and>
    bf_elems b' = snd (spec_run (unat (sb_capacity (bf_shm b))) (bf_elems b) ps)"
  using shb.run_refines [OF assms] .

theorem shm_buffer_refines_bounded_list_witness:
  "\<exists>b'. impl_run bf_push buffer_pop bf_example [Pop, Push [1, 2], Push [3, 4], Push [5, 6]] =
      Inr ([Popped (Some [10, 11]), Pushed True, Pushed True, Pushed False], b') \<and>
    bf_elems b' = [[30, 31], [1, 2], [3, 4]]"
proof -
  let ?ps = "[Pop, Push [1, 2], Push [3, 4], Push [5, 6]] :: byte list qop list"
  have e: "bf_elems bf_example = [[10, 11], [30, 31]]" using pq_example_elems bf_example_queue by (simp add: bf_elems_def)
  have s: "sb_elem_size (bf_shm bf_example) = 2" "sb_capacity (bf_shm bf_example) = 3"
    by (simp_all add: bf_example_def sb_example_def)
  have "spec_run 3 [[10, 11], [30, 31]] ?ps =
      ([Popped (Some [10, 11]), Pushed True, Pushed True, Pushed False], [[30, 31], [1, 2], [3, 4]])"
    by simp
  then show ?thesis
    using shm_buffer_refines_bounded_list [OF bf_example_live, of ?ps] e s by (simp del: impl_run.simps) blast
qed

text \<open>
  C37: a push broken down into a start, partial pushes of non-empty pieces and a finish has exactly
  the effect and result of one \<open>buffer_push\<close> of the concatenated pieces.
\<close>

theorem partial_pushes_equal_push:
  assumes "bf_live b" and "list_all (\<lambda>x. x \<noteq> []) xs" and "length (concat xs) \<le> unat (sb_elem_size (bf_shm b))"
  shows "push_in_steps b xs = buffer_push b (concat xs) (of_nat (length (concat xs)))"
  by (rule push_in_steps_eq [OF assms])

theorem partial_pushes_equal_push_witness:
  "push_in_steps bf_example [[7], [8]] = buffer_push bf_example [7, 8] 2"
  using partial_pushes_equal_push [OF bf_example_live, of "[[7], [8]]"]
  by (simp add: bf_example_def sb_example_def)

text \<open>
  the pointer the monitor reads is \<open>NULL\<close> exactly when the buffer is empty and otherwise points
  at the bytes of the oldest element inside the data area; dropping \<open>k\<close> elements removes the
  \<open>k\<close> oldest and succeeds exactly when there were so many. Neither needs the buffer to be alive.
\<close>

theorem shm_buffer_read_and_drop:
  assumes "bf_ok b" and "unat k \<le> unat (sb_capacity (bf_shm b))" and "rb_capacity (bf_ringbuf b) < SIZE_MAX - k"
  shows "\<exists>p n b1 b2. buffer_read_pointer b = Inr (p, n, b1) \<and> bf_elems b1 = bf_elems b \<and>
    map_option (bf_deref b) p = (case bf_elems b of [] \<Rightarrow> None | x # _ \<Rightarrow> Some x) \<and>
    buffer_drop_k b k = Inr (unat k \<le> length (bf_elems b), b2) \<and> bf_ok b2 \<and>
    bf_elems b2 = drop (unat k) (bf_elems b)"
proof -
  from buffer_read_pointer_ok [OF assms(1)] obtain p rb where
    r: "buffer_read_pointer b = Inr (p, of_nat (rb_avail rb), set_ringbuf b rb)" "bf_elems (set_ringbuf b rb) = bf_elems b"
    and p: "case p of None \<Rightarrow> bf_elems b = []
     | Some a \<Rightarrow> bf_elems b \<noteq> [] \<and> bf_deref b a = hd (bf_elems b) \<and>
        unat a + unat (sb_elem_size (bf_shm b)) \<le> length (sb_data (bf_shm b)) \<and> 0 < rb_avail rb"
    by (elim exE conjE) (rule that)
  have "map_option (bf_deref b) p = (case bf_elems b of [] \<Rightarrow> None | x # _ \<Rightarrow> Some x)"
    using p by (cases p; cases "bf_elems b") auto
  with r buffer_drop_k_ok [OF assms] show ?thesis by blast
qed

theorem shm_buffer_read_and_drop_witness:
  "\<exists>p n b1 b2. buffer_read_pointer bf_example = Inr (p, n, b1) \<and> map_option (bf_deref bf_example) p = Some [10, 11] \<and>
    buffer_drop_k bf_example 1 = Inr (True, b2) \<and> bf_elems b2 = [[30, 31]]"
proof -
  have e: "bf_elems bf_example = [[10, 11], [30, 31]]" using pq_example_elems bf_example_queue by (simp add: bf_elems_def)
  have "bf_ok bf_example" "sb_capacity (bf_shm bf_example) = 3" "rb_capacity (bf_ringbuf bf_example) = 4"
    using bf_example_live by (simp_all add: bf_live_def) (simp_all add: bf_example_def sb_example_def rb_example_def)
  with shm_buffer_read_and_drop [of bf_example 1] e show ?thesis by auto
qed

text \<open>
  registering all events gives the events consecutive kinds that start behind the last special
  kind, so no event of a source has the kind of a hole, and changes nothing else.
\<close>

theorem register_all_events_kinds:
  assumes "unat (source_control_get_records_num (bf_control b)) = length (sc_events (bf_control b))"
    and "length (sc_events (bf_control b)) < 1000000"
  shows "\<exists>b'. buffer_register_all_events b = Inr (0, b') \<and> bf_shm b' = bf_shm b \<and>
    map er_name (sc_events (bf_control b')) = map er_name (sc_events (bf_control b)) \<and>
    distinct (map er_kind (sc_events (bf_control b'))) \<and>
    (\<forall>r \<in> set (sc_events (bf_control b')). last_special_kind < er_kind r)"
proof -
  let ?es = "sc_events (bf_control b)"
  obtain b' where b': "buffer_register_all_events b = Inr (0, b')" "bf_shm b' = bf_shm b"
    "sc_events (bf_control b') = map (\<lambda>j. (?es ! j)\<lparr>er_kind := 2 + of_nat j\<rparr>) [0..<length ?es]"
    using buffer_register_all_events_ok [OF assms(1)] by blast
  have u: "unat (2 + of_nat j :: shm_kind) = 2 + j" if "j < length ?es" for j
    using that assms(2) by (simp add: unat_add_64 unat_of_nat_64)
  have "map er_name (sc_events (bf_control b')) = map er_name ?es"
    using b'(3) by (auto intro: nth_equalityI)
  moreover have "inj_on (\<lambda>j. 2 + of_nat j :: shm_kind) {0..<length ?es}"
    by (rule inj_onI) (use u in \<open>fastforce simp: word_64_eq_iff\<close>)
  then have "distinct (map er_kind (sc_events (bf_control b')))"
    using b'(3) by (simp add: distinct_map comp_def)
  moreover have "\<forall>r \<in> set (sc_events (bf_control b')). last_special_kind < er_kind r"
    using b'(3) u by (auto simp: last_special_kind_def word_less_nat_alt)
  ultimately show ?thesis using b' by blast
qed

theorem register_all_events_kinds_witness:
  "\<exists>b'. buffer_register_all_events bf_example = Inr (0, b') \<and> distinct (map er_kind (sc_events (bf_control b')))"
proof -
  have "length (sc_events (bf_control bf_example)) = 2" by (simp add: bf_example_def)
  moreover have "unat (source_control_get_records_num (bf_control bf_example)) = 2" by code_simp
  ultimately show ?thesis using register_all_events_kinds [of bf_example] by auto
qed

text \<open>
  \<open>drop_ranges_lock\<close> returns at once when the lock is already taken (and only then stops
  looping), so it excludes nobody.
\<close>

lemma drop_ranges_lock_excludes_nobody:
  "sb_dropped_ranges_lock (bf_shm b) \<Longrightarrow> drop_ranges_lock b = b"
  by (simp add: drop_ranges_lock_def)

end
