(* ===== verification/Shm_Aux.thy ===== *)
theory Shm_Aux
  imports Shm_Buffer
begin

text \<open>
  Auxiliary buffers: the strings of events are copied into shared-memory segments
  (\<open>shmbuf/buffer-aux.c\<close> and the string functions of \<open>shmbuf/buffer.c\<close>), and the event holds
  a 64-bit reference, the index of the segment in the upper half and the offset in the lower.
  The writer reuses a segment once the monitor has processed or dropped its events.
  The page size and the result of mapping a new segment (\<open>None\<close> when opening, resizing or
  mapping fails) are arguments; strings are byte lists. A segment's \<open>idx\<close> field is the index
  under which it is mapped, so the reader's comparisons of \<open>ab->idx\<close> compare segment indices. The list \<open>aux_buffers_age\<close> is a list
  of segment indices, in which an index occurs once.
\<close>

section \<open>Segments of the writer\<close>

definition SIZEOF_AUX_BUFFER :: size_t where
  "SIZEOF_AUX_BUFFER = 48"

definition aux_buffer_free_space :: "aux_buffer \<Rightarrow> size_t" where
  "aux_buffer_free_space ab = ab_size ab - ab_head ab"

definition set_seg :: "size_t \<Rightarrow> aux_buffer \<Rightarrow> buffer \<Rightarrow> buffer" where
  "set_seg c ab b = b\<lparr>bf_segs := (bf_segs b)(c := Some ab)\<rparr>"

definition seg_at :: "buffer \<Rightarrow> size_t \<Rightarrow> aux_buffer res" where
  "seg_at b c = (case bf_segs b c of None \<Rightarrow> Inl (UB ''dangling aux buffer'') | Some ab \<Rightarrow> Inr ab)"

definition age_last_is_cur :: "buffer \<Rightarrow> bool" where
  "age_last_is_cur b \<longleftrightarrow> bf_aux_age b \<noteq> [] \<and> bf_cur_aux b = Some (last (bf_aux_age b))"

definition new_aux_size :: "size_t \<Rightarrow> size_t \<Rightarrow> size_t" where
  "new_aux_size pg_size sz = ((sz + SIZEOF_AUX_BUFFER) div pg_size + 2) * pg_size"

definition new_aux_buffer ::
    "(size_t \<Rightarrow> byte list option) \<Rightarrow> size_t \<Rightarrow> buffer \<Rightarrow> size_t \<Rightarrow> (size_t \<times> buffer) res" where
  "new_aux_buffer mmap pg_size buff sz =
     (let idx = bf_aux_buf_idx buff;
          buff = buff\<lparr>bf_aux_buf_idx := idx + 1\<rparr>;
          sz = new_aux_size pg_size sz
      in case mmap (sz - SIZEOF_AUX_BUFFER) of
           None \<Rightarrow> Inl (Abort ''new_aux_buffer'')
         | Some mem \<Rightarrow>
             (let ab = \<lparr>ab_size = sz - SIZEOF_AUX_BUFFER, ab_head = 0, ab_idx = idx, ab_first_event_id = 0,
                        ab_last_event_id = - 1, ab_reusable = False, ab_data = mem\<rparr>
              in Inr (idx, (set_seg idx ab buff)\<lparr>bf_aux_buffers := bf_aux_buffers buff @ [idx],
                   bf_aux_age := bf_aux_age buff @ [idx], bf_cur_aux := Some idx\<rparr>)))"

definition in_range :: "aux_buffer \<Rightarrow> shm_eventid \<times> shm_eventid \<Rightarrow> bool" where
  "in_range ab r \<longleftrightarrow> snd r \<noteq> 0 \<and> fst r \<le> ab_first_event_id ab \<and> snd r \<ge> ab_last_event_id ab"

definition ab_was_dropped :: "aux_buffer \<Rightarrow> buffer \<Rightarrow> bool \<times> buffer" where
  "ab_was_dropped ab buff =
     (let buff = drop_ranges_lock buff in
      (list_ex (in_range ab) (sb_dropped_ranges (bf_shm buff)), drop_ranges_unlock buff))"

definition recycle :: "aux_buffer \<Rightarrow> aux_buffer" where
  "recycle ab = ab\<lparr>ab_reusable := True, ab_head := 0, ab_first_event_id := 0, ab_last_event_id := - 1\<rparr>"

fun writer_find :: "buffer \<Rightarrow> size_t \<Rightarrow> size_t list \<Rightarrow> (size_t option \<times> buffer) res" where
  "writer_find buff sz [] = Inr (None, buff)"
| "writer_find buff sz (c # cs) =
     bindE (seg_at buff c) (\<lambda>ab.
     let (done, buff) = (if ab_last_event_id ab \<le> sb_last_processed_id (bf_shm buff) then (True, buff)
                         else ab_was_dropped ab buff);
         ab = (if done then recycle ab else ab);
         buff = set_seg c ab buff
     in if ab_reusable ab \<and> ab_size ab \<ge> sz then
          assertE (age_last_is_cur buff) ''shm_list_last(age)->data == cur_aux_buff''
          (Inr (Some c, (set_seg c (ab\<lparr>ab_reusable := False\<rparr>) buff)
             \<lparr>bf_aux_age := remove1 c (bf_aux_age buff) @ [c], bf_cur_aux := Some c\<rparr>))
        else writer_find buff sz cs)"

definition writer_get_aux_buffer ::
    "(size_t \<Rightarrow> byte list option) \<Rightarrow> size_t \<Rightarrow> buffer \<Rightarrow> size_t \<Rightarrow> (size_t \<times> buffer) res" where
  "writer_get_aux_buffer mmap pg_size buff sz =
     bindE (case bf_cur_aux buff of
              None \<Rightarrow> Inr None
            | Some c \<Rightarrow>
                bindE (seg_at buff c) (\<lambda>ab. Inr (if aux_buffer_free_space ab < sz then None else Some c)))
       (\<lambda>use.
     case use of
       None \<Rightarrow>
         bindE (writer_find buff sz (bf_aux_age buff)) (\<lambda>(r, buff).
         case r of Some c \<Rightarrow> Inr (c, buff) | None \<Rightarrow> new_aux_buffer mmap pg_size buff sz)
     | Some c \<Rightarrow>
         assertE (age_last_is_cur buff) ''shm_list_last(age)->data == cur_aux_buff'' (Inr (c, buff)))"

section \<open>Strings\<close>

text \<open>\<open>buffer_push_strn_raw\<close> is \<open>_buffer_push_strn\<close> of the source.\<close>

definition buffer_push_strn_raw ::
    "(size_t \<Rightarrow> byte list option) \<Rightarrow> size_t \<Rightarrow> buffer \<Rightarrow> byte list \<Rightarrow> size_t \<Rightarrow> (size_t \<times> buffer) res" where
  "buffer_push_strn_raw mmap pg_size buff data sz =
     bindE (writer_get_aux_buffer mmap pg_size buff sz) (\<lambda>(c, buff).
     assertE (bf_cur_aux buff = Some c) ''ab == buff->cur_aux_buff''
     (assertE (age_last_is_cur buff) ''shm_list_last(age)->data == cur_aux_buff''
     (bindE (seg_at buff c) (\<lambda>ab.
      let off = ab_head ab in
      assertE (unat off < 2 ^ 32) ''off < (1LU << 32)''
      (bindE (mem_read data 0 (unat sz)) (\<lambda>src.
       bindE (mem_write (ab_data ab) (unat off) src) (\<lambda>d.
       Inr (off, set_seg c (ab\<lparr>ab_data := d, ab_head := off + sz\<rparr>) buff))))))))"

definition buffer_push_strn ::
    "(size_t \<Rightarrow> byte list option) \<Rightarrow> size_t \<Rightarrow> buffer \<Rightarrow> uint64_t \<Rightarrow> byte list \<Rightarrow> size_t \<Rightarrow> (uint64_t \<times> buffer) res" where
  "buffer_push_strn mmap pg_size buff evid str len =
     bindE (buffer_push_strn_raw mmap pg_size buff str len) (\<lambda>(off, buff).
     case bf_cur_aux buff of
       None \<Rightarrow> Inl (Assertion ''ab'')
     | Some c \<Rightarrow>
         bindE (seg_at buff c) (\<lambda>ab.
         let ab = (if ab_first_event_id ab = 0 then ab\<lparr>ab_first_event_id := evid\<rparr> else ab);
             ab = ab\<lparr>ab_last_event_id := evid\<rparr>
         in Inr (off OR push_bit 32 (ab_idx ab), set_seg c ab buff)))"

definition buffer_push_str ::
    "(size_t \<Rightarrow> byte list option) \<Rightarrow> size_t \<Rightarrow> buffer \<Rightarrow> uint64_t \<Rightarrow> byte list \<Rightarrow> (uint64_t \<times> buffer) res" where
  "buffer_push_str mmap pg_size buff evid str =
     bindE (buffer_push_strn mmap pg_size buff evid (str @ [0]) (of_nat (length str) + 1)) (\<lambda>(off, buff).
     case bf_cur_aux buff of
       None \<Rightarrow> Inl (Assertion ''buff->cur_aux_buff'')
     | Some c \<Rightarrow> bindE (seg_at buff c) (\<lambda>ab. Inr (off OR push_bit 32 (ab_idx ab), buff)))"

definition store_ref :: "buffer \<Rightarrow> size_t \<Rightarrow> uint64_t \<Rightarrow> (size_t \<times> buffer) res" where
  "store_ref buff p v =
     bindE (mem_write (sb_data (bf_shm buff)) (unat p) (le64 v)) (\<lambda>d.
     Inr (p + 8, upd_shm (\<lambda>s. s\<lparr>sb_data := d\<rparr>) buff))"

definition buffer_partial_push_str ::
    "(size_t \<Rightarrow> byte list option) \<Rightarrow> size_t \<Rightarrow> buffer \<Rightarrow> size_t \<Rightarrow> uint64_t \<Rightarrow> byte list \<Rightarrow> (size_t \<times> buffer) res" where
  "buffer_partial_push_str mmap pg_size buff prev_push evid str =
     assertE (\<not> sb_destroyed (bf_shm buff)) ''Writing to a destroyed buffer''
     (assertE (prev_push < buff_end buff) ''prev_push < BUFF_END''
     (bindE (buffer_push_str mmap pg_size buff evid str) (\<lambda>(v, buff). store_ref buff prev_push v)))"

definition buffer_partial_push_str_n ::
    "(size_t \<Rightarrow> byte list option) \<Rightarrow> size_t \<Rightarrow> buffer \<Rightarrow> size_t \<Rightarrow> uint64_t \<Rightarrow> byte list \<Rightarrow> size_t \<Rightarrow>
      (size_t \<times> buffer) res" where
  "buffer_partial_push_str_n mmap pg_size buff prev_push evid str len =
     assertE (\<not> sb_destroyed (bf_shm buff)) ''Writing to a destroyed buffer''
     (assertE (prev_push < buff_end buff) ''prev_push < BUFF_END''
     (bindE (buffer_push_strn mmap pg_size buff evid str len) (\<lambda>(v, buff). store_ref buff prev_push v)))"

section \<open>The reader\<close>

text \<open>
  The reader finds the segment in its cache, among the segments it knows, or by opening it;
  \<open>read_ok\<close> and \<open>mmap_ok\<close> are the results of the system calls, a missing segment makes
  \<open>shm_open\<close> fail. \<open>Inr (None, _)\<close> is the result \<open>NULL\<close>.
\<close>

definition reader_get_aux_buffer ::
    "bool \<Rightarrow> bool \<Rightarrow> buffer \<Rightarrow> size_t \<Rightarrow> (size_t option \<times> buffer) res" where
  "reader_get_aux_buffer read_ok mmap_ok buff idx =
     (if bf_cur_aux buff = Some idx then Inr (Some idx, buff)
      else if idx \<in> set (bf_aux_buffers buff) then Inr (Some idx, buff\<lparr>bf_cur_aux := Some idx\<rparr>)
      else (case bf_segs buff idx of
          None \<Rightarrow> Inl (Abort ''shm_open'')
        | Some ab \<Rightarrow>
            if \<not> read_ok then Inr (None, buff)
            else if \<not> mmap_ok then Inl (Abort ''mmap failure'')
            else assertE (ab_idx ab = idx) ''Got wrong buffer''
              (assertE (ab_size ab > 0) ''ab->size > 0''
              (Inr (Some idx, buff\<lparr>bf_cur_aux := Some idx, bf_aux_buffers := bf_aux_buffers buff @ [idx]\<rparr>)))))"

text \<open>A pointer into a segment is the segment and the offset.\<close>

definition buffer_get_str ::
    "bool \<Rightarrow> bool \<Rightarrow> buffer \<Rightarrow> uint64_t \<Rightarrow> ((size_t \<times> size_t) \<times> buffer) res" where
  "buffer_get_str read_ok mmap_ok buff elem =
     (let idx = drop_bit 32 elem in
      bindE (reader_get_aux_buffer read_ok mmap_ok buff idx) (\<lambda>(ab, buff).
      let off = elem AND 0xffffffff in
      case ab of None \<Rightarrow> Inl (UB ''NULL->data'') | Some c \<Rightarrow> Inr ((c, off), buff)))"

definition str_at :: "buffer \<Rightarrow> size_t \<times> size_t \<Rightarrow> byte list" where
  "str_at b p = (case bf_segs b (fst p) of None \<Rightarrow> []
     | Some ab \<Rightarrow> takeWhile (\<lambda>x. x \<noteq> 0) (drop (unat (snd p)) (ab_data ab)))"

section \<open>The invariant of the writer\<close>

definition seg_wf :: "size_t \<Rightarrow> aux_buffer \<Rightarrow> bool" where
  "seg_wf c ab \<longleftrightarrow> ab_idx ab = c \<and> ab_head ab \<le> ab_size ab \<and> length (ab_data ab) = unat (ab_size ab) \<and>
     0 < ab_size ab \<and> unat (ab_size ab) \<le> 4294967296 \<and> (ab_reusable ab \<longrightarrow> ab_head ab = 0)"

definition aux_inv :: "buffer \<Rightarrow> bool" where
  "aux_inv b \<longleftrightarrow> distinct (bf_aux_age b) \<and>
     bf_cur_aux b = (if bf_aux_age b = [] then None else Some (last (bf_aux_age b))) \<and>
     (\<forall>c \<in> set (bf_aux_age b). c < bf_aux_buf_idx b \<and> (\<exists>ab. bf_segs b c = Some ab \<and> seg_wf c ab))"

text \<open>A segment whose strings may be overwritten: processed, dropped, or already marked.\<close>

definition reclaimable :: "buffer \<Rightarrow> aux_buffer \<Rightarrow> bool" where
  "reclaimable b ab \<longleftrightarrow> ab_reusable ab \<or> ab_last_event_id ab \<le> sb_last_processed_id (bf_shm b) \<or>
     list_ex (in_range ab) (sb_dropped_ranges (bf_shm b))"

definition same_shm :: "buffer \<Rightarrow> buffer \<Rightarrow> bool" where
  "same_shm b b' \<longleftrightarrow> (\<exists>l. bf_shm b' = (bf_shm b)\<lparr>sb_dropped_ranges_lock := l\<rparr>)"

lemma same_shm_refl [simp]: "same_shm b b"
  by (auto simp: same_shm_def intro: exI [of _ "sb_dropped_ranges_lock (bf_shm b)"])

lemma same_shm_eq: "bf_shm b' = bf_shm b \<Longrightarrow> same_shm b b'"
  by (auto simp: same_shm_def intro: exI [of _ "sb_dropped_ranges_lock (bf_shm b)"])

lemma same_shm_trans: "same_shm a b \<Longrightarrow> same_shm b c \<Longrightarrow> same_shm a c"
  by (auto simp: same_shm_def)

lemma same_shm_reclaimable: "same_shm b b' \<Longrightarrow> reclaimable b' ab = reclaimable b ab"
  by (auto simp: same_shm_def reclaimable_def)

lemma ab_was_dropped_eq:
  "ab_was_dropped ab b = (list_ex (in_range ab) (sb_dropped_ranges (bf_shm b)),
     upd_shm (\<lambda>s. s\<lparr>sb_dropped_ranges_lock := False\<rparr>) b)"
  by (simp add: ab_was_dropped_def drop_ranges_lock_def drop_ranges_unlock_def)

lemma set_seg_simps [simp]:
  "bf_segs (set_seg c ab b) = (bf_segs b)(c := Some ab)" "bf_shm (set_seg c ab b) = bf_shm b"
  "bf_aux_age (set_seg c ab b) = bf_aux_age b" "bf_cur_aux (set_seg c ab b) = bf_cur_aux b"
  "bf_aux_buf_idx (set_seg c ab b) = bf_aux_buf_idx b" "bf_aux_buffers (set_seg c ab b) = bf_aux_buffers b"
  by (simp_all add: set_seg_def)

lemma aux_inv_set_seg:
  "aux_inv b \<Longrightarrow> seg_wf c ab \<Longrightarrow> aux_inv (set_seg c ab b)"
  by (auto simp: aux_inv_def)

lemma aux_inv_shm [simp]: "aux_inv (b\<lparr>bf_shm := s\<rparr>) = aux_inv b"
  by (simp add: aux_inv_def)

lemma seg_wf_recycle: "seg_wf c ab \<Longrightarrow> seg_wf c (recycle ab)"
  by (simp add: seg_wf_def recycle_def)

lemma aux_inv_move_to_end:
  assumes "aux_inv b" and "c \<in> set (bf_aux_age b)"
  shows "aux_inv (b\<lparr>bf_aux_age := remove1 c (bf_aux_age b) @ [c], bf_cur_aux := Some c\<rparr>)"
  using assms by (auto simp: aux_inv_def distinct_remove1 dest: in_set_remove1)

lemma aux_invD:
  assumes "aux_inv b" and "c \<in> set (bf_aux_age b)"
  obtains ab where "bf_segs b c = Some ab" "seg_wf c ab"
  using assms by (auto simp: aux_inv_def)

text \<open>
  What a search of the writer does: it finds a segment with room, or none; a segment that is
  not reclaimable keeps its contents.
\<close>

definition find_post :: "buffer \<Rightarrow> size_t \<Rightarrow> size_t option \<times> buffer \<Rightarrow> bool" where
  "find_post b sz rb = (case rb of (r, b') \<Rightarrow>
     aux_inv b' \<and> set (bf_aux_age b') = set (bf_aux_age b) \<and> bf_aux_buf_idx b' = bf_aux_buf_idx b \<and> same_shm b b' \<and>
     (\<forall>c ab. bf_segs b c = Some ab \<longrightarrow> \<not> reclaimable b ab \<longrightarrow> bf_segs b' c = Some ab) \<and>
     (case r of None \<Rightarrow> True
      | Some c \<Rightarrow> bf_cur_aux b' = Some c \<and>
          (\<exists>ab. bf_segs b' c = Some ab \<and> ab_head ab = 0 \<and> sz \<le> ab_size ab \<and> \<not> ab_reusable ab)))"

lemma find_post_trans:
  assumes "find_post b1 sz r" and "set (bf_aux_age b1) = set (bf_aux_age b)" "bf_aux_buf_idx b1 = bf_aux_buf_idx b"
    and s: "same_shm b b1" and k: "\<And>c ab. bf_segs b c = Some ab \<Longrightarrow> \<not> reclaimable b ab \<Longrightarrow> bf_segs b1 c = Some ab"
  shows "find_post b sz r"
proof (cases r)
  case (Pair x b')
  have "bf_segs b' c = Some ab" if "bf_segs b c = Some ab" "\<not> reclaimable b ab" for c ab
    using that assms(1) k [OF that] same_shm_reclaimable [OF s] Pair by (auto simp: find_post_def)
  moreover have "same_shm b b'" using assms(1) s Pair by (auto simp: find_post_def intro: same_shm_trans)
  ultimately show ?thesis using assms(1-3) Pair by (auto simp: find_post_def)
qed

lemma writer_find_step:
  assumes inv: "aux_inv b" and c: "c \<in> set (bf_aux_age b)" and ab: "bf_segs b c = Some ab" "seg_wf c ab"
  defines "d \<equiv> ab_last_event_id ab \<le> sb_last_processed_id (bf_shm b) \<or> list_ex (in_range ab) (sb_dropped_ranges (bf_shm b))"
  defines "ab1 \<equiv> (if d then recycle ab else ab)"
  shows "\<exists>b1. aux_inv b1 \<and> set (bf_aux_age b1) = set (bf_aux_age b) \<and> bf_aux_age b1 = bf_aux_age b \<and>
      bf_aux_buf_idx b1 = bf_aux_buf_idx b \<and> same_shm b b1 \<and> seg_wf c ab1 \<and>
      (\<forall>c' ab'. bf_segs b c' = Some ab' \<longrightarrow> \<not> reclaimable b ab' \<longrightarrow> bf_segs b1 c' = Some ab') \<and>
      bf_segs b1 c = Some ab1 \<and> age_last_is_cur b1 \<and>
      writer_find b sz (c # cs) =
        (if ab_reusable ab1 \<and> sz \<le> ab_size ab1
         then Inr (Some c, (set_seg c (ab1\<lparr>ab_reusable := False\<rparr>) b1)
             \<lparr>bf_aux_age := remove1 c (bf_aux_age b1) @ [c], bf_cur_aux := Some c\<rparr>)
         else writer_find b1 sz cs)"
proof -
  let ?b0 = "if ab_last_event_id ab \<le> sb_last_processed_id (bf_shm b) then b
    else upd_shm (\<lambda>s. s\<lparr>sb_dropped_ranges_lock := False\<rparr>) b"
  let ?b1 = "set_seg c ab1 ?b0"
  have wf: "seg_wf c ab1" using ab(2) seg_wf_recycle by (simp add: ab1_def)
  have i0: "aux_inv ?b0" "bf_aux_age ?b0 = bf_aux_age b" "bf_segs ?b0 = bf_segs b" "same_shm b ?b0"
    "bf_cur_aux ?b0 = bf_cur_aux b" "bf_aux_buf_idx ?b0 = bf_aux_buf_idx b"
    using inv by (auto simp: same_shm_def intro: exI [of _ "sb_dropped_ranges_lock (bf_shm b)"])
  have i1: "aux_inv ?b1" by (rule aux_inv_set_seg [OF i0(1) wf])
  have cur: "age_last_is_cur ?b1"
    using inv c i0 by (auto simp: age_last_is_cur_def aux_inv_def)
  have keep: "bf_segs ?b1 c' = Some ab'" if "bf_segs b c' = Some ab'" "\<not> reclaimable b ab'" for c' ab'
    using that ab(1) i0(3) by (auto simp: ab1_def d_def reclaimable_def)
  have "writer_find b sz (c # cs) =
        (if ab_reusable ab1 \<and> sz \<le> ab_size ab1
         then Inr (Some c, (set_seg c (ab1\<lparr>ab_reusable := False\<rparr>) ?b1)
             \<lparr>bf_aux_age := remove1 c (bf_aux_age ?b1) @ [c], bf_cur_aux := Some c\<rparr>)
         else writer_find ?b1 sz cs)"
    using ab(1) cur
    by (cases "ab_last_event_id ab \<le> sb_last_processed_id (bf_shm b)")
      (simp_all add: seg_at_def ab_was_dropped_eq ab1_def d_def Let_def)
  moreover have "same_shm b ?b1" using i0(4) by (simp add: same_shm_def)
  ultimately show ?thesis using i1 i0 wf keep cur
    by (intro exI [of _ ?b1]) simp
qed

lemma writer_find_ok:
  "aux_inv b \<Longrightarrow> set cs \<subseteq> set (bf_aux_age b) \<Longrightarrow> \<exists>r. writer_find b sz cs = Inr r \<and> find_post b sz r"
proof (induction cs arbitrary: b)
  case Nil
  then show ?case by (simp add: find_post_def)
next
  case (Cons c cs)
  have c: "c \<in> set (bf_aux_age b)" using Cons.prems(2) by simp
  obtain ab where ab: "bf_segs b c = Some ab" "seg_wf c ab" using aux_invD [OF Cons.prems(1) c] .
  let ?d = "ab_last_event_id ab \<le> sb_last_processed_id (bf_shm b) \<or> list_ex (in_range ab) (sb_dropped_ranges (bf_shm b))"
  let ?ab1 = "if ?d then recycle ab else ab"
  obtain b1 where b1: "aux_inv b1" "set (bf_aux_age b1) = set (bf_aux_age b)" "bf_aux_age b1 = bf_aux_age b"
      "bf_aux_buf_idx b1 = bf_aux_buf_idx b" "same_shm b b1" "seg_wf c ?ab1"
    and keep: "\<And>c' ab'. bf_segs b c' = Some ab' \<Longrightarrow> \<not> reclaimable b ab' \<Longrightarrow> bf_segs b1 c' = Some ab'"
    and seg: "bf_segs b1 c = Some ?ab1"
    and f: "writer_find b sz (c # cs) =
        (if ab_reusable ?ab1 \<and> sz \<le> ab_size ?ab1
         then Inr (Some c, (set_seg c (?ab1\<lparr>ab_reusable := False\<rparr>) b1)
             \<lparr>bf_aux_age := remove1 c (bf_aux_age b1) @ [c], bf_cur_aux := Some c\<rparr>)
         else writer_find b1 sz cs)"
    using writer_find_step [OF Cons.prems(1) c ab, of sz cs] by blast
  show ?case
  proof (cases "ab_reusable ?ab1 \<and> sz \<le> ab_size ?ab1")
    case True
    let ?s = "set_seg c (?ab1\<lparr>ab_reusable := False\<rparr>) b1"
    let ?b' = "?s\<lparr>bf_aux_age := remove1 c (bf_aux_age b1) @ [c], bf_cur_aux := Some c\<rparr>"
    have wf2: "seg_wf c (?ab1\<lparr>ab_reusable := False\<rparr>)" using b1(6) by (simp add: seg_wf_def)
    have "aux_inv ?s" by (rule aux_inv_set_seg [OF b1(1) wf2])
    from aux_inv_move_to_end [OF this, of c] have i: "aux_inv ?b'" using c b1(3) by simp
    have rc: "reclaimable b ab" using True ab(2) by (auto simp: reclaimable_def split: if_splits)
    have "find_post b sz (Some c, ?b')"
      unfolding find_post_def prod.case option.case
    proof (intro conjI allI impI)
      show "aux_inv ?b'" by (rule i)
      show "set (bf_aux_age ?b') = set (bf_aux_age b)"
        using c b1(3) Cons.prems(1) by (auto simp: aux_inv_def)
      show "bf_aux_buf_idx ?b' = bf_aux_buf_idx b" using b1(4) by simp
      show "same_shm b ?b'" using b1(5) by (simp add: same_shm_def)
      show "bf_segs ?b' c' = Some ab'" if "bf_segs b c' = Some ab'" "\<not> reclaimable b ab'" for c' ab'
        using that keep [OF that] rc ab(1) by auto
      show "bf_cur_aux ?b' = Some c" by simp
      show "\<exists>ab. bf_segs ?b' c = Some ab \<and> ab_head ab = 0 \<and> sz \<le> ab_size ab \<and> \<not> ab_reusable ab"
        using True b1(6) by (auto simp: seg_wf_def)
    qed
    then show ?thesis unfolding f if_P [OF True] by blast
  next
    case False
    have "set cs \<subseteq> set (bf_aux_age b1)" using Cons.prems(2) b1(2) by simp
    from Cons.IH [OF b1(1) this] obtain r where "writer_find b1 sz cs = Inr r" "find_post b1 sz r" by blast
    then show ?thesis unfolding f if_not_P [OF False] using find_post_trans [OF _ b1(2,4,5) keep] by blast
  qed
qed

section \<open>References to strings\<close>

lemma ref_idx:
  assumes "unat off < 4294967296" "unat c < 4294967296"
  shows "drop_bit 32 (off OR push_bit 32 c) = (c :: 64 word)"
proof -
  have o: "take_bit 32 off = off" and tc: "take_bit 32 c = c"
    using assms by (simp_all add: word_64_eq_iff unsigned_take_bit_eq take_bit_nat_eq_self)
  have bo: "n < 32" if "bit off n" for n
    using arg_cong [OF o, of "\<lambda>w. bit w n"] that by (simp add: bit_take_bit_iff)
  have bc: "n < 32" if "bit c n" for n
    using arg_cong [OF tc, of "\<lambda>w. bit w n"] that by (simp add: bit_take_bit_iff)
  show ?thesis
    by (intro bit_word_eqI) (auto simp: bit_simps dest: bo bc)
qed

lemma ref_off:
  assumes "unat off < 4294967296"
  shows "(off OR push_bit 32 c) AND 0xffffffff = (off :: 64 word)"
proof -
  have m: "(0xffffffff :: 64 word) = mask 32" by (simp add: mask_eq_exp_minus_1)
  have o: "take_bit 32 off = off"
    using assms by (simp add: word_64_eq_iff unsigned_take_bit_eq take_bit_nat_eq_self)
  have "take_bit 32 (push_bit 32 c) = 0" by (simp add: take_bit_push_bit)
  then have "take_bit 32 (off OR push_bit 32 c) = off" using o by simp
  then show ?thesis by (simp add: m take_bit_eq_mask)
qed

lemma new_aux_size_ok:
  assumes pg: "0 < unat pg" and sm: "unat sz + 48 + 2 * unat pg \<le> 4294967296"
  shows "unat sz + unat pg \<le> unat (new_aux_size pg sz - SIZEOF_AUX_BUFFER)"
    and "unat (new_aux_size pg sz - SIZEOF_AUX_BUFFER) \<le> 4294967296"
proof -
  have u1: "unat (sz + SIZEOF_AUX_BUFFER) = unat sz + 48"
    using sm by (simp add: SIZEOF_AUX_BUFFER_def unat_add_64)
  let ?k = "(unat sz + 48) div unat pg"
  have k1: "?k * unat pg \<le> unat sz + 48" "unat sz + 48 < ?k * unat pg + unat pg"
    using pg by (simp_all add: div_times_less_eq_dividend dividend_less_div_times add.commute)
  have "?k \<le> unat sz + 48" by (rule div_le_dividend)
  then have "?k + 2 < 18446744073709551616" using sm by linarith
  moreover have "unat ((sz + SIZEOF_AUX_BUFFER) div pg) = ?k" unfolding unat_div u1 ..
  ultimately have u2: "unat ((sz + SIZEOF_AUX_BUFFER) div pg + 2) = ?k + 2"
    by (subst unat_add_64) simp
  have "(?k + 2) * unat pg = ?k * unat pg + 2 * unat pg" by (simp add: algebra_simps)
  moreover from this have "(?k + 2) * unat pg < 18446744073709551616" using k1(1) sm by linarith
  ultimately have u3: "unat (new_aux_size pg sz) = ?k * unat pg + 2 * unat pg"
    using u2 by (simp add: new_aux_size_def unat_mult_64)
  then have u4: "unat (new_aux_size pg sz - SIZEOF_AUX_BUFFER) = ?k * unat pg + 2 * unat pg - 48"
    using k1 by (simp add: unat_sub_64 SIZEOF_AUX_BUFFER_def)
  show "unat sz + unat pg \<le> unat (new_aux_size pg sz - SIZEOF_AUX_BUFFER)"
    "unat (new_aux_size pg sz - SIZEOF_AUX_BUFFER) \<le> 4294967296"
    unfolding u4 using k1 sm by linarith+
qed

text \<open>What \<open>writer_get_aux_buffer\<close> and the functions over it rely on of the system.\<close>

definition aux_sys_ok :: "(size_t \<Rightarrow> byte list option) \<Rightarrow> size_t \<Rightarrow> size_t \<Rightarrow> bool" where
  "aux_sys_ok mmap pg sz \<longleftrightarrow> malloc_ok mmap \<and> mmap (new_aux_size pg sz - SIZEOF_AUX_BUFFER) \<noteq> None \<and>
     0 < unat pg \<and> unat sz + 48 + 2 * unat pg \<le> 4294967296"

definition get_post :: "buffer \<Rightarrow> size_t \<Rightarrow> size_t \<times> buffer \<Rightarrow> bool" where
  "get_post b sz r = (case r of (c, b') \<Rightarrow>
     aux_inv b' \<and> same_shm b b' \<and> bf_cur_aux b' = Some c \<and> age_last_is_cur b' \<and> c \<in> set (bf_aux_age b') \<and>
     (\<forall>c \<in> set (bf_aux_age b). \<forall>ab. bf_segs b c = Some ab \<longrightarrow> \<not> reclaimable b ab \<longrightarrow> bf_segs b' c = Some ab) \<and>
     unat (bf_aux_buf_idx b') \<le> unat (bf_aux_buf_idx b) + 1 \<and> set (bf_aux_age b) \<subseteq> set (bf_aux_age b') \<and>
     (\<exists>ab. bf_segs b' c = Some ab \<and> seg_wf c ab \<and> \<not> ab_reusable ab \<and>
        unat (ab_head ab) + unat sz \<le> unat (ab_size ab)))"

text \<open>The segment in use is not marked as reusable (it may be so during a search).\<close>

definition aux_ok :: "buffer \<Rightarrow> bool" where
  "aux_ok b \<longleftrightarrow> aux_inv b \<and> (\<forall>c ab. bf_cur_aux b = Some c \<longrightarrow> bf_segs b c = Some ab \<longrightarrow> \<not> ab_reusable ab)"

lemma age_last_cur:
  "aux_inv b \<Longrightarrow> bf_cur_aux b = Some c \<Longrightarrow> age_last_is_cur b \<and> c \<in> set (bf_aux_age b)"
  by (auto simp: aux_inv_def age_last_is_cur_def split: if_splits)

lemma new_aux_buffer_ok:
  assumes inv: "aux_inv b" and idx: "unat (bf_aux_buf_idx b) < 4294967295" and sys: "aux_sys_ok mmap pg sz"
  shows "\<exists>r. new_aux_buffer mmap pg b sz = Inr r \<and> get_post b sz r"
proof -
  let ?i = "bf_aux_buf_idx b" and ?s = "new_aux_size pg sz - SIZEOF_AUX_BUFFER"
  obtain mem where mem: "mmap ?s = Some mem" "length mem = unat ?s"
    using sys by (auto simp: aux_sys_ok_def malloc_ok_def)
  have sz: "unat sz + unat pg \<le> unat ?s" "unat ?s \<le> 4294967296" "0 < unat pg"
    using sys new_aux_size_ok [of pg sz] by (auto simp: aux_sys_ok_def)
  let ?ab = "\<lparr>ab_size = ?s, ab_head = 0, ab_idx = ?i, ab_first_event_id = 0,
      ab_last_event_id = - 1, ab_reusable = False, ab_data = mem\<rparr>"
  let ?b' = "(set_seg ?i ?ab (b\<lparr>bf_aux_buf_idx := ?i + 1\<rparr>))\<lparr>bf_aux_buffers := bf_aux_buffers b @ [?i],
      bf_aux_age := bf_aux_age b @ [?i], bf_cur_aux := Some ?i\<rparr>"
  have wf: "seg_wf ?i ?ab" using mem(2) sz by (simp add: seg_wf_def word_less_nat_alt)
  have fresh: "?i \<notin> set (bf_aux_age b)" using inv by (auto simp: aux_inv_def)
  have u: "unat (?i + 1) = unat ?i + 1" using idx by (simp add: unat_add_64)
  then have "c < ?i \<Longrightarrow> c < ?i + 1" for c by (simp add: word_less_nat_alt)
  moreover have "?i < ?i + 1" using u by (simp add: word_less_nat_alt)
  ultimately have "aux_inv ?b'" using inv fresh wf by (auto simp: aux_inv_def)
  moreover have "bf_segs ?b' c = Some ab" if "c \<in> set (bf_aux_age b)" "bf_segs b c = Some ab" for c ab
    using that fresh by auto
  moreover have "new_aux_buffer mmap pg b sz = Inr (?i, ?b')" using mem by (simp add: new_aux_buffer_def Let_def)
  moreover have "same_shm b ?b'" by (simp add: same_shm_eq)
  ultimately show ?thesis using wf sz u
    by (intro exI [of _ "(?i, ?b')"]) (auto simp: get_post_def age_last_is_cur_def)
qed

lemma get_post_trans:
  assumes "get_post b1 sz r" and "set (bf_aux_age b1) = set (bf_aux_age b)" "bf_aux_buf_idx b1 = bf_aux_buf_idx b"
    and s: "same_shm b b1" and k: "\<And>c ab. bf_segs b c = Some ab \<Longrightarrow> \<not> reclaimable b ab \<Longrightarrow> bf_segs b1 c = Some ab"
  shows "get_post b sz r"
proof (cases r)
  case (Pair c b')
  have "bf_segs b' c' = Some ab" if "c' \<in> set (bf_aux_age b)" "bf_segs b c' = Some ab" "\<not> reclaimable b ab" for c' ab
    using that assms(1,2) k [OF that(2,3)] same_shm_reclaimable [OF s] Pair by (auto simp: get_post_def)
  moreover have "same_shm b b'" using assms(1) s Pair by (auto simp: get_post_def intro: same_shm_trans)
  ultimately show ?thesis using assms(1-3) Pair by (simp add: get_post_def)
qed

lemma writer_get_aux_buffer_ok:
  assumes ok: "aux_ok b" and idx: "unat (bf_aux_buf_idx b) < 4294967295" and sys: "aux_sys_ok mmap pg sz"
  shows "\<exists>r. writer_get_aux_buffer mmap pg b sz = Inr r \<and> get_post b sz r"
proof -
  have inv: "aux_inv b" using ok by (simp add: aux_ok_def)
  have search: "\<exists>r. bindE (writer_find b sz (bf_aux_age b)) (\<lambda>(r, buff).
         case r of Some c \<Rightarrow> Inr (c, buff) | None \<Rightarrow> new_aux_buffer mmap pg buff sz) = Inr r \<and> get_post b sz r"
  proof -
    obtain r b1 where f: "writer_find b sz (bf_aux_age b) = Inr (r, b1)" "find_post b sz (r, b1)"
      using writer_find_ok [OF inv, of "bf_aux_age b" sz] by auto
    have p: "aux_inv b1" "set (bf_aux_age b1) = set (bf_aux_age b)" "bf_aux_buf_idx b1 = bf_aux_buf_idx b"
      "same_shm b b1" "\<And>c ab. bf_segs b c = Some ab \<Longrightarrow> \<not> reclaimable b ab \<Longrightarrow> bf_segs b1 c = Some ab"
      using f(2) by (auto simp: find_post_def)
    show ?thesis
    proof (cases r)
      case None
      obtain r' where "new_aux_buffer mmap pg b1 sz = Inr r'" "get_post b1 sz r'"
        using new_aux_buffer_ok [OF p(1) _ sys] idx p(3) by auto
      then show ?thesis using f(1) None get_post_trans [OF _ p(2-5)] by auto
    next
      case (Some c)
      then obtain ab where c: "bf_cur_aux b1 = Some c" "bf_segs b1 c = Some ab" "ab_head ab = 0" "sz \<le> ab_size ab"
          "\<not> ab_reusable ab"
        using f(2) by (auto simp: find_post_def)
      have m: "age_last_is_cur b1" "c \<in> set (bf_aux_age b1)" using age_last_cur [OF p(1) c(1)] by auto
      have "seg_wf c ab" using aux_invD [OF p(1) m(2)] c(2) by auto
      then have "get_post b sz (c, b1)" using p c m by (auto simp: get_post_def word_le_nat_alt)
      then show ?thesis using f(1) Some by auto
    qed
  qed
  show ?thesis
  proof (cases "bf_cur_aux b")
    case None
    then show ?thesis using search by (simp add: writer_get_aux_buffer_def)
  next
    case (Some c)
    note m = age_last_cur [OF inv Some]
    obtain ab where ab: "bf_segs b c = Some ab" "seg_wf c ab" using aux_invD [OF inv] m by blast
    show ?thesis
    proof (cases "aux_buffer_free_space ab < sz")
      case True
      then show ?thesis using search Some ab by (simp add: writer_get_aux_buffer_def seg_at_def)
    next
      case False
      then have "unat (ab_head ab) + unat sz \<le> unat (ab_size ab)"
        using ab(2) by (auto simp: aux_buffer_free_space_def seg_wf_def word_less_nat_alt word_le_nat_alt unat_sub_64)
      moreover have "\<not> ab_reusable ab" using ok Some ab(1) by (auto simp: aux_ok_def)
      ultimately have "get_post b sz (c, b)" using inv m Some ab by (auto simp: get_post_def)
      then show ?thesis using m Some ab False by (simp add: writer_get_aux_buffer_def seg_at_def)
    qed
  qed
qed

text \<open>
  The effect of storing a string: the reference names a segment and an offset at which the
  bytes are found, and the strings in segments that are not reclaimable stay where they are.
\<close>

definition keeps_strings :: "buffer \<Rightarrow> buffer \<Rightarrow> bool" where
  "keeps_strings b b' \<longleftrightarrow> (\<forall>c \<in> set (bf_aux_age b). \<forall>ab. bf_segs b c = Some ab \<longrightarrow> \<not> reclaimable b ab \<longrightarrow>
     (\<exists>ab'. bf_segs b' c = Some ab' \<and> ab_head ab \<le> ab_head ab' \<and>
        take (unat (ab_head ab)) (ab_data ab') = take (unat (ab_head ab)) (ab_data ab)))"

definition stored_at :: "buffer \<Rightarrow> size_t \<Rightarrow> size_t \<Rightarrow> byte list \<Rightarrow> bool" where
  "stored_at b c off x \<longleftrightarrow> unat off < 4294967296 \<and> unat c < 4294967296 \<and> bf_cur_aux b = Some c \<and>
     (\<exists>ab. bf_segs b c = Some ab \<and> seg_wf c ab \<and> unat off + length x = unat (ab_head ab) \<and>
        take (length x) (drop (unat off) (ab_data ab)) = x)"

text \<open>The segment a string goes to, and the state after it has been copied there.\<close>

definition grown :: "aux_buffer \<Rightarrow> byte list \<Rightarrow> size_t \<Rightarrow> aux_buffer" where
  "grown ab x sz = ab\<lparr>ab_data := mem_upd (ab_data ab) (unat (ab_head ab)) x, ab_head := ab_head ab + sz\<rparr>"

definition chosen :: "buffer \<Rightarrow> size_t \<Rightarrow> size_t \<Rightarrow> buffer \<Rightarrow> aux_buffer \<Rightarrow> bool" where
  "chosen b sz c b1 ab \<longleftrightarrow> get_post b sz (c, b1) \<and> bf_segs b1 c = Some ab \<and> seg_wf c ab \<and> \<not> ab_reusable ab \<and>
     unat (ab_head ab) + unat sz \<le> unat (ab_size ab) \<and> unat (ab_head ab) < 4294967296 \<and> unat c < 4294967296"

lemma chosenD:
  assumes "chosen b sz c b1 ab"
  shows "aux_inv b1" "same_shm b b1" "bf_cur_aux b1 = Some c" "age_last_is_cur b1" "c \<in> set (bf_aux_age b1)"
    "\<And>c ab. c \<in> set (bf_aux_age b) \<Longrightarrow> bf_segs b c = Some ab \<Longrightarrow> \<not> reclaimable b ab \<Longrightarrow> bf_segs b1 c = Some ab"
    "unat (bf_aux_buf_idx b1) \<le> unat (bf_aux_buf_idx b) + 1" "set (bf_aux_age b) \<subseteq> set (bf_aux_age b1)"
    "bf_segs b1 c = Some ab" "seg_wf c ab" "\<not> ab_reusable ab" "unat (ab_head ab) + unat sz \<le> unat (ab_size ab)"
    "unat (ab_head ab) < 4294967296" "unat c < 4294967296"
  using assms by (simp_all add: chosen_def get_post_def)

lemma grown_ok:
  assumes "chosen b sz c b1 ab" and "length x = unat sz"
  shows "unat (ab_head ab) + length x \<le> length (ab_data ab)" "unat (ab_head (grown ab x sz)) = unat (ab_head ab) + unat sz"
    "seg_wf c (grown ab x sz)" "\<not> ab_reusable (grown ab x sz)"
    "take (unat (ab_head ab)) (ab_data (grown ab x sz)) = take (unat (ab_head ab)) (ab_data ab)"
    "take (length x) (drop (unat (ab_head ab)) (ab_data (grown ab x sz))) = x"
proof -
  note c = chosenD(10-12) [OF assms(1)]
  have w: "unat (ab_size ab) \<le> 4294967296" "length (ab_data ab) = unat (ab_size ab)" using c(1) by (simp_all add: seg_wf_def)
  show fit: "unat (ab_head ab) + length x \<le> length (ab_data ab)" using c(3) w assms(2) by simp
  show uh: "unat (ab_head (grown ab x sz)) = unat (ab_head ab) + unat sz"
    using c(3) w(1) by (simp add: grown_def unat_add_64)
  show "seg_wf c (grown ab x sz)"
    using c fit uh assms(2) by (auto simp: seg_wf_def word_le_nat_alt grown_def)
  show "\<not> ab_reusable (grown ab x sz)" using c(2) by (simp add: grown_def)
  show "take (unat (ab_head ab)) (ab_data (grown ab x sz)) = take (unat (ab_head ab)) (ab_data ab)"
    "take (length x) (drop (unat (ab_head ab)) (ab_data (grown ab x sz))) = x"
    using fit by (simp_all add: grown_def mem_upd_def)
qed

lemma buffer_push_strn_raw_eq:
  assumes inv: "aux_ok b" and idx: "unat (bf_aux_buf_idx b) < 4294967295" and sys: "aux_sys_ok mmap pg sz"
    and x: "length x = unat sz" "0 < unat sz"
  shows "\<exists>c b1 ab. chosen b sz c b1 ab \<and> buffer_push_strn_raw mmap pg b x sz = Inr (ab_head ab, set_seg c (grown ab x sz) b1)"
proof -
  obtain c b1 where g: "writer_get_aux_buffer mmap pg b sz = Inr (c, b1)" and post: "get_post b sz (c, b1)"
    using writer_get_aux_buffer_ok [OF inv idx sys] by auto
  obtain ab where ab: "bf_segs b1 c = Some ab" "seg_wf c ab" "\<not> ab_reusable ab" "unat (ab_head ab) + unat sz \<le> unat (ab_size ab)"
    using post by (auto simp: get_post_def)
  have "unat (ab_size ab) \<le> 4294967296" using ab(2) by (simp add: seg_wf_def)
  then have off: "unat (ab_head ab) < 4294967296" using ab(4) x(2) by linarith
  have "c < bf_aux_buf_idx b1" using post by (auto simp: get_post_def aux_inv_def)
  then have uc: "unat c < 4294967296" using post idx by (simp add: word_less_nat_alt get_post_def)
  have ch: "chosen b sz c b1 ab" using post ab off uc by (simp add: chosen_def)
  have "buffer_push_strn_raw mmap pg b x sz = Inr (ab_head ab, set_seg c (grown ab x sz) b1)"
    using g chosenD(3,4) [OF ch] ab(1) off grown_ok(1) [OF ch x(1)] x
    by (simp add: buffer_push_strn_raw_def seg_at_def Let_def grown_def)
  with ch show ?thesis by blast
qed

lemma buffer_push_strn_raw_ok:
  assumes inv: "aux_ok b" and idx: "unat (bf_aux_buf_idx b) < 4294967295" and sys: "aux_sys_ok mmap pg sz"
    and x: "length x = unat sz" "0 < unat sz"
  shows "\<exists>off b' c. buffer_push_strn_raw mmap pg b x sz = Inr (off, b') \<and> aux_ok b' \<and> same_shm b b' \<and>
    stored_at b' c off x \<and> keeps_strings b b' \<and> c \<in> set (bf_aux_age b')"
proof -
  obtain c b1 ab where ch: "chosen b sz c b1 ab"
    and r: "buffer_push_strn_raw mmap pg b x sz = Inr (ab_head ab, set_seg c (grown ab x sz) b1)"
    using buffer_push_strn_raw_eq [OF assms] by blast
  note c = chosenD [OF ch] and g = grown_ok [OF ch x(1)]
  let ?b' = "set_seg c (grown ab x sz) b1"
  have "stored_at ?b' c (ab_head ab) x" using c(3,13,14) g(2,3,6) x(1) by (auto simp: stored_at_def)
  moreover have "keeps_strings b ?b'"
    unfolding keeps_strings_def
  proof (intro ballI allI impI)
    fix c' abx assume "c' \<in> set (bf_aux_age b)" "bf_segs b c' = Some abx" "\<not> reclaimable b abx"
    from c(6) [OF this] show "\<exists>ab'. bf_segs ?b' c' = Some ab' \<and> ab_head abx \<le> ab_head ab' \<and>
        take (unat (ab_head abx)) (ab_data ab') = take (unat (ab_head abx)) (ab_data abx)"
      using c(9) g(2,5) by (cases "c' = c") (auto simp: word_le_nat_alt)
  qed
  moreover have "same_shm b ?b'" using c(2) by (simp add: same_shm_def)
  moreover have "aux_ok ?b'" using aux_inv_set_seg [OF c(1) g(3)] c(3) g(4) by (auto simp: aux_ok_def)
  ultimately show ?thesis using r c(5) by auto
qed

lemma stored_at_set_seg:
  assumes "stored_at b c off x" and "bf_segs b c = Some ab" and "ab_data ab' = ab_data ab" "ab_head ab' = ab_head ab"
    "seg_wf c ab'"
  shows "stored_at (set_seg c ab' b) c off x"
  using assms by (auto simp: stored_at_def)

lemma keeps_strings_set_seg:
  assumes "keeps_strings b b'" and "bf_segs b' c = Some ab" and "ab_data ab' = ab_data ab" "ab_head ab' = ab_head ab"
  shows "keeps_strings b (set_seg c ab' b')"
  unfolding keeps_strings_def
proof (intro ballI allI impI)
  fix c' abx assume "c' \<in> set (bf_aux_age b)" "bf_segs b c' = Some abx" "\<not> reclaimable b abx"
  then obtain aby where "bf_segs b' c' = Some aby" "ab_head abx \<le> ab_head aby"
    "take (unat (ab_head abx)) (ab_data aby) = take (unat (ab_head abx)) (ab_data abx)"
    using assms(1) unfolding keeps_strings_def by blast
  then show "\<exists>ab''. bf_segs (set_seg c ab' b') c' = Some ab'' \<and> ab_head abx \<le> ab_head ab'' \<and>
      take (unat (ab_head abx)) (ab_data ab'') = take (unat (ab_head abx)) (ab_data abx)"
    using assms(2-4) by (cases "c' = c") auto
qed

lemma buffer_push_strn_ok:
  assumes inv: "aux_ok b" and idx: "unat (bf_aux_buf_idx b) < 4294967295" and sys: "aux_sys_ok mmap pg sz"
    and x: "length x = unat sz" "0 < unat sz"
  shows "\<exists>b' c off. buffer_push_strn mmap pg b evid x sz = Inr (off OR push_bit 32 c, b') \<and> aux_ok b' \<and>
    same_shm b b' \<and> stored_at b' c off x \<and> keeps_strings b b'"
proof -
  obtain off b1 c where r: "buffer_push_strn_raw mmap pg b x sz = Inr (off, b1)" "aux_ok b1" "same_shm b b1"
    "stored_at b1 c off x" "keeps_strings b b1" "c \<in> set (bf_aux_age b1)"
    using buffer_push_strn_raw_ok [OF assms] by blast
  obtain ab where ab: "bf_segs b1 c = Some ab" "seg_wf c ab" and c: "bf_cur_aux b1 = Some c"
    using r(4) by (auto simp: stored_at_def)
  let ?ab' = "(if ab_first_event_id ab = 0 then ab\<lparr>ab_first_event_id := evid\<rparr> else ab)\<lparr>ab_last_event_id := evid\<rparr>"
  have f: "ab_data ?ab' = ab_data ab" "ab_head ?ab' = ab_head ab" "ab_idx ?ab' = c" "seg_wf c ?ab'"
    using ab(2) by (auto simp: seg_wf_def)
  have "buffer_push_strn mmap pg b evid x sz = Inr (off OR push_bit 32 c, set_seg c ?ab' b1)"
    using r(1) ab(1) c f(3) by (simp add: buffer_push_strn_def seg_at_def Let_def)
  moreover have "same_shm b (set_seg c ?ab' b1)" using r(3) by (simp add: same_shm_def)
  moreover have "aux_ok (set_seg c ?ab' b1)"
    using r(2) aux_inv_set_seg [OF _ f(4), of b1] c ab(1) by (auto simp: aux_ok_def)
  ultimately show ?thesis
    using stored_at_set_seg [OF r(4) ab(1) f(1,2,4)]
      keeps_strings_set_seg [OF r(5) ab(1) f(1,2)] by blast
qed

lemma buffer_push_str_ok:
  assumes inv: "aux_ok b" and idx: "unat (bf_aux_buf_idx b) < 4294967295"
    and sys: "aux_sys_ok mmap pg (of_nat (length s) + 1)" and s: "length s < 4294967295"
  shows "\<exists>b' c off. buffer_push_str mmap pg b evid s = Inr (off OR push_bit 32 c, b') \<and> aux_ok b' \<and>
    same_shm b b' \<and> stored_at b' c off (s @ [0]) \<and> keeps_strings b b'"
proof -
  have u: "unat (of_nat (length s) + 1 :: size_t) = length s + 1"
    using s by (simp add: unat_add_64 unat_of_nat_64)
  obtain b' c off where r: "buffer_push_strn mmap pg b evid (s @ [0]) (of_nat (length s) + 1) = Inr (off OR push_bit 32 c, b')"
    "aux_ok b'" "same_shm b b'" "stored_at b' c off (s @ [0])" "keeps_strings b b'"
    using buffer_push_strn_ok [OF inv idx sys, of "s @ [0]" evid] u by auto
  obtain ab where "bf_segs b' c = Some ab" "ab_idx ab = c" "bf_cur_aux b' = Some c"
    using r(4) by (auto simp: stored_at_def seg_wf_def)
  then have "buffer_push_str mmap pg b evid s = Inr ((off OR push_bit 32 c) OR push_bit 32 c, b')"
    using r(1) by (simp add: buffer_push_str_def seg_at_def)
  then show ?thesis using r(2-5) by (auto simp: or.assoc)
qed

lemma buffer_get_str_seg:
  assumes ab: "bf_segs r c = Some ab" "seg_wf c ab" "take (Suc (length s)) (drop (unat off) (ab_data ab)) = s @ [0]"
    and b: "unat off < 4294967296" "unat c < 4294967296" and "0 \<notin> set s"
  shows "\<exists>r'. buffer_get_str True True r (off OR push_bit 32 c) = Inr ((c, off), r') \<and> str_at r' (c, off) = s"
proof -
  have "drop (unat off) (ab_data ab) = (s @ [0]) @ drop (Suc (length s)) (drop (unat off) (ab_data ab))"
    using ab(3) by (metis append_take_drop_id)
  moreover have "takeWhile (\<lambda>x. x \<noteq> 0) ((s @ [0]) @ t) = s" for t
    using assms(6) by (simp add: takeWhile_append)
  ultimately have t: "takeWhile (\<lambda>x. x \<noteq> 0) (drop (unat off) (ab_data ab)) = s" by metis
  have "\<exists>r'. reader_get_aux_buffer True True r c = Inr (Some c, r') \<and> bf_segs r' = bf_segs r"
    using ab(1,2) by (auto simp: reader_get_aux_buffer_def seg_wf_def)
  then show ?thesis
    using ref_idx [OF b] ref_off [OF b(1)] ab(1) t by (auto simp: buffer_get_str_def str_at_def)
qed

lemma buffer_get_str_ok:
  assumes "stored_at w c off (s @ [0])" and "0 \<notin> set s" and "bf_segs r = bf_segs w"
  shows "\<exists>r'. buffer_get_str True True r (off OR push_bit 32 c) = Inr ((c, off), r') \<and> str_at r' (c, off) = s"
  using assms buffer_get_str_seg [of r c] by (auto simp: stored_at_def)

section \<open>Properties\<close>

text \<open>
  C38: a string stored by the monitored program is what the monitor reads through the reference in
  the event: \<open>buffer_push_str\<close> followed by \<open>buffer_get_str\<close> in a process that shares the
  segments gives the string back, whether it went into the current segment, a reused one or a
  new one.
\<close>

theorem shared_string_roundtrip:
  assumes "aux_ok b" and "unat (bf_aux_buf_idx b) < 4294967295"
    and "aux_sys_ok mmap pg (of_nat (length s) + 1)" and "length s < 4294967295" and "0 \<notin> set s"
  shows "\<exists>elem w. buffer_push_str mmap pg b evid s = Inr (elem, w) \<and> aux_ok w \<and>
    (\<forall>r. bf_segs r = bf_segs w \<longrightarrow>
       (\<exists>p r'. buffer_get_str True True r elem = Inr (p, r') \<and> str_at r' p = s))"
proof -
  obtain w c off where w: "buffer_push_str mmap pg b evid s = Inr (off OR push_bit 32 c, w)" "aux_ok w"
    "stored_at w c off (s @ [0])"
    using buffer_push_str_ok [OF assms(1-4)] by blast
  then show ?thesis using buffer_get_str_ok [OF w(3) assms(5)] by blast
qed

theorem shared_string_roundtrip_witness:
  "\<exists>elem w p r'. buffer_push_str zero_malloc 4096 bf_example 9 [104, 105] = Inr (elem, w) \<and>
    buffer_get_str True True (bf_example\<lparr>bf_segs := bf_segs w\<rparr>) elem = Inr (p, r') \<and> str_at r' p = [104, 105]"
proof -
  have "aux_ok bf_example" "unat (bf_aux_buf_idx bf_example) < 4294967295"
    by (simp_all add: aux_ok_def aux_inv_def bf_example_def)
  moreover have "aux_sys_ok zero_malloc 4096 (of_nat (length [104, 105 :: byte]) + 1)"
    using zero_malloc_ok by (simp add: aux_sys_ok_def) (simp add: zero_malloc_def)
  ultimately obtain elem w where e: "buffer_push_str zero_malloc 4096 bf_example 9 [104, 105] = Inr (elem, w)"
    and r: "\<forall>r. bf_segs r = bf_segs w \<longrightarrow>
       (\<exists>p r'. buffer_get_str True True r elem = Inr (p, r') \<and> str_at r' p = [104, 105])"
    using shared_string_roundtrip [of bf_example zero_malloc 4096 "[104, 105]" 9] by auto
  have "bf_segs (bf_example\<lparr>bf_segs := bf_segs w\<rparr>) = bf_segs w" by simp
  then show ?thesis using e r by blast
qed


definition ab_example :: aux_buffer where
  "ab_example = \<lparr>ab_size = 4, ab_head = 3, ab_idx = 0, ab_first_event_id = 8, ab_last_event_id = 8,
     ab_reusable = False, ab_data = [104, 105, 0, 0]\<rparr>"

definition bf_strings :: buffer where
  "bf_strings = bf_example\<lparr>bf_segs := [0 \<mapsto> ab_example], bf_cur_aux := Some 0, bf_aux_buffers := [0],
     bf_aux_buf_idx := 1, bf_aux_age := [0]\<rparr>"


end
