(* ===== verification/Shm_Stream.thy ===== *)
theory Shm_Stream
  imports Shm_Aux
begin

text \<open>
  Streams: \<open>core/stream.c\<close>. A stream wraps a shared-memory buffer with the callbacks of its
  kind and the handling of holes (events that stand for dropped events). Events and hole
  events are byte lists. The callback \<open>is_ready\<close> is a function of the incoming buffer, as all
  shared-memory streams of the repository define it; \<open>filter\<close> and \<open>alter\<close> are functions of
  the event. Statistics (\<open>DUMP_STATS\<close>) are off, the checks of event ids are on.
\<close>

section \<open>Holes\<close>

record hole_handling =
  hh_size :: size_t
  hh_init :: "byte list \<Rightarrow> byte list"
  hh_update :: "byte list \<Rightarrow> byte list \<Rightarrow> byte list"

definition hole_n :: "byte list \<Rightarrow> uint64_t" where
  "hole_n hole = of_le (take 8 (drop 16 hole))"

definition default_hole_init :: "byte list \<Rightarrow> byte list" where
  "default_hole_init ev = mem_upd (mem_upd ev 0 (le64 hole_kind)) 16 (le64 0)"

definition default_hole_update :: "byte list \<Rightarrow> byte list \<Rightarrow> byte list" where
  "default_hole_update hole ev = mem_upd hole 16 (le64 (hole_n hole + 1))"

definition default_hole_handling :: hole_handling where
  "default_hole_handling =
     \<lparr>hh_size = of_nat SIZEOF_DEFAULT_HOLE, hh_init = default_hole_init, hh_update = default_hole_update\<rparr>"

section \<open>State\<close>

record shm_stream =
  st_id :: uint64_t
  st_name :: string
  st_type :: string
  st_event_size :: size_t
  st_buffer :: buffer
  st_substreams_no :: size_t
  st_events_cache :: "event_record list option"
  st_is_ready :: "buffer \<Rightarrow> bool res"
  st_filter :: "(byte list \<Rightarrow> bool) option"
  st_alter :: "(size_t \<Rightarrow> byte list \<Rightarrow> byte list \<Rightarrow> byte list) option"
  st_hole_handling :: hole_handling
  st_has_parent :: bool
  st_last_event_id :: size_t

text \<open>\<open>last_stream_id\<close> is the counter of the module, passed and returned.\<close>

definition shm_stream_init ::
    "uint64_t \<Rightarrow> buffer \<Rightarrow> size_t \<Rightarrow> (buffer \<Rightarrow> bool res) \<Rightarrow> (byte list \<Rightarrow> bool) option \<Rightarrow>
      (size_t \<Rightarrow> byte list \<Rightarrow> byte list \<Rightarrow> byte list) option \<Rightarrow> hole_handling option \<Rightarrow> string \<Rightarrow> string \<Rightarrow>
      (uint64_t \<times> shm_stream) res" where
  "shm_stream_init last_stream_id incoming event_size is_ready filt alter hole_handling ty name =
     (let hh = (case hole_handling of None \<Rightarrow> default_hole_handling | Some h \<Rightarrow> h) in
      assertE (hh_size hh > 0) ''hole_handling->hole_event_size > 0''
      (Inr (last_stream_id + 1,
        \<lparr>st_id = last_stream_id + 1, st_name = name, st_type = ty, st_event_size = event_size,
         st_buffer = incoming, st_substreams_no = 0, st_events_cache = None, st_is_ready = is_ready,
         st_filter = filt, st_alter = alter, st_hole_handling = hh, st_has_parent = False,
         st_last_event_id = 0\<rparr>)))"

section \<open>Queries\<close>

definition shm_stream_id :: "shm_stream \<Rightarrow> size_t" where
  "shm_stream_id s = st_id s"

definition shm_stream_get_name :: "shm_stream \<Rightarrow> string" where
  "shm_stream_get_name s = st_name s"

definition shm_stream_get_type :: "shm_stream \<Rightarrow> string" where
  "shm_stream_get_type s = st_type s"

definition shm_stream_event_size :: "shm_stream \<Rightarrow> size_t" where
  "shm_stream_event_size s = st_event_size s"

definition shm_stream_has_new_substreams :: "shm_stream \<Rightarrow> bool" where
  "shm_stream_has_new_substreams s = (buffer_get_sub_buffers_no (st_buffer s) > st_substreams_no s)"

definition shm_stream_is_substream :: "shm_stream \<Rightarrow> bool" where
  "shm_stream_is_substream s = st_has_parent s"

definition shm_stream_get_avail_events :: "shm_stream \<Rightarrow> size_t \<times> event_record list" where
  "shm_stream_get_avail_events s = buffer_get_avail_events (st_buffer s)"

definition shm_stream_buffer_size :: "shm_stream \<Rightarrow> size_t res" where
  "shm_stream_buffer_size s = buffer_size (st_buffer s)"

definition shm_stream_buffer_capacity :: "shm_stream \<Rightarrow> size_t" where
  "shm_stream_buffer_capacity s = buffer_capacity (st_buffer s)"

definition shm_stream_is_ready :: "shm_stream \<Rightarrow> bool res" where
  "shm_stream_is_ready s = st_is_ready s (st_buffer s)"

definition shm_stream_is_finished :: "shm_stream \<Rightarrow> bool res" where
  "shm_stream_is_finished s =
     bindE (shm_stream_buffer_size s) (\<lambda>n.
     if n = 0 then bindE (shm_stream_is_ready s) (\<lambda>r. Inr (\<not> r)) else Inr False)"

section \<open>The records of events\<close>

definition MAX_EVENTS_CACHE_SIZE :: size_t where
  "MAX_EVENTS_CACHE_SIZE = 128"

primrec max_kind_loop :: "event_record list \<Rightarrow> nat list \<Rightarrow> shm_kind \<Rightarrow> shm_kind res" where
  "max_kind_loop recs [] ret = Inr ret"
| "max_kind_loop recs (i # is) ret =
     bindE (rec_at recs i) (\<lambda>r. max_kind_loop recs is (if er_kind r > ret then er_kind r else ret))"

definition get_max_kind :: "event_record list \<Rightarrow> size_t \<Rightarrow> shm_kind res" where
  "get_max_kind recs sz = max_kind_loop recs [0..<unat sz] 0"

primrec find_kind_loop :: "event_record list \<Rightarrow> shm_kind \<Rightarrow> nat list \<Rightarrow> event_record option res" where
  "find_kind_loop recs kind [] = Inr None"
| "find_kind_loop recs kind (i # is) =
     bindE (rec_at recs i) (\<lambda>r. if er_kind r = kind then Inr (Some r) else find_kind_loop recs kind is)"

definition shm_stream_get_event_record_no_cache :: "shm_stream \<Rightarrow> shm_kind \<Rightarrow> event_record option res" where
  "shm_stream_get_event_record_no_cache s kind =
     (let (sz, recs) = buffer_get_avail_events (st_buffer s) in find_kind_loop recs kind [0..<unat sz])"

text \<open>The loop that fills the cache; \<open>rec\<close> is the record found for the kind asked for.\<close>

primrec fill_cache ::
    "event_record list \<Rightarrow> size_t \<Rightarrow> shm_kind \<Rightarrow> nat list \<Rightarrow> event_record option \<Rightarrow> event_record list \<Rightarrow>
      (event_record option \<times> event_record list) res" where
  "fill_cache recs cache_sz kind [] rec cache = Inr (rec, cache)"
| "fill_cache recs cache_sz kind (i # is) rec cache =
     bindE (rec_at recs i) (\<lambda>r.
     fill_cache recs cache_sz kind is (if er_kind r = kind then Some r else rec)
       (if er_kind r < cache_sz then cache[unat (er_kind r) := r] else cache))"

text \<open>The memory of the cache is indeterminate before it is filled: an argument gives its contents.\<close>

definition shm_stream_get_event_record ::
    "(size_t \<Rightarrow> event_record list) \<Rightarrow> shm_stream \<Rightarrow> shm_kind \<Rightarrow> (event_record option \<times> shm_stream) res" where
  "shm_stream_get_event_record malloc s kind =
     assertE (kind > 0) ''Got invalid kind''
     (case st_events_cache s of
        Some cache \<Rightarrow>
          if kind < MAX_EVENTS_CACHE_SIZE then
            bindE (rec_at cache (unat kind)) (\<lambda>r.
            assertE (er_kind r = kind) ''rec->kind == kind'' (Inr (Some r, s)))
          else bindE (shm_stream_get_event_record_no_cache s kind) (\<lambda>r. Inr (r, s))
      | None \<Rightarrow>
          (let (sz, recs) = buffer_get_avail_events (st_buffer s) in
           bindE (get_max_kind recs sz) (\<lambda>max_kind.
           let cache_sz = (if max_kind > MAX_EVENTS_CACHE_SIZE then MAX_EVENTS_CACHE_SIZE else max_kind) + 1 in
           assertE (cache_sz > 0) ''Invalid cache size''
           (bindE (fill_cache recs cache_sz kind [0..<unat sz] None (malloc cache_sz)) (\<lambda>(rec, cache).
            Inr (rec, s\<lparr>st_events_cache := Some cache\<rparr>))))))"

section \<open>Operations on the incoming buffer\<close>

text \<open>The id of a hole event is set in place; its kind was set by the callback \<open>init\<close>.\<close>

definition shm_stream_prepare_hole_event :: "byte list \<Rightarrow> size_t \<Rightarrow> byte list res" where
  "shm_stream_prepare_hole_event hole i =
     bindE (shm_event_kind hole 0) (\<lambda>k.
     assertE (k > 0) ''init fun set wrong kind'' (mem_write hole 8 (le64 i)))"

definition shm_stream_read_events :: "shm_stream \<Rightarrow> (size_t option \<times> size_t \<times> shm_stream) res" where
  "shm_stream_read_events s =
     bindE (buffer_read_pointer (st_buffer s)) (\<lambda>(p, n, b). Inr (p, n, s\<lparr>st_buffer := b\<rparr>))"

definition shm_stream_consume :: "shm_stream \<Rightarrow> size_t \<Rightarrow> (bool \<times> shm_stream) res" where
  "shm_stream_consume s num =
     bindE (buffer_drop_k (st_buffer s) num) (\<lambda>(r, b). Inr (r, s\<lparr>st_buffer := b\<rparr>))"

definition shm_stream_get_str ::
    "bool \<Rightarrow> bool \<Rightarrow> shm_stream \<Rightarrow> uint64_t \<Rightarrow> ((size_t \<times> size_t) \<times> shm_stream) res" where
  "shm_stream_get_str read_ok mmap_ok s elem =
     bindE (buffer_get_str read_ok mmap_ok (st_buffer s) elem) (\<lambda>(p, b). Inr (p, s\<lparr>st_buffer := b\<rparr>))"

definition shm_stream_register_event :: "shm_stream \<Rightarrow> string \<Rightarrow> size_t \<Rightarrow> (int \<times> shm_stream) res" where
  "shm_stream_register_event s name kind =
     bindE (buffer_register_event (st_buffer s) name kind) (\<lambda>(r, b). Inr (r, s\<lparr>st_buffer := b\<rparr>))"

definition shm_stream_register_all_events :: "shm_stream \<Rightarrow> (int \<times> shm_stream) res" where
  "shm_stream_register_all_events s =
     bindE (buffer_register_all_events (st_buffer s)) (\<lambda>(r, b). Inr (r, s\<lparr>st_buffer := b\<rparr>))"

definition shm_stream_notify_last_processed_id :: "shm_stream \<Rightarrow> shm_eventid \<Rightarrow> shm_stream res" where
  "shm_stream_notify_last_processed_id s i =
     bindE (buffer_set_last_processed_id (st_buffer s) i) (\<lambda>b. Inr (s\<lparr>st_buffer := b\<rparr>))"

definition shm_stream_notify_dropped :: "shm_stream \<Rightarrow> uint64_t \<Rightarrow> uint64_t \<Rightarrow> shm_stream res" where
  "shm_stream_notify_dropped s begin_id end_id =
     bindE (buffer_notify_dropped (st_buffer s) begin_id end_id) (\<lambda>b. Inr (s\<lparr>st_buffer := b\<rparr>))"

definition shm_stream_attach :: "shm_stream \<Rightarrow> shm_stream" where
  "shm_stream_attach s = s\<lparr>st_buffer := buffer_set_attached (st_buffer s) True\<rparr>"

definition shm_stream_detach :: "shm_stream \<Rightarrow> shm_stream" where
  "shm_stream_detach s = s\<lparr>st_buffer := buffer_set_attached (st_buffer s) False\<rparr>"

section \<open>The cache of event records\<close>

lemma max_kind_loop_ok:
  "\<forall>i \<in> set is. i < length recs \<Longrightarrow>
    \<exists>m. max_kind_loop recs is ret = Inr m \<and> ret \<le> m \<and> (\<forall>i \<in> set is. er_kind (recs ! i) \<le> m)"
proof (induction "is" arbitrary: ret)
  case Nil
  then show ?case by simp
next
  case (Cons i "is")
  let ?r = "if er_kind (recs ! i) > ret then er_kind (recs ! i) else ret"
  have "\<forall>i \<in> set is. i < length recs" using Cons.prems by simp
  from Cons.IH [OF this, of ?r] obtain m where
    m: "max_kind_loop recs is ?r = Inr m" "?r \<le> m" "\<forall>i \<in> set is. er_kind (recs ! i) \<le> m" by blast
  then have "ret \<le> m" "er_kind (recs ! i) \<le> m" by (auto split: if_splits)
  with m Cons.prems show ?case by (auto simp: rec_at_def)
qed

lemma find_kind_loop_ok:
  "\<forall>i \<in> set is. i < length recs \<Longrightarrow> k \<in> set is \<Longrightarrow> er_kind (recs ! k) = kind \<Longrightarrow>
    inj_on (\<lambda>i. er_kind (recs ! i)) (set is) \<Longrightarrow> find_kind_loop recs kind is = Inr (Some (recs ! k))"
proof (induction "is")
  case (Cons i "is")
  show ?case
  proof (cases "er_kind (recs ! i) = kind")
    case True
    then have "er_kind (recs ! i) = er_kind (recs ! k)" using Cons.prems(3) by simp
    then have "i = k" using inj_onD [OF Cons.prems(4), of i k] Cons.prems(2) by simp
    then show ?thesis using True Cons.prems(1) by (simp add: rec_at_def)
  next
    case False
    then have "k \<in> set is" using Cons.prems(2,3) by auto
    then show ?thesis using Cons False by (simp add: rec_at_def inj_on_def)
  qed
qed simp

lemma fill_cache_ok:
  assumes "\<forall>i \<in> set is. i < length recs" and "inj_on (\<lambda>i. er_kind (recs ! i)) (set is)" and "distinct is"
    and "unat csz \<le> length cache"
  shows "\<exists>rec' cache'. fill_cache recs csz kind is rec cache = Inr (rec', cache') \<and> length cache' = length cache \<and>
    (\<forall>i \<in> set is. er_kind (recs ! i) < csz \<longrightarrow> cache' ! unat (er_kind (recs ! i)) = recs ! i) \<and>
    (\<forall>j. (\<forall>i \<in> set is. unat (er_kind (recs ! i)) \<noteq> j) \<longrightarrow> cache' ! j = cache ! j) \<and>
    (\<forall>i \<in> set is. er_kind (recs ! i) = kind \<longrightarrow> rec' = Some (recs ! i)) \<and>
    ((\<forall>i \<in> set is. er_kind (recs ! i) \<noteq> kind) \<longrightarrow> rec' = rec)"
  using assms
proof (induction "is" arbitrary: rec cache)
  case Nil
  then show ?case by simp
next
  case (Cons i "is")
  let ?k = "er_kind (recs ! i)"
  let ?rec = "if ?k = kind then Some (recs ! i) else rec"
  let ?cache = "if ?k < csz then cache[unat ?k := recs ! i] else cache"
  have i: "i < length recs" "i \<notin> set is" using Cons.prems by auto
  have ne: "er_kind (recs ! j) \<noteq> ?k" if "j \<in> set is" for j
    using that i(2) inj_onD [OF Cons.prems(2), of j i] by auto
  have step: "fill_cache recs csz kind (i # is) rec cache = fill_cache recs csz kind is ?rec ?cache"
    using i(1) by (simp add: rec_at_def)
  have pre: "\<forall>i \<in> set is. i < length recs" "inj_on (\<lambda>i. er_kind (recs ! i)) (set is)" "distinct is" "unat csz \<le> length ?cache"
    using Cons.prems by (auto simp: inj_on_def)
  have lc: "length ?cache = length cache" by simp
  obtain rec' cache' where f: "fill_cache recs csz kind is ?rec ?cache = Inr (rec', cache')" "length cache' = length cache"
    and c: "\<forall>i \<in> set is. er_kind (recs ! i) < csz \<longrightarrow> cache' ! unat (er_kind (recs ! i)) = recs ! i"
    and o: "\<forall>j. (\<forall>i \<in> set is. unat (er_kind (recs ! i)) \<noteq> j) \<longrightarrow> cache' ! j = ?cache ! j"
    and r: "\<forall>i \<in> set is. er_kind (recs ! i) = kind \<longrightarrow> rec' = Some (recs ! i)"
      "(\<forall>i \<in> set is. er_kind (recs ! i) \<noteq> kind) \<longrightarrow> rec' = ?rec"
    using Cons.IH [OF pre, of ?rec] unfolding lc by (elim exE conjE) (rule that)
  have ki: "cache' ! unat ?k = recs ! i" if "?k < csz"
  proof -
    have "\<forall>j \<in> set is. unat (er_kind (recs ! j)) \<noteq> unat ?k" using ne by (auto simp: word_unat_eq_iff)
    then have "cache' ! unat ?k = ?cache ! unat ?k" using o by blast
    then show ?thesis using that Cons.prems(4) by (simp add: word_less_nat_alt)
  qed
  have oj: "cache' ! j = cache ! j" if "\<forall>i \<in> set (i # is). unat (er_kind (recs ! i)) \<noteq> j" for j
    using that o by (auto simp: nth_list_update)
  have ri: "rec' = Some (recs ! i)" if "?k = kind" using that r(2) ne by auto
  have rn: "rec' = rec" if "\<forall>i \<in> set (i # is). er_kind (recs ! i) \<noteq> kind" using that r(2) by auto
  show ?case unfolding step
    by (intro exI [of _ rec'] exI [of _ cache']) (use f c ki oj ri rn r(1) in auto)
qed

text \<open>A stream whose description has as many records as it says and different kinds for them.\<close>

definition kinds_ok :: "shm_stream \<Rightarrow> bool" where
  "kinds_ok s \<longleftrightarrow> (let c = bf_control (st_buffer s) in
     unat (source_control_get_records_num c) = length (sc_events c) \<and> distinct (map er_kind (sc_events c)))"

lemma kinds_okD:
  assumes "kinds_ok s"
  shows "buffer_get_avail_events (st_buffer s) =
      (source_control_get_records_num (bf_control (st_buffer s)), sc_events (bf_control (st_buffer s)))"
    "unat (source_control_get_records_num (bf_control (st_buffer s))) = length (sc_events (bf_control (st_buffer s)))"
    "inj_on (\<lambda>i. er_kind (sc_events (bf_control (st_buffer s)) ! i)) (set [0..<length (sc_events (bf_control (st_buffer s)))])"
proof -
  let ?es = "sc_events (bf_control (st_buffer s))"
  have "distinct (map er_kind ?es)" using assms by (simp add: kinds_ok_def Let_def)
  then have "inj_on ((!) (map er_kind ?es)) {..<length (map er_kind ?es)}" by (rule inj_on_nth) simp
  then show "inj_on (\<lambda>i. er_kind (?es ! i)) (set [0..<length ?es])"
    by (auto simp: inj_on_def)
qed (use assms in \<open>simp_all add: kinds_ok_def Let_def buffer_get_avail_events_def\<close>)

lemma stream_no_cache_ok:
  assumes "kinds_ok s" and "r \<in> set (sc_events (bf_control (st_buffer s)))"
  shows "shm_stream_get_event_record_no_cache s (er_kind r) = Inr (Some r)"
proof -
  let ?es = "sc_events (bf_control (st_buffer s))"
  obtain k where k: "k < length ?es" "?es ! k = r" using assms(2) by (auto simp: in_set_conv_nth)
  have "find_kind_loop ?es (er_kind r) [0..<length ?es] = Inr (Some (?es ! k))"
    using kinds_okD(3) [OF assms(1)] k by (intro find_kind_loop_ok) auto
  then show ?thesis using kinds_okD(1,2) [OF assms(1)] k by (simp add: shm_stream_get_event_record_no_cache_def)
qed

lemma stream_fill_cache_ok:
  assumes ok: "kinds_ok s" and none: "st_events_cache s = None" and k0: "0 < kind0"
    and m: "\<And>n. length (malloc n) = unat n"
  shows "\<exists>r0 s'. shm_stream_get_event_record malloc s kind0 = Inr (r0, s') \<and> st_buffer s' = st_buffer s \<and>
    (\<forall>r \<in> set (sc_events (bf_control (st_buffer s))). er_kind r = kind0 \<longrightarrow> r0 = Some r) \<and>
    (\<exists>cache. st_events_cache s' = Some cache \<and>
      (\<forall>r \<in> set (sc_events (bf_control (st_buffer s))). er_kind r < 128 \<longrightarrow>
         unat (er_kind r) < length cache \<and> cache ! unat (er_kind r) = r))"
proof -
  let ?es = "sc_events (bf_control (st_buffer s))"
  note K = kinds_okD [OF ok]
  obtain mk where mk: "get_max_kind ?es (source_control_get_records_num (bf_control (st_buffer s))) = Inr mk"
    "\<forall>i < length ?es. er_kind (?es ! i) \<le> mk"
    using max_kind_loop_ok [of "[0..<length ?es]" ?es 0] K(2) by (auto simp: get_max_kind_def)
  define csz :: size_t where "csz = (if mk > 128 then 128 else mk) + 1"
  have ucsz: "unat csz = min (unat mk) 128 + 1"
    by (auto simp: csz_def unat_add_64 word_less_nat_alt min_def split: if_splits)
  then have pos: "csz > 0" by (simp add: word_less_nat_alt)
  obtain r0 cache where f: "fill_cache ?es csz kind0 [0..<length ?es] None (malloc csz) = Inr (r0, cache)"
    and len: "length cache = unat csz"
    and c: "\<forall>i < length ?es. er_kind (?es ! i) < csz \<longrightarrow> cache ! unat (er_kind (?es ! i)) = ?es ! i"
    and r0: "\<forall>i < length ?es. er_kind (?es ! i) = kind0 \<longrightarrow> r0 = Some (?es ! i)"
    using fill_cache_ok [of "[0..<length ?es]" ?es csz "malloc csz" kind0 None] K(3) m by auto
  have res: "shm_stream_get_event_record malloc s kind0 = Inr (r0, s\<lparr>st_events_cache := Some cache\<rparr>)"
    using none k0 K(1,2) mk(1) f pos
    unfolding shm_stream_get_event_record_def MAX_EVENTS_CACHE_SIZE_def
    by (simp add: csz_def [symmetric] Let_def del: bindE_eq_Inr)
  have "unat (er_kind r) < length cache \<and> cache ! unat (er_kind r) = r"
    if mem: "r \<in> set ?es" and small: "er_kind r < 128" for r
  proof -
    obtain i where i: "i < length ?es" "?es ! i = r" using mem by (auto simp: in_set_conv_nth)
    have "er_kind r \<le> mk" using mk(2) i by auto
    then have "unat (er_kind r) < unat csz" using small ucsz by (simp add: word_le_nat_alt word_less_nat_alt)
    then show ?thesis using c i len by (auto simp: word_less_nat_alt)
  qed
  moreover have "r0 = Some r" if "r \<in> set ?es" "er_kind r = kind0" for r
    using that r0 by (auto simp: in_set_conv_nth)
  ultimately show ?thesis using res by auto
qed

section \<open>Properties\<close>

text \<open>
  C40: with different kinds registered, the cached lookup of an event record agrees with the lookup
  without a cache: whatever kind the first call (which builds the cache) asks for, a later call
  for the kind of any record of the source returns that record, in bounds of the cache.
\<close>

theorem event_record_cache_correct:
  assumes "kinds_ok s" and "st_events_cache s = None" and "0 < kind0" and "\<And>n. length (malloc n) = unat n"
    and "r \<in> set (sc_events (bf_control (st_buffer s)))" and "0 < er_kind r"
  shows "\<exists>r0 s'. shm_stream_get_event_record malloc s kind0 = Inr (r0, s') \<and>
    shm_stream_get_event_record malloc s' (er_kind r) = Inr (Some r, s') \<and>
    shm_stream_get_event_record_no_cache s' (er_kind r) = Inr (Some r)"
proof -
  obtain r0 s' cache where f: "shm_stream_get_event_record malloc s kind0 = Inr (r0, s')"
    and s': "st_buffer s' = st_buffer s" "st_events_cache s' = Some cache"
    and c: "er_kind r < 128 \<longrightarrow> unat (er_kind r) < length cache \<and> cache ! unat (er_kind r) = r"
    using stream_fill_cache_ok [OF assms(1-4)] assms(5) by blast
  have "kinds_ok s'" using assms(1) s'(1) by (simp add: kinds_ok_def)
  then have nc: "shm_stream_get_event_record_no_cache s' (er_kind r) = Inr (Some r)"
    using stream_no_cache_ok s'(1) assms(5) by simp
  have "shm_stream_get_event_record malloc s' (er_kind r) = Inr (Some r, s')"
    using s'(2) c nc assms(6)
    by (cases "er_kind r < 128") (simp_all add: shm_stream_get_event_record_def MAX_EVENTS_CACHE_SIZE_def rec_at_def)
  with f nc show ?thesis by blast
qed

definition st_example :: shm_stream where
  "st_example = \<lparr>st_id = 1, st_name = ''s'', st_type = ''t'', st_event_size = 24,
     st_buffer = bf_example\<lparr>bf_control := \<lparr>sc_size = control_bytes 2,
        sc_events = [blank_record\<lparr>er_kind := 2\<rparr>, blank_record\<lparr>er_kind := 3\<rparr>]\<rparr>\<rparr>,
     st_substreams_no = 0, st_events_cache = None,
     st_is_ready = (\<lambda>b. Inr (buffer_is_ready b)), st_filter = None, st_alter = None,
     st_hole_handling = default_hole_handling, st_has_parent = False, st_last_event_id = 0\<rparr>"

theorem event_record_cache_correct_witness:
  "\<exists>r0 s'. shm_stream_get_event_record (\<lambda>n. replicate (unat n) blank_record) st_example 2 = Inr (r0, s') \<and>
    shm_stream_get_event_record (\<lambda>n. replicate (unat n) blank_record) s' 3 = Inr (Some (blank_record\<lparr>er_kind := 3\<rparr>), s')"
proof -
  have "kinds_ok st_example" by code_simp
  moreover have "st_events_cache st_example = None" by (simp add: st_example_def)
  moreover have "blank_record\<lparr>er_kind := 3\<rparr> \<in> set (sc_events (bf_control (st_buffer st_example)))"
    by (simp add: st_example_def)
  ultimately show ?thesis
    using event_record_cache_correct [of st_example 2 "\<lambda>n. replicate (unat n) blank_record" "blank_record\<lparr>er_kind := 3\<rparr>"]
    by auto
qed

text \<open>
  A kind below the size limit of the cache that no event has is read behind the cache: the
  cache ends with the largest registered kind.
\<close>

lemma event_record_cache_out_of_bounds:
  "\<exists>s'. shm_stream_get_event_record (\<lambda>n. replicate (unat n) blank_record) st_example 2 =
      Inr (Some (blank_record\<lparr>er_kind := 2\<rparr>), s') \<and>
    shm_stream_get_event_record (\<lambda>n. replicate (unat n) blank_record) s' 4 = Inl (UB ''events[i] out of bounds'')"
proof -
  let ?s = "st_example\<lparr>st_events_cache := Some [blank_record, blank_record, blank_record\<lparr>er_kind := 2\<rparr>, blank_record\<lparr>er_kind := 3\<rparr>]\<rparr>"
  have "buffer_get_avail_events (st_buffer st_example) =
      (2, [blank_record\<lparr>er_kind := 2\<rparr>, blank_record\<lparr>er_kind := 3\<rparr>])"
    by (simp add: buffer_get_avail_events_def st_example_def source_control_get_records_num_def control_bytes_def
        word_64_eq_iff unat_div)
  moreover have "get_max_kind [blank_record\<lparr>er_kind := 2\<rparr>, blank_record\<lparr>er_kind := 3\<rparr>] 2 = Inr 3" by code_simp
  moreover have "fill_cache [blank_record\<lparr>er_kind := 2\<rparr>, blank_record\<lparr>er_kind := 3\<rparr>] 4 2 [0..<2] None
      (replicate 4 blank_record) = Inr (Some (blank_record\<lparr>er_kind := 2\<rparr>),
      [blank_record, blank_record, blank_record\<lparr>er_kind := 2\<rparr>, blank_record\<lparr>er_kind := 3\<rparr>])" by code_simp
  ultimately have "shm_stream_get_event_record (\<lambda>n. replicate (unat n) blank_record) st_example 2 =
      Inr (Some (blank_record\<lparr>er_kind := 2\<rparr>), ?s)"
    by (simp add: shm_stream_get_event_record_def MAX_EVENTS_CACHE_SIZE_def word_less_nat_alt)
      (simp add: st_example_def MAX_EVENTS_CACHE_SIZE_def word_less_nat_alt)
  then show ?thesis
    by (auto simp: shm_stream_get_event_record_def MAX_EVENTS_CACHE_SIZE_def rec_at_def word_less_nat_alt)
qed

end
