(* ===== verification/Arbiter.thy ===== *)
theory Arbiter
  imports Shm_Stream
begin

text \<open>
  The arbiter buffer: \<open>core/arbiter.c\<close>. A thread per stream fetches events from the shared
  memory and writes them to a parallel queue from which the monitor reads; when the queue is
  full it drops events and later writes a hole event that stands for them. The buffer holds
  its stream (the source passes it also as an argument, always the buffer's own). The waiting
  loops take a list of the actions other threads perform between two of their iterations; a
  list that ends before the loop does is the result \<open>Waiting\<close>. \<open>DUMP_STATS\<close> is off. In
  \<open>drop_older_than\<close>, some of whose assertions are too strong, a flag says whether \<open>NDEBUG\<close>
  is defined; everywhere else assertions are on.
\<close>

section \<open>State\<close>

record shm_arbiter_buffer =
  ar_buffer :: shm_par_queue
  ar_drop_space_threshold :: size_t
  ar_dropped_num :: size_t
  ar_total_dropped_times :: size_t
  ar_total_dropped_num :: size_t
  ar_drop_begin_id :: shm_eventid
  ar_stream :: shm_stream
  ar_hole_event :: "byte list"
  ar_active :: bool

definition DROP_SPACE_DEFAULT_THRESHOLD :: size_t where
  "DROP_SPACE_DEFAULT_THRESHOLD = 1"

abbreviation set_queue :: "shm_arbiter_buffer \<Rightarrow> shm_par_queue \<Rightarrow> shm_arbiter_buffer" where
  "set_queue ar q \<equiv> ar\<lparr>ar_buffer := q\<rparr>"

definition shm_arbiter_buffer_write_ptr :: "shm_arbiter_buffer \<Rightarrow> size_t option \<times> shm_arbiter_buffer" where
  "shm_arbiter_buffer_write_ptr ar =
     (let (p, q) = shm_par_queue_write_ptr (ar_buffer ar) in (p, set_queue ar q))"

definition shm_arbiter_buffer_write_finish :: "shm_arbiter_buffer \<Rightarrow> shm_arbiter_buffer res" where
  "shm_arbiter_buffer_write_finish ar =
     bindE (shm_par_queue_write_finish (ar_buffer ar)) (\<lambda>q. Inr (set_queue ar q))"

definition shm_arbiter_buffer_size :: "shm_arbiter_buffer \<Rightarrow> size_t res" where
  "shm_arbiter_buffer_size ar = shm_par_queue_size (ar_buffer ar)"

definition shm_arbiter_buffer_free_space :: "shm_arbiter_buffer \<Rightarrow> size_t res" where
  "shm_arbiter_buffer_free_space ar = shm_par_queue_free_num (ar_buffer ar)"

definition shm_arbiter_buffer_capacity :: "shm_arbiter_buffer \<Rightarrow> size_t" where
  "shm_arbiter_buffer_capacity ar = shm_par_queue_capacity (ar_buffer ar)"

definition shm_arbiter_buffer_elem_size :: "shm_arbiter_buffer \<Rightarrow> size_t" where
  "shm_arbiter_buffer_elem_size ar = shm_par_queue_elem_size (ar_buffer ar)"

definition shm_arbiter_buffer_set_drop_space_threshold ::
    "shm_arbiter_buffer \<Rightarrow> size_t \<Rightarrow> (size_t \<times> shm_arbiter_buffer) res" where
  "shm_arbiter_buffer_set_drop_space_threshold ar thr =
     assertE (thr \<ge> 1) ''thr >= 1''
     (assertE (thr < shm_arbiter_buffer_capacity ar) ''thr < capacity''
     (Inr (ar_drop_space_threshold ar, ar\<lparr>ar_drop_space_threshold := thr\<rparr>)))"

definition shm_arbiter_buffer_active :: "shm_arbiter_buffer \<Rightarrow> bool" where
  "shm_arbiter_buffer_active ar = ar_active ar"

text \<open>Both branches of \<open>set_active\<close> attach the stream.\<close>

definition shm_arbiter_buffer_set_active :: "shm_arbiter_buffer \<Rightarrow> bool \<Rightarrow> shm_arbiter_buffer" where
  "shm_arbiter_buffer_set_active ar val =
     (let ar = ar\<lparr>ar_active := val\<rparr> in
      if val then ar\<lparr>ar_stream := shm_stream_attach (ar_stream ar)\<rparr>
      else ar\<lparr>ar_stream := shm_stream_attach (ar_stream ar)\<rparr>)"

definition shm_arbiter_buffer_stream :: "shm_arbiter_buffer \<Rightarrow> shm_stream" where
  "shm_arbiter_buffer_stream ar = ar_stream ar"

definition shm_arbiter_buffer_dropped_num :: "shm_arbiter_buffer \<Rightarrow> size_t" where
  "shm_arbiter_buffer_dropped_num ar = ar_total_dropped_num ar"

definition shm_arbiter_buffer_dropped_times :: "shm_arbiter_buffer \<Rightarrow> size_t" where
  "shm_arbiter_buffer_dropped_times ar = ar_total_dropped_times ar"

definition shm_arbiter_buffer_init ::
    "(size_t \<Rightarrow> byte list option) \<Rightarrow> shm_arbiter_buffer \<Rightarrow> shm_stream \<Rightarrow> size_t \<Rightarrow> size_t \<Rightarrow> shm_arbiter_buffer res" where
  "shm_arbiter_buffer_init malloc ar stream out_event_size capacity =
     assertE (capacity \<ge> 3) ''We need at least 3 elements in the buffer''
     (let event_size = (if out_event_size > st_event_size stream then out_event_size else st_event_size stream);
          hole_size = hh_size (st_hole_handling stream);
          event_size = (if hole_size > event_size then hole_size else event_size);
          event_size = (if hole_size > 0 \<and> event_size < hole_size then hole_size else event_size)
      in bindE (shm_par_queue_init malloc (ar_buffer ar) capacity event_size) (\<lambda>q.
         assertE (hole_size > 0) ''size > 0''
         (case malloc hole_size of
            None \<Rightarrow> Inl (Abort ''Allocation failed'')
          | Some hole \<Rightarrow>
              Inr (ar\<lparr>ar_buffer := q, ar_drop_space_threshold := DROP_SPACE_DEFAULT_THRESHOLD,
                      ar_hole_event := hole, ar_stream := stream, ar_active := False, ar_dropped_num := 0,
                      ar_total_dropped_times := 0, ar_total_dropped_num := 0\<rparr>))))"

definition shm_arbiter_buffer_destroy :: "shm_arbiter_buffer \<Rightarrow> shm_arbiter_buffer" where
  "shm_arbiter_buffer_destroy ar =
     ar\<lparr>ar_buffer := shm_par_queue_destroy (ar_buffer ar), ar_hole_event := []\<rparr>"

section \<open>The monitor's side\<close>

definition shm_arbiter_buffer_pop :: "shm_arbiter_buffer \<Rightarrow> (byte list option \<times> shm_arbiter_buffer) res" where
  "shm_arbiter_buffer_pop ar = bindE (shm_par_queue_pop (ar_buffer ar)) (\<lambda>(r, q). Inr (r, set_queue ar q))"

definition shm_arbiter_buffer_top :: "shm_arbiter_buffer \<Rightarrow> (size_t option \<times> shm_arbiter_buffer) res" where
  "shm_arbiter_buffer_top ar = bindE (shm_par_queue_top (ar_buffer ar)) (\<lambda>(r, q). Inr (r, set_queue ar q))"

definition shm_arbiter_buffer_peek ::
    "shm_arbiter_buffer \<Rightarrow> size_t \<Rightarrow>
      (size_t \<times> (size_t \<times> size_t \<times> size_t option \<times> size_t) option \<times> shm_arbiter_buffer) res" where
  "shm_arbiter_buffer_peek ar n =
     bindE (shm_par_queue_peek (ar_buffer ar) n) (\<lambda>(num, view, q). Inr (num, view, set_queue ar q))"

definition shm_arbiter_buffer_peek1 ::
    "shm_arbiter_buffer \<Rightarrow> (size_t \<times> size_t option \<times> shm_arbiter_buffer) res" where
  "shm_arbiter_buffer_peek1 ar =
     bindE (shm_par_queue_peek1 (ar_buffer ar)) (\<lambda>(num, p, q). Inr (num, p, set_queue ar q))"

text \<open>Dropping: the stream is told the id of the last dropped event.\<close>

definition notify_processed :: "shm_arbiter_buffer \<Rightarrow> shm_eventid \<Rightarrow> shm_arbiter_buffer res" where
  "notify_processed ar i =
     bindE (shm_stream_notify_last_processed_id (ar_stream ar) i) (\<lambda>s. Inr (ar\<lparr>ar_stream := s\<rparr>))"

definition shm_arbiter_buffer_drop :: "shm_arbiter_buffer \<Rightarrow> size_t \<Rightarrow> (size_t \<times> shm_arbiter_buffer) res" where
  "shm_arbiter_buffer_drop ar k =
     bindE (shm_par_queue_peek_atmost_at (ar_buffer ar) (k - 1)) (\<lambda>(ev, k, q).
     let ar = set_queue ar q in
     case ev of
       None \<Rightarrow> Inr (0, ar)
     | Some ev \<Rightarrow>
         bindE (shm_event_id (pq_data q) (unat ev)) (\<lambda>last_id.
         let k = k + 1 in
         bindE (shm_par_queue_drop q k) (\<lambda>q.
         bindE (notify_processed (set_queue ar q) last_id) (\<lambda>ar. Inr (k, ar)))))"

text \<open>
  The binary search of \<open>drop_older_than\<close> over the part of the queue that starts at byte
  \<open>events\<close>: \<open>fuel\<close> is \<open>n - steps\<close>, and \<open>base\<close> is the number of events in front of the part
  (0 for \<open>ptr1\<close>, \<open>len1\<close> for \<open>ptr2\<close>). It returns the number of events to drop.
\<close>

definition dbg_assert :: "bool \<Rightarrow> bool \<Rightarrow> string \<Rightarrow> 'a res \<Rightarrow> 'a res" where
  "dbg_assert ndebug c msg k = assertE (ndebug \<or> c) msg k"

definition event_id_at :: "shm_par_queue \<Rightarrow> size_t \<Rightarrow> size_t \<Rightarrow> shm_eventid res" where
  "event_id_at q events i = shm_event_id (pq_data q) (unat (events + i * pq_elem_size q))"

primrec drop_search ::
    "bool \<Rightarrow> (size_t \<Rightarrow> shm_eventid res) \<Rightarrow> shm_eventid \<Rightarrow> size_t \<Rightarrow> nat \<Rightarrow> size_t \<Rightarrow> size_t \<Rightarrow> size_t \<Rightarrow> size_t res" where
  "drop_search ndebug id_at i base 0 bt tp pivot = Inl (Assertion ''BUG in binary search'')"
| "drop_search ndebug id_at i base (Suc fuel) bt tp pivot =
     dbg_assert ndebug (bt \<le> tp) ''bot <= top''
     (bindE (id_at pivot) (\<lambda>e.
      bindE (if i < e then
               (if pivot = 0 then
                  dbg_assert ndebug (bt = 0) ''bot == 0''
                  (dbg_assert ndebug (tp = 1) ''top == 1'' (Inr (bt, 0)))
                else Inr (bt, pivot - 1))
             else if bt = pivot then
               dbg_assert ndebug (tp = bt + 1) ''top == bot + 1''
               (if e = i then Inr (bt, bt) else Inr (tp, tp))
             else Inr (pivot, tp)) (\<lambda>(bt, tp).
      dbg_assert ndebug (bt \<le> tp) ''bot <= top''
      (if tp = bt then
         bindE (id_at tp) (\<lambda>e.
         Inr (if i < e then (if bt = 0 then base else base + tp) else base + tp + 1))
       else drop_search ndebug id_at i base fuel bt tp ((bt + tp) div 2)))))"

definition drop_first :: "shm_arbiter_buffer \<Rightarrow> size_t \<Rightarrow> shm_eventid \<Rightarrow> (size_t \<times> shm_arbiter_buffer) res" where
  "drop_first ar k i =
     (if k > 0 then
        bindE (shm_par_queue_drop (ar_buffer ar) k) (\<lambda>q.
        bindE (notify_processed (set_queue ar q) i) (\<lambda>ar. Inr (k, ar)))
      else Inr (k, ar))"

definition shm_arbiter_buffer_drop_older_than ::
    "bool \<Rightarrow> shm_arbiter_buffer \<Rightarrow> shm_eventid \<Rightarrow> (size_t \<times> shm_arbiter_buffer) res" where
  "shm_arbiter_buffer_drop_older_than ndebug ar i =
     bindE (shm_par_queue_peek (ar_buffer ar) 0) (\<lambda>(n, view, q).
     let ar = set_queue ar q in
     if n = 0 then Inr (0, ar)
     else (case view of
         None \<Rightarrow> Inl (UB ''len1 not set'')
       | Some (ptr1, len1, ptr2, len2) \<Rightarrow>
           assertE (len1 > 0) ''Underflow''
           (bindE (event_id_at q ptr1 (len1 - 1)) (\<lambda>last1.
            if i \<le> last1 then
              bindE (drop_search ndebug (event_id_at q ptr1) i 0 (unat n) 0 (len1 - 1) ((0 + (len1 - 1)) div 2)) (\<lambda>k.
              assertE (k \<le> n) ''k <= n'' (drop_first ar k i))
            else if len2 > 0 then
              (case ptr2 of
                 None \<Rightarrow> Inl (UB ''ptr2 not set'')
               | Some ptr2 \<Rightarrow>
                   bindE (drop_search ndebug (event_id_at q ptr2) i len1 (unat n) 0 (len2 - 1) ((0 + (len2 - 1)) div 2)) (\<lambda>k.
                   assertE (k \<le> n) ''k <= n'' (drop_first ar k i)))
            else drop_first ar len1 i))))"

section \<open>Fetching events\<close>

abbreviation "BUSY_WAIT_FOR_EVENTS \<equiv> (1000 :: size_t)"
abbreviation "SLEEP_TIME_INIT_NS \<equiv> (10 :: size_t)"
abbreviation "SLEEP_TIME_THRES_NS \<equiv> (30000 :: size_t)"

text \<open>
  \<open>get_event\<close> waits for an event of the stream. The result is the pointer to the event
  (\<open>None\<close> when the stream has ended) and the actions that have not happened yet.
\<close>

type_synonym env = "(shm_arbiter_buffer \<Rightarrow> shm_arbiter_buffer) list"

fun wait_event_loop ::
    "env \<Rightarrow> size_t \<Rightarrow> size_t \<Rightarrow> shm_arbiter_buffer \<Rightarrow> ((size_t option \<times> env) waiting \<times> shm_arbiter_buffer) res" where
  "wait_event_loop env sleep_time spinned ar =
     bindE (shm_stream_read_events (ar_stream ar)) (\<lambda>(p, n, s).
     let ar = ar\<lparr>ar_stream := s\<rparr> in
     case p of
       Some ev \<Rightarrow> Inr (Returned (Some ev, env), ar)
     | None \<Rightarrow>
         (case env of
            [] \<Rightarrow> Inr (Waiting, ar)
          | act # env \<Rightarrow>
              (let spinned = spinned + 1; ar = act ar in
               if spinned > BUSY_WAIT_FOR_EVENTS then
                 if sleep_time < SLEEP_TIME_THRES_NS then wait_event_loop env (sleep_time * 2) spinned ar
                 else bindE (shm_stream_is_ready (ar_stream ar)) (\<lambda>ready.
                   if \<not> ready then Inr (Returned (None, env), ar)
                   else wait_event_loop env sleep_time spinned ar)
               else wait_event_loop env sleep_time spinned ar)))"

definition get_event ::
    "env \<Rightarrow> shm_arbiter_buffer \<Rightarrow> ((size_t option \<times> env) waiting \<times> shm_arbiter_buffer) res" where
  "get_event env ar = wait_event_loop env SLEEP_TIME_INIT_NS 0 ar"

definition shm_arbiter_buffer_notify_dropped ::
    "shm_arbiter_buffer \<Rightarrow> uint64_t \<Rightarrow> uint64_t \<Rightarrow> shm_arbiter_buffer res" where
  "shm_arbiter_buffer_notify_dropped ar begin_id end_id =
     bindE (shm_stream_notify_dropped (ar_stream ar) begin_id end_id) (\<lambda>s. Inr (ar\<lparr>ar_stream := s\<rparr>))"

definition assert_free_space :: "shm_arbiter_buffer \<Rightarrow> 'a res \<Rightarrow> 'a res" where
  "assert_free_space ar k =
     bindE (shm_arbiter_buffer_free_space ar) (\<lambda>f. assertE (f > 0) ''free_space > 0'' k)"

definition push_dropped_event :: "shm_arbiter_buffer \<Rightarrow> size_t \<Rightarrow> shm_arbiter_buffer res" where
  "push_dropped_event ar notify_id =
     bindE (shm_stream_prepare_hole_event (ar_hole_event ar) notify_id) (\<lambda>hole.
     let ar = ar\<lparr>ar_hole_event := hole\<rparr> in
     bindE (shm_par_queue_push (ar_buffer ar) hole (hh_size (st_hole_handling (ar_stream ar)))) (\<lambda>(_, q).
     let ar = ar\<lparr>ar_buffer := q, ar_total_dropped_num := ar_total_dropped_num ar + ar_dropped_num ar,
                 ar_total_dropped_times := ar_total_dropped_times ar + 1\<rparr> in
     bindE (shm_arbiter_buffer_notify_dropped ar (ar_drop_begin_id ar) notify_id) (\<lambda>ar.
     assert_free_space ar (Inr ar))))"

fun handle_stream_end ::
    "env \<Rightarrow> shm_arbiter_buffer \<Rightarrow> size_t \<Rightarrow>
      (unit waiting \<times> shm_arbiter_buffer) res" where
  "handle_stream_end env ar last_ev_id =
     (if ar_dropped_num ar > 0 then
        assertE (ar_drop_space_threshold ar < shm_arbiter_buffer_capacity ar) ''drop_space_threshold < capacity''
        (bindE (shm_arbiter_buffer_free_space ar) (\<lambda>free.
         if free > ar_drop_space_threshold ar then
           bindE (push_dropped_event ar (last_ev_id - 1)) (\<lambda>ar.
           assert_free_space ar
             (let ar = ar\<lparr>ar_dropped_num := 0\<rparr> in
              bindE (shm_stream_is_ready (ar_stream ar)) (\<lambda>ready.
              assertE (\<not> ready) ''!shm_stream_is_ready(stream)'' (Inr (Returned (), ar)))))
         else (case env of
             [] \<Rightarrow> Inr (Waiting, ar)
           | act # env \<Rightarrow> handle_stream_end env (act ar) last_ev_id)))
      else
        bindE (shm_stream_is_ready (ar_stream ar)) (\<lambda>ready.
        assertE (\<not> ready) ''!shm_stream_is_ready(stream)'' (Inr (Returned (), ar))))"

definition send_dropped_event :: "shm_arbiter_buffer \<Rightarrow> size_t \<Rightarrow> shm_arbiter_buffer res" where
  "send_dropped_event ar last_ev_id =
     assertE (last_ev_id = ar_dropped_num ar + ar_drop_begin_id ar) ''Drop IDs are wrong''
     (bindE (push_dropped_event ar (last_ev_id - 1)) (\<lambda>ar.
      let ar = ar\<lparr>ar_dropped_num := 0\<rparr> in assert_free_space ar (Inr ar)))"

definition consume1 :: "shm_arbiter_buffer \<Rightarrow> shm_arbiter_buffer res" where
  "consume1 ar = bindE (shm_stream_consume (ar_stream ar) 1) (\<lambda>(_, s). Inr (ar\<lparr>ar_stream := s\<rparr>))"

definition start_dropping :: "shm_arbiter_buffer \<Rightarrow> byte list \<Rightarrow> shm_arbiter_buffer res" where
  "start_dropping ar event =
     (let ar = ar\<lparr>ar_drop_begin_id := ev_id event\<rparr> in
      assertE (ar_dropped_num ar = 0) ''buffer->dropped_num == 0''
      (let ar = ar\<lparr>ar_dropped_num := ar_dropped_num ar + 1\<rparr>;
           hh = st_hole_handling (ar_stream ar);
           ar = ar\<lparr>ar_hole_event := hh_update hh (hh_init hh (ar_hole_event ar)) event\<rparr>
       in consume1 ar))"

definition continue_dropping :: "shm_arbiter_buffer \<Rightarrow> byte list \<Rightarrow> shm_arbiter_buffer res" where
  "continue_dropping ar event =
     (let hh = st_hole_handling (ar_stream ar);
          ar = ar\<lparr>ar_dropped_num := ar_dropped_num ar + 1,
                  ar_hole_event := hh_update hh (ar_hole_event ar) event\<rparr>
      in bindE (if ar_dropped_num ar mod 10000 = 0
                then shm_arbiter_buffer_notify_dropped ar (ar_drop_begin_id ar) (ev_id event - 1)
                else Inr ar) consume1)"

text \<open>The result is true when the event is to be dropped.\<close>

definition handle_dropping_event :: "shm_arbiter_buffer \<Rightarrow> byte list \<Rightarrow> (bool \<times> shm_arbiter_buffer) res" where
  "handle_dropping_event ar event =
     (if ar_dropped_num ar > 0 then
        assertE (ar_drop_space_threshold ar < shm_arbiter_buffer_capacity ar) ''drop_space_threshold < capacity''
        (bindE (shm_arbiter_buffer_free_space ar) (\<lambda>free.
         if free > ar_drop_space_threshold ar then
           bindE (send_dropped_event ar (ev_id event)) (\<lambda>ar. Inr (False, ar))
         else bindE (continue_dropping ar event) (\<lambda>ar. Inr (True, ar))))
      else
        bindE (shm_arbiter_buffer_free_space ar) (\<lambda>free.
        if free = 0 then bindE (start_dropping ar event) (\<lambda>ar. Inr (True, ar))
        else Inr (False, ar)))"

text \<open>
  The checks \<open>stream_fetch\<close> makes of an event it has read: it is no hole, and its id follows
  the id of the last event (the counter is advanced inside the assertion).
\<close>

definition check_event :: "shm_arbiter_buffer \<Rightarrow> byte list \<Rightarrow> shm_arbiter_buffer res" where
  "check_event ar ev =
     assertE (ev_kind ev \<noteq> hole_kind) ''Got dropped event''
     (let i = st_last_event_id (ar_stream ar) + 1;
          ar = ar\<lparr>ar_stream := (ar_stream ar)\<lparr>st_last_event_id := i\<rparr>\<rparr>
      in assertE (ev_id ev = i) ''IDs are inconsistent'' (Inr ar))"

text \<open>
  The fetch loops. One iteration handles one event; \<open>fuel\<close> bounds the iterations (a loop
  that has not finished by then is \<open>Waiting\<close>). The result is the pointer to the event to be
  forwarded, or \<open>None\<close> when the stream has ended.
\<close>

primrec stream_fetch_loop ::
    "nat \<Rightarrow> env \<Rightarrow> size_t \<Rightarrow> shm_arbiter_buffer \<Rightarrow> (size_t option waiting \<times> shm_arbiter_buffer) res" where
  "stream_fetch_loop 0 env last_ev_id ar = Inr (Waiting, ar)"
| "stream_fetch_loop (Suc fuel) env last_ev_id ar =
     bindE (get_event env ar) (\<lambda>(r, ar).
     case r of
       Waiting \<Rightarrow> Inr (Waiting, ar)
     | Returned (None, env) \<Rightarrow>
         bindE (handle_stream_end env ar last_ev_id) (\<lambda>(r, ar).
         Inr (case r of Waiting \<Rightarrow> Waiting | Returned _ \<Rightarrow> Returned None, ar))
     | Returned (Some p, env) \<Rightarrow>
         (let ev = bf_deref (st_buffer (ar_stream ar)) p in
          bindE (check_event ar ev) (\<lambda>ar.
          bindE (handle_dropping_event ar ev) (\<lambda>(drop, ar).
          if \<not> drop then Inr (Returned (Some p), ar)
          else stream_fetch_loop fuel env (ev_id ev) ar))))"

definition stream_fetch ::
    "nat \<Rightarrow> env \<Rightarrow> shm_arbiter_buffer \<Rightarrow> (size_t option waiting \<times> shm_arbiter_buffer) res" where
  "stream_fetch fuel env ar = stream_fetch_loop fuel env 1 ar"

primrec stream_filter_fetch_loop ::
    "(byte list \<Rightarrow> bool) option \<Rightarrow> nat \<Rightarrow> env \<Rightarrow> size_t \<Rightarrow> shm_arbiter_buffer \<Rightarrow>
      (size_t option waiting \<times> shm_arbiter_buffer) res" where
  "stream_filter_fetch_loop flt 0 env last_ev_id ar = Inr (Waiting, ar)"
| "stream_filter_fetch_loop flt (Suc fuel) env last_ev_id ar =
     bindE (get_event env ar) (\<lambda>(r, ar).
     case r of
       Waiting \<Rightarrow> Inr (Waiting, ar)
     | Returned (None, env) \<Rightarrow>
         bindE (handle_stream_end env ar last_ev_id) (\<lambda>(r, ar).
         Inr (case r of Waiting \<Rightarrow> Waiting | Returned _ \<Rightarrow> Returned None, ar))
     | Returned (Some p, env) \<Rightarrow>
         (let ev = bf_deref (st_buffer (ar_stream ar)) p in
          bindE (check_event ar ev) (\<lambda>ar.
          if (case flt of None \<Rightarrow> False | Some f \<Rightarrow> \<not> f ev) then
            bindE (consume1 ar) (\<lambda>ar. stream_filter_fetch_loop flt fuel env (ev_id ev) ar)
          else
            bindE (handle_dropping_event ar ev) (\<lambda>(drop, ar).
            if \<not> drop then Inr (Returned (Some p), ar)
            else stream_filter_fetch_loop flt fuel env (ev_id ev) ar))))"

definition stream_filter_fetch ::
    "nat \<Rightarrow> env \<Rightarrow> shm_arbiter_buffer \<Rightarrow> (byte list \<Rightarrow> bool) option \<Rightarrow>
      (size_t option waiting \<times> shm_arbiter_buffer) res" where
  "stream_filter_fetch fuel env ar flt = stream_filter_fetch_loop flt fuel env 1 ar"

definition shm_arbiter_buffer_is_done :: "shm_arbiter_buffer \<Rightarrow> bool res" where
  "shm_arbiter_buffer_is_done ar =
     bindE (shm_par_queue_size (ar_buffer ar)) (\<lambda>n.
     if n = 0 \<and> ar_dropped_num ar = 0
     then bindE (shm_stream_is_ready (ar_stream ar)) (\<lambda>ready. Inr (\<not> ready))
     else Inr False)"

text \<open>\<open>shm_arbiter_buffer_push\<close> spins until the queue takes the element.\<close>

fun push_loop ::
    "env \<Rightarrow> shm_arbiter_buffer \<Rightarrow> byte list \<Rightarrow> size_t \<Rightarrow> (unit waiting \<times> shm_arbiter_buffer) res" where
  "push_loop env ar elem sz =
     bindE (shm_par_queue_push (ar_buffer ar) elem sz) (\<lambda>(r, q).
     let ar = set_queue ar q in
     if r then Inr (Returned (), ar)
     else (case env of
         [] \<Rightarrow> Inr (Waiting, ar)
       | act # env \<Rightarrow> push_loop env (act ar) elem sz))"

definition shm_arbiter_buffer_push ::
    "env \<Rightarrow> shm_arbiter_buffer \<Rightarrow> byte list \<Rightarrow> size_t \<Rightarrow> (unit waiting \<times> shm_arbiter_buffer) res" where
  "shm_arbiter_buffer_push env ar elem sz =
     assertE (shm_arbiter_buffer_active ar) ''shm_arbiter_buffer_active(buffer)'' (push_loop env ar elem sz)"

section \<open>Events in the queue\<close>

definition ar_elems :: "shm_arbiter_buffer \<Rightarrow> byte list list" where
  "ar_elems ar = pq_elems (ar_buffer ar)"

text \<open>A queue of events: well formed, with elements that hold at least the event header.\<close>

definition event_queue :: "shm_par_queue \<Rightarrow> bool" where
  "event_queue q \<longleftrightarrow> pq_inv q \<and> 16 \<le> unat (pq_elem_size q)"

lemma event_queue_inv: "event_queue q \<Longrightarrow> pq_inv q"
  by (simp add: event_queue_def)

lemma event_queue_capacity:
  assumes "event_queue q"
  shows "unat (rb_capacity (pq_ringbuf q)) < 1152921504606846977"
proof -
  have "(unat (pq_capacity q) + 1) * 16 \<le> (unat (pq_capacity q) + 1) * unat (pq_elem_size q)"
    using assms unfolding event_queue_def by (intro mult_le_mono2) simp
  then have "(unat (pq_capacity q) + 1) * 16 < 18446744073709551616"
    using assms by (simp add: event_queue_def pq_inv_def)
  then show ?thesis using assms by (simp add: event_queue_def pq_inv_def)
qed

lemma event_queue_no_overflow:
  assumes "event_queue q" and "unat k \<le> unat (rb_capacity (pq_ringbuf q))"
  shows "rb_capacity (pq_ringbuf q) < SIZE_MAX - k"
proof -
  have "unat (SIZE_MAX - k) = 18446744073709551615 - unat k" using unat_less_2p64 [of k] by (simp add: unat_sub_64)
  then show ?thesis using event_queue_capacity [OF assms(1)] assms(2) by (simp add: word_less_nat_alt)
qed

lemma event_id_deref:
  assumes "event_queue q" and "pq_deref q p = x" and "x \<in> set (pq_elems q)"
  shows "shm_event_id (pq_data q) (unat p) = Inr (ev_id x)"
proof -
  have "length x = unat (pq_elem_size q)" "16 \<le> unat (pq_elem_size q)"
    using assms pq_elem_length by (auto simp: event_queue_def)
  then have "unat p + 16 \<le> length (pq_data q)"
    using assms(2) by (auto simp: pq_deref_def min_def split: if_splits)
  then show ?thesis
    using assms(2) shm_event_id_read [of "unat p" "pq_data q" "unat (pq_elem_size q)"] \<open>16 \<le> unat (pq_elem_size q)\<close>
    by (simp add: pq_deref_def)
qed

lemma event_queue_update:
  "event_queue q \<Longrightarrow> rb_inv rb \<Longrightarrow> rb_consumer_frame (pq_ringbuf q) rb \<Longrightarrow>
    event_queue (q\<lparr>pq_ringbuf := rb\<rparr>) \<and> pq_elems (q\<lparr>pq_ringbuf := rb\<rparr>) = pq_elems q"
  using shm_par_queue_read_ok [of q rb] by (simp add: event_queue_def)

lemma pq_drop_event_queue:
  assumes eq: "event_queue q" and k: "0 < k" "unat k \<le> rb_avail (pq_ringbuf q)"
  shows "\<exists>q'. shm_par_queue_drop q k = Inr q' \<and> event_queue q' \<and> pq_elems q' = drop (unat k) (pq_elems q) \<and>
    pq_capacity q' = pq_capacity q \<and> pq_elem_size q' = pq_elem_size q"
proof -
  note i = event_queue_inv [OF eq]
  have "unat k \<le> unat (rb_capacity (pq_ringbuf q))"
    using k(2) rb_invD(6) [OF pq_inv_rb [OF i]] rb_written_less [OF pq_inv_rb [OF i]] by simp
  from shm_par_queue_drop_ok [OF i k event_queue_no_overflow [OF eq this]] show ?thesis
    using eq by (auto simp: event_queue_def)
qed

text \<open>The stream's record of processed events, which the monitor's drops update.\<close>

abbreviation last_processed :: "shm_arbiter_buffer \<Rightarrow> shm_eventid" where
  "last_processed ar \<equiv> sb_last_processed_id (bf_shm (st_buffer (ar_stream ar)))"

lemma notify_processed_ok:
  assumes "last_processed ar \<le> i"
  shows "\<exists>ar'. notify_processed ar i = Inr ar' \<and> last_processed ar' = i \<and> ar_buffer ar' = ar_buffer ar \<and>
    ar_dropped_num ar' = ar_dropped_num ar \<and> ar_active ar' = ar_active ar"
  using assms by (simp add: notify_processed_def shm_stream_notify_last_processed_id_def buffer_set_last_processed_id_def)

lemma shm_arbiter_buffer_drop_ok: \<comment> \<open>for \<open>k = 0\<close> the index \<open>k - 1\<close> wraps around\<close>
  assumes eq: "event_queue (ar_buffer ar)" and ne: "ar_elems ar \<noteq> []"
    and mono: "last_processed ar \<le> ev_id (ar_elems ar ! (min (Suc (unat (k - 1))) (length (ar_elems ar)) - 1))"
  shows "\<exists>n ar'. shm_arbiter_buffer_drop ar k = Inr (n, ar') \<and> unat n = min (Suc (unat (k - 1))) (length (ar_elems ar)) \<and>
    event_queue (ar_buffer ar') \<and> ar_elems ar' = drop (unat n) (ar_elems ar) \<and>
    last_processed ar' = ev_id (ar_elems ar ! (unat n - 1))"
proof -
  let ?q = "ar_buffer ar" and ?xs = "pq_elems (ar_buffer ar)"
  note i = event_queue_inv [OF eq]
  from shm_par_queue_peek_atmost_at_ok [OF i, of "k - 1"] obtain p k' rb where
    pk: "shm_par_queue_peek_atmost_at ?q (k - 1) = Inr (p, k', ?q\<lparr>pq_ringbuf := rb\<rparr>)"
      "rb_inv rb" "rb_consumer_frame (pq_ringbuf ?q) rb"
    and c: "map_option (pq_deref ?q) p = Some (?xs ! unat k')" "unat k' = min (unat (k - 1)) (length ?xs - 1)"
      "unat k' < rb_avail rb"
    using ne by (auto simp: ar_elems_def split: if_splits)
  let ?q1 = "?q\<lparr>pq_ringbuf := rb\<rparr>"
  have eq1: "event_queue ?q1" "pq_elems ?q1 = ?xs" using event_queue_update [OF eq pk(2,3)] by simp_all
  have len: "0 < length ?xs" using ne by (simp add: ar_elems_def del: length_pq_elems)
  have lt: "unat k' < length ?xs" using c(2) len by linarith
  have ub: "unat k' + 1 < 18446744073709551616"
    using lt pq_elems_less_max [OF i] by linarith
  then have un: "unat (k' + 1) = unat k' + 1" by (simp add: unat_add_64)
  have kk: "unat k' + 1 = min (Suc (unat (k - 1))) (length ?xs)"
    using c(2) len by linarith
  obtain a where a: "p = Some a" "pq_deref ?q a = ?xs ! unat k'" using c(1) by (cases p) auto
  have "pq_deref ?q1 a = ?xs ! unat k'" using a(2) by simp
  from event_id_deref [OF eq1(1) this] lt eq1(2)
  have ev: "shm_event_id (pq_data ?q1) (unat a) = Inr (ev_id (?xs ! unat k'))" by simp
  obtain q2 where q2: "shm_par_queue_drop ?q1 (k' + 1) = Inr q2" "event_queue q2" "pq_elems q2 = drop (unat (k' + 1)) ?xs"
    using pq_drop_event_queue [OF eq1(1), of "k' + 1"] un c(3) eq1(2) by (auto simp: word_less_nat_alt)
  have idx: "min (Suc (unat (k - 1))) (length ?xs) - 1 = unat k'" using kk by simp
  have "last_processed (set_queue ar q2) \<le> ev_id (?xs ! unat k')"
    using mono idx unfolding ar_elems_def by (simp del: length_pq_elems)
  from notify_processed_ok [OF this] obtain ar' where
    n: "notify_processed (set_queue ar q2) (ev_id (?xs ! unat k')) = Inr ar'" "last_processed ar' = ev_id (?xs ! unat k')"
      "ar_buffer ar' = q2" by auto
  have "shm_arbiter_buffer_drop ar k = Inr (k' + 1, ar')"
    using pk(1) a(1) ev q2(1) n(1) by (simp add: shm_arbiter_buffer_drop_def Let_def)
  then show ?thesis using un kk n q2(2,3) idx
    by (intro exI [of _ "k' + 1"] exI [of _ ar']) (simp add: ar_elems_def)
qed

section \<open>The search of \<open>drop_older_than\<close>\<close>

text \<open>\<open>t\<close> of the \<open>m + 1\<close> events \<open>f 0, \<dots>, f m\<close> have an id up to \<open>i\<close>: the first ones.\<close>

definition splits_at :: "(nat \<Rightarrow> shm_eventid) \<Rightarrow> nat \<Rightarrow> shm_eventid \<Rightarrow> nat \<Rightarrow> bool" where
  "splits_at f m i t \<longleftrightarrow> t \<le> Suc m \<and> (\<forall>j < t. f j \<le> i) \<and> (\<forall>j. t \<le> j \<longrightarrow> j \<le> m \<longrightarrow> i < f j)"

lemma splits_atI:
  assumes mono: "\<And>a b. a < b \<Longrightarrow> b \<le> m \<Longrightarrow> f a < f b" and "t \<le> Suc m"
    and lo: "0 < t \<Longrightarrow> f (t - 1) \<le> i" and hi: "t \<le> m \<Longrightarrow> i < f t"
  shows "splits_at f m i t"
proof -
  have "f j \<le> i" if "j < t" for j
  proof (cases "j = t - 1")
    case False
    then have "f j < f (t - 1)" using that assms(2) by (intro mono) auto
    then show ?thesis using lo that by auto
  qed (use that lo in auto)
  moreover have "i < f j" if "t \<le> j" "j \<le> m" for j
    using that hi mono [of t j] by (cases "j = t") auto
  ultimately show ?thesis using assms(2) by (simp add: splits_at_def)
qed

lemma drop_search_ok:
  assumes ids: "\<And>j. unat j \<le> m \<Longrightarrow> id_at j = Inr (f (unat j))" and small: "m < 4611686018427387904"
    and mono: "\<And>a b. a < b \<Longrightarrow> b \<le> m \<Longrightarrow> f a < f b"
  shows "unat bt \<le> unat tp \<Longrightarrow> unat tp \<le> m \<Longrightarrow> unat tp - unat bt < fuel \<Longrightarrow> ndebug \<or> bt \<noteq> tp \<Longrightarrow>
    (0 < unat bt \<Longrightarrow> f (unat bt) \<le> i) \<Longrightarrow> (unat tp < m \<Longrightarrow> i < f (Suc (unat tp))) \<Longrightarrow>
    \<exists>t. drop_search ndebug id_at i base fuel bt tp ((bt + tp) div 2) = Inr (base + of_nat t) \<and> splits_at f m i t"
proof (induction fuel arbitrary: bt tp)
  case 0
  then show ?case by simp
next
  case (Suc fuel)
  let ?p = "(bt + tp) div 2"
  have up: "unat ?p = (unat bt + unat tp) div 2"
    using Suc.prems(1,2) small by (simp add: unat_div unat_add_64)
  have pb: "unat bt \<le> unat ?p" "unat ?p \<le> unat tp" "bt \<noteq> tp \<Longrightarrow> unat ?p < unat tp"
    using Suc.prems(1) up by (auto simp: word_64_eq_iff)
  have idp: "id_at ?p = Inr (f (unat ?p))" using ids pb(2) Suc.prems(2) by simp
  have le: "bt \<le> tp" using Suc.prems(1) by (simp add: word_le_nat_alt)
  have finish: "\<exists>t. (bindE (id_at b) (\<lambda>e. Inr (if i < e then (if b = 0 then base else base + b) else base + b + 1))) =
      Inr (base + of_nat t) \<and> splits_at f m i t"
    if b: "unat b \<le> m" "0 < unat b \<Longrightarrow> f (unat b - 1) \<le> i" "unat b < m \<Longrightarrow> i < f (Suc (unat b))" for b
  proof -
    have idb: "id_at b = Inr (f (unat b))" using ids b(1) by simp
    show ?thesis
    proof (cases "i < f (unat b)")
      case True
      have "splits_at f m i (unat b)" using b True by (intro splits_atI mono) auto
      then show ?thesis using idb True by (auto intro!: exI [of _ "unat b"])
    next
      case False
      have "splits_at f m i (Suc (unat b))" using b False by (intro splits_atI mono) auto
      then show ?thesis using idb False by (auto intro!: exI [of _ "Suc (unat b)"] simp: algebra_simps)
    qed
  qed
  have recurse: "\<exists>t. (if tp' = bt' then bindE (id_at tp') (\<lambda>e. Inr (if i < e then (if bt' = 0 then base else base + tp') else base + tp' + 1))
       else drop_search ndebug id_at i base fuel bt' tp' ((bt' + tp') div 2)) = Inr (base + of_nat t) \<and> splits_at f m i t"
    if "unat bt' \<le> unat tp'" "unat tp' \<le> m" "tp' \<noteq> bt' \<Longrightarrow> unat tp' - unat bt' < fuel"
      "0 < unat bt' \<Longrightarrow> tp' \<noteq> bt' \<Longrightarrow> f (unat bt') \<le> i" "0 < unat bt' \<Longrightarrow> f (unat bt' - 1) \<le> i"
      "unat tp' < m \<Longrightarrow> i < f (Suc (unat tp'))" for bt' tp'
  proof (cases "tp' = bt'")
    case True
    show ?thesis unfolding True if_P [OF refl] by (rule finish) (use that True in auto)
  next
    case False
    show ?thesis unfolding if_not_P [OF False] by (rule Suc.IH) (use that False in auto)
  qed
  show ?case
  proof (cases "i < f (unat ?p)")
    case True
    show ?thesis
    proof (cases "?p = 0")
      case p0: True
      then have z: "unat bt = 0" using pb(1) by simp
      then have bt0: "bt = 0" by (simp add: word_64_eq_iff)
      have "ndebug \<or> tp = 1"
        using Suc.prems(4) up p0 z bt0 by (auto simp: word_64_eq_iff)
      moreover have "m > 0 \<Longrightarrow> i < f 1" using True p0 mono [of 0 1] by simp
      ultimately show ?thesis using idp True p0 le bt0 recurse [of 0 0]
        by (auto simp: dbg_assert_def)
    next
      case pn: False
      then have pos: "0 < unat ?p" by (simp add: word_64_eq_iff)
      have "unat ?p \<noteq> unat bt" using True Suc.prems(5) pos by auto
      then have lt: "unat bt < unat ?p" using pb(1) by simp
      have um: "unat (?p - 1) = unat ?p - 1" using pos by (simp add: unat_sub_64)
      have pre: "0 < unat bt \<Longrightarrow> f (unat bt - 1) \<le> i"
        using Suc.prems(1,2,5) mono [of "unat bt - 1" "unat bt"] by fastforce
      have "bt \<le> ?p - 1" using lt um by (simp add: word_le_nat_alt)
      moreover have "unat (?p - 1) - unat bt < fuel" using Suc.prems(3) lt um pb(2) by linarith
      ultimately show ?thesis using idp True pn le recurse [of bt "?p - 1"] lt um pb(2) Suc.prems(2,5) pos pre
        by (auto simp: dbg_assert_def)
    qed
  next
    case False
    show ?thesis
    proof (cases "bt = ?p")
      case bp: True
      have tpc: "unat tp = unat bt \<or> unat tp = Suc (unat bt)"
        using arg_cong [OF bp, of unat] up Suc.prems(1) by linarith
      have dbg: "ndebug \<or> tp = bt + 1"
      proof -
        have "unat (bt + 1) = Suc (unat bt)" using Suc.prems(1,2) small by (simp add: unat_add_64)
        then show ?thesis using Suc.prems(4) tpc by (auto simp: word_64_eq_iff)
      qed
      let ?b = "if f (unat ?p) = i then bt else tp"
      have step: "drop_search ndebug id_at i base (Suc fuel) bt tp ?p =
          bindE (id_at ?b) (\<lambda>e. Inr (if i < e then (if ?b = 0 then base else base + ?b) else base + ?b + 1))"
        using idp False bp [symmetric] le dbg by (cases "f (unat ?p) = i") (auto simp: dbg_assert_def)
      have "\<exists>t. (bindE (id_at b) (\<lambda>e. Inr (if i < e then (if b = 0 then base else base + b) else base + b + 1))) =
        Inr (base + of_nat t) \<and> splits_at f m i t" if "b = (if f (unat ?p) = i then bt else tp)" for b
      proof (rule finish)
        show "unat b \<le> m" using that Suc.prems(1,2) by auto
        have fb: "f (unat bt) \<le> i" using False arg_cong [OF bp, of unat] by simp
        have b1: "0 < unat bt \<Longrightarrow> f (unat bt - 1) \<le> i"
          using fb Suc.prems(1,2) mono [of "unat bt - 1" "unat bt"] by fastforce
        show "f (unat b - 1) \<le> i" if "0 < unat b"
          using that \<open>b = _\<close> tpc b1 fb by (auto split: if_splits)
        show "i < f (Suc (unat b))" if "unat b < m"
          using that \<open>b = _\<close> tpc mono [of "unat bt" "Suc (unat bt)"] Suc.prems(6) arg_cong [OF bp, of unat]
          by (auto split: if_splits)
      qed
      from this [OF refl] show ?thesis unfolding step .
    next
      case bn: False
      have "unat bt \<noteq> unat ?p" using bn by (simp add: word_64_eq_iff)
      then have lt: "unat bt < unat ?p" using pb(1) by simp
      then have ne: "bt \<noteq> tp" using pb(2) by auto
      have fp: "f (unat ?p) \<le> i" using False by simp
      have "?p \<le> tp" using pb(2) by (simp add: word_le_nat_alt)
      moreover have "unat tp - unat ?p < fuel" using Suc.prems(3) lt pb(2) by linarith
      moreover have "0 < unat ?p \<Longrightarrow> f (unat ?p - 1) \<le> i"
        using fp mono [of "unat ?p - 1" "unat ?p"] pb(2) Suc.prems(2) by fastforce
      ultimately show ?thesis using idp False bn le fp recurse [of ?p tp] pb(2) Suc.prems(2,6)
        by (auto simp: dbg_assert_def)
    qed
  qed
qed

abbreviation ids_increase :: "byte list list \<Rightarrow> bool" where
  "ids_increase xs \<equiv> sorted_wrt (\<lambda>x y. ev_id x < ev_id y) xs"

lemma peek_all_view:
  assumes eq: "event_queue q"
  shows "\<exists>view rb. shm_par_queue_peek q 0 = Inr (of_nat (length (pq_elems q)), view, q\<lparr>pq_ringbuf := rb\<rparr>) \<and>
    rb_inv rb \<and> rb_consumer_frame (pq_ringbuf q) rb \<and> rb_avail rb = length (pq_elems q) \<and> view_ok q 18446744073709551615 view"
proof -
  have m: "SIZE_MAX = (if (0::size_t) = 0 then SIZE_MAX else 0)" by simp
  have u: "unat SIZE_MAX = 18446744073709551615" by simp
  obtain view rb where p: "shm_par_queue_peek q 0 = Inr (of_nat (rb_avail rb), view, q\<lparr>pq_ringbuf := rb\<rparr>)"
      "rb_inv rb" "rb_consumer_frame (pq_ringbuf q) rb"
      "unat SIZE_MAX \<le> rb_avail rb \<or> rb_avail rb = length (pq_elems q)" "view_ok q (unat SIZE_MAX) view"
    using shm_par_queue_peek_ok [OF event_queue_inv [OF eq] m] by (elim exE conjE) (rule that)
  have "rb_avail rb \<le> length (pq_elems q)"
    using rb_invD(6) [OF p(2)] rb_consumer_frame_simps [OF p(3)] by simp
  then have "rb_avail rb = length (pq_elems q)"
    using p(4) pq_elems_less_max [OF event_queue_inv [OF eq]] unfolding u by linarith
  then show ?thesis using p unfolding u by metis
qed

lemma view_parts:
  assumes eq: "event_queue q" and v: "view_ok q 18446744073709551615 (Some (ptr1, len1, ptr2, len2))"
  shows "unat len1 + unat len2 = length (pq_elems q)"
    and "unat j < unat len1 \<Longrightarrow> event_id_at q ptr1 j = Inr (ev_id (pq_elems q ! unat j))"
    and "unat j < unat len2 \<Longrightarrow> ptr2 = Some 0 \<and> event_id_at q 0 j = Inr (ev_id (pq_elems q ! (unat len1 + unat j)))"
proof -
  note i = event_queue_inv [OF eq]
  let ?n = "length (pq_elems q)"
  have pr: "peek_ranges (rb_tail (pq_ringbuf q), len1, len2) = take 18446744073709551615 (rb_slots (pq_ringbuf q))"
    and p2: "ptr2 = (if len2 > 0 then Some 0 else None)"
    using v by (simp_all add: view_ok_def)
  have lt: "?n < 18446744073709551615" using pq_elems_less_max [OF i] by linarith
  show len: "unat len1 + unat len2 = ?n"
    using arg_cong [OF pr, of length] lt by (simp add: peek_ranges_def)
  have at: "\<exists>p. view_at (pq_elem_size q) (Some (ptr1, len1, ptr2, len2)) k = Inr p \<and>
      shm_event_id (pq_data q) (unat p) = Inr (ev_id (pq_elems q ! unat k))" if kn: "unat k < ?n" for k
    using view_at_ok [OF i v _ kn] kn lt event_id_deref [OF eq _ nth_mem [OF kn]] by fastforce
  show "event_id_at q ptr1 j = Inr (ev_id (pq_elems q ! unat j))" if j: "unat j < unat len1"
    using at [of j] j len by (auto simp: view_at_def event_id_at_def word_less_nat_alt)
  show "ptr2 = Some 0 \<and> event_id_at q 0 j = Inr (ev_id (pq_elems q ! (unat len1 + unat j)))" if j: "unat j < unat len2"
  proof -
    have u: "unat (len1 + j) = unat len1 + unat j" using j len lt by (simp add: unat_add_64)
    have "\<not> len1 + j < len1" "j < len2" "0 < len2" using u j by (simp_all add: word_less_nat_alt)
    then show ?thesis using at [of "len1 + j"] u j len p2 by (auto simp: view_at_def event_id_at_def)
  qed
qed

lemma filter_newer:
  assumes "t \<le> length xs" and "\<And>j. j < t \<Longrightarrow> ev_id (xs ! j) \<le> i" and "\<And>j. t \<le> j \<Longrightarrow> j < length xs \<Longrightarrow> i < ev_id (xs ! j)"
  shows "filter (\<lambda>x. i < ev_id x) xs = drop t xs"
proof -
  have "filter (\<lambda>x. i < ev_id x) (take t xs) = []"
    using assms(1,2) by (auto simp: filter_empty_conv in_set_conv_nth leD)
  moreover have "filter (\<lambda>x. i < ev_id x) (drop t xs) = drop t xs"
    using assms(3) by (auto simp: filter_id_conv in_set_conv_nth)
  ultimately show ?thesis
    using filter_append [of "\<lambda>x. i < ev_id x" "take t xs" "drop t xs"] by simp
qed

text \<open>Dropping \<open>t\<close> events from the front when \<open>t\<close> is the number of events with an id up to \<open>i\<close>.\<close>

lemma drop_first_ok:
  assumes eq: "event_queue (ar_buffer ar)" and avail: "rb_avail (pq_ringbuf (ar_buffer ar)) = length (ar_elems ar)"
    and t: "t \<le> length (ar_elems ar)" and f: "filter (\<lambda>x. i < ev_id x) (ar_elems ar) = drop t (ar_elems ar)"
    and mono: "last_processed ar \<le> i"
  shows "\<exists>ar'. drop_first ar (of_nat t) i = Inr (of_nat t, ar') \<and> event_queue (ar_buffer ar') \<and>
    ar_elems ar' = filter (\<lambda>x. i < ev_id x) (ar_elems ar) \<and>
    last_processed ar' = (if t = 0 then last_processed ar else i)"
proof (cases "t = 0")
  case True
  then show ?thesis using assms by (simp add: drop_first_def)
next
  case False
  have "t < 18446744073709551616"
    using t pq_elems_less_max [OF event_queue_inv [OF eq]] unfolding ar_elems_def by linarith
  then have u: "unat (of_nat t :: size_t) = t" by (simp add: unat_of_nat_64)
  then have pos: "of_nat t > (0 :: size_t)" using False by (simp add: word_less_nat_alt)
  obtain q where q: "shm_par_queue_drop (ar_buffer ar) (of_nat t) = Inr q" "event_queue q"
      "pq_elems q = drop t (ar_elems ar)"
    using pq_drop_event_queue [OF eq pos] u avail t unfolding ar_elems_def by auto
  have "last_processed (set_queue ar q) \<le> i" using mono by simp
  from notify_processed_ok [OF this] obtain ar' where
    n: "notify_processed (set_queue ar q) i = Inr ar'" "last_processed ar' = i" "ar_buffer ar' = q" by auto
  have "drop_first ar (of_nat t) i = Inr (of_nat t, ar')"
    using pos q(1) n(1) by (simp add: drop_first_def)
  then show ?thesis using n(2,3) q(2,3) f False by (intro exI [of _ ar']) (simp add: ar_elems_def)
qed

text \<open>
  The search over a part of \<open>len\<close> events that starts behind \<open>base\<close> events, where the events
  before the part have smaller and the events behind it larger ids than \<open>i\<close>.
\<close>

lemma drop_search_part:
  assumes inc: "ids_increase xs" and len: "unat base + unat len \<le> length xs" "0 < unat len" "length xs < 4611686018427387904"
    and ids: "\<And>j. unat j < unat len \<Longrightarrow> id_at j = Inr (ev_id (xs ! (unat base + unat j)))"
    and lo: "\<And>j. j < unat base \<Longrightarrow> ev_id (xs ! j) \<le> i"
    and hi: "\<And>j. unat base + unat len \<le> j \<Longrightarrow> j < length xs \<Longrightarrow> i < ev_id (xs ! j)"
    and dbg: "ndebug \<or> 1 < unat len" and fuel: "unat len \<le> fuel"
  shows "\<exists>t. drop_search ndebug id_at i base fuel 0 (len - 1) ((0 + (len - 1)) div 2) = Inr (of_nat t) \<and>
    t \<le> length xs \<and> filter (\<lambda>x. i < ev_id x) xs = drop t xs"
proof -
  let ?f = "\<lambda>j. ev_id (xs ! (unat base + j))"
  have u: "unat (len - 1) = unat len - 1" using len(2) by (simp add: unat_sub_64)
  have mono: "?f a < ?f b" if "a < b" "b \<le> unat len - 1" for a b
    using sorted_wrt_nth_less [OF inc] that len by simp
  have "unat len - 1 < 4611686018427387904" "unat len - 1 < fuel" using len fuel by linarith+
  then obtain t where t: "drop_search ndebug id_at i base fuel 0 (len - 1) ((0 + (len - 1)) div 2) = Inr (base + of_nat t)"
    and s: "splits_at ?f (unat len - 1) i t"
    using drop_search_ok [of "unat len - 1" id_at ?f 0 "len - 1" fuel ndebug i base] ids mono len u dbg fuel
    by (auto simp: word_64_eq_iff)
  have tl: "t \<le> unat len" using s len(2) by (simp add: splits_at_def)
  have "filter (\<lambda>x. i < ev_id x) xs = drop (unat base + t) xs"
  proof (rule filter_newer)
    fix j assume j: "j < unat base + t"
    show "ev_id (xs ! j) \<le> i"
    proof (cases "j < unat base")
      case False
      then have "j - unat base < t" using j by linarith
      then have "?f (j - unat base) \<le> i" using s unfolding splits_at_def by blast
      then show ?thesis using False by simp
    qed (rule lo)
  next
    fix j assume j: "unat base + t \<le> j" "j < length xs"
    show "i < ev_id (xs ! j)"
    proof (cases "unat base + unat len \<le> j")
      case False
      then have "t \<le> j - unat base" "j - unat base \<le> unat len - 1" using j by linarith+
      then have "i < ?f (j - unat base)" using s unfolding splits_at_def by blast
      then show ?thesis using j(1) by simp
    qed (use hi j in blast)
  qed (use len tl in linarith)
  then show ?thesis using t len(1) tl by (intro exI [of _ "unat base + t"]) simp
qed

lemma of_nat_le_length:
  "t \<le> n \<Longrightarrow> n < 4611686018427387904 \<Longrightarrow> (of_nat t :: size_t) \<le> of_nat n"
  by (simp add: word_le_nat_alt unat_of_nat_64)

lemma drop_older_than_search:
  assumes eq: "event_queue (ar_buffer ar)" and inc: "ids_increase (ar_elems ar)" and small: "length (ar_elems ar) < 4611686018427387904"
    and p: "shm_par_queue_peek (ar_buffer ar) 0 =
      Inr (of_nat (length (ar_elems ar)), Some (ptr1, len1, ptr2, len2), (ar_buffer ar)\<lparr>pq_ringbuf := rb\<rparr>)"
    and vo: "view_ok (ar_buffer ar) 18446744073709551615 (Some (ptr1, len1, ptr2, len2))"
  shows "\<exists>t. shm_arbiter_buffer_drop_older_than True ar i =
      drop_first (set_queue ar ((ar_buffer ar)\<lparr>pq_ringbuf := rb\<rparr>)) (of_nat t) i \<and>
    t \<le> length (ar_elems ar) \<and> filter (\<lambda>x. i < ev_id x) (ar_elems ar) = drop t (ar_elems ar)"
proof -
  let ?q = "ar_buffer ar" and ?xs = "ar_elems ar"
  have xs: "?xs = pq_elems ?q" by (simp add: ar_elems_def)
  have un: "unat (of_nat (length ?xs) :: size_t) = length ?xs" using small by (simp add: unat_of_nat_64)
  note parts = view_parts [OF eq vo, folded xs]
  have at: "event_id_at (?q\<lparr>pq_ringbuf := rb\<rparr>) = event_id_at ?q" by (simp add: event_id_at_def fun_eq_iff)
  have l1: "0 < unat len1" and ne: "?xs \<noteq> []" using vo by (simp_all add: view_ok_def word_less_nat_alt xs)
  then have n0: "of_nat (length ?xs) \<noteq> (0 :: size_t)" using un by (metis length_0_conv unat_0)
  have u1: "unat (len1 - 1) = unat len1 - 1" using l1 by (simp add: unat_sub_64)
  let ?l = "?xs ! (unat len1 - 1)"
  have last1: "event_id_at ?q ptr1 (len1 - 1) = Inr (ev_id ?l)" using parts(2) [of "len1 - 1"] l1 u1 by simp
  have gt: "unat len1 \<le> j \<Longrightarrow> j < length ?xs \<Longrightarrow> ev_id ?l < ev_id (?xs ! j)" for j
    using sorted_wrt_nth_less [OF inc, of "unat len1 - 1" j] l1 by simp
  have old: "ev_id (?xs ! j) \<le> i" if "ev_id ?l < i" "j < unat len1" for j
  proof (cases "j = unat len1 - 1")
    case False
    then have "ev_id (?xs ! j) < ev_id ?l"
      using that(2) parts(1) l1 by (intro sorted_wrt_nth_less [OF inc]) linarith+
    then show ?thesis using that(1) by simp
  qed (use that in simp)
  note unfold = shm_arbiter_buffer_drop_older_than_def at Let_def word_less_nat_alt
  consider "i \<le> ev_id ?l" | "ev_id ?l < i" "0 < unat len2" | "ev_id ?l < i" "unat len2 = 0"
    by (cases "i \<le> ev_id ?l"; cases "unat len2 = 0") auto
  then show ?thesis
  proof cases
    case 1
    have "\<exists>t. drop_search True (event_id_at ?q ptr1) i 0 (length ?xs) 0 (len1 - 1) ((0 + (len1 - 1)) div 2) = Inr (of_nat t) \<and>
        t \<le> length ?xs \<and> filter (\<lambda>x. i < ev_id x) ?xs = drop t ?xs"
      by (rule drop_search_part [OF inc]) (use parts(1,2) l1 small 1 in \<open>auto intro: le_less_trans [OF _ gt]\<close>)
    then show ?thesis using p n0 l1 last1 1 un of_nat_le_length [OF _ small] by (elim ex_forward) (simp add: unfold)
  next
    case 2
    have "\<exists>t. drop_search True (event_id_at ?q 0) i len1 (length ?xs) 0 (len2 - 1) ((0 + (len2 - 1)) div 2) = Inr (of_nat t) \<and>
        t \<le> length ?xs \<and> filter (\<lambda>x. i < ev_id x) ?xs = drop t ?xs"
      by (rule drop_search_part [OF inc]) (use parts(1,3) small old 2 in auto)
    moreover have "ptr2 = Some 0" using parts(3) [of 0] 2 by simp
    moreover have "\<not> i \<le> ev_id ?l" using 2 by simp
    ultimately show ?thesis using p n0 l1 last1 2 un of_nat_le_length [OF _ small] by (elim ex_forward) (simp add: unfold)
  next
    case 3
    have "filter (\<lambda>x. i < ev_id x) ?xs = drop (unat len1) ?xs"
      by (rule filter_newer) (use parts(1) 3 old in auto)
    moreover have "\<not> i \<le> ev_id ?l" using 3 by simp
    moreover have "of_nat (length ?xs) = len1" using 3 parts(1) un by (simp add: word_64_eq_iff)
    ultimately show ?thesis using p n0 l1 last1 3 parts(1) by (intro exI [of _ "unat len1"]) (simp add: unfold)
  qed
qed

lemma drop_older_than_ok:
  assumes eq: "event_queue (ar_buffer ar)" and inc: "ids_increase (ar_elems ar)" and mono: "last_processed ar \<le> i"
  shows "\<exists>n ar'. shm_arbiter_buffer_drop_older_than True ar i = Inr (n, ar') \<and> event_queue (ar_buffer ar') \<and>
    ar_elems ar' = filter (\<lambda>x. i < ev_id x) (ar_elems ar) \<and> unat n = length (ar_elems ar) - length (ar_elems ar') \<and>
    last_processed ar' = (if n = 0 then last_processed ar else i)"
proof -
  let ?q = "ar_buffer ar" and ?xs = "ar_elems ar"
  have xs: "?xs = pq_elems ?q" by (simp add: ar_elems_def)
  obtain view rb where p: "shm_par_queue_peek ?q 0 = Inr (of_nat (length ?xs), view, ?q\<lparr>pq_ringbuf := rb\<rparr>)"
      "rb_inv rb" "rb_consumer_frame (pq_ringbuf ?q) rb" "rb_avail rb = length ?xs" "view_ok ?q 18446744073709551615 view"
    using peek_all_view [OF eq, folded xs] by (elim exE conjE) (rule that)
  let ?ar = "set_queue ar (?q\<lparr>pq_ringbuf := rb\<rparr>)"
  have eq1: "event_queue (ar_buffer ?ar)" "ar_elems ?ar = ?xs"
    using event_queue_update [OF eq p(2,3)] by (simp_all add: ar_elems_def)
  have small: "length ?xs < 4611686018427387904"
    using event_queue_capacity [OF eq] rb_written_less [OF pq_inv_rb [OF event_queue_inv [OF eq]]] by (simp add: xs)
  show ?thesis
  proof (cases view)
    case None
    then have "?xs = []" using p(5) by (simp add: view_ok_def xs)
    then show ?thesis using p(1) eq1 by (auto simp: shm_arbiter_buffer_drop_older_than_def ar_elems_def)
  next
    case (Some v)
    obtain ptr1 len1 ptr2 len2 where v: "v = (ptr1, len1, ptr2, len2)" by (cases v)
    obtain t where t: "shm_arbiter_buffer_drop_older_than True ar i = drop_first ?ar (of_nat t) i" "t \<le> length ?xs"
        "filter (\<lambda>x. i < ev_id x) ?xs = drop t ?xs"
      using drop_older_than_search [OF eq inc small p(1) [unfolded Some v] p(5) [unfolded Some v], of i]
      by (elim exE conjE) (rule that)
    have ut: "unat (of_nat t :: size_t) = t" using small t(2) by (simp add: unat_of_nat_64)
    then have t0: "of_nat t = (0 :: size_t) \<longleftrightarrow> t = 0" by (simp add: word_64_eq_iff)
    obtain ar' where "drop_first ?ar (of_nat t) i = Inr (of_nat t, ar')" "event_queue (ar_buffer ar')"
        "ar_elems ar' = filter (\<lambda>x. i < ev_id x) ?xs" "last_processed ar' = (if t = 0 then last_processed ar else i)"
      using drop_first_ok [OF eq1(1), of t i] eq1(2) t mono p(4) by auto
    then show ?thesis using t ut t0 by (intro exI [of _ "of_nat t"] exI [of _ ar']) simp
  qed
qed

section \<open>Examples\<close>

text \<open>
  Events of 24 bytes in queues of capacity 3 that have wrapped around and hold two events:
  the arbiter's queue the events 8 and 9, the stream's buffer the events 10 and 11.
\<close>

definition ev_example :: "shm_eventid \<Rightarrow> byte list" where
  "ev_example i = mk_event 2 i (le64 0)"

definition events_data :: "shm_eventid \<Rightarrow> shm_eventid \<Rightarrow> byte list" where
  "events_data i j = ev_example j @ replicate 48 0 @ ev_example i"

definition ar_example :: shm_arbiter_buffer where
  "ar_example = \<lparr>ar_buffer = pq_example\<lparr>pq_elem_size := 24, pq_data := events_data 8 9\<rparr>,
     ar_drop_space_threshold = 1, ar_dropped_num = 0, ar_total_dropped_times = 0, ar_total_dropped_num = 0,
     ar_drop_begin_id = 0,
     ar_stream = st_example\<lparr>st_last_event_id := 9, st_buffer := bf_example\<lparr>bf_shm := sb_example\<lparr>sb_elem_size := 24,
       sb_data := events_data 10 11\<rparr>\<rparr>\<rparr>,
     ar_hole_event = replicate 24 0, ar_active = True\<rparr>"

lemma ev_id_mk_event [simp]: "ev_id (mk_event k i p) = i"
  by (simp add: ev_id_def mk_event_def)

lemma ev_kind_mk_event [simp]: "ev_kind (mk_event k i p) = k"
  by (simp add: ev_kind_def mk_event_def)

lemma length_events_data [simp]: "length (events_data i j) = 96"
  by (simp add: events_data_def ev_example_def mk_event_def)

lemma events_queue:
  "event_queue (pq_example\<lparr>pq_elem_size := 24, pq_data := events_data i j\<rparr>)"
  using rb_example_inv by (simp add: event_queue_def pq_inv_def pq_example_def) (simp add: rb_example_def)

lemma rb_slots_example: "rb_slots rb_example = [3, 0]"
  by code_simp

lemma events_elems:
  "pq_elems (pq_example\<lparr>pq_elem_size := 24, pq_data := events_data i j\<rparr>) = [ev_example i, ev_example j]"
  by (simp add: pq_elems_def pq_example_def rb_slots_example slot_def events_data_def ev_example_def mk_event_def)

lemma ar_example_facts:
  "event_queue (ar_buffer ar_example)" "ar_elems ar_example = [ev_example 8, ev_example 9]" "last_processed ar_example = 7"
  using events_queue [of 8 9] events_elems [of 8 9]
  by (simp_all add: ar_example_def ar_elems_def) (simp add: sb_example_def)

section \<open>Properties\<close>

text \<open>
  C29: dropping \<open>k\<close> events (\<open>k > 0\<close>) from a queue that is not empty removes the \<open>min k size\<close> oldest
  ones, returns their number and tells the stream the id of the last of them, provided that
  id is not smaller than the last one reported.
\<close>

theorem arbiter_drop:
  assumes "event_queue (ar_buffer ar)" and "0 < k" and "ar_elems ar \<noteq> []"
    and "last_processed ar \<le> ev_id (ar_elems ar ! (min (unat k) (length (ar_elems ar)) - 1))"
  shows "\<exists>n ar'. shm_arbiter_buffer_drop ar k = Inr (n, ar') \<and> unat n = min (unat k) (length (ar_elems ar)) \<and>
    event_queue (ar_buffer ar') \<and> ar_elems ar' = drop (unat n) (ar_elems ar) \<and>
    last_processed ar' = ev_id (ar_elems ar ! (unat n - 1))"
proof -
  have k: "Suc (unat (k - 1)) = unat k" using assms(2) by (simp add: unat_sub_64 word_less_nat_alt)
  show ?thesis using shm_arbiter_buffer_drop_ok [OF assms(1,3), of k] assms(4) unfolding k by blast
qed

theorem arbiter_drop_witness:
  "\<exists>n ar'. shm_arbiter_buffer_drop ar_example 5 = Inr (n, ar') \<and> unat n = 2 \<and> ar_elems ar' = [] \<and> last_processed ar' = 9"
  using arbiter_drop [OF ar_example_facts(1), of 5] by (auto simp: ar_example_facts ev_example_def)



section \<open>Findings\<close>

text \<open>
  The same call in a build with assertions: a part of the ring that holds one event fails the
  assertion \<open>top == bot + 1\<close> of the search, although the result would be right.
\<close>

lemma drop_older_than_assertion:
  "drop_search False (\<lambda>_. Inr e) i base 1 0 0 0 = Inl (Assertion (if i < e then ''top == 1'' else ''top == bot + 1''))"
  by (simp add: dbg_assert_def assertE_def)

text \<open>\<open>k = 0\<close> wraps around: everything is dropped.\<close>

lemma arbiter_drop_zero_drops_all:
  assumes eq: "event_queue (ar_buffer ar)" and ne: "ar_elems ar \<noteq> []" and mono: "last_processed ar \<le> ev_id (last (ar_elems ar))"
  shows "\<exists>n ar'. shm_arbiter_buffer_drop ar 0 = Inr (n, ar') \<and> ar_elems ar' = []"
proof -
  have "length (ar_elems ar) < 18446744073709551615"
    using pq_elems_less_max [OF event_queue_inv [OF eq]] unfolding ar_elems_def by linarith
  then have m: "min (Suc (unat (0 - 1 :: size_t))) (length (ar_elems ar)) = length (ar_elems ar)" by simp
  show ?thesis using shm_arbiter_buffer_drop_ok [OF eq ne, of 0] mono ne unfolding m by (auto simp: last_conv_nth)
qed

end
