(* ===== verification/Arbiter_Flow.thy ===== *)
theory Arbiter_Flow
  imports Arbiter
begin

text \<open>
  What happens to the events between a stream and the monitor: the thread of \<open>core/shamon.c\<close>
  that moves events from a generic stream (\<open>streams/stream-generic.c\<close>) to its arbiter buffer,
  with the automatic dropping of \<open>core/arbiter.c\<close>. The main result is that no event gets lost
  silently: at every moment the queue, with the events that are being dropped, accounts for
  a gap-free range of event ids that ends with the last event read.
\<close>

section \<open>Generic streams\<close>

definition generic_is_ready :: "buffer \<Rightarrow> bool res" where
  "generic_is_ready b =
     (if buffer_is_ready b then Inr True
      else bindE (buffer_size b) (\<lambda>n. Inr (n > 0)))"

definition generic_alter :: "size_t \<Rightarrow> byte list \<Rightarrow> byte list \<Rightarrow> byte list" where
  "generic_alter event_size inp out = mem_upd out 0 (take (unat event_size) inp)"

text \<open>\<open>get_shared_buffer\<close> is an argument: the buffer it returns (\<open>None\<close> for \<open>NULL\<close>).\<close>

definition shm_create_generic_stream ::
    "uint64_t \<Rightarrow> buffer option \<Rightarrow> string \<Rightarrow> hole_handling option \<Rightarrow> (uint64_t \<times> shm_stream) res" where
  "shm_create_generic_stream last_stream_id shmbuffer name hole_handling =
     (case shmbuffer of
        None \<Rightarrow> Inl (Assertion ''Getting the shm buffer failed'')
      | Some b \<Rightarrow>
          (let elem_size = buffer_elem_size b in
           assertE (elem_size > 0) ''elem_size > 0''
           (shm_stream_init last_stream_id b elem_size generic_is_ready None (Some generic_alter)
              hole_handling ''generic-stream'' name)))"

section \<open>The thread of a buffer\<close>

text \<open>
  One iteration of the loop of \<open>default_buffer_manager_thrd\<close>. The result is \<open>Returned False\<close>
  when the stream has ended and \<open>Waiting\<close> when \<open>stream_fetch\<close> still waits. \<open>alter\<close> writes to
  the slot of the queue.
\<close>

definition bmm_step ::
    "nat \<Rightarrow> env \<Rightarrow> shm_arbiter_buffer \<Rightarrow> (bool waiting \<times> shm_arbiter_buffer) res" where
  "bmm_step fuel env ar =
     bindE (stream_fetch fuel env ar) (\<lambda>(r, ar).
     case r of
       Waiting \<Rightarrow> Inr (Waiting, ar)
     | Returned None \<Rightarrow> Inr (Returned False, ar)
     | Returned (Some p) \<Rightarrow>
         (let s = ar_stream ar; ev = bf_deref (st_buffer s) p in
          if (case st_filter s of None \<Rightarrow> False | Some f \<Rightarrow> \<not> f ev) then
            bindE (consume1 ar) (\<lambda>ar. Inr (Returned True, ar))
          else
            (let (out, ar) = shm_arbiter_buffer_write_ptr ar in
             case out of
               None \<Rightarrow> Inl (Assertion ''No space in the buffer'')
             | Some o_p \<Rightarrow>
                 (case st_alter s of
                    None \<Rightarrow> Inl (UB ''alter is NULL'')
                  | Some alter \<Rightarrow>
                      (let q = ar_buffer ar in
                       bindE (mem_read (pq_data q) (unat o_p) (unat (pq_elem_size q))) (\<lambda>old.
                       bindE (mem_write (pq_data q) (unat o_p) (alter (st_event_size s) ev old)) (\<lambda>d.
                       bindE (shm_arbiter_buffer_write_finish (set_queue ar (q\<lparr>pq_data := d\<rparr>))) (\<lambda>ar.
                       bindE (consume1 ar) (\<lambda>ar. Inr (Returned True, ar))))))))))"

primrec default_buffer_manager_loop ::
    "env list \<Rightarrow> nat \<Rightarrow> shm_arbiter_buffer \<Rightarrow> (unit waiting \<times> shm_arbiter_buffer) res" where
  "default_buffer_manager_loop [] fuel ar = Inr (Waiting, ar)"
| "default_buffer_manager_loop (env # envs) fuel ar =
     bindE (bmm_step fuel env ar) (\<lambda>(r, ar).
     case r of
       Waiting \<Rightarrow> Inr (Waiting, ar)
     | Returned False \<Rightarrow> Inr (Returned (), ar)
     | Returned True \<Rightarrow> default_buffer_manager_loop envs fuel ar)"

text \<open>Before the loop the thread waits for the buffer to become active.\<close>

fun default_buffer_manager_thrd ::
    "env \<Rightarrow> env list \<Rightarrow> nat \<Rightarrow> shm_arbiter_buffer \<Rightarrow> (unit waiting \<times> shm_arbiter_buffer) res" where
  "default_buffer_manager_thrd start envs fuel ar =
     (if shm_arbiter_buffer_active ar then default_buffer_manager_loop envs fuel ar
      else (case start of
          [] \<Rightarrow> Inr (Waiting, ar)
        | act # start \<Rightarrow> default_buffer_manager_thrd start envs fuel (act ar)))"

section \<open>The account of events\<close>

text \<open>
  The ids an element of the queue stands for: its own, or those of the events a default hole
  replaces (a hole has the id of the last of them).
\<close>

definition cover :: "byte list \<Rightarrow> nat list" where
  "cover x = (if ev_kind x = hole_kind
     then [Suc (unat (ev_id x)) - unat (hole_n x)..<Suc (unat (ev_id x))] else [unat (ev_id x)])"

definition pending :: "shm_arbiter_buffer \<Rightarrow> nat list" where
  "pending ar = (if ar_dropped_num ar = 0 then []
     else [unat (ar_drop_begin_id ar)..<unat (ar_drop_begin_id ar) + unat (ar_dropped_num ar)])"

abbreviation in_buffer :: "shm_arbiter_buffer \<Rightarrow> buffer" where
  "in_buffer ar \<equiv> st_buffer (ar_stream ar)"

abbreviation in_events :: "shm_arbiter_buffer \<Rightarrow> byte list list" where
  "in_events ar \<equiv> bf_elems (in_buffer ar)"

abbreviation next_id :: "shm_arbiter_buffer \<Rightarrow> nat" where
  "next_id ar \<equiv> Suc (unat (st_last_event_id (ar_stream ar)))"

text \<open>A generic stream with default holes; its buffer holds events with consecutive ids from \<open>n\<close> on.\<close>

definition stream_ok :: "shm_stream \<Rightarrow> nat \<Rightarrow> bool" where
  "stream_ok s n \<longleftrightarrow> event_queue (sb_queue (bf_shm (st_buffer s))) \<and> ranges_ok (st_buffer s) \<and>
     st_hole_handling s = default_hole_handling \<and> st_is_ready s = generic_is_ready \<and> st_filter s = None \<and>
     st_alter s = Some generic_alter \<and> st_event_size s = sb_elem_size (bf_shm (st_buffer s)) \<and>
     map (\<lambda>x. unat (ev_id x)) (bf_elems (st_buffer s)) = [n..<n + length (bf_elems (st_buffer s))] \<and>
     (\<forall>x \<in> set (bf_elems (st_buffer s)). ev_kind x \<noteq> hole_kind)"

text \<open>The arbiter buffer: room for events and holes, and the hole under construction.\<close>

definition queue_ok :: "shm_arbiter_buffer \<Rightarrow> bool" where
  "queue_ok ar \<longleftrightarrow> event_queue (ar_buffer ar) \<and> 24 \<le> pq_elem_size (ar_buffer ar) \<and>
     st_event_size (ar_stream ar) \<le> pq_elem_size (ar_buffer ar) \<and>
     1 \<le> ar_drop_space_threshold ar \<and> ar_drop_space_threshold ar < pq_capacity (ar_buffer ar) \<and>
     length (ar_hole_event ar) = 24 \<and>
     (ar_dropped_num ar \<noteq> 0 \<longrightarrow> ev_kind (ar_hole_event ar) = hole_kind \<and> hole_n (ar_hole_event ar) = ar_dropped_num ar \<and>
        0 < ar_drop_begin_id ar)"

text \<open>The ids up to \<open>n\<close> are accounted for, from some id on (older events were consumed).\<close>

definition accounted :: "shm_arbiter_buffer \<Rightarrow> nat \<Rightarrow> bool" where
  "accounted ar n \<longleftrightarrow> (\<exists>a \<le> n. concat (map cover (ar_elems ar)) @ pending ar = [a..<n])"

definition flow_inv :: "shm_arbiter_buffer \<Rightarrow> bool" where
  "flow_inv ar \<longleftrightarrow> queue_ok ar \<and> stream_ok (ar_stream ar) (next_id ar) \<and> accounted ar (next_id ar)"

section \<open>Holes\<close>

lemma hole_init:
  assumes "length h = 24"
  shows "length (default_hole_init h) = 24" "ev_kind (default_hole_init h) = hole_kind" "hole_n (default_hole_init h) = 0"
  using assms by (simp_all add: default_hole_init_def mem_upd_def ev_kind_def hole_n_def)

lemma hole_update:
  assumes "length h = 24"
  shows "length (default_hole_update h ev) = 24" "ev_kind (default_hole_update h ev) = ev_kind h"
    "hole_n (default_hole_update h ev) = hole_n h + 1"
  using assms by (simp_all add: default_hole_update_def mem_upd_def ev_kind_def hole_n_def min_def)

lemma prepare_hole:
  assumes "length h = 24" and "ev_kind h = hole_kind"
  shows "\<exists>h'. shm_stream_prepare_hole_event h i = Inr h' \<and> length h' = 24 \<and> ev_kind h' = hole_kind \<and>
    hole_n h' = hole_n h \<and> ev_id h' = i"
proof -
  have "shm_event_kind h 0 = Inr hole_kind" using assms by (simp add: shm_event_kind_def ev_kind_def)
  then have "shm_stream_prepare_hole_event h i = Inr (mem_upd h 8 (le64 i))"
    using assms by (simp add: shm_stream_prepare_hole_event_def hole_kind_def)
  moreover have "length (mem_upd h 8 (le64 i)) = 24" "ev_kind (mem_upd h 8 (le64 i)) = ev_kind h"
    "hole_n (mem_upd h 8 (le64 i)) = hole_n h" "ev_id (mem_upd h 8 (le64 i)) = i"
    using assms(1) by (simp_all add: mem_upd_def ev_kind_def hole_n_def ev_id_def min_def)
  ultimately show ?thesis using assms(2) by simp
qed

lemma header_of_padded:
  assumes "24 \<le> length h"
  shows "ev_kind (h @ pad) = ev_kind h" "ev_id (h @ pad) = ev_id h" "hole_n (h @ pad) = hole_n h"
  using assms by (simp_all add: ev_kind_def ev_id_def hole_n_def)

section \<open>The parts of an iteration\<close>

lemma free_space_ok:
  assumes "event_queue (ar_buffer ar)"
  shows "\<exists>f. shm_arbiter_buffer_free_space ar = Inr f \<and> unat f = unat (pq_capacity (ar_buffer ar)) - length (ar_elems ar)"
proof -
  let ?q = "ar_buffer ar"
  have "shm_spsc_ringbuf_free_num (pq_ringbuf ?q) = Inr (of_nat (unat (pq_capacity ?q) - length (ar_elems ar)))"
    using shm_spsc_ringbuf_free_num_ok [OF pq_inv_rb [OF event_queue_inv [OF assms]]] assms
    by (simp add: event_queue_def pq_inv_def ar_elems_def)
  moreover have "unat (pq_capacity ?q) - length (ar_elems ar) < 18446744073709551616"
    using unat_less_2p64 [of "pq_capacity ?q"] by linarith
  ultimately show ?thesis by (simp add: shm_arbiter_buffer_free_space_def shm_par_queue_free_num_def unat_of_nat_64)
qed

lemma consume1_ok:
  assumes s: "stream_ok (ar_stream ar) n" and ne: "in_events ar \<noteq> []"
  shows "\<exists>b. consume1 ar = Inr (ar\<lparr>ar_stream := (ar_stream ar)\<lparr>st_buffer := b\<rparr>\<rparr>) \<and>
    stream_ok ((ar_stream ar)\<lparr>st_buffer := b\<rparr>) (Suc n) \<and> bf_elems b = tl (in_events ar) \<and>
    sb_destroyed (bf_shm b) = sb_destroyed (bf_shm (in_buffer ar)) \<and>
    sb_last_processed_id (bf_shm b) = last_processed ar \<and> sb_data (bf_shm b) = sb_data (bf_shm (in_buffer ar))"
proof -
  let ?b = "in_buffer ar"
  have eq: "event_queue (sb_queue (bf_shm ?b))" using s by (simp add: stream_ok_def)
  then have ok: "bf_ok ?b" by (simp add: bf_ok_def event_queue_def)
  have "1 \<le> unat (sb_capacity (bf_shm ?b))"
    using event_queue_inv [OF eq] by (simp add: pq_inv_def sb_queue_def word_less_nat_alt)
  moreover have "rb_capacity (bf_ringbuf ?b) < SIZE_MAX - 1"
    using event_queue_inv [OF eq] by (simp add: pq_inv_def sb_queue_def rb_inv_def)
  ultimately obtain rb where d: "buffer_drop_k ?b 1 = Inr (1 \<le> length (in_events ar), set_ringbuf ?b rb)"
      "bf_ok (set_ringbuf ?b rb)" "bf_elems (set_ringbuf ?b rb) = tl (in_events ar)"
    using buffer_drop_k_ok [OF ok, of 1] by (auto simp: drop_Suc)
  let ?b' = "set_ringbuf ?b rb"
  have "consume1 ar = Inr (ar\<lparr>ar_stream := (ar_stream ar)\<lparr>st_buffer := ?b'\<rparr>\<rparr>)"
    using d(1) by (simp add: consume1_def shm_stream_consume_def)
  moreover have "stream_ok ((ar_stream ar)\<lparr>st_buffer := ?b'\<rparr>) (Suc n)"
  proof -
    have "event_queue (sb_queue (bf_shm ?b'))"
      using d(2) eq by (simp add: bf_ok_def event_queue_def sb_queue_def)
    moreover have "Suc n + length (tl (in_events ar)) = n + length (in_events ar)"
      using ne by (cases "in_events ar") simp_all
    then have "map (\<lambda>x. unat (ev_id x)) (tl (in_events ar)) = [Suc n..<Suc n + length (tl (in_events ar))]"
      using s by (simp only: stream_ok_def map_tl tl_upt)
    moreover have "\<forall>x \<in> set (tl (in_events ar)). ev_kind x \<noteq> hole_kind"
      using s by (cases "in_events ar") (auto simp: stream_ok_def)
    moreover have "ranges_ok ?b'" using s by (simp add: stream_ok_def ranges_ok_def)
    ultimately show ?thesis using s d(3) by (simp add: stream_ok_def)
  qed
  ultimately show ?thesis using d(3) by auto
qed

lemma notify_dropped_ok:
  assumes s: "stream_ok (ar_stream ar) n"
  shows "\<exists>b. shm_arbiter_buffer_notify_dropped ar begin_id end_id = Inr (ar\<lparr>ar_stream := (ar_stream ar)\<lparr>st_buffer := b\<rparr>\<rparr>) \<and>
    stream_ok ((ar_stream ar)\<lparr>st_buffer := b\<rparr>) n \<and> bf_elems b = in_events ar \<and>
    sb_destroyed (bf_shm b) = sb_destroyed (bf_shm (in_buffer ar)) \<and>
    sb_last_processed_id (bf_shm b) = last_processed ar \<and> sb_data (bf_shm b) = sb_data (bf_shm (in_buffer ar))"
proof -
  have "ranges_ok (in_buffer ar)" using s by (simp add: stream_ok_def)
  from buffer_notify_dropped_ok [OF this, of begin_id end_id] obtain b where
    b: "buffer_notify_dropped (in_buffer ar) begin_id end_id = Inr b" "ranges_ok b"
      "sb_queue (bf_shm b) = sb_queue (bf_shm (in_buffer ar))"
      "sb_destroyed (bf_shm b) = sb_destroyed (bf_shm (in_buffer ar))" "sb_last_processed_id (bf_shm b) = last_processed ar"
      "sb_data (bf_shm b) = sb_data (bf_shm (in_buffer ar))"
    by auto
  have "sb_elem_size (bf_shm b) = sb_elem_size (bf_shm (in_buffer ar))"
    using arg_cong [OF b(3), of pq_elem_size] by (simp add: sb_queue_def)
  then show ?thesis using b s
    by (intro exI [of _ b])
      (simp add: shm_arbiter_buffer_notify_dropped_def shm_stream_notify_dropped_def stream_ok_def bf_elems_def)
qed

section \<open>Ranges of ids\<close>

lemma upt_append_last:
  assumes eq: "xs @ [b..<c] = [a..<n]" and "b < c"
  shows "c = n"
proof -
  have "xs @ [b..<c] \<noteq> []" using assms(2) by simp
  then have "[a..<n] \<noteq> []" unfolding eq .
  then have "last [a..<n] = n - 1" "0 < n" by simp_all
  moreover have "last (xs @ [b..<c]) = c - 1" using assms(2) by simp
  ultimately show ?thesis using eq assms(2) by simp
qed

lemma accounted_pending:
  assumes "accounted ar n" and "ar_dropped_num ar \<noteq> 0"
  shows "unat (ar_drop_begin_id ar) + unat (ar_dropped_num ar) = n"
proof -
  obtain a where "concat (map cover (ar_elems ar)) @ pending ar = [a..<n]" using assms(1) by (auto simp: accounted_def)
  then show ?thesis using assms(2) by (intro upt_append_last) (auto simp: pending_def word_64_eq_iff)
qed

text \<open>One more id: the event \<open>n\<close> joins the pending ones, or goes to the queue.\<close>

lemma accounted_extend:
  assumes "accounted ar n"
    and "concat (map cover (ar_elems ar')) @ pending ar' = (concat (map cover (ar_elems ar)) @ pending ar) @ [n]"
  shows "accounted ar' (Suc n)"
proof -
  obtain a where "a \<le> n" "concat (map cover (ar_elems ar)) @ pending ar = [a..<n]" using assms(1) by (auto simp: accounted_def)
  then have "concat (map cover (ar_elems ar')) @ pending ar' = [a..<Suc n]" using assms(2) by simp
  then show ?thesis using \<open>a \<le> n\<close> by (auto simp: accounted_def)
qed

lemma accounted_same:
  "accounted ar n \<Longrightarrow> concat (map cover (ar_elems ar')) @ pending ar' = concat (map cover (ar_elems ar)) @ pending ar \<Longrightarrow>
    accounted ar' n"
  by (simp add: accounted_def)

text \<open>The consumer removes elements from the front.\<close>

lemma accounted_drop:
  assumes "accounted ar n" and "ar_elems ar' = drop k (ar_elems ar)" and "pending ar' = pending ar"
  shows "accounted ar' n"
proof -
  obtain a where a: "a \<le> n" "concat (map cover (ar_elems ar)) @ pending ar = [a..<n]" using assms(1) by (auto simp: accounted_def)
  let ?xs = "concat (map cover (take k (ar_elems ar)))"
  have "?xs @ (concat (map cover (ar_elems ar')) @ pending ar') = [a..<n]"
    using a(2) assms(2,3) by (simp flip: concat_append map_append append_assoc)
  then have "concat (map cover (ar_elems ar')) @ pending ar' = drop (length ?xs) [a..<n]"
    and "length ?xs \<le> length [a..<n]"
    by (metis append_eq_conv_conj, metis le_add1 length_append)
  then have "concat (map cover (ar_elems ar')) @ pending ar' = [a + length ?xs..<n]" "a + length ?xs \<le> n"
    using a(1) by (simp_all add: drop_upt)
  then show ?thesis by (auto simp: accounted_def)
qed

section \<open>Dropping\<close>

text \<open>What the thread leaves unchanged while it handles an event.\<close>

definition frame_of :: "shm_arbiter_buffer \<Rightarrow> size_t \<times> bool \<times> bool \<times> size_t \<times> size_t \<times> shm_eventid \<times> byte list \<times> size_t" where
  "frame_of ar = (st_last_event_id (ar_stream ar), sb_destroyed (bf_shm (in_buffer ar)), ar_active ar,
     ar_drop_space_threshold ar, pq_capacity (ar_buffer ar), last_processed ar, sb_data (bf_shm (in_buffer ar)),
     st_event_size (ar_stream ar))"

lemma push_dropped_event_ok:
  assumes q: "queue_ok ar" and s: "stream_ok (ar_stream ar) n" and d: "ar_dropped_num ar \<noteq> 0"
    and room: "length (ar_elems ar) + 1 < unat (pq_capacity (ar_buffer ar))"
  shows "\<exists>ar' x. push_dropped_event ar i = Inr ar' \<and> ar_elems ar' = ar_elems ar @ [x] \<and> ev_kind x = hole_kind \<and>
    hole_n x = ar_dropped_num ar \<and> ev_id x = i \<and> queue_ok ar' \<and> stream_ok (ar_stream ar') n \<and>
    in_events ar' = in_events ar \<and> frame_of ar' = frame_of ar \<and> ar_dropped_num ar' = ar_dropped_num ar"
proof -
  have eq: "event_queue (ar_buffer ar)" and sz: "24 \<le> unat (pq_elem_size (ar_buffer ar))"
    and hl: "length (ar_hole_event ar) = 24" "ev_kind (ar_hole_event ar) = hole_kind" "hole_n (ar_hole_event ar) = ar_dropped_num ar"
    using q d by (simp_all add: queue_ok_def word_le_nat_alt)
  obtain h where h: "shm_stream_prepare_hole_event (ar_hole_event ar) i = Inr h" "length h = 24" "ev_kind h = hole_kind"
      "hole_n h = ar_dropped_num ar" "ev_id h = i"
    using prepare_hole [OF hl(1,2), of i] hl(3) by auto
  have hs: "hh_size (st_hole_handling (ar_stream ar)) = 24"
    using s by (simp add: stream_ok_def default_hole_handling_def SIZEOF_DEFAULT_HOLE_def)
  obtain q' pad where p: "shm_par_queue_push (ar_buffer ar) h 24 = Inr (True, q')" "pq_inv q'"
      "pq_capacity q' = pq_capacity (ar_buffer ar)" "pq_elem_size q' = pq_elem_size (ar_buffer ar)"
      "pq_elems q' = ar_elems ar @ [h @ pad]"
    using shm_par_queue_push_ok [OF event_queue_inv [OF eq], of 24 h] sz h(2) room
    by (auto simp: ar_elems_def word_le_nat_alt simp del: length_pq_elems)
  let ?ar1 = "ar\<lparr>ar_hole_event := h, ar_buffer := q', ar_total_dropped_num := ar_total_dropped_num ar + ar_dropped_num ar,
    ar_total_dropped_times := ar_total_dropped_times ar + 1\<rparr>"
  have eq': "event_queue q'" using p(2,4) eq by (simp add: event_queue_def)
  have q1: "queue_ok ?ar1" using q p(3,4) eq' h(2,3,4) by (simp add: queue_ok_def)
  have s1: "stream_ok (ar_stream ?ar1) n" using s by simp
  obtain b where b: "shm_arbiter_buffer_notify_dropped ?ar1 (ar_drop_begin_id ar) i =
        Inr (?ar1\<lparr>ar_stream := (ar_stream ar)\<lparr>st_buffer := b\<rparr>\<rparr>)"
      "stream_ok ((ar_stream ar)\<lparr>st_buffer := b\<rparr>) n" "bf_elems b = in_events ar"
      "sb_destroyed (bf_shm b) = sb_destroyed (bf_shm (in_buffer ar))" "sb_last_processed_id (bf_shm b) = last_processed ar"
      "sb_data (bf_shm b) = sb_data (bf_shm (in_buffer ar))"
    using notify_dropped_ok [OF s1, of "ar_drop_begin_id ar" i] by auto
  let ?ar2 = "?ar1\<lparr>ar_stream := (ar_stream ar)\<lparr>st_buffer := b\<rparr>\<rparr>"
  have e2: "ar_elems ?ar2 = ar_elems ar @ [h @ pad]" using p(5) by (simp add: ar_elems_def)
  have "event_queue (ar_buffer ?ar2)" using eq' by simp
  from free_space_ok [OF this] obtain f where f: "shm_arbiter_buffer_free_space ?ar2 = Inr f" "0 < f"
    using room e2 p(3) by (auto simp: word_less_nat_alt)
  have "push_dropped_event ar i = Inr ?ar2"
    using h(1) hs p(1) b(1) f by (simp add: push_dropped_event_def assert_free_space_def Let_def)
  moreover have "queue_ok ?ar2" using q1 by (simp add: queue_ok_def)
  moreover have "ev_kind (h @ pad) = hole_kind" "hole_n (h @ pad) = ar_dropped_num ar" "ev_id (h @ pad) = i"
    using header_of_padded [of h pad] h by simp_all
  ultimately show ?thesis using e2 b(2-6) p(3)
    by (intro exI [of _ ?ar2] exI [of _ "h @ pad"]) (simp add: frame_of_def)
qed

lemma consume1_flow:
  assumes "queue_ok ar" and "stream_ok (ar_stream ar) n" and "in_events ar \<noteq> []"
  shows "\<exists>ar'. consume1 ar = Inr ar' \<and> queue_ok ar' \<and> stream_ok (ar_stream ar') (Suc n) \<and> in_events ar' = tl (in_events ar) \<and>
    frame_of ar' = frame_of ar \<and> ar_elems ar' = ar_elems ar \<and> pending ar' = pending ar \<and> ar_dropped_num ar' = ar_dropped_num ar"
proof -
  obtain b where b: "consume1 ar = Inr (ar\<lparr>ar_stream := (ar_stream ar)\<lparr>st_buffer := b\<rparr>\<rparr>)"
      "stream_ok ((ar_stream ar)\<lparr>st_buffer := b\<rparr>) (Suc n)" "bf_elems b = tl (in_events ar)"
      "sb_destroyed (bf_shm b) = sb_destroyed (bf_shm (in_buffer ar))" "sb_last_processed_id (bf_shm b) = last_processed ar"
      "sb_data (bf_shm b) = sb_data (bf_shm (in_buffer ar))"
    using consume1_ok [OF assms(2,3)] by auto
  then show ?thesis using assms(1)
    by (intro exI [of _ "ar\<lparr>ar_stream := (ar_stream ar)\<lparr>st_buffer := b\<rparr>\<rparr>"])
      (simp add: queue_ok_def frame_of_def pending_def ar_elems_def)
qed

text \<open>The event \<open>n\<close> is dropped: it joins the pending ones.\<close>

definition dropped_to :: "shm_arbiter_buffer \<Rightarrow> nat \<Rightarrow> shm_arbiter_buffer \<Rightarrow> bool" where
  "dropped_to ar n ar' \<longleftrightarrow> queue_ok ar' \<and> stream_ok (ar_stream ar') (Suc n) \<and> accounted ar' (Suc n) \<and>
     in_events ar' = tl (in_events ar) \<and> ar_elems ar' = ar_elems ar \<and> frame_of ar' = frame_of ar \<and> ar_dropped_num ar' \<noteq> 0"

lemma unat_add_1: "unat (x :: size_t) + 1 < 18446744073709551616 \<Longrightarrow> unat (x + 1) = unat x + 1"
  by (simp add: unat_add_64)

lemma start_dropping_ok:
  assumes q: "queue_ok ar" and s: "stream_ok (ar_stream ar) n" and acc: "accounted ar n" and ne: "in_events ar \<noteq> []"
    and ev: "unat (ev_id ev) = n" "0 < n" and d: "ar_dropped_num ar = 0"
  shows "\<exists>ar'. start_dropping ar ev = Inr ar' \<and> dropped_to ar n ar'"
proof -
  let ?ar1 = "ar\<lparr>ar_drop_begin_id := ev_id ev, ar_dropped_num := 1,
    ar_hole_event := default_hole_update (default_hole_init (ar_hole_event ar)) ev\<rparr>"
  have hh: "st_hole_handling (ar_stream ar) = default_hole_handling" using s by (simp add: stream_ok_def)
  have hl: "length (ar_hole_event ar) = 24" using q by (simp add: queue_ok_def)
  have q1: "queue_ok ?ar1" using q hole_init [OF hl] hole_update [OF hole_init(1) [OF hl]] ev
    by (simp add: queue_ok_def word_less_nat_alt)
  obtain ar' where c: "consume1 ?ar1 = Inr ar'" "queue_ok ar'" "stream_ok (ar_stream ar') (Suc n)"
      "in_events ar' = tl (in_events ar)" "frame_of ar' = frame_of ?ar1" "ar_elems ar' = ar_elems ?ar1" "pending ar' = pending ?ar1"
      "ar_dropped_num ar' = 1"
    using consume1_flow [OF q1, of n] s ne by auto
  have "start_dropping ar ev = Inr ar'"
    using c(1) d by (simp add: start_dropping_def Let_def hh default_hole_handling_def)
  moreover have "accounted ar' (Suc n)"
    using c(6,7) d ev by (intro accounted_extend [OF acc]) (simp add: pending_def ar_elems_def)
  ultimately show ?thesis using c by (simp add: dropped_to_def frame_of_def ar_elems_def)
qed

lemma continue_dropping_ok:
  assumes q: "queue_ok ar" and s: "stream_ok (ar_stream ar) n" and acc: "accounted ar n" and ne: "in_events ar \<noteq> []"
    and ev: "unat (ev_id ev) = n" and d: "ar_dropped_num ar \<noteq> 0"
  shows "\<exists>ar'. continue_dropping ar ev = Inr ar' \<and> dropped_to ar n ar'"
proof -
  let ?ar1 = "ar\<lparr>ar_dropped_num := ar_dropped_num ar + 1, ar_hole_event := default_hole_update (ar_hole_event ar) ev\<rparr>"
  have hh: "st_hole_handling (ar_stream ar) = default_hole_handling" using s by (simp add: stream_ok_def)
  have hl: "length (ar_hole_event ar) = 24" using q by (simp add: queue_ok_def)
  note n = accounted_pending [OF acc d]
  have b0: "unat (ar_dropped_num ar) + 1 < 18446744073709551616"
    using n ev q d unat_less_2p64 [of "ev_id ev"] by (simp add: queue_ok_def word_less_nat_alt)
  then have u: "unat (ar_dropped_num ar + 1) = unat (ar_dropped_num ar) + 1" by (rule unat_add_1)
  then have nz: "ar_dropped_num ar + 1 \<noteq> 0" by (simp add: word_64_eq_iff)
  have q1: "queue_ok ?ar1" using q d hole_update [OF hl] by (simp add: queue_ok_def)
  have s1: "stream_ok (ar_stream ?ar1) n" using s by simp
  have pen: "pending ?ar1 = pending ar @ [n]" using u nz d n by (simp add: pending_def)
  obtain b where b: "shm_arbiter_buffer_notify_dropped ?ar1 (ar_drop_begin_id ar) (ev_id ev - 1) =
        Inr (?ar1\<lparr>ar_stream := (ar_stream ar)\<lparr>st_buffer := b\<rparr>\<rparr>)"
      "stream_ok ((ar_stream ar)\<lparr>st_buffer := b\<rparr>) n" "bf_elems b = in_events ar"
      "sb_destroyed (bf_shm b) = sb_destroyed (bf_shm (in_buffer ar))" "sb_last_processed_id (bf_shm b) = last_processed ar"
      "sb_data (bf_shm b) = sb_data (bf_shm (in_buffer ar))"
    using notify_dropped_ok [OF s1, of "ar_drop_begin_id ar" "ev_id ev - 1"] by auto
  let ?ar2 = "if (ar_dropped_num ar + 1) mod 10000 = 0 then ?ar1\<lparr>ar_stream := (ar_stream ar)\<lparr>st_buffer := b\<rparr>\<rparr> else ?ar1"
  have q2: "queue_ok ?ar2" using q1 by (simp add: queue_ok_def)
  have s2: "stream_ok (ar_stream ?ar2) n" "in_events ?ar2 \<noteq> []" using b s ne by simp_all
  obtain ar' where c: "consume1 ?ar2 = Inr ar'" "queue_ok ar'" "stream_ok (ar_stream ar') (Suc n)"
      "in_events ar' = tl (in_events ?ar2)" "frame_of ar' = frame_of ?ar2" "ar_elems ar' = ar_elems ?ar2" "pending ar' = pending ?ar2"
      "ar_dropped_num ar' = ar_dropped_num ?ar2"
    using consume1_flow [OF q2 s2] by (elim exE conjE) (rule that)
  have "pending ?ar2 = pending ?ar1" by (simp add: pending_def)
  then have f: "in_events ?ar2 = in_events ar" "frame_of ?ar2 = frame_of ar" "ar_elems ?ar2 = ar_elems ar" "pending ?ar2 = pending ar @ [n]"
    using b pen by (simp_all add: frame_of_def ar_elems_def)
  have "continue_dropping ar ev = consume1 ?ar2"
    using b(1) by (simp add: continue_dropping_def Let_def hh default_hole_handling_def)
  moreover have "accounted ar' (Suc n)"
    using c(6,7) f by (intro accounted_extend [OF acc]) simp
  ultimately show ?thesis using c f nz by (simp add: dropped_to_def)
qed

text \<open>The hole covers the pending ids, and the current event can be forwarded.\<close>

definition forwards_to :: "shm_arbiter_buffer \<Rightarrow> nat \<Rightarrow> shm_arbiter_buffer \<Rightarrow> bool" where
  "forwards_to ar n ar' \<longleftrightarrow> queue_ok ar' \<and> stream_ok (ar_stream ar') n \<and> accounted ar' n \<and>
     in_events ar' = in_events ar \<and> frame_of ar' = frame_of ar \<and> ar_dropped_num ar' = 0 \<and>
     length (ar_elems ar') < unat (pq_capacity (ar_buffer ar'))"

lemma send_dropped_event_ok:
  assumes q: "queue_ok ar" and s: "stream_ok (ar_stream ar) n" and acc: "accounted ar n"
    and i: "unat i = n" and d: "ar_dropped_num ar \<noteq> 0"
    and room: "length (ar_elems ar) + 1 < unat (pq_capacity (ar_buffer ar))"
  shows "\<exists>ar'. send_dropped_event ar i = Inr ar' \<and> forwards_to ar n ar'"
proof -
  note n = accounted_pending [OF acc d]
  have dpos: "0 < unat (ar_dropped_num ar)" using d by (simp add: word_64_eq_iff)
  have ids: "i = ar_dropped_num ar + ar_drop_begin_id ar"
    using n i unat_less_2p64 [of i] by (simp add: word_64_eq_iff unat_add_64 add.commute)
  have i1: "unat (i - 1) = n - 1" using i n dpos by (simp add: unat_sub_64)
  obtain ar1 x where p: "push_dropped_event ar (i - 1) = Inr ar1" "ar_elems ar1 = ar_elems ar @ [x]" "ev_kind x = hole_kind"
      "hole_n x = ar_dropped_num ar" "ev_id x = i - 1" "queue_ok ar1" "stream_ok (ar_stream ar1) n"
      "in_events ar1 = in_events ar" "frame_of ar1 = frame_of ar"
    using push_dropped_event_ok [OF q s d room, of "i - 1"] by (elim exE conjE) (rule that)
  let ?ar2 = "ar1\<lparr>ar_dropped_num := 0\<rparr>"
  have q2: "queue_ok ?ar2" using p(6) by (simp add: queue_ok_def)
  have cap: "pq_capacity (ar_buffer ar1) = pq_capacity (ar_buffer ar)" using p(9) by (simp add: frame_of_def)
  have "event_queue (ar_buffer ?ar2)" using q2 by (simp add: queue_ok_def)
  from free_space_ok [OF this] obtain f where f: "shm_arbiter_buffer_free_space ?ar2 = Inr f" "0 < f"
    using room p(2) cap by (auto simp: word_less_nat_alt ar_elems_def simp del: length_pq_elems)
  have "send_dropped_event ar i = Inr ?ar2"
    using ids p(1) f by (simp add: send_dropped_event_def assert_free_space_def Let_def)
  moreover have "n - unat (ar_dropped_num ar) = unat (ar_drop_begin_id ar)" using n by linarith
  then have "cover x = pending ar"
    using p(3-5) i1 n dpos d by (simp add: cover_def pending_def)
  then have "accounted ?ar2 n"
    using p(2) by (intro accounted_same [OF acc]) (simp add: ar_elems_def pending_def)
  ultimately show ?thesis using p(2,7-9) q2 room cap
    by (intro exI [of _ ?ar2]) (simp add: forwards_to_def frame_of_def ar_elems_def del: length_pq_elems)
qed

text \<open>
  What \<open>handle_dropping_event\<close> does with the event \<open>n\<close>: a drop, or a forward with room in the queue.
  The decision depends on the free slots of the queue alone.
\<close>

definition must_drop :: "shm_arbiter_buffer \<Rightarrow> bool" where
  "must_drop ar \<longleftrightarrow> (let free = unat (pq_capacity (ar_buffer ar)) - length (ar_elems ar) in
     if ar_dropped_num ar = 0 then free = 0 else free \<le> unat (ar_drop_space_threshold ar))"

lemma handle_dropping_event_ok:
  assumes q: "queue_ok ar" and s: "stream_ok (ar_stream ar) n" and acc: "accounted ar n" and ne: "in_events ar \<noteq> []"
    and ev: "unat (ev_id ev) = n" "0 < n"
  shows "\<exists>ar'. handle_dropping_event ar ev = Inr (must_drop ar, ar') \<and>
    (if must_drop ar then dropped_to ar n ar' else forwards_to ar n ar')"
proof -
  have eq: "event_queue (ar_buffer ar)" and thr: "1 \<le> unat (ar_drop_space_threshold ar)"
    "ar_drop_space_threshold ar < pq_capacity (ar_buffer ar)"
    using q by (simp_all add: queue_ok_def word_le_nat_alt)
  obtain f where f: "shm_arbiter_buffer_free_space ar = Inr f" "unat f = unat (pq_capacity (ar_buffer ar)) - length (ar_elems ar)"
    using free_space_ok [OF eq] by auto
  have md: "must_drop ar \<longleftrightarrow> (if ar_dropped_num ar = 0 then f = 0 else \<not> ar_drop_space_threshold ar < f)"
    using f(2) by (auto simp: must_drop_def Let_def word_64_eq_iff word_less_nat_alt simp del: length_pq_elems)
  show ?thesis
  proof (cases "ar_dropped_num ar = 0")
    case True
    show ?thesis
    proof (cases "f = 0")
      case full: True
      then show ?thesis using True md f(1) start_dropping_ok [OF q s acc ne ev True]
        by (auto simp: handle_dropping_event_def)
    next
      case False
      then have "length (ar_elems ar) < unat (pq_capacity (ar_buffer ar))" using f(2) by (simp add: word_64_eq_iff)
      then show ?thesis using True False md f(1) q s acc by (auto simp: handle_dropping_event_def forwards_to_def)
    qed
  next
    case False
    then have pos: "0 < ar_dropped_num ar" by (simp add: word_neq_0_conv)
    show ?thesis
    proof (cases "ar_drop_space_threshold ar < f")
      case True
      then have "length (ar_elems ar) + 1 < unat (pq_capacity (ar_buffer ar))" using f(2) thr(1) by (simp add: word_less_nat_alt)
      from send_dropped_event_ok [OF q s acc ev(1) False this] show ?thesis
        using pos True False md f(1) thr(2) by (auto simp: handle_dropping_event_def shm_arbiter_buffer_capacity_def shm_par_queue_capacity_def)
    next
      case no_room: False
      from continue_dropping_ok [OF q s acc ne ev(1) False] show ?thesis
        using pos no_room False md f(1) thr(2) by (auto simp: handle_dropping_event_def shm_arbiter_buffer_capacity_def shm_par_queue_capacity_def)
    qed
  qed
qed

section \<open>Waiting for events\<close>

text \<open>
  The other threads, while this one waits: whatever the monitor takes from the queue and the
  source appends to the stream, the flow invariant holds; they do not touch the bookkeeping of
  this thread, and a stream that was destroyed and is empty stays so.
\<close>

definition at_end :: "shm_arbiter_buffer \<Rightarrow> bool" where
  "at_end ar \<longleftrightarrow> sb_destroyed (bf_shm (in_buffer ar)) \<and> in_events ar = []"

definition env_ok :: "env \<Rightarrow> bool" where
  "env_ok env \<longleftrightarrow> (\<forall>act \<in> set env. \<forall>ar. flow_inv ar \<longrightarrow> flow_inv (act ar) \<and>
     st_last_event_id (ar_stream (act ar)) = st_last_event_id (ar_stream ar) \<and>
     ar_dropped_num (act ar) = ar_dropped_num ar \<and> (at_end ar \<longrightarrow> at_end (act ar)))"

lemma env_ok_Cons:
  "env_ok (act # env) \<Longrightarrow> flow_inv ar \<Longrightarrow> flow_inv (act ar) \<and>
     st_last_event_id (ar_stream (act ar)) = st_last_event_id (ar_stream ar) \<and>
     ar_dropped_num (act ar) = ar_dropped_num ar \<and> (at_end ar \<longrightarrow> at_end (act ar))"
  "env_ok (act # env) \<Longrightarrow> env_ok env"
  by (simp_all add: env_ok_def)

lemma flow_invD:
  assumes "flow_inv ar"
  shows "queue_ok ar" "stream_ok (ar_stream ar) (next_id ar)" "accounted ar (next_id ar)"
  using assms by (simp_all add: flow_inv_def)

lemma generic_is_ready_ok:
  assumes "stream_ok (ar_stream ar) n"
  shows "shm_stream_is_ready (ar_stream ar) = Inr (\<not> at_end ar)"
proof -
  let ?b = "in_buffer ar"
  have inv: "pq_inv (sb_queue (bf_shm ?b))" and r: "st_is_ready (ar_stream ar) = generic_is_ready"
    using assms by (simp_all add: stream_ok_def event_queue_def)
  have i: "rb_inv (bf_ringbuf ?b)" using pq_inv_rb [OF inv] by (simp add: sb_queue_def)
  have len: "length (in_events ar) = rb_written (bf_ringbuf ?b)" by (simp add: bf_elems_def sb_queue_def)
  have "buffer_size ?b = Inr (of_nat (rb_written (bf_ringbuf ?b)))"
    using shm_spsc_ringbuf_size_ok [OF i] by (simp add: buffer_size_def)
  moreover have "rb_written (bf_ringbuf ?b) < 18446744073709551616"
    using rb_written_less [OF i] unat_less_2p64 [of "rb_capacity (bf_ringbuf ?b)"] by linarith
  then have "(0 :: size_t) < of_nat (rb_written (bf_ringbuf ?b)) \<longleftrightarrow> in_events ar \<noteq> []"
    using len by (simp add: word_less_nat_alt unat_of_nat_64 flip: length_greater_0_conv)
  ultimately show ?thesis
    by (auto simp: shm_stream_is_ready_def r generic_is_ready_def at_end_def buffer_is_ready_def)
qed

lemma read_events_ok:
  assumes inv: "flow_inv ar"
  shows "\<exists>p n s. shm_stream_read_events (ar_stream ar) = Inr (p, n, s) \<and>
    flow_inv (ar\<lparr>ar_stream := s\<rparr>) \<and> st_last_event_id s = st_last_event_id (ar_stream ar) \<and>
    (case p of None \<Rightarrow> True
     | Some a \<Rightarrow> bf_elems (st_buffer s) \<noteq> [] \<and> bf_deref (st_buffer s) a = hd (bf_elems (st_buffer s)))"
proof -
  let ?b = "in_buffer ar"
  note s = flow_invD(2) [OF inv]
  have eq: "event_queue (sb_queue (bf_shm ?b))" using s by (simp add: stream_ok_def)
  then have ok: "bf_ok ?b" by (simp add: bf_ok_def event_queue_def)
  obtain p rb where r: "buffer_read_pointer ?b = Inr (p, of_nat (rb_avail rb), set_ringbuf ?b rb)"
      "bf_ok (set_ringbuf ?b rb)" "bf_elems (set_ringbuf ?b rb) = in_events ar"
      "case p of None \<Rightarrow> in_events ar = [] | Some a \<Rightarrow> in_events ar \<noteq> [] \<and> bf_deref ?b a = hd (in_events ar) \<and>
        unat a + unat (sb_elem_size (bf_shm ?b)) \<le> length (sb_data (bf_shm ?b)) \<and> 0 < rb_avail rb"
    using buffer_read_pointer_ok [OF ok] by (elim exE conjE) (rule that)
  let ?s = "(ar_stream ar)\<lparr>st_buffer := set_ringbuf ?b rb\<rparr>"
  have "event_queue (sb_queue (bf_shm (set_ringbuf ?b rb)))"
    using r(2) eq by (simp add: bf_ok_def event_queue_def sb_queue_def)
  then have "stream_ok ?s (next_id ar)" using s r(3) by (simp add: stream_ok_def ranges_ok_def)
  moreover have "accounted (ar\<lparr>ar_stream := ?s\<rparr>) (next_id ar)"
    by (rule accounted_same [OF flow_invD(3) [OF inv]]) (simp add: ar_elems_def pending_def)
  ultimately have "flow_inv (ar\<lparr>ar_stream := ?s\<rparr>)"
    using flow_invD(1) [OF inv] by (simp add: flow_inv_def queue_ok_def)
  moreover have "bf_deref (set_ringbuf ?b rb) a = bf_deref ?b a" for a by (simp add: bf_deref_def)
  ultimately show ?thesis using r
    by (intro exI [of _ p] exI [of _ "of_nat (rb_avail rb)"] exI [of _ ?s])
      (simp add: shm_stream_read_events_def at_end_def split: option.splits)
qed

definition waited :: "env \<Rightarrow> shm_arbiter_buffer \<Rightarrow> (size_t option \<times> env) waiting \<Rightarrow> shm_arbiter_buffer \<Rightarrow> bool" where
  "waited env ar r ar' \<longleftrightarrow> flow_inv ar' \<and> st_last_event_id (ar_stream ar') = st_last_event_id (ar_stream ar) \<and>
     ar_dropped_num ar' = ar_dropped_num ar \<and>
     (case r of Waiting \<Rightarrow> True
      | Returned (p, env') \<Rightarrow> set env' \<subseteq> set env \<and>
          (case p of None \<Rightarrow> at_end ar'
           | Some a \<Rightarrow> in_events ar' \<noteq> [] \<and> bf_deref (in_buffer ar') a = hd (in_events ar')))"

lemma waited_step:
  assumes "waited env ar1 r ar'" and "st_last_event_id (ar_stream ar1) = st_last_event_id (ar_stream ar)"
    and "ar_dropped_num ar1 = ar_dropped_num ar"
  shows "waited (act # env) ar r ar'"
  using assms by (auto simp: waited_def split: waiting.splits)

lemma wait_event_loop_ok:
  "flow_inv ar \<Longrightarrow> env_ok env \<Longrightarrow>
    \<exists>r ar'. wait_event_loop env sleep_time spinned ar = Inr (r, ar') \<and> waited env ar r ar'"
proof (induction env arbitrary: sleep_time spinned ar)
  case Nil
  obtain p n s where r: "shm_stream_read_events (ar_stream ar) = Inr (p, n, s)" "flow_inv (ar\<lparr>ar_stream := s\<rparr>)"
      "st_last_event_id s = st_last_event_id (ar_stream ar)"
      "case p of None \<Rightarrow> True | Some a \<Rightarrow> bf_elems (st_buffer s) \<noteq> [] \<and> bf_deref (st_buffer s) a = hd (bf_elems (st_buffer s))"
    using read_events_ok [OF Nil(1)] by (elim exE conjE) (rule that)
  then show ?case by (auto simp: waited_def split: option.splits)
next
  case (Cons act env)
  obtain p n s where r: "shm_stream_read_events (ar_stream ar) = Inr (p, n, s)" "flow_inv (ar\<lparr>ar_stream := s\<rparr>)"
      "st_last_event_id s = st_last_event_id (ar_stream ar)"
      "case p of None \<Rightarrow> True | Some a \<Rightarrow> bf_elems (st_buffer s) \<noteq> [] \<and> bf_deref (st_buffer s) a = hd (bf_elems (st_buffer s))"
    using read_events_ok [OF Cons.prems(1)] by (elim exE conjE) (rule that)
  show ?case
  proof (cases p)
    case (Some a)
    then show ?thesis using r by (auto simp: waited_def)
  next
    case None
    let ?ar1 = "act (ar\<lparr>ar_stream := s\<rparr>)"
    have a: "flow_inv ?ar1" "st_last_event_id (ar_stream ?ar1) = st_last_event_id (ar_stream ar)"
        "ar_dropped_num ?ar1 = ar_dropped_num ar"
      using env_ok_Cons(1) [OF Cons.prems(2) r(2)] r(3) by simp_all
    have rec: "\<exists>r ar'. wait_event_loop env sl sp ?ar1 = Inr (r, ar') \<and> waited (act # env) ar r ar'" for sl sp
      using Cons.IH [OF a(1) env_ok_Cons(2) [OF Cons.prems(2)], of sl sp] waited_step [OF _ a(2,3)] by blast
    have "shm_stream_is_ready (ar_stream ?ar1) = Inr (\<not> at_end ?ar1)"
      by (rule generic_is_ready_ok [OF flow_invD(2) [OF a(1)]])
    moreover have "waited (act # env) ar (Returned (None, env)) ?ar1" if "at_end ?ar1"
      using that a by (auto simp: waited_def)
    ultimately show ?thesis
      using r(1) None rec by (subst wait_event_loop.simps) (auto simp: Let_def simp del: wait_event_loop.simps)
  qed
qed

section \<open>Fetching\<close>

lemma stream_head:
  assumes "stream_ok s n" and "bf_elems (st_buffer s) \<noteq> []"
  shows "unat (ev_id (hd (bf_elems (st_buffer s)))) = n" "ev_kind (hd (bf_elems (st_buffer s))) \<noteq> hole_kind"
proof -
  obtain x xs where x: "bf_elems (st_buffer s) = x # xs" using assms(2) by (cases "bf_elems (st_buffer s)") simp_all
  have "map (\<lambda>x. unat (ev_id x)) (x # xs) = n # [Suc n..<n + length (x # xs)]"
    using assms(1) by (simp add: stream_ok_def x upt_conv_Cons del: upt_Suc)
  then show "unat (ev_id (hd (bf_elems (st_buffer s)))) = n" using x by simp
  show "ev_kind (hd (bf_elems (st_buffer s))) \<noteq> hole_kind" using assms(1) x by (simp add: stream_ok_def)
qed

text \<open>The state between reading an event and handling it: its id is \<open>last_event_id\<close>.\<close>

definition holding :: "shm_arbiter_buffer \<Rightarrow> bool" where
  "holding ar \<longleftrightarrow> (let n = unat (st_last_event_id (ar_stream ar)) in
     queue_ok ar \<and> stream_ok (ar_stream ar) n \<and> accounted ar n \<and> in_events ar \<noteq> [] \<and> 0 < n)"

lemma holdingD:
  assumes "holding ar"
  shows "queue_ok ar" "stream_ok (ar_stream ar) (unat (st_last_event_id (ar_stream ar)))"
    "accounted ar (unat (st_last_event_id (ar_stream ar)))" "in_events ar \<noteq> []" "0 < unat (st_last_event_id (ar_stream ar))"
  using assms by (simp_all add: holding_def Let_def)

lemma check_event_ok:
  assumes inv: "flow_inv ar" and ne: "in_events ar \<noteq> []"
  shows "\<exists>ar'. check_event ar (hd (in_events ar)) = Inr ar' \<and> holding ar' \<and> in_buffer ar' = in_buffer ar \<and>
    st_last_event_id (ar_stream ar') = ev_id (hd (in_events ar)) \<and> ar_dropped_num ar' = ar_dropped_num ar"
proof -
  let ?s = "ar_stream ar"
  let ?ar = "ar\<lparr>ar_stream := ?s\<lparr>st_last_event_id := st_last_event_id ?s + 1\<rparr>\<rparr>"
  note h = stream_head [OF flow_invD(2) [OF inv] ne]
  have "unat (st_last_event_id ?s) + 1 < 18446744073709551616"
    using h(1) unat_less_2p64 [of "ev_id (hd (in_events ar))"] by simp
  then have u: "unat (st_last_event_id ?s + 1) = next_id ar" using unat_add_1 by simp
  then have i: "ev_id (hd (in_events ar)) = st_last_event_id ?s + 1" using h(1) by (simp add: word_64_eq_iff)
  have "check_event ar (hd (in_events ar)) = Inr ?ar" using h(2) i by (simp add: check_event_def Let_def)
  moreover have "accounted ?ar (next_id ar)"
    by (rule accounted_same [OF flow_invD(3) [OF inv]]) (simp add: ar_elems_def pending_def)
  then have "holding ?ar"
    using flow_invD(1,2) [OF inv] u ne by (simp add: holding_def queue_ok_def stream_ok_def del: upt_Suc)
  ultimately show ?thesis using i by auto
qed

lemma handle_dropping_holding:
  assumes h: "holding ar"
  shows "\<exists>ar'. handle_dropping_event ar (hd (in_events ar)) = Inr (must_drop ar, ar') \<and> frame_of ar' = frame_of ar \<and>
    (if must_drop ar then flow_inv ar' \<and> ar_dropped_num ar' \<noteq> 0
     else holding ar' \<and> in_events ar' = in_events ar \<and> ar_dropped_num ar' = 0 \<and>
       length (ar_elems ar') < unat (pq_capacity (ar_buffer ar')))"
proof -
  note H = holdingD [OF h]
  obtain ar' where e: "handle_dropping_event ar (hd (in_events ar)) = Inr (must_drop ar, ar')"
      "if must_drop ar then dropped_to ar (unat (st_last_event_id (ar_stream ar))) ar'
       else forwards_to ar (unat (st_last_event_id (ar_stream ar))) ar'"
    using handle_dropping_event_ok [OF H(1-4) stream_head(1) [OF H(2,4)] H(5)] by (elim exE conjE) (rule that)
  then have f: "frame_of ar' = frame_of ar" by (auto simp: dropped_to_def forwards_to_def split: if_splits)
  then have l: "st_last_event_id (ar_stream ar') = st_last_event_id (ar_stream ar)" by (simp add: frame_of_def)
  show ?thesis
  proof (cases "must_drop ar")
    case True
    then have "flow_inv ar' \<and> ar_dropped_num ar' \<noteq> 0" using e(2) l by (simp add: dropped_to_def flow_inv_def)
    then show ?thesis using e(1) f True by auto
  next
    case False
    then have "holding ar' \<and> in_events ar' = in_events ar \<and> ar_dropped_num ar' = 0 \<and>
       length (ar_elems ar') < unat (pq_capacity (ar_buffer ar'))"
      using e(2) l H(4,5) by (simp add: forwards_to_def holding_def)
    then show ?thesis using e(1) f False by auto
  qed
qed

text \<open>
  The end of the stream: the last hole counts the pending events, but its id is the id before
  that of the last event.
\<close>

definition final_hole :: "shm_arbiter_buffer \<Rightarrow> bool" where
  "final_hole ar \<longleftrightarrow> (\<exists>xs h a. ar_elems ar = xs @ [h] \<and> ev_kind h = hole_kind \<and> hole_n h \<noteq> 0 \<and>
     ev_id h + 1 = st_last_event_id (ar_stream ar) \<and> a \<le> next_id ar \<and>
     concat (map cover xs) @ [next_id ar - unat (hole_n h)..<next_id ar] = [a..<next_id ar])"

definition ended :: "shm_arbiter_buffer \<Rightarrow> bool" where
  "ended ar \<longleftrightarrow> queue_ok ar \<and> at_end ar \<and> ar_dropped_num ar = 0 \<and> (accounted ar (next_id ar) \<or> final_hole ar)"

lemma final_hole_pushed:
  assumes inv: "flow_inv ar" and d: "ar_dropped_num ar \<noteq> 0" and fin: "at_end ar"
    and room: "length (ar_elems ar) + 1 < unat (pq_capacity (ar_buffer ar))" and i: "i = st_last_event_id (ar_stream ar)"
  shows "\<exists>ar' f. push_dropped_event ar (i - 1) = Inr ar' \<and> shm_arbiter_buffer_free_space ar' = Inr f \<and> 0 < f \<and>
    shm_stream_is_ready (ar_stream ar') = Inr False \<and> ended (ar'\<lparr>ar_dropped_num := 0\<rparr>)"
proof -
  note F = flow_invD [OF inv]
  obtain ar1 x where p: "push_dropped_event ar (i - 1) = Inr ar1" "ar_elems ar1 = ar_elems ar @ [x]" "ev_kind x = hole_kind"
      "hole_n x = ar_dropped_num ar" "ev_id x = i - 1" "queue_ok ar1" "stream_ok (ar_stream ar1) (next_id ar)"
      "in_events ar1 = in_events ar" "frame_of ar1 = frame_of ar"
    using push_dropped_event_ok [OF F(1,2) d room, of "i - 1"] by (elim exE conjE) (rule that)
  have fr: "st_last_event_id (ar_stream ar1) = i" "pq_capacity (ar_buffer ar1) = pq_capacity (ar_buffer ar)" "at_end ar1"
    using p(8,9) i fin by (simp_all add: frame_of_def at_end_def)
  have "event_queue (ar_buffer ar1)" using p(6) by (simp add: queue_ok_def)
  from free_space_ok [OF this] obtain f where f: "shm_arbiter_buffer_free_space ar1 = Inr f" "0 < f"
    using room p(2) fr(2) by (auto simp: word_less_nat_alt)
  have rdy: "shm_stream_is_ready (ar_stream ar1) = Inr False" using generic_is_ready_ok [OF p(7)] fr(3) by simp
  let ?ar2 = "ar1\<lparr>ar_dropped_num := 0\<rparr>"
  obtain a where a: "a \<le> next_id ar" "concat (map cover (ar_elems ar)) @ pending ar = [a..<next_id ar]"
    using F(3) by (auto simp: accounted_def simp del: upt_Suc)
  have "next_id ar - unat (ar_dropped_num ar) = unat (ar_drop_begin_id ar)" using accounted_pending [OF F(3) d] by linarith
  then have "pending ar = [next_id ar - unat (hole_n x)..<next_id ar]"
    using p(4) d accounted_pending [OF F(3) d] by (simp add: pending_def del: upt_Suc)
  then have "final_hole ?ar2"
    using a p(2-5) fr(1) i d unfolding final_hole_def
    by (intro exI [of _ "ar_elems ar"] exI [of _ x] exI [of _ a]) (simp add: ar_elems_def del: upt_Suc)
  then have "ended ?ar2" using p(6) fr(3) by (simp add: ended_def queue_ok_def at_end_def)
  then show ?thesis using p(1) f rdy by blast
qed

lemma handle_stream_end_step:
  assumes inv: "flow_inv ar" and fin: "at_end ar" and i: "ar_dropped_num ar \<noteq> 0 \<longrightarrow> i = st_last_event_id (ar_stream ar)"
  shows "(\<exists>ar'. handle_stream_end env ar i = Inr (Returned (), ar') \<and> ended ar') \<or>
    handle_stream_end env ar i = (case env of [] \<Rightarrow> Inr (Waiting, ar) | act # env \<Rightarrow> handle_stream_end env (act ar) i)"
proof (cases "ar_dropped_num ar = 0")
  case True
  have "shm_stream_is_ready (ar_stream ar) = Inr False" using generic_is_ready_ok [OF flow_invD(2) [OF inv]] fin by simp
  moreover have "ended ar" using True fin flow_invD [OF inv] by (simp add: ended_def)
  ultimately show ?thesis using True by (subst handle_stream_end.simps) simp
next
  case False
  have q: "event_queue (ar_buffer ar)" "ar_drop_space_threshold ar < pq_capacity (ar_buffer ar)" "1 \<le> unat (ar_drop_space_threshold ar)"
    using flow_invD(1) [OF inv] by (simp_all add: queue_ok_def word_le_nat_alt)
  obtain f where f: "shm_arbiter_buffer_free_space ar = Inr f" "unat f = unat (pq_capacity (ar_buffer ar)) - length (ar_elems ar)"
    using free_space_ok [OF q(1)] by auto
  note unfold = shm_arbiter_buffer_capacity_def shm_par_queue_capacity_def assert_free_space_def Let_def
  have pos: "ar_dropped_num ar > 0" using False by (simp add: word_neq_0_conv)
  show ?thesis
  proof (cases "ar_drop_space_threshold ar < f")
    case True
    then have "length (ar_elems ar) + 1 < unat (pq_capacity (ar_buffer ar))" using f(2) q(3) by (simp add: word_less_nat_alt)
    from final_hole_pushed [OF inv False fin this, of i] i False obtain ar' f' where
      p: "push_dropped_event ar (i - 1) = Inr ar'" "shm_arbiter_buffer_free_space ar' = Inr f'" "0 < f'"
        "shm_stream_is_ready (ar_stream ar') = Inr False" "ended (ar'\<lparr>ar_dropped_num := 0\<rparr>)" by auto
    then show ?thesis using True pos f(1) q(2) by (subst handle_stream_end.simps) (simp add: unfold)
  next
    case no_room: False
    then show ?thesis using pos f(1) q(2)
      by (intro disjI2, subst handle_stream_end.simps) (simp add: unfold split: list.splits)
  qed
qed

lemma handle_stream_end_ok:
  "flow_inv ar \<Longrightarrow> env_ok env \<Longrightarrow> at_end ar \<Longrightarrow>
    ar_dropped_num ar \<noteq> 0 \<longrightarrow> i = st_last_event_id (ar_stream ar) \<Longrightarrow>
    \<exists>r ar'. handle_stream_end env ar i = Inr (r, ar') \<and>
      (case r of Waiting \<Rightarrow> flow_inv ar' | Returned _ \<Rightarrow> ended ar')"
proof (induction env arbitrary: ar)
  case (Nil ar)
  from handle_stream_end_step [OF Nil(1,3,4), of "[]"] show ?case
  proof
    assume "handle_stream_end [] ar i = (case [] of [] \<Rightarrow> Inr (Waiting, ar) | act # env \<Rightarrow> handle_stream_end env (act ar) i)"
    then show ?thesis using Nil(1) by (intro exI [of _ Waiting] exI [of _ ar]) (simp del: handle_stream_end.simps)
  qed fastforce
next
  case (Cons act env)
  from handle_stream_end_step [OF Cons.prems(1,3,4), of "act # env"] show ?case
  proof
    assume e: "handle_stream_end (act # env) ar i =
      (case act # env of [] \<Rightarrow> Inr (Waiting, ar) | act # env \<Rightarrow> handle_stream_end env (act ar) i)"
    note a = env_ok_Cons [OF Cons.prems(2)]
    have "\<exists>r ar'. handle_stream_end env (act ar) i = Inr (r, ar') \<and>
      (case r of Waiting \<Rightarrow> flow_inv ar' | Returned _ \<Rightarrow> ended ar')"
      using a(1) [OF Cons.prems(1)] a(2) Cons.prems(3,4) by (intro Cons.IH) auto
    then show ?thesis unfolding e by simp
  qed fastforce
qed

text \<open>
  The result of \<open>stream_fetch\<close>: still waiting, the end, or an event to forward, with room in
  the queue.
\<close>

definition fetched :: "size_t option waiting \<Rightarrow> shm_arbiter_buffer \<Rightarrow> bool" where
  "fetched r ar \<longleftrightarrow> (case r of
     Waiting \<Rightarrow> flow_inv ar
   | Returned None \<Rightarrow> ended ar
   | Returned (Some p) \<Rightarrow> holding ar \<and> ar_dropped_num ar = 0 \<and> bf_deref (in_buffer ar) p = hd (in_events ar) \<and>
       length (ar_elems ar) < unat (pq_capacity (ar_buffer ar)))"

lemma stream_fetch_loop_ok:
  "flow_inv ar \<Longrightarrow> env_ok env \<Longrightarrow> ar_dropped_num ar \<noteq> 0 \<longrightarrow> i = st_last_event_id (ar_stream ar) \<Longrightarrow>
    \<exists>r ar'. stream_fetch_loop fuel env i ar = Inr (r, ar') \<and> fetched r ar'"
proof (induction fuel arbitrary: env ar i)
  case 0
  then show ?case by (simp add: fetched_def)
next
  case (Suc fuel)
  obtain r ar1 where w: "get_event env ar = Inr (r, ar1)" "waited env ar r ar1"
    using wait_event_loop_ok [OF Suc.prems(1,2), of SLEEP_TIME_INIT_NS 0] unfolding get_event_def by blast
  have w': "flow_inv ar1" "ar_dropped_num ar1 \<noteq> 0 \<longrightarrow> i = st_last_event_id (ar_stream ar1)"
    using w(2) Suc.prems(3) by (auto simp: waited_def)
  consider "r = Waiting" | env1 where "r = Returned (None, env1)" | p env1 where "r = Returned (Some p, env1)"
    by (metis waiting.exhaust prod.exhaust option.exhaust)
  then show ?case
  proof cases
    case 1
    then show ?thesis using w(1) w'(1) by (simp add: fetched_def)
  next
    case 2
    then have "env_ok env1" "at_end ar1" using w(2) Suc.prems(2) by (auto simp: waited_def env_ok_def)
    from handle_stream_end_ok [OF w'(1) this w'(2)] obtain r ar' where
      "handle_stream_end env1 ar1 i = Inr (r, ar')" "case r of Waiting \<Rightarrow> flow_inv ar' | Returned _ \<Rightarrow> ended ar'" by auto
    then show ?thesis using 2 w(1) by (cases r) (auto simp: fetched_def simp del: handle_stream_end.simps)
  next
    case 3
    then have e: "env_ok env1" "in_events ar1 \<noteq> []" "bf_deref (in_buffer ar1) p = hd (in_events ar1)"
      using w(2) Suc.prems(2) by (auto simp: waited_def env_ok_def)
    obtain ar2 where c: "check_event ar1 (hd (in_events ar1)) = Inr ar2" "holding ar2" "in_buffer ar2 = in_buffer ar1"
        "st_last_event_id (ar_stream ar2) = ev_id (hd (in_events ar1))"
      using check_event_ok [OF w'(1) e(2)] by auto
    obtain d ar3 where h: "handle_dropping_event ar2 (hd (in_events ar1)) = Inr (d, ar3)" "frame_of ar3 = frame_of ar2"
        "if d then flow_inv ar3 \<and> ar_dropped_num ar3 \<noteq> 0
         else holding ar3 \<and> in_events ar3 = in_events ar2 \<and> ar_dropped_num ar3 = 0 \<and>
           length (ar_elems ar3) < unat (pq_capacity (ar_buffer ar3))"
      using handle_dropping_holding [OF c(2)] c(3) by auto
    have step: "stream_fetch_loop (Suc fuel) env i ar =
        (if \<not> d then Inr (Returned (Some p), ar3) else stream_fetch_loop fuel env1 (ev_id (hd (in_events ar1))) ar3)"
      using w(1) 3 e(3) c(1) h(1) by (simp add: Let_def del: bindE_eq_Inr)
    have last: "st_last_event_id (ar_stream ar3) = ev_id (hd (in_events ar1))" using h(2) c(4) by (simp add: frame_of_def)
    show ?thesis
    proof (cases d)
      case True
      then show ?thesis unfolding step using Suc.IH [OF _ e(1), of ar3 "ev_id (hd (in_events ar1))"] h(3) last by simp
    next
      case False
      then have h3: "holding ar3" "in_events ar3 = in_events ar1" using h(3) c(3) by simp_all
      have "sb_elem_size (bf_shm (in_buffer ar3)) = sb_elem_size (bf_shm (in_buffer ar1))"
        using holdingD(2) [OF h3(1)] holdingD(2) [OF c(2)] h(2) c(3) by (simp add: stream_ok_def frame_of_def)
      then have "bf_deref (in_buffer ar3) p = hd (in_events ar3)"
        using e(3) h(2) h3(2) c(3) by (simp add: bf_deref_def frame_of_def)
      then show ?thesis unfolding step using False h h3 by (simp add: fetched_def)
    qed
  qed
qed

section \<open>Forwarding\<close>

lemma generic_alter_ok:
  assumes "length ev = unat es" and "unat es \<le> length old" and "16 \<le> unat es"
  shows "length (generic_alter es ev old) = length old" "ev_kind (generic_alter es ev old) = ev_kind ev"
    "ev_id (generic_alter es ev old) = ev_id ev"
  using assms by (simp_all add: generic_alter_def mem_upd_def ev_kind_def ev_id_def)

lemma forward_ok:
  assumes h: "holding ar" and d: "ar_dropped_num ar = 0" and room: "length (ar_elems ar) < unat (pq_capacity (ar_buffer ar))"
    and out: "shm_arbiter_buffer_write_ptr ar = (Some p, ar1)"
  shows "\<exists>old dat ar2 ar3. mem_read (pq_data (ar_buffer ar1)) (unat p) (unat (pq_elem_size (ar_buffer ar1))) = Inr old \<and>
    mem_write (pq_data (ar_buffer ar1)) (unat p) (generic_alter (st_event_size (ar_stream ar)) (hd (in_events ar)) old) = Inr dat \<and>
    shm_arbiter_buffer_write_finish (set_queue ar1 ((ar_buffer ar1)\<lparr>pq_data := dat\<rparr>)) = Inr ar2 \<and>
    consume1 ar2 = Inr ar3 \<and> flow_inv ar3 \<and> ar_dropped_num ar3 = 0"
proof -
  note H = holdingD [OF h]
  have q: "event_queue (ar_buffer ar)" using H(1) by (simp add: queue_ok_def)
  obtain q1 old where w: "shm_par_queue_write_ptr (ar_buffer ar) = (Some p, q1)" "ar1 = set_queue ar q1"
      "mem_read (pq_data q1) (unat p) (unat (pq_elem_size q1)) = Inr old" "length old = unat (pq_elem_size (ar_buffer ar))"
    and fin: "\<And>x. length x = unat (pq_elem_size (ar_buffer ar)) \<Longrightarrow> \<exists>d q2. mem_write (pq_data q1) (unat p) x = Inr d \<and>
       shm_par_queue_write_finish (q1\<lparr>pq_data := d\<rparr>) = Inr q2 \<and> pq_inv q2 \<and> pq_elems q2 = pq_elems (ar_buffer ar) @ [x] \<and>
       pq_capacity q2 = pq_capacity (ar_buffer ar) \<and> pq_elem_size q2 = pq_elem_size (ar_buffer ar)"
    using write_through_pointer [OF event_queue_inv [OF q]] room out
    by (auto simp: shm_arbiter_buffer_write_ptr_def ar_elems_def simp del: length_pq_elems)
  let ?ev = "hd (in_events ar)" and ?es = "st_event_size (ar_stream ar)"
  have sz: "unat ?es \<le> length old" "16 \<le> unat ?es" "length ?ev = unat ?es"
    using H(1,2,4) w(4) pq_elem_length [of "sb_queue (bf_shm (in_buffer ar))" ?ev]
    by (simp_all add: queue_ok_def stream_ok_def event_queue_def sb_queue_def bf_elems_def word_le_nat_alt)
  let ?x = "generic_alter ?es ?ev old"
  note x = generic_alter_ok [OF sz(3,1,2)]
  obtain dat q2 where f: "mem_write (pq_data q1) (unat p) ?x = Inr dat" "shm_par_queue_write_finish (q1\<lparr>pq_data := dat\<rparr>) = Inr q2"
      "pq_inv q2" "pq_elems q2 = ar_elems ar @ [?x]" "pq_capacity q2 = pq_capacity (ar_buffer ar)" "pq_elem_size q2 = pq_elem_size (ar_buffer ar)"
    using fin [of ?x] x(1) w(4) by (auto simp: ar_elems_def)
  let ?ar2 = "set_queue ar q2"
  have q2: "queue_ok ?ar2" using H(1) f(3,5,6) by (simp add: queue_ok_def event_queue_def)
  let ?n = "unat (st_last_event_id (ar_stream ar))"
  obtain ar3 where c: "consume1 ?ar2 = Inr ar3" "queue_ok ar3" "stream_ok (ar_stream ar3) (Suc ?n)" "frame_of ar3 = frame_of ?ar2"
      "ar_elems ar3 = ar_elems ?ar2" "pending ar3 = pending ?ar2" "ar_dropped_num ar3 = 0"
    using consume1_flow [OF q2, of ?n] H(2,4) d by auto
  have "cover ?x = [?n]" using x stream_head [OF H(2,4)] by (simp add: cover_def)
  then have "accounted ar3 (Suc ?n)"
    using c(5,6) f(4) d by (intro accounted_extend [OF H(3)]) (simp add: ar_elems_def pending_def)
  then have "flow_inv ar3" using c(2,3,4) by (simp add: flow_inv_def frame_of_def)
  then show ?thesis using w f(1,2) c(1,7)
    by (intro exI [of _ old] exI [of _ dat] exI [of _ ?ar2] exI [of _ ar3]) (simp add: shm_arbiter_buffer_write_finish_def)
qed

lemma bmm_step_ok:
  assumes "flow_inv ar" and "env_ok env" and "ar_dropped_num ar = 0"
  shows "\<exists>r ar'. bmm_step fuel env ar = Inr (r, ar') \<and>
    (case r of Waiting \<Rightarrow> flow_inv ar' | Returned False \<Rightarrow> ended ar'
     | Returned True \<Rightarrow> flow_inv ar' \<and> ar_dropped_num ar' = 0)"
proof -
  obtain r ar1 where f: "stream_fetch fuel env ar = Inr (r, ar1)" "fetched r ar1"
    using stream_fetch_loop_ok [OF assms(1,2)] assms(3) unfolding stream_fetch_def by blast
  consider "r = Waiting" | "r = Returned None" | p where "r = Returned (Some p)"
    by (metis waiting.exhaust option.exhaust)
  then show ?thesis
  proof cases
    case 1
    then show ?thesis using f by (simp add: bmm_step_def fetched_def)
  next
    case 2
    then show ?thesis using f by (simp add: bmm_step_def fetched_def)
  next
    case 3
    have h: "holding ar1" "ar_dropped_num ar1 = 0" "bf_deref (in_buffer ar1) p = hd (in_events ar1)"
        "length (ar_elems ar1) < unat (pq_capacity (ar_buffer ar1))"
      using f(2) 3 by (simp_all add: fetched_def)
    have s: "st_filter (ar_stream ar1) = None" "st_alter (ar_stream ar1) = Some generic_alter"
      using holdingD(2) [OF h(1)] by (simp_all add: stream_ok_def)
    have "pq_inv (ar_buffer ar1)" using holdingD(1) [OF h(1)] by (simp add: queue_ok_def event_queue_def)
    from write_through_pointer [OF this] h(4) obtain o_p ar2 where
      w: "shm_arbiter_buffer_write_ptr ar1 = (Some o_p, ar2)"
      by (auto simp: shm_arbiter_buffer_write_ptr_def ar_elems_def simp del: length_pq_elems)
    from forward_ok [OF h(1,2,4) w] obtain old dat ar3 ar4 where
      "mem_read (pq_data (ar_buffer ar2)) (unat o_p) (unat (pq_elem_size (ar_buffer ar2))) = Inr old"
      "mem_write (pq_data (ar_buffer ar2)) (unat o_p) (generic_alter (st_event_size (ar_stream ar1)) (hd (in_events ar1)) old) = Inr dat"
      "shm_arbiter_buffer_write_finish (set_queue ar2 ((ar_buffer ar2)\<lparr>pq_data := dat\<rparr>)) = Inr ar3"
      "consume1 ar3 = Inr ar4" "flow_inv ar4" "ar_dropped_num ar4 = 0" by (elim exE conjE) (rule that)
    then show ?thesis using f(1) 3 s w h(3)
      by (intro exI [of _ "Returned True"] exI [of _ ar4]) (simp add: bmm_step_def Let_def)
  qed
qed

section \<open>The other threads\<close>

text \<open>The monitor pops an element of the queue; the source pushes its next event or leaves.\<close>

definition monitor_pops :: "shm_arbiter_buffer \<Rightarrow> shm_arbiter_buffer" where
  "monitor_pops ar = (case shm_arbiter_buffer_pop ar of Inl _ \<Rightarrow> ar | Inr (_, ar') \<Rightarrow> ar')"

definition source_pushes :: "byte list \<Rightarrow> shm_arbiter_buffer \<Rightarrow> shm_arbiter_buffer" where
  "source_pushes ev ar =
     (if sb_destroyed (bf_shm (in_buffer ar)) \<or> length ev \<noteq> unat (sb_elem_size (bf_shm (in_buffer ar))) \<or>
         unat (ev_id ev) \<noteq> next_id ar + length (in_events ar) \<or> ev_kind ev = hole_kind then ar
      else (case bf_push (in_buffer ar) ev of Inl _ \<Rightarrow> ar | Inr (_, b) \<Rightarrow> ar\<lparr>ar_stream := (ar_stream ar)\<lparr>st_buffer := b\<rparr>\<rparr>))"

definition source_leaves :: "shm_arbiter_buffer \<Rightarrow> shm_arbiter_buffer" where
  "source_leaves ar = ar\<lparr>ar_stream := (ar_stream ar)\<lparr>st_buffer := upd_shm (\<lambda>s. s\<lparr>sb_destroyed := True\<rparr>) (in_buffer ar)\<rparr>\<rparr>"

lemma monitor_pops_ok: "env_ok [monitor_pops]"
proof -
  have "flow_inv (monitor_pops ar) \<and> st_last_event_id (ar_stream (monitor_pops ar)) = st_last_event_id (ar_stream ar) \<and>
      ar_dropped_num (monitor_pops ar) = ar_dropped_num ar \<and> (at_end ar \<longrightarrow> at_end (monitor_pops ar))"
    if inv: "flow_inv ar" for ar
  proof -
    note F = flow_invD [OF inv]
    have q: "event_queue (ar_buffer ar)" using F(1) by (simp add: queue_ok_def)
    obtain q' where p: "shm_par_queue_pop (ar_buffer ar) = Inr (case ar_elems ar of [] \<Rightarrow> None | y # _ \<Rightarrow> Some y, q')"
        "pq_inv q'" "pq_capacity q' = pq_capacity (ar_buffer ar)" "pq_elem_size q' = pq_elem_size (ar_buffer ar)"
        "pq_elems q' = tl (ar_elems ar)"
      using shm_par_queue_pop_ok [OF event_queue_inv [OF q]] by (auto simp: ar_elems_def)
    then have m: "monitor_pops ar = set_queue ar q'" by (simp add: monitor_pops_def shm_arbiter_buffer_pop_def)
    have "ar_elems (set_queue ar q') = drop 1 (ar_elems ar)" using p(5) by (simp add: ar_elems_def drop_Suc)
    then have "accounted (set_queue ar q') (next_id ar)"
      by (rule accounted_drop [OF F(3)]) (simp add: pending_def)
    moreover have "queue_ok (set_queue ar q')" using F(1) p(2-4) by (simp add: queue_ok_def event_queue_def)
    ultimately show ?thesis using F(2) m by (simp add: flow_inv_def at_end_def)
  qed
  then show ?thesis by (simp add: env_ok_def)
qed

text \<open>A change of the incoming buffer alone.\<close>

lemma flow_inv_buffer:
  assumes "flow_inv ar" and "stream_ok ((ar_stream ar)\<lparr>st_buffer := b\<rparr>) (next_id ar)"
  shows "flow_inv (ar\<lparr>ar_stream := (ar_stream ar)\<lparr>st_buffer := b\<rparr>\<rparr>)"
proof -
  have "accounted (ar\<lparr>ar_stream := (ar_stream ar)\<lparr>st_buffer := b\<rparr>\<rparr>) (next_id ar)"
    by (rule accounted_same [OF flow_invD(3) [OF assms(1)]]) (simp add: ar_elems_def pending_def)
  then show ?thesis using assms flow_invD(1) [OF assms(1)] by (simp add: flow_inv_def queue_ok_def)
qed

lemma source_leaves_ok: "env_ok [source_leaves]"
proof -
  have "flow_inv (source_leaves ar)" if inv: "flow_inv ar" for ar
    unfolding source_leaves_def using flow_invD(2) [OF inv]
    by (intro flow_inv_buffer [OF inv]) (simp add: stream_ok_def ranges_ok_def bf_elems_def sb_queue_def queue_bytes_def)
  then show ?thesis by (simp add: env_ok_def source_leaves_def at_end_def bf_elems_def sb_queue_def queue_bytes_def)
qed

lemma source_pushes_ok: "env_ok [source_pushes ev]"
proof -
  have "flow_inv (source_pushes ev ar) \<and> st_last_event_id (ar_stream (source_pushes ev ar)) = st_last_event_id (ar_stream ar) \<and>
      ar_dropped_num (source_pushes ev ar) = ar_dropped_num ar \<and> (at_end ar \<longrightarrow> at_end (source_pushes ev ar))"
    if inv: "flow_inv ar" for ar
  proof (cases "sb_destroyed (bf_shm (in_buffer ar)) \<or> length ev \<noteq> unat (sb_elem_size (bf_shm (in_buffer ar))) \<or>
         unat (ev_id ev) \<noteq> next_id ar + length (in_events ar) \<or> ev_kind ev = hole_kind")
    case True
    then show ?thesis using inv by (simp add: source_pushes_def)
  next
    case False
    note s = flow_invD(2) [OF inv]
    let ?b = "in_buffer ar"
    have eq: "event_queue (sb_queue (bf_shm ?b))" using s by (simp add: stream_ok_def)
    have live: "bf_live ?b" using eq False by (simp add: bf_live_def bf_ok_def event_queue_def)
    have len: "length ev = unat (sb_elem_size (bf_shm ?b))" "ranges_ok ?b" using False s by (simp_all add: stream_ok_def)
    obtain b' pad where b: "buffer_push ?b ev (sb_elem_size (bf_shm ?b)) = Inr (length (in_events ar) < unat (sb_capacity (bf_shm ?b)), b')"
        "bf_live b'" "sb_elem_size (bf_shm b') = sb_elem_size (bf_shm ?b)"
        "bf_elems b' = (if length (in_events ar) < unat (sb_capacity (bf_shm ?b))
           then in_events ar @ [take (unat (sb_elem_size (bf_shm ?b))) ev @ pad] else in_events ar)"
        "length pad = unat (sb_elem_size (bf_shm ?b)) - unat (sb_elem_size (bf_shm ?b))"
        "sb_dropped_ranges (bf_shm b') = sb_dropped_ranges (bf_shm ?b)"
        "sb_dropped_ranges_next (bf_shm b') = sb_dropped_ranges_next (bf_shm ?b)"
      using buffer_push_ok [OF live order_refl eq_refl [OF len(1) [symmetric]]] by (elim exE conjE) (rule that)
    then have e: "bf_elems b' = (if length (in_events ar) < unat (sb_capacity (bf_shm ?b)) then in_events ar @ [ev] else in_events ar)"
        "ranges_ok b'" using len by (simp_all add: ranges_ok_def)
    have "event_queue (sb_queue (bf_shm b'))"
      using b(2,3) eq by (simp add: bf_live_def bf_ok_def event_queue_def) (simp add: sb_queue_def)
    moreover have "map (\<lambda>x. unat (ev_id x)) (bf_elems b') = [next_id ar..<next_id ar + length (bf_elems b')]"
      using e(1) s False by (simp add: stream_ok_def Suc_le_eq)
    ultimately have "stream_ok ((ar_stream ar)\<lparr>st_buffer := b'\<rparr>) (next_id ar)"
      using s b(3) e False by (simp add: stream_ok_def)
    from flow_inv_buffer [OF inv this] show ?thesis
      using b(1) False by (simp add: source_pushes_def at_end_def bf_push_def)
  qed
  then show ?thesis by (simp add: env_ok_def)
qed

section \<open>Properties\<close>

text \<open>The loop of the thread, by induction over its iterations.\<close>

lemma default_buffer_manager_loop_ok:
  "flow_inv ar \<Longrightarrow> ar_dropped_num ar = 0 \<Longrightarrow> \<forall>env \<in> set envs. env_ok env \<Longrightarrow>
    \<exists>r ar'. default_buffer_manager_loop envs fuel ar = Inr (r, ar') \<and>
      (case r of Waiting \<Rightarrow> flow_inv ar' | Returned _ \<Rightarrow> ended ar')"
proof (induction envs arbitrary: ar)
  case (Cons env envs)
  from Cons.prems have "env_ok env" by simp
  from bmm_step_ok [OF Cons.prems(1) this Cons.prems(2), of fuel] obtain r ar1 where
    s: "bmm_step fuel env ar = Inr (r, ar1)" "case r of Waiting \<Rightarrow> flow_inv ar1 | Returned False \<Rightarrow> ended ar1
      | Returned True \<Rightarrow> flow_inv ar1 \<and> ar_dropped_num ar1 = 0" by auto
  show ?case
  proof (cases r)
    case (Returned more)
    show ?thesis
    proof (cases more)
      case True
      with s Returned have "flow_inv ar1" "ar_dropped_num ar1 = 0" by simp_all
      from Cons.IH [OF this] s(1) Returned True Cons.prems(3) show ?thesis by simp
    qed (use s Returned in simp)
  qed (use s in simp)
qed simp


definition flow_example :: shm_arbiter_buffer where
  "flow_example = ar_example\<lparr>ar_stream := (ar_stream ar_example)\<lparr>st_is_ready := generic_is_ready,
     st_alter := Some generic_alter\<rparr>\<rparr>"

lemma flow_example_inv: "flow_inv flow_example"
proof -
  have b: "sb_queue (bf_shm (in_buffer ar_example)) = pq_example\<lparr>pq_elem_size := 24, pq_data := events_data 10 11\<rparr>"
    by (simp add: ar_example_def sb_queue_def queue_bytes_def sb_example_def pq_example_def)
  have e: "bf_elems (in_buffer ar_example) = [ev_example 10, ev_example 11]"
    using b events_elems [of 10 11] by (simp add: bf_elems_def)
  have s: "stream_ok (ar_stream flow_example) 10"
    using b e events_queue [of 10 11]
    by (simp add: stream_ok_def flow_example_def ev_example_def hole_kind_def)
      (simp add: ar_example_def st_example_def sb_example_def ranges_ok_def)
  have q: "queue_ok flow_example"
    using ar_example_facts(1) by (simp add: queue_ok_def flow_example_def)
      (simp add: ar_example_def st_example_def pq_example_def)
  have "concat (map cover (ar_elems flow_example)) @ pending flow_example = [8..<10]"
    using ar_example_facts(2)
    by (simp add: ar_elems_def flow_example_def pending_def ev_example_def cover_def hole_kind_def upt_rec)
      (simp add: ar_example_def)
  then have "accounted flow_example 10" unfolding accounted_def by (intro exI [of _ 8]) simp
  moreover have "next_id flow_example = 10" by (simp add: flow_example_def ar_example_def)
  ultimately show ?thesis using s q by (simp add: flow_inv_def)
qed


text \<open>
  C14: what the thread does with an event it has read and checked: the event is dropped (and then
  pending) if the queue is full, or if events are being dropped and there is not more space than
  the threshold; otherwise the pending events, if any, go to the queue as one hole that covers
  exactly their ids, and the event can be forwarded: the queue has a free slot for it.
\<close>

theorem dropping_decision:
  assumes "holding ar"
  shows "\<exists>ar'. handle_dropping_event ar (hd (in_events ar)) = Inr (must_drop ar, ar') \<and> frame_of ar' = frame_of ar \<and>
    (if must_drop ar then flow_inv ar' \<and> ar_dropped_num ar' \<noteq> 0
     else holding ar' \<and> in_events ar' = in_events ar \<and> ar_dropped_num ar' = 0 \<and>
       length (ar_elems ar') < unat (pq_capacity (ar_buffer ar')))"
  by (rule handle_dropping_holding [OF assms])

theorem dropping_decision_witness:
  "\<exists>ar1 ar'. check_event flow_example (ev_example 10) = Inr ar1 \<and> handle_dropping_event ar1 (ev_example 10) = Inr (False, ar') \<and>
    holding ar'"
proof -
  have e: "in_events flow_example = [ev_example 10, ev_example 11]"
    using events_elems [of 10 11]
    by (simp add: flow_example_def ar_example_def bf_elems_def sb_queue_def queue_bytes_def sb_example_def pq_example_def)
  obtain ar1 where c: "check_event flow_example (ev_example 10) = Inr ar1" "holding ar1" "in_buffer ar1 = in_buffer flow_example"
      "ar_dropped_num ar1 = 0" "ar_buffer ar1 = ar_buffer flow_example"
    using check_event_ok [OF flow_example_inv] e by (auto simp: check_event_def flow_example_def ar_example_def Let_def)
  have "\<not> must_drop ar1"
    using c(4,5) ar_example_facts(2)
    by (simp add: must_drop_def ar_elems_def flow_example_def del: length_pq_elems) (simp add: ar_example_def pq_example_def)
  then show ?thesis using dropping_decision [OF c(2)] c e by auto
qed

text \<open>
  A filter in \<open>stream_filter_fetch\<close> breaks the account: when an event is filtered out while
  events are being dropped, the ids of the next event no longer match, and the assertion fails.
\<close>

lemma filtered_event_breaks_drop_ids:
  assumes "ar_dropped_num ar + ar_drop_begin_id ar < i"
  shows "send_dropped_event ar i = Inl (Assertion ''Drop IDs are wrong'')"
  using assms by (auto simp: send_dropped_event_def assertE_def)

end
