(* ===== verification/Monitor_Buffer.thy ===== *)
theory Monitor_Buffer
  imports Par_Queue
begin

text \<open>
  The buffer between the arbiter and the monitor: \<open>core/monitor.c\<close>. A parallel queue with a
  flag that the arbiter has finished.
\<close>

record shm_monitor_buffer =
  mo_buffer :: shm_par_queue
  mo_finished :: bool

abbreviation set_mo :: "shm_monitor_buffer \<Rightarrow> shm_par_queue \<Rightarrow> shm_monitor_buffer" where
  "set_mo b q \<equiv> b\<lparr>mo_buffer := q\<rparr>"

definition shm_monitor_buffer_size :: "shm_monitor_buffer \<Rightarrow> size_t res" where
  "shm_monitor_buffer_size b = shm_par_queue_size (mo_buffer b)"

definition shm_monitor_buffer_free_space :: "shm_monitor_buffer \<Rightarrow> size_t res" where
  "shm_monitor_buffer_free_space b = shm_par_queue_free_num (mo_buffer b)"

definition shm_monitor_buffer_capacity :: "shm_monitor_buffer \<Rightarrow> size_t" where
  "shm_monitor_buffer_capacity b = shm_par_queue_capacity (mo_buffer b)"

definition shm_monitor_buffer_elem_size :: "shm_monitor_buffer \<Rightarrow> size_t" where
  "shm_monitor_buffer_elem_size b = shm_par_queue_elem_size (mo_buffer b)"

definition shm_monitor_buffer_init ::
    "(size_t \<Rightarrow> byte list option) \<Rightarrow> shm_monitor_buffer \<Rightarrow> size_t \<Rightarrow> size_t \<Rightarrow> shm_monitor_buffer res" where
  "shm_monitor_buffer_init malloc b event_size capacity =
     bindE (shm_par_queue_init malloc (mo_buffer b) capacity event_size) (\<lambda>q.
     Inr \<lparr>mo_buffer = q, mo_finished = False\<rparr>)"

text \<open>\<open>block\<close> is the indeterminate structure the allocation returns, if it succeeds.\<close>

definition shm_monitor_buffer_create ::
    "shm_monitor_buffer option \<Rightarrow> (size_t \<Rightarrow> byte list option) \<Rightarrow> size_t \<Rightarrow> size_t \<Rightarrow> shm_monitor_buffer res" where
  "shm_monitor_buffer_create block malloc event_size capacity =
     (case block of
        None \<Rightarrow> Inl (Assertion ''Malloc failed'')
      | Some b \<Rightarrow> shm_monitor_buffer_init malloc b event_size capacity)"

definition shm_monitor_set_finished :: "shm_monitor_buffer \<Rightarrow> shm_monitor_buffer" where
  "shm_monitor_set_finished b = b\<lparr>mo_finished := True\<rparr>"

definition shm_monitor_buffer_destroy :: "shm_monitor_buffer \<Rightarrow> shm_monitor_buffer" where
  "shm_monitor_buffer_destroy b = set_mo b (shm_par_queue_destroy (mo_buffer b))"

text \<open>After \<open>free\<close> there is no buffer.\<close>

definition shm_monitor_buffer_free :: "shm_monitor_buffer \<Rightarrow> shm_monitor_buffer option" where
  "shm_monitor_buffer_free b = (let _ = shm_monitor_buffer_destroy b in None)"

definition shm_monitor_buffer_top :: "shm_monitor_buffer \<Rightarrow> (size_t option \<times> shm_monitor_buffer) res" where
  "shm_monitor_buffer_top b = bindE (shm_par_queue_top (mo_buffer b)) (\<lambda>(p, q). Inr (p, set_mo b q))"

definition shm_monitor_buffer_peek ::
    "shm_monitor_buffer \<Rightarrow> size_t \<Rightarrow>
      (size_t \<times> (size_t \<times> size_t \<times> size_t option \<times> size_t) option \<times> shm_monitor_buffer) res" where
  "shm_monitor_buffer_peek b n =
     bindE (shm_par_queue_peek (mo_buffer b) n) (\<lambda>(num, view, q). Inr (num, view, set_mo b q))"

definition shm_monitor_buffer_peek1 ::
    "shm_monitor_buffer \<Rightarrow> (size_t \<times> size_t option \<times> shm_monitor_buffer) res" where
  "shm_monitor_buffer_peek1 b =
     bindE (shm_par_queue_peek1 (mo_buffer b)) (\<lambda>(num, p, q). Inr (num, p, set_mo b q))"

definition shm_monitor_buffer_write_ptr_or_null ::
    "shm_monitor_buffer \<Rightarrow> (size_t option \<times> shm_monitor_buffer) res" where
  "shm_monitor_buffer_write_ptr_or_null b =
     assertE (\<not> mo_finished b) ''Asking a pointer from a finished buffer''
     (let (p, q) = shm_par_queue_write_ptr (mo_buffer b) in Inr (p, set_mo b q))"

text \<open>The writer spins until there is space; \<open>env\<close> is what the monitor does meanwhile.\<close>

type_synonym mo_env = "(shm_monitor_buffer \<Rightarrow> shm_monitor_buffer) list"

fun write_ptr_loop :: "mo_env \<Rightarrow> shm_monitor_buffer \<Rightarrow> (size_t waiting \<times> shm_monitor_buffer) res" where
  "write_ptr_loop env b =
     assertE (\<not> mo_finished b) ''Asking a pointer from a finished buffer''
     (let (p, q) = shm_par_queue_write_ptr (mo_buffer b); b = set_mo b q in
      case p of
        Some p \<Rightarrow> Inr (Returned p, b)
      | None \<Rightarrow> (case env of [] \<Rightarrow> Inr (Waiting, b) | act # env \<Rightarrow> write_ptr_loop env (act b)))"

definition shm_monitor_buffer_write_ptr ::
    "mo_env \<Rightarrow> shm_monitor_buffer \<Rightarrow> (size_t waiting \<times> shm_monitor_buffer) res" where
  "shm_monitor_buffer_write_ptr env b =
     assertE (\<not> mo_finished b) ''Asking a pointer from a finished buffer''
     (let (p, q) = shm_par_queue_write_ptr (mo_buffer b); b = set_mo b q in
      case p of
        Some p \<Rightarrow> Inr (Returned p, b)
      | None \<Rightarrow> write_ptr_loop env b)"

definition shm_monitor_buffer_write_finish :: "shm_monitor_buffer \<Rightarrow> shm_monitor_buffer res" where
  "shm_monitor_buffer_write_finish b =
     assertE (\<not> mo_finished b) ''Asking a pointer from a finished buffer''
     (bindE (shm_par_queue_write_finish (mo_buffer b)) (\<lambda>q. Inr (set_mo b q)))"

text \<open>
  The monitor waits for an event or the end. The arbiter may act between the look at the queue
  and the look at the flag, and between two iterations: \<open>env\<close> holds pairs of these actions.
\<close>

fun fetch_loop ::
    "((shm_monitor_buffer \<Rightarrow> shm_monitor_buffer) \<times> (shm_monitor_buffer \<Rightarrow> shm_monitor_buffer)) list \<Rightarrow>
      shm_monitor_buffer \<Rightarrow> (size_t option waiting \<times> shm_monitor_buffer) res" where
  "fetch_loop env b =
     bindE (shm_monitor_buffer_top b) (\<lambda>(p, b).
     case p of
       Some p \<Rightarrow> Inr (Returned (Some p), b)
     | None \<Rightarrow>
         (case env of
            [] \<Rightarrow> (if mo_finished b then Inr (Returned None, b) else Inr (Waiting, b))
          | (act1, act2) # env \<Rightarrow>
              (let b = act1 b in
               if mo_finished b then Inr (Returned None, b) else fetch_loop env (act2 b))))"

definition fetch_arbiter_stream ::
    "((shm_monitor_buffer \<Rightarrow> shm_monitor_buffer) \<times> (shm_monitor_buffer \<Rightarrow> shm_monitor_buffer)) list \<Rightarrow>
      shm_monitor_buffer \<Rightarrow> (size_t option waiting \<times> shm_monitor_buffer) res" where
  "fetch_arbiter_stream env b = fetch_loop env b"

definition shm_monitor_buffer_consume :: "shm_monitor_buffer \<Rightarrow> size_t \<Rightarrow> shm_monitor_buffer res" where
  "shm_monitor_buffer_consume b k = bindE (shm_par_queue_drop (mo_buffer b) k) (\<lambda>q. Inr (set_mo b q))"

section \<open>The contract\<close>

text \<open>How the arbiter writes an element, and how the monitor takes one.\<close>

definition mo_write :: "shm_monitor_buffer \<Rightarrow> byte list \<Rightarrow> (bool \<times> shm_monitor_buffer) res" where
  "mo_write b x =
     bindE (shm_monitor_buffer_write_ptr_or_null b) (\<lambda>(p, b).
     case p of
       None \<Rightarrow> Inr (False, b)
     | Some p \<Rightarrow>
         bindE (mem_write (pq_data (mo_buffer b)) (unat p) x) (\<lambda>d.
         bindE (shm_monitor_buffer_write_finish (set_mo b ((mo_buffer b)\<lparr>pq_data := d\<rparr>))) (\<lambda>b. Inr (True, b))))"

definition mo_read :: "shm_monitor_buffer \<Rightarrow> (byte list option \<times> shm_monitor_buffer) res" where
  "mo_read b =
     bindE (shm_monitor_buffer_top b) (\<lambda>(p, b).
     case p of
       None \<Rightarrow> Inr (None, b)
     | Some p \<Rightarrow>
         bindE (mem_read (pq_data (mo_buffer b)) (unat p) (unat (shm_monitor_buffer_elem_size b))) (\<lambda>x.
         bindE (shm_monitor_buffer_consume b 1) (\<lambda>b. Inr (Some x, b))))"

definition mo_inv :: "shm_monitor_buffer \<Rightarrow> bool" where
  "mo_inv b \<longleftrightarrow> pq_inv (mo_buffer b) \<and> \<not> mo_finished b"

lemma mo_write_ok:
  assumes inv: "mo_inv b" and x: "length x = unat (pq_elem_size (mo_buffer b))"
  shows "\<exists>b'. mo_write b x = Inr (length (pq_elems (mo_buffer b)) < unat (pq_capacity (mo_buffer b)), b') \<and> mo_inv b' \<and>
    pq_capacity (mo_buffer b') = pq_capacity (mo_buffer b) \<and> pq_elem_size (mo_buffer b') = pq_elem_size (mo_buffer b) \<and>
    pq_elems (mo_buffer b') = (if length (pq_elems (mo_buffer b)) < unat (pq_capacity (mo_buffer b))
      then pq_elems (mo_buffer b) @ [x] else pq_elems (mo_buffer b))"
proof (cases "length (pq_elems (mo_buffer b)) < unat (pq_capacity (mo_buffer b))")
  case True
  let ?q = "mo_buffer b"
  have i: "pq_inv ?q" "\<not> mo_finished b" using inv by (simp_all add: mo_inv_def)
  obtain p q1 d q2 where w: "shm_par_queue_write_ptr ?q = (Some p, q1)" "mem_write (pq_data q1) (unat p) x = Inr d"
      "shm_par_queue_write_finish (q1\<lparr>pq_data := d\<rparr>) = Inr q2" "pq_inv q2" "pq_elems q2 = pq_elems ?q @ [x]"
      "pq_capacity q2 = pq_capacity ?q" "pq_elem_size q2 = pq_elem_size ?q"
    using write_through_pointer [OF i(1) True] x by blast
  then have "mo_write b x = Inr (True, set_mo b q2)" using i(2)
    by (simp add: mo_write_def shm_monitor_buffer_write_ptr_or_null_def shm_monitor_buffer_write_finish_def)
  then show ?thesis using w i(2) True by (auto simp: mo_inv_def simp del: length_pq_elems)
next
  case False
  have i: "pq_inv (mo_buffer b)" "\<not> mo_finished b" using inv by (simp_all add: mo_inv_def)
  obtain q1 where "shm_par_queue_write_ptr (mo_buffer b) = (None, q1)" "pq_inv q1" "pq_elems q1 = pq_elems (mo_buffer b)"
      "pq_capacity q1 = pq_capacity (mo_buffer b)" "pq_elem_size q1 = pq_elem_size (mo_buffer b)"
    using shm_par_queue_write_ptr_ok [OF i(1)] False by auto
  then show ?thesis using i(2) False
    by (auto simp: mo_write_def shm_monitor_buffer_write_ptr_or_null_def mo_inv_def simp del: length_pq_elems)
qed

lemma mo_top_ok:
  assumes "pq_inv (mo_buffer b)"
  shows "\<exists>p q. shm_monitor_buffer_top b = Inr (p, set_mo b q) \<and> pq_inv q \<and> pq_elems q = pq_elems (mo_buffer b) \<and>
    pq_capacity q = pq_capacity (mo_buffer b) \<and> pq_elem_size q = pq_elem_size (mo_buffer b) \<and>
    pq_data q = pq_data (mo_buffer b) \<and>
    (case p of None \<Rightarrow> pq_elems q = []
     | Some a \<Rightarrow> pq_elems q \<noteq> [] \<and> pq_deref q a = hd (pq_elems q) \<and> 0 < rb_avail (pq_ringbuf q))"
proof -
  let ?q = "mo_buffer b"
  obtain p q where t: "shm_par_queue_top ?q = Inr (p, q)" "pq_inv q" "pq_elems q = pq_elems ?q"
      "q = ?q\<lparr>pq_ringbuf := pq_ringbuf q\<rparr>"
      "case p of None \<Rightarrow> pq_elems ?q = [] | Some a \<Rightarrow> pq_elems ?q \<noteq> [] \<and> pq_deref ?q a = hd (pq_elems ?q) \<and> 0 < rb_avail (pq_ringbuf q)"
    using shm_par_queue_top_ok [OF assms] by (elim exE conjE) (rule that)
  have e: "pq_capacity q = pq_capacity ?q" "pq_elem_size q = pq_elem_size ?q" "pq_data q = pq_data ?q"
    by (subst t(4), simp)+
  then have "pq_deref q a = pq_deref ?q a" for a by (simp add: pq_deref_def)
  then show ?thesis using t(1-3,5) e
    by (intro exI [of _ p] exI [of _ q]) (simp add: shm_monitor_buffer_top_def split: option.splits)
qed

lemma mem_read_deref:
  assumes "pq_inv q" and "pq_deref q p = x" and "length x = unat (pq_elem_size q)"
  shows "mem_read (pq_data q) (unat p) (unat (pq_elem_size q)) = Inr x"
proof -
  have "0 < unat (pq_elem_size q)" using assms(1) by (simp add: pq_inv_def word_less_nat_alt)
  then have "unat p + unat (pq_elem_size q) \<le> length (pq_data q)"
    using assms(2,3) by (auto simp: pq_deref_def min_def split: if_splits)
  then show ?thesis using assms(2) by (simp add: pq_deref_def)
qed

lemma mo_read_ok:
  assumes inv: "mo_inv b"
  shows "\<exists>b'. mo_read b = Inr (case pq_elems (mo_buffer b) of [] \<Rightarrow> None | y # _ \<Rightarrow> Some y, b') \<and> mo_inv b' \<and>
    pq_capacity (mo_buffer b') = pq_capacity (mo_buffer b) \<and> pq_elem_size (mo_buffer b') = pq_elem_size (mo_buffer b) \<and>
    pq_elems (mo_buffer b') = tl (pq_elems (mo_buffer b))"
proof -
  have i: "pq_inv (mo_buffer b)" "\<not> mo_finished b" using inv by (simp_all add: mo_inv_def)
  obtain p q where t: "shm_monitor_buffer_top b = Inr (p, set_mo b q)" "pq_inv q" "pq_elems q = pq_elems (mo_buffer b)"
      "pq_capacity q = pq_capacity (mo_buffer b)" "pq_elem_size q = pq_elem_size (mo_buffer b)"
      "case p of None \<Rightarrow> pq_elems q = []
       | Some a \<Rightarrow> pq_elems q \<noteq> [] \<and> pq_deref q a = hd (pq_elems q) \<and> 0 < rb_avail (pq_ringbuf q)"
    using mo_top_ok [OF i(1)] by (elim exE conjE) (rule that)
  show ?thesis
  proof (cases p)
    case None
    then show ?thesis using t i(2) by (simp add: mo_read_def mo_inv_def)
  next
    case (Some a)
    then have s: "pq_elems q \<noteq> []" "pq_deref q a = hd (pq_elems q)" "1 \<le> rb_avail (pq_ringbuf q)" using t(6) by simp_all
    have "mem_read (pq_data q) (unat a) (unat (pq_elem_size q)) = Inr (hd (pq_elems q))"
      using s(1) pq_elem_length [OF t(2), of "hd (pq_elems q)"] by (intro mem_read_deref [OF t(2) s(2)]) simp
    moreover have "rb_capacity (pq_ringbuf q) < SIZE_MAX - 1" using pq_inv_rb [OF t(2)] by (simp add: rb_inv_def)
    then obtain q' where "shm_par_queue_drop q 1 = Inr q'" "pq_inv q'" "pq_capacity q' = pq_capacity q"
        "pq_elem_size q' = pq_elem_size q" "pq_elems q' = drop 1 (pq_elems q)"
      using shm_par_queue_drop_ok [OF t(2), of 1] s(3) by auto
    ultimately show ?thesis using Some t(1,3-5) s(1) i(2)
      by (cases "pq_elems (mo_buffer b)") (auto simp: mo_read_def shm_monitor_buffer_elem_size_def shm_par_queue_elem_size_def
          shm_monitor_buffer_consume_def mo_inv_def)
  qed
qed

interpretation mon: bounded_fifo mo_inv "\<lambda>b. pq_elems (mo_buffer b)" "\<lambda>b. unat (pq_capacity (mo_buffer b))"
  "\<lambda>b x. length x = unat (pq_elem_size (mo_buffer b))" mo_write mo_read
proof
  fix b :: shm_monitor_buffer and x :: "byte list"
  assume "mo_inv b" "length x = unat (pq_elem_size (mo_buffer b))"
  from mo_write_ok [OF this] show "\<exists>b'. mo_write b x = Inr (length (pq_elems (mo_buffer b)) < unat (pq_capacity (mo_buffer b)), b') \<and>
      mo_inv b' \<and> unat (pq_capacity (mo_buffer b')) = unat (pq_capacity (mo_buffer b)) \<and>
      (\<lambda>x. length x = unat (pq_elem_size (mo_buffer b'))) = (\<lambda>x. length x = unat (pq_elem_size (mo_buffer b))) \<and>
      pq_elems (mo_buffer b') = (if length (pq_elems (mo_buffer b)) < unat (pq_capacity (mo_buffer b))
        then pq_elems (mo_buffer b) @ [x] else pq_elems (mo_buffer b))"
    by (elim ex_forward) (simp del: length_pq_elems)
next
  fix b :: shm_monitor_buffer
  assume "mo_inv b"
  from mo_read_ok [OF this] show "\<exists>b'. mo_read b = Inr (case pq_elems (mo_buffer b) of [] \<Rightarrow> None | y # _ \<Rightarrow> Some y, b') \<and>
      mo_inv b' \<and> unat (pq_capacity (mo_buffer b')) = unat (pq_capacity (mo_buffer b)) \<and>
      (\<lambda>x. length x = unat (pq_elem_size (mo_buffer b'))) = (\<lambda>x. length x = unat (pq_elem_size (mo_buffer b))) \<and>
      pq_elems (mo_buffer b') = tl (pq_elems (mo_buffer b))"
    by (elim ex_forward) simp
qed

section \<open>Properties\<close>



text \<open>
  C25: whatever the arbiter does while the monitor waits (keeping the queue well formed),
  \<open>fetch_arbiter_stream\<close> does not fail; a pointer it returns points to the oldest element of the
  queue, and it returns \<open>NULL\<close> only when the arbiter has finished.
\<close>

definition mo_env_ok :: "((shm_monitor_buffer \<Rightarrow> shm_monitor_buffer) \<times> (shm_monitor_buffer \<Rightarrow> shm_monitor_buffer)) list \<Rightarrow> bool" where
  "mo_env_ok env \<longleftrightarrow> (\<forall>(act1, act2) \<in> set env. \<forall>b. pq_inv (mo_buffer b) \<longrightarrow> pq_inv (mo_buffer (act1 b)) \<and> pq_inv (mo_buffer (act2 b)))"

lemma fetch_loop_ok:
  "pq_inv (mo_buffer b) \<Longrightarrow> mo_env_ok env \<Longrightarrow>
    \<exists>r b'. fetch_loop env b = Inr (r, b') \<and> pq_inv (mo_buffer b') \<and>
      (case r of Waiting \<Rightarrow> \<not> mo_finished b'
       | Returned None \<Rightarrow> mo_finished b'
       | Returned (Some p) \<Rightarrow> pq_elems (mo_buffer b') \<noteq> [] \<and> pq_deref (mo_buffer b') p = hd (pq_elems (mo_buffer b')))"
proof (induction env arbitrary: b)
  case (Nil b)
  then show ?case using mo_top_ok [of b] by (fastforce split: option.splits)
next
  case (Cons ac env)
  obtain act1 act2 where ac: "ac = (act1, act2)" by (cases ac)
  obtain p q where t: "shm_monitor_buffer_top b = Inr (p, set_mo b q)" "pq_inv q"
      "case p of None \<Rightarrow> pq_elems q = []
       | Some a \<Rightarrow> pq_elems q \<noteq> [] \<and> pq_deref q a = hd (pq_elems q) \<and> 0 < rb_avail (pq_ringbuf q)"
    using mo_top_ok [OF Cons.prems(1)] by (elim exE conjE) (rule that)
  show ?case
  proof (cases p)
    case (Some a)
    then show ?thesis using t by auto
  next
    case None
    let ?b1 = "act1 (set_mo b q)"
    have i: "pq_inv (mo_buffer ?b1)" "pq_inv (mo_buffer (act2 ?b1))" "mo_env_ok env"
      using Cons.prems(2) t(2) ac by (auto simp: mo_env_ok_def)
    have step: "fetch_loop (ac # env) b = (if mo_finished ?b1 then Inr (Returned None, ?b1) else fetch_loop env (act2 ?b1))"
      using t(1) None ac by (subst fetch_loop.simps) (simp add: Let_def del: fetch_loop.simps)
    show ?thesis
      unfolding step using i(1) Cons.IH [OF i(2,3)] by (cases "mo_finished ?b1") (simp_all del: fetch_loop.simps)
  qed
qed



text \<open>
  A finding: when the arbiter writes its last event and finishes (leaving \<open>b2\<close>) after the
  monitor has seen an empty queue and before it looks at the flag, the monitor takes the
  stream for finished and never sees that event.
\<close>

lemma fetch_misses_last_event:
  assumes "pq_inv (mo_buffer b)" and "pq_elems (mo_buffer b) = []" and "mo_finished b2" and "pq_elems (mo_buffer b2) = [x]"
  shows "fetch_arbiter_stream [(\<lambda>_. b2, act)] b = Inr (Returned None, b2)"
proof -
  obtain p q where t: "shm_monitor_buffer_top b = Inr (p, set_mo b q)" "pq_elems q = pq_elems (mo_buffer b)"
      "case p of None \<Rightarrow> pq_elems q = []
       | Some a \<Rightarrow> pq_elems q \<noteq> [] \<and> pq_deref q a = hd (pq_elems q) \<and> 0 < rb_avail (pq_ringbuf q)"
    using mo_top_ok [OF assms(1)] by (elim exE conjE) (rule that)
  then have "p = None" using assms(2) by (cases p) simp_all
  then show ?thesis using t(1) assms(3) by (simp add: fetch_arbiter_stream_def)
qed

end
