(* ===== verification/Vectors.thy ===== *)
theory Vectors
  imports Shm_Prelude
begin

text \<open>
  Growing arrays: the allocation helpers of \<open>core/utils.c\<close>, the vector of \<open>core/vector.c\<close>, its
  aligned variant (\<open>core/vector-aligned.c\<close>), the macros of \<open>core/vector-macro.h\<close> and the
  strings of \<open>core/shm_string.c\<close> and \<open>core/shm_string-macro.h\<close>. A block of memory is a list
  of bytes (\<open>[]\<close> for \<open>NULL\<close>); the allocator is an argument that gives the block it returns for
  a size, with indeterminate contents, or \<open>None\<close>. The sizes are 64-bit words and wrap around.
\<close>

section \<open>Allocation\<close>

type_synonym allocator = "size_t \<Rightarrow> byte list option"

definition realloc :: "allocator \<Rightarrow> byte list \<Rightarrow> size_t \<Rightarrow> byte list option" where
  "realloc malloc old n =
     (case malloc n of None \<Rightarrow> None | Some blk \<Rightarrow> Some (take (length blk) (old @ drop (length old) blk)))"

definition xalloc :: "allocator \<Rightarrow> size_t \<Rightarrow> byte list res" where
  "xalloc malloc sz =
     assertE (sz > 0) ''size > 0''
     (case malloc sz of None \<Rightarrow> Inl (Abort ''Allocation failed'') | Some mem \<Rightarrow> Inr mem)"

text \<open>\<open>posix_memalign\<close> also fails when the alignment is no power of two or less than a pointer.\<close>

definition xalloc_aligned :: "allocator \<Rightarrow> size_t \<Rightarrow> size_t \<Rightarrow> byte list res" where
  "xalloc_aligned memalign sz alignment =
     assertE (sz > 0) ''size > 0''
     (assertE (alignment > 0) ''alignment > 0''
     (if \<not> (8 \<le> alignment \<and> alignment AND (alignment - 1) = 0) then Inl (Assertion ''Allocation failed'')
      else (case memalign sz of None \<Rightarrow> Inl (Assertion ''Allocation failed'') | Some mem \<Rightarrow> Inr mem)))"

definition xstrdup :: "(string \<Rightarrow> string option) \<Rightarrow> string \<Rightarrow> string res" where
  "xstrdup strdup str = (case strdup str of None \<Rightarrow> Inl (Abort ''Strdup failed'') | Some s \<Rightarrow> Inr s)"

text \<open>The \<open>timespec\<close> a sleep asks for.\<close>

definition sleep_ns :: "uint64_t \<Rightarrow> (uint64_t \<times> uint64_t) res" where
  "sleep_ns ns =
     (let (sec, ns) = (if ns > 999999999 then (ns div 1000000000, ns mod 1000000000) else (0, ns)) in
      assertE (ns \<le> 999999999) ''ns <= 999999999'' (Inr (sec, ns)))"

definition sleep_ms :: "uint64_t \<Rightarrow> (uint64_t \<times> uint64_t) res" where
  "sleep_ms ms = sleep_ns (ms * 1000000)"

section \<open>Vectors\<close>

record shm_vector =
  vc_size :: size_t
  vc_element_size :: size_t
  vc_alloc_size :: size_t
  vc_data :: "byte list"

definition shm_vector_init :: "size_t \<Rightarrow> shm_vector res" where
  "shm_vector_init elem_size =
     assertE (elem_size > 0) ''elem_size > 0''
     (Inr \<lparr>vc_size = 0, vc_element_size = elem_size, vc_alloc_size = 0, vc_data = []\<rparr>)"

definition shm_vector_destroy :: "shm_vector \<Rightarrow> shm_vector" where
  "shm_vector_destroy vec = vec\<lparr>vc_data := []\<rparr>"

definition shm_vector_swap :: "shm_vector \<Rightarrow> shm_vector \<Rightarrow> (shm_vector \<times> shm_vector) res" where
  "shm_vector_swap vec wit =
     assertE (vc_element_size vec = vc_element_size wit) ''vec->element_size == with->element_size''
     (let data = vc_data vec; sz = vc_size vec; asize = vc_alloc_size vec;
          vec = vec\<lparr>vc_data := vc_data wit, vc_size := vc_size wit, vc_alloc_size := vc_alloc_size wit\<rparr>;
          wit = wit\<lparr>vc_data := data, vc_size := sz, vc_alloc_size := asize\<rparr>
      in Inr (vec, wit))"

definition shm_vector_resize :: "allocator \<Rightarrow> shm_vector \<Rightarrow> size_t \<Rightarrow> shm_vector res" where
  "shm_vector_resize malloc vec sz =
     (if vc_size vec \<ge> sz then Inr vec
      else
        bindE (if sz \<ge> vc_alloc_size vec then
                 (let vec = vec\<lparr>vc_alloc_size := sz\<rparr> in
                  assertE (0 < vc_element_size vec) ''0 < vec->element_size''
                  (case realloc malloc (vc_data vec) (vc_alloc_size vec * vc_element_size vec) of
                     None \<Rightarrow> Inl (Assertion ''Memory re-allocation failed'')
                   | Some data \<Rightarrow> Inr (vec\<lparr>vc_data := data\<rparr>)))
               else Inr vec) (\<lambda>vec.
        let addr = unat (vc_size vec * vc_element_size vec) in
        bindE (mem_write (vc_data vec) addr (replicate (unat (sz - vc_size vec)) 0)) (\<lambda>data.
        Inr (vec\<lparr>vc_data := data, vc_size := sz\<rparr>))))"

text \<open>A pointer to an element is its byte offset.\<close>

definition vec_reserve :: "(shm_vector \<Rightarrow> size_t \<Rightarrow> byte list res) \<Rightarrow> shm_vector \<Rightarrow> (size_t \<times> shm_vector) res" where
  "vec_reserve grow vec =
     bindE (if vc_size vec \<ge> vc_alloc_size vec then
              (let vec = vec\<lparr>vc_alloc_size := vc_alloc_size vec + 10\<rparr> in
               assertE (0 < vc_element_size vec) ''0 < vec->element_size''
               (bindE (grow vec (vc_alloc_size vec * vc_element_size vec)) (\<lambda>data.
                Inr (vec\<lparr>vc_data := data\<rparr>))))
            else Inr vec) (\<lambda>vec.
     assertE (vc_size vec < vc_alloc_size vec) ''Vector too small''
     (assertE (0 < vc_element_size vec) ''0 < vec->element_size''
     (let addr = vc_size vec * vc_element_size vec in
      Inr (addr, vec\<lparr>vc_size := vc_size vec + 1\<rparr>))))"

definition shm_vector_extend :: "allocator \<Rightarrow> shm_vector \<Rightarrow> (size_t \<times> shm_vector) res" where
  "shm_vector_extend malloc vec =
     vec_reserve (\<lambda>vec n. case realloc malloc (vc_data vec) n of
       None \<Rightarrow> Inl (Assertion ''Memory re-allocation failed'') | Some data \<Rightarrow> Inr data) vec"

definition shm_vector_push :: "allocator \<Rightarrow> shm_vector \<Rightarrow> byte list \<Rightarrow> (size_t \<times> shm_vector) res" where
  "shm_vector_push malloc vec elem =
     bindE (shm_vector_extend malloc vec) (\<lambda>(addr, vec).
     bindE (mem_read elem 0 (unat (vc_element_size vec))) (\<lambda>src.
     bindE (mem_write (vc_data vec) (unat addr) src) (\<lambda>data.
     Inr (vc_size vec, vec\<lparr>vc_data := data\<rparr>))))"

definition shm_vector_pop :: "shm_vector \<Rightarrow> (size_t \<times> shm_vector) res" where
  "shm_vector_pop vec =
     assertE (vc_size vec > 0) ''vec->size > 0''
     (let vec = vec\<lparr>vc_size := vc_size vec - 1\<rparr> in Inr (vc_size vec, vec))"

definition shm_vector_size :: "shm_vector \<Rightarrow> size_t" where
  "shm_vector_size vec = vc_size vec"

definition shm_vector_elem_size :: "shm_vector \<Rightarrow> size_t res" where
  "shm_vector_elem_size vec = assertE (0 < vc_element_size vec) ''0 < vec->element_size'' (Inr (vc_element_size vec))"

definition shm_vector_at :: "shm_vector \<Rightarrow> size_t \<Rightarrow> size_t res" where
  "shm_vector_at vec idx =
     assertE (idx < vc_size vec) ''idx < vec->size''
     (assertE (0 < vc_element_size vec) ''0 < vec->element_size'' (Inr (idx * vc_element_size vec)))"

definition shm_vector_at_checked :: "shm_vector \<Rightarrow> size_t \<Rightarrow> size_t option res" where
  "shm_vector_at_checked vec idx =
     assertE (0 < vc_element_size vec) ''0 < vec->element_size''
     (if idx < vc_size vec then Inr (Some (idx * vc_element_size vec)) else Inr None)"

definition shm_vector_top :: "shm_vector \<Rightarrow> size_t option res" where
  "shm_vector_top vec =
     (if vc_size vec = 0 then Inr None
      else assertE (0 < vc_element_size vec) ''0 < vec->element_size''
        (Inr (Some ((vc_size vec - 1) * vc_element_size vec))))"

section \<open>Aligned vectors\<close>

text \<open>
  The functions of the aligned vector take a vector that is the first field of
  \<open>shm_vector_aligned\<close>. A new block is filled with the first \<open>vec->size\<close> bytes of the old one.
\<close>

record shm_vector_aligned = shm_vector +
  va_alignment :: size_t

definition shm_vector_aligned_init :: "size_t \<Rightarrow> size_t \<Rightarrow> shm_vector_aligned res" where
  "shm_vector_aligned_init elem_size alignment =
     assertE (alignment > 0) ''alignment > 0''
     (bindE (shm_vector_init elem_size) (\<lambda>v.
      Inr \<lparr>vc_size = vc_size v, vc_element_size = vc_element_size v, vc_alloc_size = vc_alloc_size v, vc_data = vc_data v,
           va_alignment = alignment\<rparr>))"

abbreviation vec_of :: "shm_vector_aligned \<Rightarrow> shm_vector" where
  "vec_of \<equiv> shm_vector.truncate"

definition set_vec :: "shm_vector_aligned \<Rightarrow> shm_vector \<Rightarrow> shm_vector_aligned" where
  "set_vec av v = shm_vector.extend v (shm_vector_aligned.fields (va_alignment av))"

definition shm_vector_aligned_swap ::
    "shm_vector_aligned \<Rightarrow> shm_vector_aligned \<Rightarrow> (shm_vector_aligned \<times> shm_vector_aligned) res" where
  "shm_vector_aligned_swap vec wit =
     bindE (shm_vector_swap (vec_of vec) (vec_of wit)) (\<lambda>(v, w).
     let alignment = va_alignment vec in
     Inr ((set_vec vec v)\<lparr>va_alignment := va_alignment wit\<rparr>, (set_vec wit w)\<lparr>va_alignment := alignment\<rparr>))"

definition copy_old :: "byte list \<Rightarrow> shm_vector \<Rightarrow> byte list res" where
  "copy_old new_data vec =
     (if vc_size vec > 0 then
        bindE (mem_read (vc_data vec) 0 (unat (vc_size vec))) (\<lambda>old. mem_write new_data 0 old)
      else Inr new_data)"

definition shm_vector_aligned_resize :: "allocator \<Rightarrow> shm_vector_aligned \<Rightarrow> size_t \<Rightarrow> shm_vector_aligned res" where
  "shm_vector_aligned_resize memalign avec sz =
     (if vc_size avec \<ge> sz then Inr avec
      else
        bindE (if sz \<ge> vc_alloc_size avec then
                 (let vec = avec\<lparr>vc_alloc_size := sz\<rparr> in
                  assertE (0 < vc_element_size vec) ''0 < vec->element_size''
                  (bindE (xalloc_aligned memalign (vc_alloc_size vec * vc_element_size vec) (va_alignment vec)) (\<lambda>new_data.
                   bindE (copy_old new_data (vec_of vec)) (\<lambda>data. Inr (vec\<lparr>vc_data := data\<rparr>)))))
               else Inr avec) (\<lambda>vec.
        let addr = unat (vc_size vec * vc_element_size vec) in
        bindE (mem_write (vc_data vec) addr (replicate (unat (sz - vc_size vec)) 0)) (\<lambda>data.
        Inr (vec\<lparr>vc_data := data, vc_size := sz\<rparr>))))"

definition shm_vector_aligned_extend ::
    "allocator \<Rightarrow> shm_vector_aligned \<Rightarrow> (size_t \<times> shm_vector_aligned) res" where
  "shm_vector_aligned_extend memalign avec =
     bindE (vec_reserve (\<lambda>vec n. bindE (xalloc_aligned memalign n (va_alignment avec)) (\<lambda>new_data.
       copy_old new_data vec)) (vec_of avec)) (\<lambda>(addr, v). Inr (addr, set_vec avec v))"

definition shm_vector_aligned_push ::
    "allocator \<Rightarrow> shm_vector_aligned \<Rightarrow> byte list \<Rightarrow> (size_t \<times> shm_vector_aligned) res" where
  "shm_vector_aligned_push memalign avec elem =
     bindE (shm_vector_aligned_extend memalign avec) (\<lambda>(addr, vec).
     bindE (mem_read elem 0 (unat (vc_element_size vec))) (\<lambda>src.
     bindE (mem_write (vc_data vec) (unat addr) src) (\<lambda>data.
     Inr (vc_size vec, vec\<lparr>vc_data := data\<rparr>))))"

section \<open>Vector macros\<close>

text \<open>
  \<open>VEC\<close> declares three variables; \<open>es\<close> is \<open>VEC_ELEM_SIZE\<close>, the size of the element type.
\<close>

record vec =
  ve_data :: "byte list"
  ve_size :: size_t
  ve_alloc_size :: size_t

definition VEC_INIT :: vec where
  "VEC_INIT = \<lparr>ve_data = [], ve_size = 0, ve_alloc_size = 0\<rparr>"

definition VEC_DESTROY :: "vec \<Rightarrow> vec" where
  "VEC_DESTROY v = v\<lparr>ve_data := []\<rparr>"

definition VEC_AT :: "size_t \<Rightarrow> vec \<Rightarrow> size_t \<Rightarrow> byte list res" where
  "VEC_AT es v idx = mem_read (ve_data v) (unat (idx * es)) (unat es)"

definition vec_realloc :: "allocator \<Rightarrow> size_t \<Rightarrow> vec \<Rightarrow> size_t \<Rightarrow> vec res" where
  "vec_realloc malloc es v n =
     (let v = v\<lparr>ve_alloc_size := n\<rparr> in
      case realloc malloc (ve_data v) (ve_alloc_size v * es) of
        None \<Rightarrow> Inl (Assertion ''Memory re-allocation failed'')
      | Some d \<Rightarrow> Inr (v\<lparr>ve_data := d\<rparr>))"

definition VEC_GROW :: "allocator \<Rightarrow> size_t \<Rightarrow> vec \<Rightarrow> size_t \<Rightarrow> vec res" where
  "VEC_GROW malloc es v new_size =
     (if new_size > ve_alloc_size v then vec_realloc malloc es v new_size else Inr v)"

definition VEC_EXTEND_N :: "allocator \<Rightarrow> size_t \<Rightarrow> vec \<Rightarrow> size_t \<Rightarrow> (size_t \<times> vec) res" where
  "VEC_EXTEND_N malloc es v n =
     bindE (if ve_size v \<ge> ve_alloc_size v then vec_realloc malloc es v (ve_alloc_size v + n) else Inr v) (\<lambda>v.
     assertE (ve_size v < ve_alloc_size v) ''Vector too small''
     (Inr (ve_size v * es, v\<lparr>ve_size := ve_size v + 1\<rparr>)))"

definition VEC_EXTEND :: "allocator \<Rightarrow> size_t \<Rightarrow> vec \<Rightarrow> (size_t \<times> vec) res" where
  "VEC_EXTEND malloc es v = VEC_EXTEND_N malloc es v 16"

definition VEC_PUSH :: "allocator \<Rightarrow> size_t \<Rightarrow> vec \<Rightarrow> byte list \<Rightarrow> vec res" where
  "VEC_PUSH malloc es v elem =
     bindE (if ve_size v \<ge> ve_alloc_size v then vec_realloc malloc es v (ve_alloc_size v + 10) else Inr v) (\<lambda>v.
     assertE (ve_size v < ve_alloc_size v) ''Vector too small''
     (bindE (mem_read elem 0 (unat es)) (\<lambda>src.
      bindE (mem_write (ve_data v) (unat (ve_size v * es)) src) (\<lambda>d.
      Inr (v\<lparr>ve_data := d, ve_size := ve_size v + 1\<rparr>)))))"

definition VEC_POP :: "vec \<Rightarrow> vec" where
  "VEC_POP v = v\<lparr>ve_size := ve_size v - 1\<rparr>"

definition VEC_TOP_PTR :: "size_t \<Rightarrow> vec \<Rightarrow> size_t res" where
  "VEC_TOP_PTR es v = (if ve_size v = 0 then Inl (UB ''pointer underflow'') else Inr ((ve_size v - 1) * es))"

definition VEC_TOP :: "size_t \<Rightarrow> vec \<Rightarrow> byte list res" where
  "VEC_TOP es v = bindE (VEC_TOP_PTR es v) (\<lambda>p. mem_read (ve_data v) (unat p) (unat es))"

definition VEC_POP_TOP :: "size_t \<Rightarrow> vec \<Rightarrow> (byte list \<times> vec) res" where
  "VEC_POP_TOP es v =
     (let v = v\<lparr>ve_size := ve_size v - 1\<rparr> in
      bindE (mem_read (ve_data v) (unat (ve_size v * es)) (unat es)) (\<lambda>x. Inr (x, v)))"

section \<open>Strings\<close>

text \<open>A string is a vector of characters of one byte that doubles its allocation.\<close>

type_synonym shm_string = vec

definition STRING_ENSURE_SPACE :: "allocator \<Rightarrow> vec \<Rightarrow> vec res" where
  "STRING_ENSURE_SPACE malloc s =
     bindE (if ve_size s \<ge> ve_alloc_size s
            then vec_realloc malloc 1 s (if ve_alloc_size s < 32 then 32 else 2 * ve_alloc_size s)
            else Inr s) (\<lambda>s.
     assertE (ve_size s < ve_alloc_size s) ''Vector too small'' (Inr s))"

definition STRING_EXTEND :: "allocator \<Rightarrow> vec \<Rightarrow> (size_t \<times> vec) res" where
  "STRING_EXTEND malloc s =
     bindE (if ve_size s \<ge> ve_alloc_size s
            then vec_realloc malloc 1 s (if ve_alloc_size s < 32 then 32 else 2 * ve_alloc_size s)
            else Inr s) (\<lambda>s.
     assertE (ve_size s < ve_alloc_size s) ''Vector too small''
     (Inr (ve_size s, s\<lparr>ve_size := ve_size s + 1\<rparr>)))"

definition STRING_APPEND :: "allocator \<Rightarrow> vec \<Rightarrow> byte \<Rightarrow> vec res" where
  "STRING_APPEND malloc s c =
     bindE (STRING_EXTEND malloc s) (\<lambda>(w, s).
     assertE (ve_size s \<le> ve_alloc_size s) ''String too small''
     (assertE (w = ve_size s - 1) ''__w == s + STRING_SIZE(s) - 1''
     (bindE (mem_write (ve_data s) (unat w) [c]) (\<lambda>d. Inr (s\<lparr>ve_data := d\<rparr>)))))"

definition STRING_POP :: "vec \<Rightarrow> vec res" where
  "STRING_POP s = assertE (ve_size s > 0) ''STRING_SIZE(s) > 0'' (Inr (s\<lparr>ve_size := ve_size s - 1\<rparr>))"

definition shm_string_init :: shm_string where
  "shm_string_init = VEC_INIT"

definition shm_string_destroy :: "shm_string \<Rightarrow> shm_string" where
  "shm_string_destroy s = VEC_DESTROY s"

definition shm_string_swap :: "shm_string \<Rightarrow> shm_string \<Rightarrow> shm_string \<times> shm_string" where
  "shm_string_swap s wit =
     (let data = ve_data s; sz = ve_size s; asize = ve_alloc_size s;
          s = s\<lparr>ve_data := ve_data wit, ve_size := ve_size wit, ve_alloc_size := ve_alloc_size wit\<rparr>;
          wit = wit\<lparr>ve_data := data, ve_size := sz, ve_alloc_size := asize\<rparr>
      in (s, wit))"

definition shm_string_grow :: "allocator \<Rightarrow> shm_string \<Rightarrow> size_t \<Rightarrow> shm_string res" where
  "shm_string_grow malloc s sz = (if ve_size s \<ge> sz then Inr s else VEC_GROW malloc 1 s sz)"

definition shm_string_extend :: "allocator \<Rightarrow> shm_string \<Rightarrow> (size_t \<times> shm_string) res" where
  "shm_string_extend malloc s = STRING_EXTEND malloc s"

definition shm_string_append :: "allocator \<Rightarrow> shm_string \<Rightarrow> byte \<Rightarrow> (size_t \<times> shm_string) res" where
  "shm_string_append malloc s c = bindE (STRING_APPEND malloc s c) (\<lambda>s. Inr (ve_size s, s))"

definition shm_string_pop :: "shm_string \<Rightarrow> size_t \<times> shm_string" where
  "shm_string_pop s = (let s = s\<lparr>ve_size := ve_size s - 1\<rparr> in (ve_size s, s))"

definition shm_string_clear :: "shm_string \<Rightarrow> shm_string" where
  "shm_string_clear s = s\<lparr>ve_size := 0\<rparr>"

definition shm_string_size :: "shm_string \<Rightarrow> size_t" where
  "shm_string_size s = ve_size s"

text \<open>A negative index counts from the end; \<open>-idx\<close> overflows for the least \<open>ssize_t\<close>.\<close>

definition shm_string_at_ptr :: "shm_string \<Rightarrow> size_t \<Rightarrow> size_t res" where
  "shm_string_at_ptr s idx =
     (if sint idx < 0 then
        if sint idx = - 9223372036854775808 then Inl (UB ''signed overflow'')
        else assertE (- idx \<le> ve_size s) ''idx OOB'' (Inr (ve_size s + idx))
      else assertE (idx < ve_size s) ''idx OOB'' (Inr idx))"

definition shm_string_at :: "shm_string \<Rightarrow> size_t \<Rightarrow> byte res" where
  "shm_string_at s idx =
     bindE (shm_string_at_ptr s idx) (\<lambda>p.
     bindE (mem_read (ve_data s) (unat p) 1) (\<lambda>bs. Inr (hd bs)))"

section \<open>The contract of a growing array\<close>

text \<open>An allocator that always succeeds.\<close>

definition total_alloc :: "allocator \<Rightarrow> bool" where
  "total_alloc malloc \<longleftrightarrow> malloc_ok malloc \<and> (\<forall>n. malloc n \<noteq> None)"

fun push_all :: "('v \<Rightarrow> 'x \<Rightarrow> 'v res) \<Rightarrow> 'v \<Rightarrow> 'x list \<Rightarrow> 'v res" where
  "push_all push v [] = Inr v"
| "push_all push v (x # xs) = bindE (push v x) (\<lambda>v. push_all push v xs)"

text \<open>\<open>room n v\<close>: the sizes of the next \<open>n\<close> allocations do not overflow.\<close>

locale growing_array =
  fixes inv :: "'v \<Rightarrow> bool" and items :: "'v \<Rightarrow> byte list list" and width :: "'v \<Rightarrow> nat"
    and room :: "nat \<Rightarrow> 'v \<Rightarrow> bool" and push :: "allocator \<Rightarrow> 'v \<Rightarrow> byte list \<Rightarrow> 'v res"
  assumes push_ok: "inv v \<Longrightarrow> room (Suc n) v \<Longrightarrow> total_alloc m \<Longrightarrow> length x = width v \<Longrightarrow>
    \<exists>v'. push m v x = Inr v' \<and> inv v' \<and> room n v' \<and> width v' = width v \<and> items v' = items v @ [x]"
begin

lemma push_all_ok:
  "inv v \<Longrightarrow> room (length xs) v \<Longrightarrow> total_alloc m \<Longrightarrow> \<forall>x \<in> set xs. length x = width v \<Longrightarrow>
    \<exists>v'. push_all (push m) v xs = Inr v' \<and> inv v' \<and> width v' = width v \<and> items v' = items v @ xs"
proof (induction xs arbitrary: v)
  case (Cons x xs)
  from push_ok [OF Cons.prems(1) _ Cons.prems(3), of "length xs" x] Cons.prems obtain v' where
    p: "push m v x = Inr v'" "inv v'" "room (length xs) v'" "width v' = width v" "items v' = items v @ [x]" by auto
  from Cons.IH [OF p(2,3) Cons.prems(3)] Cons.prems(4) p(1,4,5) show ?case by auto
qed auto

end

section \<open>Blocks of elements\<close>

definition block_ok :: "size_t \<Rightarrow> size_t \<Rightarrow> size_t \<Rightarrow> byte list \<Rightarrow> bool" where
  "block_ok es sz asz d \<longleftrightarrow> 0 < es \<and> sz \<le> asz \<and> length d = unat asz * unat es \<and>
     unat asz * unat es < 18446744073709551616"

definition block_items :: "size_t \<Rightarrow> size_t \<Rightarrow> byte list \<Rightarrow> byte list list" where
  "block_items es sz d = map (slot (unat es) d) [0..<unat sz]"

lemma slot_take:
  assumes "take n d' = take n d" and "i * es + es \<le> n"
  shows "slot es d' i = slot es d i"
proof -
  have "take es (drop (i * es) (take n d')) = take es (drop (i * es) (take n d))" using assms(1) by simp
  moreover have "take es (drop (i * es) (take n x)) = slot es x i" for x :: "byte list"
    using assms(2) by (simp add: slot_def drop_take min_def)
  ultimately show ?thesis by simp
qed

lemma block_items_take:
  assumes "take (unat sz * unat es) d' = take (unat sz * unat es) d"
  shows "block_items es sz d' = block_items es sz d"
proof -
  have "slot (unat es) d' i = slot (unat es) d i" if "i < unat sz" for i
  proof -
    have "Suc i * unat es \<le> unat sz * unat es" using that by (intro mult_le_mono1) simp
    then show ?thesis by (intro slot_take [OF assms]) simp
  qed
  then show ?thesis by (simp add: block_items_def)
qed

lemma realloc_block:
  assumes b: "block_ok es sz asz d" and a: "asz \<le> asz'" "unat asz' * unat es < 18446744073709551616"
    and m: "total_alloc malloc"
  shows "\<exists>d'. realloc malloc d (asz' * es) = Some d' \<and> block_ok es sz asz' d' \<and> block_items es sz d' = block_items es sz d"
proof -
  have u: "unat (asz' * es) = unat asz' * unat es" using a(2) by (simp add: unat_mult_64)
  obtain blk where blk: "malloc (asz' * es) = Some blk" "length blk = unat asz' * unat es"
    using m u unfolding total_alloc_def malloc_ok_def by (metis option.exhaust)
  have le: "length d \<le> length blk"
    using b a(1) blk(2) by (simp add: block_ok_def word_le_nat_alt)
  let ?d = "take (length blk) (d @ drop (length d) blk)"
  have len: "length ?d = unat asz' * unat es" using le blk(2) by simp
  have "unat sz * unat es \<le> length d" using b by (simp add: block_ok_def word_le_nat_alt)
  then have "take (unat sz * unat es) ?d = take (unat sz * unat es) d" using le by (simp add: min_def)
  then have items: "block_items es sz ?d = block_items es sz d" by (rule block_items_take)
  have "sz \<le> asz'" using b a(1) by (auto simp: block_ok_def)
  then have "block_ok es sz asz' ?d" using b a(2) len unfolding block_ok_def by blast
  then show ?thesis using items blk(1) unfolding realloc_def by simp
qed

lemma block_push:
  assumes b: "block_ok es sz asz d" and sz: "sz < asz" and x: "length x = unat es"
  shows "mem_write d (unat (sz * es)) x = Inr (mem_upd d (unat (sz * es)) x)"
    and "block_ok es (sz + 1) asz (mem_upd d (unat (sz * es)) x)"
    and "block_items es (sz + 1) (mem_upd d (unat (sz * es)) x) = block_items es sz d @ [x]"
proof -
  have le: "Suc (unat sz) * unat es \<le> unat asz * unat es"
    using sz by (intro mult_le_mono1) (simp add: word_less_nat_alt)
  then have in_b: "unat sz * unat es + unat es \<le> length d" and u: "unat (sz * es) = unat sz * unat es"
    using b by (simp_all add: block_ok_def unat_mult_64)
  have "unat sz + 1 < 18446744073709551616" using sz unat_less_2p64 [of asz] by (simp add: word_less_nat_alt)
  then have s1: "unat (sz + 1) = Suc (unat sz)" by (simp add: unat_add_64)
  show "mem_write d (unat (sz * es)) x = Inr (mem_upd d (unat (sz * es)) x)" using in_b u x by simp
  show "block_ok es (sz + 1) asz (mem_upd d (unat (sz * es)) x)"
    using b in_b u x s1 sz by (simp add: block_ok_def word_le_nat_alt word_less_nat_alt)
  have "slot (unat es) (mem_upd d (unat sz * unat es) x) i = slot (unat es) d i" if i: "i < unat sz" for i
  proof -
    have "Suc i * unat es \<le> unat sz * unat es" using i by (intro mult_le_mono1) simp
    then show ?thesis using i in_b x by (intro slot_mem_upd_other) auto
  qed
  moreover have "slot (unat es) (mem_upd d (unat sz * unat es) x) (unat sz) = x" by (rule slot_mem_upd_full [OF in_b x])
  ultimately show "block_items es (sz + 1) (mem_upd d (unat (sz * es)) x) = block_items es sz d @ [x]"
    by (simp add: block_items_def s1 u)
qed

section \<open>The vectors meet the contract\<close>

definition vec_inv :: "shm_vector \<Rightarrow> bool" where
  "vec_inv v \<longleftrightarrow> block_ok (vc_element_size v) (vc_size v) (vc_alloc_size v) (vc_data v)"

definition vec_items :: "shm_vector \<Rightarrow> byte list list" where
  "vec_items v = block_items (vc_element_size v) (vc_size v) (vc_data v)"

definition vec_room :: "nat \<Rightarrow> shm_vector \<Rightarrow> bool" where
  "vec_room n v \<longleftrightarrow> (unat (vc_alloc_size v) + 10 * n) * unat (vc_element_size v) < 18446744073709551616"

definition vec_push :: "allocator \<Rightarrow> shm_vector \<Rightarrow> byte list \<Rightarrow> shm_vector res" where
  "vec_push malloc v x = bindE (shm_vector_push malloc v x) (\<lambda>(_, v). Inr v)"

lemma add_10_no_overflow:
  assumes "(unat (asz :: size_t) + 10 * Suc n) * unat (es :: size_t) < 18446744073709551616" and "0 < es"
  shows "unat (asz + 10) = unat asz + 10" "asz \<le> asz + 10" "unat (asz + 10) * unat es < 18446744073709551616"
    "(unat (asz + 10) + 10 * n) * unat es < 18446744073709551616"
proof -
  have "1 \<le> unat es" using assms(2) by (simp add: word_less_nat_alt)
  then have "(unat asz + 10 * Suc n) * 1 \<le> (unat asz + 10 * Suc n) * unat es" by (intro mult_le_mono2)
  then have "unat asz + 10 * Suc n < 18446744073709551616" using le_less_trans [OF _ assms(1)] by simp
  then have "unat asz + 10 < 18446744073709551616" by simp
  then show u: "unat (asz + 10) = unat asz + 10" by (simp add: unat_add_64)
  then show "asz \<le> asz + 10" by (simp add: word_le_nat_alt)
  show "(unat (asz + 10) + 10 * n) * unat es < 18446744073709551616" using assms(1) u by (simp add: algebra_simps)
  then show "unat (asz + 10) * unat es < 18446744073709551616"
    by (rule le_less_trans [rotated]) (intro mult_le_mono1, simp)
qed

lemma shm_vector_push_ok:
  assumes i: "vec_inv v" and r: "vec_room (Suc n) v" and m: "total_alloc m" and x: "length x = unat (vc_element_size v)"
  shows "\<exists>v'. shm_vector_push m v x = Inr (vc_size v + 1, v') \<and> vec_inv v' \<and> vec_room n v' \<and>
    vc_size v' = vc_size v + 1 \<and> vc_element_size v' = vc_element_size v \<and> vec_items v' = vec_items v @ [x]"
proof -
  let ?es = "vc_element_size v" and ?sz = "vc_size v"
  note b = i [unfolded vec_inv_def]
  have es: "0 < ?es" using b by (simp add: block_ok_def)
  have grown: "\<exists>asz d. shm_vector_extend m v = Inr (?sz * ?es, v\<lparr>vc_alloc_size := asz, vc_data := d, vc_size := ?sz + 1\<rparr>) \<and>
      block_ok ?es ?sz asz d \<and> ?sz < asz \<and> block_items ?es ?sz d = vec_items v \<and>
      (unat asz + 10 * n) * unat ?es < 18446744073709551616"
  proof (cases "vc_size v \<ge> vc_alloc_size v")
    case True
    note o = add_10_no_overflow [OF r [unfolded vec_room_def] es]
    obtain d where d: "realloc m (vc_data v) ((vc_alloc_size v + 10) * ?es) = Some d"
        "block_ok ?es ?sz (vc_alloc_size v + 10) d" "block_items ?es ?sz d = vec_items v"
      using realloc_block [OF b o(2,3) m] by (auto simp: vec_items_def)
    have "?sz < vc_alloc_size v + 10" using b o(1) by (simp add: block_ok_def word_le_nat_alt word_less_nat_alt)
    then show ?thesis using True d o(4) es
      by (intro exI [of _ "vc_alloc_size v + 10"] exI [of _ d]) (simp add: shm_vector_extend_def vec_reserve_def Let_def)
  next
    case False
    have "(unat (vc_alloc_size v) + 10 * n) * unat ?es < 18446744073709551616"
      using r unfolding vec_room_def by (rule le_less_trans [rotated]) (intro mult_le_mono1, simp)
    then show ?thesis using False b es
      by (intro exI [of _ "vc_alloc_size v"] exI [of _ "vc_data v"])
        (simp add: shm_vector_extend_def vec_reserve_def Let_def vec_items_def)
  qed
  then obtain asz d where g: "shm_vector_extend m v = Inr (?sz * ?es, v\<lparr>vc_alloc_size := asz, vc_data := d, vc_size := ?sz + 1\<rparr>)"
      "block_ok ?es ?sz asz d" "?sz < asz" "block_items ?es ?sz d = vec_items v"
      "(unat asz + 10 * n) * unat ?es < 18446744073709551616" by (elim exE conjE) (rule that)
  note p = block_push [OF g(2,3) x]
  let ?v = "v\<lparr>vc_alloc_size := asz, vc_size := ?sz + 1, vc_data := mem_upd d (unat (?sz * ?es)) x\<rparr>"
  have "shm_vector_push m v x = Inr (?sz + 1, ?v)" using g(1) p(1) x by (simp add: shm_vector_push_def)
  then show ?thesis using p(2,3) g(4,5)
    by (intro exI [of _ ?v]) (simp add: vec_inv_def vec_room_def vec_items_def)
qed

interpretation shv: growing_array vec_inv vec_items "\<lambda>v. unat (vc_element_size v)" vec_room vec_push
proof
  fix v :: shm_vector and n :: nat and m :: allocator and x :: "byte list"
  assume "vec_inv v" "vec_room (Suc n) v" "total_alloc m" "length x = unat (vc_element_size v)"
  from shm_vector_push_ok [OF this] show "\<exists>v'. vec_push m v x = Inr v' \<and> vec_inv v' \<and> vec_room n v' \<and>
    unat (vc_element_size v') = unat (vc_element_size v) \<and> vec_items v' = vec_items v @ [x]"
    by (auto simp: vec_push_def)
qed

lemma shm_vector_at_ok:
  assumes "vec_inv v" and "unat i < length (vec_items v)"
  shows "\<exists>p. shm_vector_at v i = Inr p \<and> mem_read (vc_data v) (unat p) (unat (vc_element_size v)) = Inr (vec_items v ! unat i)"
proof -
  let ?es = "vc_element_size v"
  have i: "unat i < unat (vc_size v)" using assms(2) by (simp add: vec_items_def block_items_def)
  have "Suc (unat i) * unat ?es \<le> unat (vc_alloc_size v) * unat ?es"
    using assms(1) i by (intro mult_le_mono1) (simp add: vec_inv_def block_ok_def word_le_nat_alt)
  then have "unat i * unat ?es + unat ?es \<le> length (vc_data v)" "unat (i * ?es) = unat i * unat ?es" "0 < ?es"
    using assms(1) by (simp_all add: vec_inv_def block_ok_def unat_mult_64)
  then show ?thesis using i mem_read_slot [of "unat i" "unat ?es" "vc_data v"]
    by (simp add: shm_vector_at_def vec_items_def block_items_def word_less_nat_alt)
qed

text \<open>The macros do what the functions do, failures included.\<close>

definition to_vector :: "size_t \<Rightarrow> vec \<Rightarrow> shm_vector" where
  "to_vector es v = \<lparr>vc_size = ve_size v, vc_element_size = es, vc_alloc_size = ve_alloc_size v, vc_data = ve_data v\<rparr>"

lemma VEC_PUSH_eq:
  assumes "0 < es"
  shows "shm_vector_push malloc (to_vector es v) x = bindE (VEC_PUSH malloc es v x) (\<lambda>v. Inr (ve_size v, to_vector es v))"
proof -
  have tail: "(let w = (to_vector es v1)\<lparr>vc_size := ve_size v1 + 1\<rparr> in
      bindE (mem_read x 0 (unat es)) (\<lambda>src. bindE (mem_write (ve_data v1) (unat (ve_size v1 * es)) src) (\<lambda>d. Inr (vc_size w, w\<lparr>vc_data := d\<rparr>)))) =
    bindE (bindE (mem_read x 0 (unat es)) (\<lambda>src. bindE (mem_write (ve_data v1) (unat (ve_size v1 * es)) src) (\<lambda>d.
      Inr (v1\<lparr>ve_data := d, ve_size := ve_size v1 + 1\<rparr>)))) (\<lambda>v. Inr (ve_size v, to_vector es v))" for v1
    by (simp add: bindE_def to_vector_def split: sum.split)
  show ?thesis
  proof (cases "ve_size v \<ge> ve_alloc_size v")
    case True
    show ?thesis
    proof (cases "realloc malloc (ve_data v) ((ve_alloc_size v + 10) * es)")
      case None
      then show ?thesis using True assms
        by (simp add: shm_vector_push_def shm_vector_extend_def vec_reserve_def VEC_PUSH_def vec_realloc_def to_vector_def)
    next
      case (Some d)
      then show ?thesis using True assms tail [of "v\<lparr>ve_alloc_size := ve_alloc_size v + 10, ve_data := d\<rparr>"]
        by (cases "ve_size v < ve_alloc_size v + 10")
          (simp_all add: shm_vector_push_def shm_vector_extend_def vec_reserve_def VEC_PUSH_def vec_realloc_def to_vector_def)
    qed
  next
    case False
    then have "ve_size v < ve_alloc_size v" by simp
    then show ?thesis using False assms tail [of v]
      by (simp add: shm_vector_push_def shm_vector_extend_def vec_reserve_def VEC_PUSH_def to_vector_def Let_def)
  qed
qed

section \<open>Strings meet the contract\<close>

definition string_inv :: "shm_string \<Rightarrow> bool" where
  "string_inv s \<longleftrightarrow> ve_size s \<le> ve_alloc_size s \<and> length (ve_data s) = unat (ve_alloc_size s)"

definition string_text :: "shm_string \<Rightarrow> byte list" where
  "string_text s = take (unat (ve_size s)) (ve_data s)"

definition string_room :: "nat \<Rightarrow> shm_string \<Rightarrow> bool" where
  "string_room n s \<longleftrightarrow> max 32 (unat (ve_alloc_size s)) * 2 ^ n < 18446744073709551616"

definition string_push :: "allocator \<Rightarrow> shm_string \<Rightarrow> byte list \<Rightarrow> shm_string res" where
  "string_push malloc s x = STRING_APPEND malloc s (hd x)"

lemma string_grown:
  assumes i: "string_inv s" and r: "string_room (Suc n) s" and m: "total_alloc m"
  shows "\<exists>asz d. STRING_EXTEND m s = Inr (ve_size s, s\<lparr>ve_alloc_size := asz, ve_data := d, ve_size := ve_size s + 1\<rparr>) \<and>
    ve_size s < asz \<and> length d = unat asz \<and> take (unat (ve_size s)) d = string_text s \<and>
    max 32 (unat asz) * 2 ^ n < 18446744073709551616"
proof (cases "ve_size s \<ge> ve_alloc_size s")
  case True
  then have eq: "ve_size s = ve_alloc_size s" using i by (simp add: string_inv_def word_le_nat_alt word_64_eq_iff)
  define asz where "asz = (if ve_alloc_size s < 32 then 32 else 2 * ve_alloc_size s)"
  have "max 32 (unat (ve_alloc_size s)) * 2 \<le> max 32 (unat (ve_alloc_size s)) * 2 ^ Suc n" by simp
  then have "max 32 (unat (ve_alloc_size s)) * 2 < 18446744073709551616" using r unfolding string_room_def by (rule le_less_trans)
  then have u: "unat asz = (if unat (ve_alloc_size s) < 32 then 32 else 2 * unat (ve_alloc_size s))"
    by (auto simp: asz_def word_less_nat_alt unat_mult_64)
  have room: "max 32 (unat asz) * 2 ^ n < 18446744073709551616"
    using r u by (auto simp: string_room_def max_def algebra_simps split: if_splits)
  obtain blk where blk: "m asz = Some blk" "length blk = unat asz"
    using m unfolding total_alloc_def malloc_ok_def by (metis option.exhaust)
  let ?d = "take (length blk) (ve_data s @ drop (length (ve_data s)) blk)"
  have "length (ve_data s) = unat (ve_alloc_size s)" using i by (simp add: string_inv_def)
  then have d: "length ?d = unat asz" "take (unat (ve_size s)) ?d = string_text s"
    using blk(2) u eq by (auto simp: string_text_def)
  have lt: "ve_size s < asz" using u eq by (simp add: word_less_nat_alt)
  have "STRING_EXTEND m s = Inr (ve_size s, s\<lparr>ve_alloc_size := asz, ve_data := ?d, ve_size := ve_size s + 1\<rparr>)"
    using True blk(1) lt by (simp add: STRING_EXTEND_def vec_realloc_def realloc_def flip: asz_def)
  then show ?thesis using lt d room by blast
next
  case False
  then have "STRING_EXTEND m s = Inr (ve_size s, s\<lparr>ve_size := ve_size s + 1\<rparr>)" by (simp add: STRING_EXTEND_def)
  moreover have "max 32 (unat (ve_alloc_size s)) * 2 ^ n < 18446744073709551616"
    using r unfolding string_room_def by (rule le_less_trans [rotated]) simp
  ultimately show ?thesis using False i
    by (intro exI [of _ "ve_alloc_size s"] exI [of _ "ve_data s"]) (simp add: string_inv_def string_text_def)
qed

lemma STRING_APPEND_ok:
  assumes i: "string_inv s" and r: "string_room (Suc n) s" and m: "total_alloc m"
  shows "\<exists>s'. STRING_APPEND m s c = Inr s' \<and> string_inv s' \<and> string_room n s' \<and> string_text s' = string_text s @ [c]"
proof -
  obtain asz d where e: "STRING_EXTEND m s = Inr (ve_size s, s\<lparr>ve_alloc_size := asz, ve_data := d, ve_size := ve_size s + 1\<rparr>)"
      "ve_size s < asz" "length d = unat asz" "take (unat (ve_size s)) d = string_text s"
      "max 32 (unat asz) * 2 ^ n < 18446744073709551616"
    using string_grown [OF assms] by (elim exE conjE) (rule that)
  have lt: "unat (ve_size s) < unat asz" using e(2) by (simp add: word_less_nat_alt)
  then have "unat (ve_size s) + 1 < 18446744073709551616" using unat_less_2p64 [of asz] by linarith
  then have u: "unat (ve_size s + 1) = Suc (unat (ve_size s))" by (simp add: unat_add_64)
  let ?s = "s\<lparr>ve_alloc_size := asz, ve_size := ve_size s + 1, ve_data := mem_upd d (unat (ve_size s)) [c]\<rparr>"
  have "STRING_APPEND m s c = Inr ?s"
    using e(1,3) lt u by (simp add: STRING_APPEND_def word_le_nat_alt)
  moreover have "string_inv ?s" using e(3) lt u by (simp add: string_inv_def word_le_nat_alt)
  moreover have "take (Suc (unat (ve_size s))) (mem_upd d (unat (ve_size s)) [c]) = take (unat (ve_size s)) d @ [c]"
    using e(3) lt by (simp add: mem_upd_def)
  then have "string_text ?s = string_text s @ [c]" unfolding e(4) by (simp add: string_text_def u)
  ultimately show ?thesis using e(5) by (auto simp: string_room_def)
qed

interpretation shs: growing_array string_inv "\<lambda>s. map (\<lambda>c. [c]) (string_text s)" "\<lambda>_. 1" string_room string_push
proof
  fix s :: shm_string and n :: nat and m :: allocator and x :: "byte list"
  assume "string_inv s" "string_room (Suc n) s" "total_alloc m" "length x = 1"
  from STRING_APPEND_ok [OF this(1-3), of "hd x"] \<open>length x = 1\<close>
  show "\<exists>s'. string_push m s x = Inr s' \<and> string_inv s' \<and> string_room n s' \<and> 1 = (1 :: nat) \<and>
      map (\<lambda>c. [c]) (string_text s') = map (\<lambda>c. [c]) (string_text s) @ [x]"
    by (cases x) (auto simp: string_push_def)
qed

section \<open>Properties\<close>

text \<open>
  C27: a vector made by \<open>shm_vector_init\<close> holds exactly the elements pushed, in order, across all
  reallocations: no push fails or writes out of bounds (if the allocator succeeds and the
  sizes do not overflow), and \<open>shm_vector_at\<close> points to the element with its index.
\<close>

theorem vector_holds_pushed_elements:
  assumes "0 < es" and "10 * length xs * unat es < 18446744073709551616" and "total_alloc malloc"
    and "\<forall>x \<in> set xs. length x = unat es"
  shows "\<exists>v0 v. shm_vector_init es = Inr v0 \<and> push_all (vec_push malloc) v0 xs = Inr v \<and> vec_items v = xs \<and>
    (\<forall>i. unat i < length xs \<longrightarrow>
      (\<exists>p. shm_vector_at v i = Inr p \<and> mem_read (vc_data v) (unat p) (unat es) = Inr (xs ! unat i)))"
proof -
  let ?v0 = "\<lparr>vc_size = 0, vc_element_size = es, vc_alloc_size = 0, vc_data = []\<rparr>"
  have "vec_inv ?v0" "vec_items ?v0 = []" "vec_room (length xs) ?v0"
    using assms(1,2) by (simp_all add: vec_inv_def block_ok_def vec_items_def block_items_def vec_room_def)
  with shv.push_all_ok [of ?v0 xs malloc] assms(3,4) obtain v where
    v: "push_all (vec_push malloc) ?v0 xs = Inr v" "vec_inv v" "unat (vc_element_size v) = unat es" "vec_items v = xs"
    by auto
  then have "vc_element_size v = es" by (simp add: word_64_eq_iff)
  moreover have "shm_vector_init es = Inr ?v0" using assms(1) by (simp add: shm_vector_init_def)
  ultimately show ?thesis using v shm_vector_at_ok [OF v(2)] by auto
qed

lemma total_zero_malloc: "total_alloc zero_malloc"
  using zero_malloc_ok by (simp add: total_alloc_def zero_malloc_def)

theorem vector_holds_pushed_elements_witness:
  "\<exists>v0 v. shm_vector_init 2 = Inr v0 \<and> push_all (vec_push zero_malloc) v0 (replicate 11 [1, 2]) = Inr v \<and>
    vec_items v = replicate 11 [1, 2]"
  using vector_holds_pushed_elements [OF _ _ total_zero_malloc, of 2 "replicate 11 [1, 2]"] by auto



lemma shm_string_at_ok:
  assumes i: "string_inv s" and "sint idx \<noteq> - 9223372036854775808"
  shows "shm_string_at s idx =
    (if sint idx < 0
     then if unat (- idx) \<le> length (string_text s) then Inr (string_text s ! (length (string_text s) - unat (- idx)))
          else Inl (Assertion ''idx OOB'')
     else if unat idx < length (string_text s) then Inr (string_text s ! unat idx) else Inl (Assertion ''idx OOB''))"
proof -
  have len: "length (string_text s) = unat (ve_size s)" and d: "unat (ve_size s) \<le> length (ve_data s)"
    using i by (simp_all add: string_inv_def string_text_def word_le_nat_alt)
  have rd: "mem_read (ve_data s) k 1 = Inr [string_text s ! k]" if "k < unat (ve_size s)" for k
  proof -
    have "drop k (ve_data s) = ve_data s ! k # drop (Suc k) (ve_data s)" using that d by (simp add: Cons_nth_drop_Suc)
    then show ?thesis using that d by (simp add: string_text_def)
  qed
  show ?thesis
  proof (cases "sint idx < 0")
    case True
    then have "idx \<noteq> 0" by auto
    then have pos: "0 < unat (- idx)" by (simp add: unat_gt_0)
    show ?thesis
    proof (cases "- idx \<le> ve_size s")
      case in_range: True
      have "unat (ve_size s - (- idx)) = unat (ve_size s) - unat (- idx)"
        using in_range by (simp only: unat_sub_64 word_le_nat_alt if_True)
      then have u: "unat (ve_size s + idx) = unat (ve_size s) - unat (- idx)" by simp
      then show ?thesis using True in_range assms(2) rd [of "unat (ve_size s + idx)"] pos len
        by (simp add: shm_string_at_def shm_string_at_ptr_def word_le_nat_alt)
    qed (use True assms(2) len in \<open>simp add: shm_string_at_def shm_string_at_ptr_def word_le_nat_alt\<close>)
  next
    case False
    then show ?thesis using rd [of "unat idx"] len
      by (simp add: shm_string_at_def shm_string_at_ptr_def word_less_nat_alt)
  qed
qed

text \<open>
  characters appended to a fresh string are its text, across all reallocations, and
  \<open>shm_string_at\<close> returns the character with an index from the front or, if the index is negative,
  from the back; an index out of bounds fails the assertion.
\<close>

theorem string_append_and_index:
  assumes "32 * 2 ^ length cs < (18446744073709551616 :: nat)" and "total_alloc malloc"
    and "sint idx \<noteq> - 9223372036854775808"
  shows "\<exists>s. push_all (string_push malloc) shm_string_init (map (\<lambda>c. [c]) cs) = Inr s \<and> string_text s = cs \<and>
    shm_string_at s idx =
      (if sint idx < 0
       then if unat (- idx) \<le> length cs then Inr (cs ! (length cs - unat (- idx))) else Inl (Assertion ''idx OOB'')
       else if unat idx < length cs then Inr (cs ! unat idx) else Inl (Assertion ''idx OOB''))"
proof -
  have "string_inv shm_string_init" "string_text shm_string_init = []" "string_room (length cs) shm_string_init"
    using assms(1) by (simp_all add: string_inv_def string_text_def string_room_def shm_string_init_def VEC_INIT_def)
  with shs.push_all_ok [of shm_string_init "map (\<lambda>c. [c]) cs" malloc] assms(2) obtain s where
    s: "push_all (string_push malloc) shm_string_init (map (\<lambda>c. [c]) cs) = Inr s" "string_inv s"
      "map (\<lambda>c. [c]) (string_text s) = map (\<lambda>c. [c]) cs" by auto
  have "string_text s = cs" using s(3) by (rule map_injective) (simp add: inj_def)
  then show ?thesis using s(1) shm_string_at_ok [OF s(2) assms(3)] by auto
qed

theorem string_append_and_index_witness:
  "\<exists>s. push_all (string_push zero_malloc) shm_string_init [[104], [105]] = Inr s \<and> shm_string_at s (- 1) = Inr 105 \<and>
    shm_string_at s 0 = Inr 104"
proof -
  obtain s where "push_all (string_push zero_malloc) shm_string_init [[104], [105]] = Inr s" "shm_string_at s (- 1) = Inr 105"
    using string_append_and_index [OF _ total_zero_malloc, of "[104, 105]" "- 1"] by auto
  moreover obtain s' where "push_all (string_push zero_malloc) shm_string_init [[104], [105]] = Inr s'" "shm_string_at s' 0 = Inr 104"
    using string_append_and_index [OF _ total_zero_malloc, of "[104, 105]" 0] by auto
  ultimately show ?thesis by auto
qed

section \<open>Findings\<close>

text \<open>
  The aligned vector copies \<open>size\<close> bytes, not \<open>size\<close> elements, when it grows: with elements
  of two bytes, half of the elements are lost with the eleventh push.
\<close>

definition avec_example :: shm_vector_aligned where
  "avec_example = \<lparr>vc_size = 10, vc_element_size = 2, vc_alloc_size = 10,
     vc_data = [1, 2, 3, 4, 5, 6, 7, 8, 9, 10, 11, 12, 13, 14, 15, 16, 17, 18, 19, 20], va_alignment = 64\<rparr>"

lemma aligned_push_loses_elements:
  "map_sum id (\<lambda>(n, v). vec_items (vec_of v)) (shm_vector_aligned_push zero_malloc avec_example [21, 22]) =
    Inr [[1, 2], [3, 4], [5, 6], [7, 8], [9, 10], [0, 0], [0, 0], [0, 0], [0, 0], [0, 0], [21, 22]]"
  by code_simp

text \<open>\<open>shm_vector_resize\<close> zeroes \<open>size - vec->size\<close> bytes, not elements.\<close>

lemma resize_zeroes_bytes:
  "map_sum id vec_items (shm_vector_resize (\<lambda>n. Some (replicate (unat n) 255))
     \<lparr>vc_size = 0, vc_element_size = 2, vc_alloc_size = 0, vc_data = []\<rparr> 2) = Inr [[0, 0], [255, 255]]"
  by code_simp

end
