(* ===== verification/Linked_Lists.thy ===== *)
theory Linked_Lists
  imports Shm_Prelude
begin

text \<open>
  Doubly linked lists on an explicit heap: the list of \<open>core/list.c\<close> and the circular embedded
  list of \<open>core/list-embedded.c\<close>. The heap maps addresses to nodes; reading or writing through
  \<open>NULL\<close> or an address that is not allocated is undefined behaviour. \<open>malloc\<close> is an argument:
  the address of the new node, \<open>None\<close> when it fails.
\<close>

section \<open>The heap\<close>

type_synonym ptr = "nat option"

record 'd lnode =
  ln_next :: ptr
  ln_prev :: ptr
  ln_data :: 'd

type_synonym 'd lheap = "nat \<Rightarrow> 'd lnode option"

definition deref :: "'d lheap \<Rightarrow> ptr \<Rightarrow> 'd lnode res" where
  "deref h p = (case p of None \<Rightarrow> Inl (UB ''NULL dereferenced'')
     | Some a \<Rightarrow> (case h a of None \<Rightarrow> Inl (UB ''dangling pointer'') | Some n \<Rightarrow> Inr n))"

definition store :: "'d lheap \<Rightarrow> ptr \<Rightarrow> ('d lnode \<Rightarrow> 'd lnode) \<Rightarrow> 'd lheap res" where
  "store h p f = bindE (deref h p) (\<lambda>n. Inr (h(the p \<mapsto> f n)))"

abbreviation set_next :: "'d lheap \<Rightarrow> ptr \<Rightarrow> ptr \<Rightarrow> 'd lheap res" where
  "set_next h p q \<equiv> store h p (\<lambda>n. n\<lparr>ln_next := q\<rparr>)"

abbreviation set_prev :: "'d lheap \<Rightarrow> ptr \<Rightarrow> ptr \<Rightarrow> 'd lheap res" where
  "set_prev h p q \<equiv> store h p (\<lambda>n. n\<lparr>ln_prev := q\<rparr>)"

section \<open>Lists\<close>

record shm_list =
  li_first :: ptr
  li_last :: ptr
  li_size :: size_t

definition shm_list_init :: shm_list where
  "shm_list_init = \<lparr>li_first = None, li_last = None, li_size = 0\<rparr>"

text \<open>Every operation ends by counting the element and checking the ends of the list.\<close>

definition ends_ok :: "shm_list \<Rightarrow> bool" where
  "ends_ok l \<longleftrightarrow> (li_first l = None \<longleftrightarrow> li_last l = None)"

definition counted :: "'d lheap \<Rightarrow> shm_list \<Rightarrow> size_t \<Rightarrow> (size_t \<times> 'd lheap \<times> shm_list) res" where
  "counted h l n = assertE (ends_ok l) ''!list->first == !list->last'' (Inr (n, h, l\<lparr>li_size := n\<rparr>))"

text \<open>The loop of \<open>shm_list_destroy\<close>; \<open>free(NULL)\<close> does nothing. The callback sees the data only.\<close>

primrec destroy_loop :: "nat \<Rightarrow> 'd lheap \<Rightarrow> ptr \<Rightarrow> 'd lheap res option" where
  "destroy_loop 0 h cur = None"
| "destroy_loop (Suc fuel) h cur =
     (case cur of
        None \<Rightarrow> Some (Inr h)
      | Some a \<Rightarrow>
          (case deref h cur of
             Inl e \<Rightarrow> Some (Inl e)
           | Inr n \<Rightarrow>
               (let cur = ln_next n in
                destroy_loop fuel (case cur of None \<Rightarrow> h | Some b \<Rightarrow> h(b := None)) cur)))"

definition shm_list_destroy :: "nat \<Rightarrow> 'd lheap \<Rightarrow> shm_list \<Rightarrow> 'd lheap res option" where
  "shm_list_destroy fuel h l = destroy_loop fuel h (li_first l)"

definition shm_list_insert_elem_after ::
    "'d lheap \<Rightarrow> shm_list \<Rightarrow> ptr \<Rightarrow> ptr \<Rightarrow> (size_t \<times> 'd lheap \<times> shm_list) res" where
  "shm_list_insert_elem_after h l elem new =
     assertE (elem \<noteq> None) ''elem''
     (bindE (deref h elem) (\<lambda>e.
      bindE (set_next h new (ln_next e)) (\<lambda>h.
      bindE (set_prev h new elem) (\<lambda>h.
      bindE (deref h elem) (\<lambda>e.
      bindE (if ln_next e \<noteq> None then set_prev h (ln_next e) new else Inr h) (\<lambda>h.
      bindE (set_next h elem new) (\<lambda>h.
      let l = (if elem = li_last l then l\<lparr>li_last := new\<rparr> else l) in
      counted h l (li_size l + 1))))))))"

definition alloc_node :: "'d lheap \<Rightarrow> ptr \<Rightarrow> 'd lnode \<Rightarrow> 'd \<Rightarrow> 'd lheap res" where
  "alloc_node h new blank d =
     (case new of None \<Rightarrow> Inl (Assertion ''new'') | Some a \<Rightarrow> Inr (h(a \<mapsto> blank\<lparr>ln_data := d\<rparr>)))"

definition shm_list_insert_after ::
    "'d lheap \<Rightarrow> shm_list \<Rightarrow> ptr \<Rightarrow> 'd \<Rightarrow> ptr \<Rightarrow> 'd lnode \<Rightarrow> (size_t \<times> 'd lheap \<times> shm_list) res" where
  "shm_list_insert_after h l elem d new blank =
     assertE (elem \<noteq> None) ''elem''
     (bindE (alloc_node h new blank d) (\<lambda>h. shm_list_insert_elem_after h l elem new))"

definition shm_list_insert_before ::
    "'d lheap \<Rightarrow> shm_list \<Rightarrow> ptr \<Rightarrow> 'd \<Rightarrow> ptr \<Rightarrow> 'd lnode \<Rightarrow> (size_t \<times> 'd lheap \<times> shm_list) res" where
  "shm_list_insert_before h l elem d new blank =
     assertE (elem \<noteq> None) ''elem''
     (bindE (alloc_node h new blank d) (\<lambda>h.
      bindE (set_next h new elem) (\<lambda>h.
      bindE (deref h elem) (\<lambda>e.
      bindE (if ln_prev e \<noteq> None then set_next h (ln_prev e) new else Inr h) (\<lambda>h.
      bindE (deref h elem) (\<lambda>e.
      bindE (set_prev h new (ln_prev e)) (\<lambda>h.
      bindE (set_prev h elem new) (\<lambda>h.
      bindE (if elem = li_first l then
               bindE (deref h new) (\<lambda>n.
               assertE (ln_prev n = None) ''new->prev == NULL'' (Inr (l\<lparr>li_first := new\<rparr>)))
             else Inr l) (\<lambda>l.
      counted h l (li_size l + 1))))))))))"

definition shm_list_prepend ::
    "'d lheap \<Rightarrow> shm_list \<Rightarrow> 'd \<Rightarrow> ptr \<Rightarrow> 'd lnode \<Rightarrow> (size_t \<times> 'd lheap \<times> shm_list) res" where
  "shm_list_prepend h l d new blank =
     bindE (if li_first l = None then Inr True else bindE (deref h (li_first l)) (\<lambda>n. Inr (ln_prev n = None))) (\<lambda>c.
     assertE c ''!list->first || list->first->prev == NULL''
     (bindE (alloc_node h new blank d) (\<lambda>h.
      bindE (set_next h new (li_first l)) (\<lambda>h.
      bindE (set_prev h new None) (\<lambda>h.
      let l = l\<lparr>li_first := new\<rparr>;
          l = (if li_last l = None then l\<lparr>li_last := new\<rparr> else l)
      in counted h l (li_size l + 1))))))"

definition link_last :: "'d lheap \<Rightarrow> shm_list \<Rightarrow> ptr \<Rightarrow> (size_t \<times> 'd lheap \<times> shm_list) res" where
  "link_last h l new =
     bindE (set_next h new None) (\<lambda>h.
     bindE (set_prev h new (li_last l)) (\<lambda>h.
     bindE (if li_last l \<noteq> None then set_next h (li_last l) new else Inr h) (\<lambda>h.
     let l = l\<lparr>li_last := new\<rparr>;
         l = (if li_first l = None then l\<lparr>li_first := new\<rparr> else l)
     in counted h l (li_size l + 1))))"

definition last_has_no_next :: "'d lheap \<Rightarrow> shm_list \<Rightarrow> bool res" where
  "last_has_no_next h l =
     (if li_last l = None then Inr True else bindE (deref h (li_last l)) (\<lambda>n. Inr (ln_next n = None)))"

definition shm_list_append ::
    "'d lheap \<Rightarrow> shm_list \<Rightarrow> 'd \<Rightarrow> ptr \<Rightarrow> 'd lnode \<Rightarrow> (size_t \<times> 'd lheap \<times> shm_list) res" where
  "shm_list_append h l d new blank =
     bindE (last_has_no_next h l) (\<lambda>c.
     assertE c ''list->last == NULL || list->last->next == NULL''
     (bindE (alloc_node h new blank d) (\<lambda>h. link_last h l new)))"

definition shm_list_append_elem :: "'d lheap \<Rightarrow> shm_list \<Rightarrow> ptr \<Rightarrow> (size_t \<times> 'd lheap \<times> shm_list) res" where
  "shm_list_append_elem h l elem =
     bindE (last_has_no_next h l) (\<lambda>c.
     assertE c ''list->last == NULL || list->last->next == NULL''
     (assertE (elem \<noteq> None) ''elem'' (link_last h l elem)))"

definition shm_list_remove :: "'d lheap \<Rightarrow> shm_list \<Rightarrow> ptr \<Rightarrow> (size_t \<times> 'd lheap \<times> shm_list) res" where
  "shm_list_remove h l elem =
     assertE (elem \<noteq> None) ''elem''
     (assertE (li_size l > 0) ''list->size > 0''
     (assertE (li_first l \<noteq> None) ''list->first''
     (assertE (li_last l \<noteq> None) ''list->last''
     (bindE (deref h elem) (\<lambda>e.
      bindE (if ln_next e \<noteq> None then set_prev h (ln_next e) (ln_prev e) else Inr h) (\<lambda>h.
      bindE (deref h elem) (\<lambda>e.
      bindE (if ln_prev e \<noteq> None then set_next h (ln_prev e) (ln_next e) else Inr h) (\<lambda>h.
      bindE (deref h elem) (\<lambda>e.
      let l = (if elem = li_first l then l\<lparr>li_first := ln_next e\<rparr> else l);
          l = (if elem = li_last l then l\<lparr>li_last := ln_prev e\<rparr> else l)
      in counted h l (li_size l - 1))))))))))"

definition shm_list_size :: "shm_list \<Rightarrow> size_t res" where
  "shm_list_size l =
     assertE (li_size l > 0 \<or> (li_first l = None \<and> li_last l = None)) ''list->size > 0 || (!list->first && !list->last)''
     (assertE (ends_ok l) ''!list->first == !list->last'' (Inr (li_size l)))"

definition shm_list_first :: "shm_list \<Rightarrow> ptr res" where
  "shm_list_first l = assertE (ends_ok l) ''!list->first == !list->last'' (Inr (li_first l))"

definition shm_list_last :: "shm_list \<Rightarrow> ptr res" where
  "shm_list_last l = assertE (ends_ok l) ''!list->first == !list->last'' (Inr (li_last l))"

section \<open>Embedded lists\<close>

text \<open>The nodes of the circular list; the data around a node is not part of it.\<close>

type_synonym eheap = "unit lheap"

definition shm_list_embedded_init :: "eheap \<Rightarrow> ptr \<Rightarrow> eheap res" where
  "shm_list_embedded_init h l = bindE (set_prev h l l) (\<lambda>h. set_next h l l)"

definition shm_list_embedded_insert_after :: "eheap \<Rightarrow> ptr \<Rightarrow> ptr \<Rightarrow> eheap res" where
  "shm_list_embedded_insert_after h l elm =
     bindE (set_prev h elm l) (\<lambda>h.
     bindE (deref h l) (\<lambda>n.
     bindE (set_next h elm (ln_next n)) (\<lambda>h.
     bindE (set_next h l elm) (\<lambda>h.
     bindE (deref h elm) (\<lambda>e.
     set_prev h (ln_next e) elm)))))"

definition shm_list_embedded_empty :: "eheap \<Rightarrow> ptr \<Rightarrow> bool res" where
  "shm_list_embedded_empty h l = bindE (deref h l) (\<lambda>n. Inr (ln_next n = l))"

definition shm_list_embedded_insert_list :: "eheap \<Rightarrow> ptr \<Rightarrow> ptr \<Rightarrow> eheap res" where
  "shm_list_embedded_insert_list h l other =
     bindE (shm_list_embedded_empty h other) (\<lambda>e.
     if e then Inr h
     else
       bindE (deref h other) (\<lambda>o1.
       bindE (set_prev h (ln_next o1) l) (\<lambda>h.
       bindE (deref h other) (\<lambda>o2.
       bindE (deref h l) (\<lambda>n.
       bindE (set_next h (ln_prev o2) (ln_next n)) (\<lambda>h.
       bindE (deref h l) (\<lambda>n.
       bindE (deref h other) (\<lambda>o3.
       bindE (set_prev h (ln_next n) (ln_prev o3)) (\<lambda>h.
       bindE (deref h other) (\<lambda>o4. set_next h l (ln_next o4))))))))))) "

definition shm_list_embedded_remove :: "eheap \<Rightarrow> ptr \<Rightarrow> eheap res" where
  "shm_list_embedded_remove h elm =
     bindE (deref h elm) (\<lambda>e.
     bindE (set_next h (ln_prev e) (ln_next e)) (\<lambda>h.
     bindE (deref h elm) (\<lambda>e.
     bindE (set_prev h (ln_next e) (ln_prev e)) (\<lambda>h.
     bindE (set_prev h elm None) (\<lambda>h. set_next h elm None)))))"

text \<open>The loop that counts may run forever on a heap that is no ring: fuel bounds it.\<close>

primrec embedded_size_loop :: "nat \<Rightarrow> eheap \<Rightarrow> ptr \<Rightarrow> ptr \<Rightarrow> size_t \<Rightarrow> size_t res option" where
  "embedded_size_loop 0 h l cur n = None"
| "embedded_size_loop (Suc fuel) h l cur n =
     (if cur = l then Some (Inr n)
      else (case deref h cur of
          Inl e \<Rightarrow> Some (Inl e)
        | Inr c \<Rightarrow> embedded_size_loop fuel h l (ln_next c) (n + 1)))"

definition shm_list_embedded_size :: "nat \<Rightarrow> eheap \<Rightarrow> ptr \<Rightarrow> size_t res option" where
  "shm_list_embedded_size fuel h l =
     (case deref h l of Inl e \<Rightarrow> Some (Inl e) | Inr n \<Rightarrow> embedded_size_loop fuel h l (ln_next n) 0)"

section \<open>Segments\<close>

text \<open>
  A segment of nodes with addresses and data \<open>xs\<close>, between the neighbours \<open>p\<close> (of the first
  node) and \<open>q\<close> (of the last one).
\<close>

definition hd_ptr :: "(nat \<times> 'd) list \<Rightarrow> ptr \<Rightarrow> ptr" where
  "hd_ptr xs q = (case xs of [] \<Rightarrow> q | (a, _) # _ \<Rightarrow> Some a)"

definition last_ptr :: "ptr \<Rightarrow> (nat \<times> 'd) list \<Rightarrow> ptr" where
  "last_ptr p xs = (if xs = [] then p else Some (fst (last xs)))"

fun dlseg :: "'d lheap \<Rightarrow> ptr \<Rightarrow> (nat \<times> 'd) list \<Rightarrow> ptr \<Rightarrow> bool" where
  "dlseg h p [] q = True"
| "dlseg h p ((a, d) # xs) q \<longleftrightarrow>
     h a = Some \<lparr>ln_next = hd_ptr xs q, ln_prev = p, ln_data = d\<rparr> \<and> dlseg h (Some a) xs q"

lemma hd_ptr_simps [simp]:
  "hd_ptr [] q = q" "hd_ptr ((a, d) # xs) q = Some a" "hd_ptr (xs @ ys) q = hd_ptr xs (hd_ptr ys q)"
  by (simp_all add: hd_ptr_def split: list.split)

lemma last_ptr_simps [simp]:
  "last_ptr p [] = p" "last_ptr p (x # xs) = last_ptr (Some (fst x)) xs"
  by (simp_all add: last_ptr_def)

lemma last_ptr_append [simp]: "last_ptr p (xs @ ys) = last_ptr (last_ptr p xs) ys"
  by (induction xs arbitrary: p) simp_all

lemma dlseg_append [simp]:
  "dlseg h p (xs @ ys) q \<longleftrightarrow> dlseg h p xs (hd_ptr ys q) \<and> dlseg h (last_ptr p xs) ys q"
proof (induction xs arbitrary: p)
  case (Cons x xs)
  then show ?case by (cases x) simp
qed simp

lemma dlseg_frame [simp]:
  "a \<notin> fst ` set xs \<Longrightarrow> dlseg (h(a := v)) p xs q = dlseg h p xs q"
proof (induction xs arbitrary: p)
  case (Cons x xs)
  then show ?case by (cases x) simp
qed simp

lemma hd_ptr_in: "hd_ptr xs q = Some a \<Longrightarrow> a \<in> fst ` set xs \<or> (xs = [] \<and> q = Some a)"
  by (auto simp: hd_ptr_def split: list.splits)

lemma last_ptr_in: "last_ptr p xs = Some a \<Longrightarrow> a \<in> fst ` set xs \<or> (xs = [] \<and> p = Some a)"
  by (auto simp: last_ptr_def split: if_splits)

lemma deref_Some [simp]: "h a = Some n \<Longrightarrow> deref h (Some a) = Inr n"
  by (simp add: deref_def)

lemma store_Some [simp]: "h a = Some n \<Longrightarrow> store h (Some a) f = Inr (h(a \<mapsto> f n))"
  by (simp add: store_def)

text \<open>The first and the last node, to split a list at its ends.\<close>

lemma ends_cases:
  obtains "xs = []" | ys a d where "xs = ys @ [(a, d)]"
  by (cases xs rule: rev_cases) auto

section \<open>The list of \<open>list.c\<close>\<close>

definition list_repr :: "'d lheap \<Rightarrow> shm_list \<Rightarrow> (nat \<times> 'd) list \<Rightarrow> bool" where
  "list_repr h l xs \<longleftrightarrow> distinct (map fst xs) \<and> dlseg h None xs None \<and> li_first l = hd_ptr xs None \<and>
     li_last l = last_ptr None xs \<and> unat (li_size l) = length xs"

lemma list_reprD:
  assumes "list_repr h l xs"
  shows "distinct (map fst xs)" "dlseg h None xs None" "li_first l = hd_ptr xs None" "li_last l = last_ptr None xs"
    "unat (li_size l) = length xs"
  using assms by (simp_all add: list_repr_def)

lemma size_inc: "unat (n :: size_t) = k \<Longrightarrow> Suc k < 18446744073709551616 \<Longrightarrow> unat (n + 1) = Suc k"
  by (simp add: unat_add_64)

lemma link_last_ok:
  assumes r: "list_repr h l xs" and a: "a \<notin> fst ` set xs" "h a = Some n" and sz: "Suc (length xs) < 18446744073709551616"
  shows "\<exists>h' l'. link_last h l (Some a) = Inr (li_size l + 1, h', l') \<and> list_repr h' l' (xs @ [(a, ln_data n)])"
proof (cases xs rule: ends_cases)
  case 1
  with r a(2) size_inc [of "li_size l" 0] show ?thesis
    by (auto simp: link_last_def list_repr_def counted_def ends_ok_def Let_def)
next
  case (2 ys b e)
  note R = list_reprD [OF r]
  have b: "h b = Some \<lparr>ln_next = None, ln_prev = last_ptr None ys, ln_data = e\<rparr>" "a \<noteq> b" "a \<notin> fst ` set ys"
      "b \<notin> fst ` set ys"
    using R(1,2) a(1) 2 by (auto simp: last_ptr_def)
  have "li_first l \<noteq> None" using R(3) 2 by (auto simp: hd_ptr_def split: list.splits)
  then show ?thesis using R b a(2) 2 size_inc [OF R(5) sz]
    by (auto simp: link_last_def list_repr_def counted_def ends_ok_def Let_def)
qed

lemma hd_ptr_eq_iff: "a \<notin> fst ` set xs \<Longrightarrow> hd_ptr xs (Some a) = Some a \<longleftrightarrow> xs = []"
  using hd_ptr_in [of xs "Some a" a] by (cases "xs = []") auto

lemma last_ptr_eq_iff: "a \<notin> fst ` set xs \<Longrightarrow> last_ptr (Some a) xs = Some a \<longleftrightarrow> xs = []"
  using last_ptr_in [of "Some a" xs a] by (cases "xs = []") auto

lemma ptr_not_None [simp]: "hd_ptr xs (Some a) \<noteq> None" "last_ptr (Some a) xs \<noteq> None"
  by (simp_all add: hd_ptr_def last_ptr_def split: list.split)

lemma last_has_no_next_ok:
  assumes "list_repr h l xs"
  shows "last_has_no_next h l = Inr True"
proof (cases xs rule: ends_cases)
  case 1
  then show ?thesis using assms by (simp add: last_has_no_next_def list_repr_def)
next
  case (2 ys b e)
  then show ?thesis using assms by (simp add: last_has_no_next_def list_repr_def)
qed

lemma shm_list_append_ok:
  assumes r: "list_repr h l xs" and a: "a \<notin> fst ` set xs" and sz: "Suc (length xs) < 18446744073709551616"
  shows "\<exists>h' l'. shm_list_append h l d (Some a) blank = Inr (li_size l + 1, h', l') \<and> list_repr h' l' (xs @ [(a, d)])"
proof -
  let ?h = "h(a \<mapsto> blank\<lparr>ln_data := d\<rparr>)"
  have r': "list_repr ?h l xs" using r a by (simp add: list_repr_def)
  from link_last_ok [of ?h l xs a "blank\<lparr>ln_data := d\<rparr>"] r' a sz obtain h' l' where
    "link_last ?h l (Some a) = Inr (li_size l + 1, h', l')" "list_repr h' l' (xs @ [(a, d)])" by auto
  then show ?thesis using last_has_no_next_ok [OF r] unfolding shm_list_append_def alloc_node_def by auto
qed

lemma shm_list_remove_ok:
  assumes r: "list_repr h l (xs @ (a, d) # ys)"
  shows "\<exists>h' l'. shm_list_remove h l (Some a) = Inr (li_size l - 1, h', l') \<and> list_repr h' l' (xs @ ys) \<and>
    (\<exists>n. h' a = Some n \<and> ln_data n = d)"
proof -
  note R = list_reprD [OF r]
  have pos: "0 < li_size l" using R(5) by (simp add: word_less_nat_alt)
  have sz: "unat (li_size l - 1) = length xs + length ys" using R(5) by (simp add: unat_sub_64)
  have na: "h a = Some \<lparr>ln_next = hd_ptr ys None, ln_prev = last_ptr None xs, ln_data = d\<rparr>"
    "a \<notin> fst ` set xs" "a \<notin> fst ` set ys" using R(1,2) by auto
  have nf: "li_first l \<noteq> None" "li_last l \<noteq> None" using R(3,4) by (simp_all add: ptr_not_None)
  have fst_iff: "Some a = li_first l \<longleftrightarrow> xs = []"
    using R(3) hd_ptr_eq_iff [OF na(2)] by auto
  have lst_iff: "Some a = li_last l \<longleftrightarrow> ys = []"
    using R(4) last_ptr_eq_iff [OF na(3)] by auto
  note unfold = shm_list_remove_def counted_def ends_ok_def Let_def list_repr_def
  show ?thesis
  proof (cases xs rule: ends_cases)
    case 1
    show ?thesis
    proof (cases ys)
      case Nil
      then show ?thesis using 1 R pos nf na fst_iff lst_iff sz by (simp add: unfold)
    next
      case (Cons y zs)
      obtain c f where y: "y = (c, f)" by (cases y)
      have c: "h c = Some \<lparr>ln_next = hd_ptr zs None, ln_prev = Some a, ln_data = f\<rparr>" "c \<noteq> a" "c \<notin> fst ` set zs"
        using R(1,2) 1 Cons y by auto
      then show ?thesis using 1 Cons y R pos nf na fst_iff lst_iff sz by (simp add: unfold)
    qed
  next
    case (2 zs b e)
    have b: "h b = Some \<lparr>ln_next = Some a, ln_prev = last_ptr None zs, ln_data = e\<rparr>" "b \<noteq> a" "b \<notin> fst ` set zs" "b \<notin> fst ` set ys"
      using R(1,2) 2 by auto
    show ?thesis
    proof (cases ys)
      case Nil
      then show ?thesis using 2 b R pos nf na fst_iff lst_iff sz by (simp add: unfold)
    next
      case (Cons y us)
      obtain c f where y: "y = (c, f)" by (cases y)
      have c: "h c = Some \<lparr>ln_next = hd_ptr us None, ln_prev = Some a, ln_data = f\<rparr>" "c \<noteq> a" "c \<noteq> b" "c \<notin> fst ` set us" "c \<notin> fst ` set zs"
        using R(1,2) 2 Cons y by auto
      then show ?thesis using 2 b Cons y R pos nf na fst_iff lst_iff sz by (simp add: unfold)
    qed
  qed
qed

lemma shm_list_insert_elem_after_ok:
  assumes r: "list_repr h l (xs @ (a, d) # ys)" and b: "b \<notin> fst ` set (xs @ (a, d) # ys)" "h b = Some n"
    and s: "Suc (length (xs @ (a, d) # ys)) < 18446744073709551616"
  shows "\<exists>h' l'. shm_list_insert_elem_after h l (Some a) (Some b) = Inr (li_size l + 1, h', l') \<and>
    list_repr h' l' (xs @ (a, d) # (b, ln_data n) # ys)"
proof -
  note R = list_reprD [OF r]
  have na: "h a = Some \<lparr>ln_next = hd_ptr ys None, ln_prev = last_ptr None xs, ln_data = d\<rparr>"
    "a \<notin> fst ` set xs" "a \<notin> fst ` set ys" "a \<noteq> b" using R(1,2) b(1) by auto
  have nb: "b \<notin> fst ` set xs" "b \<notin> fst ` set ys" using b(1) by auto
  have nf: "li_first l \<noteq> None" "li_last l \<noteq> None" using R(3,4) by (simp_all add: ptr_not_None)
  have lst_iff: "Some a = li_last l \<longleftrightarrow> ys = []"
    using R(4) last_ptr_eq_iff [OF na(3)] by auto
  note unfold = shm_list_insert_elem_after_def counted_def ends_ok_def Let_def list_repr_def
  show ?thesis
  proof (cases ys)
    case Nil
    then show ?thesis using R b nb nf na lst_iff size_inc [OF R(5) s] by (simp add: unfold)
  next
    case (Cons y us)
    obtain c f where y: "y = (c, f)" by (cases y)
    have c: "h c = Some \<lparr>ln_next = hd_ptr us None, ln_prev = Some a, ln_data = f\<rparr>" "c \<noteq> a" "c \<noteq> b" "c \<notin> fst ` set us" "c \<notin> fst ` set xs"
      using R(1,2) b(1) Cons y by auto
    then show ?thesis using Cons y R b nb nf na lst_iff size_inc [OF R(5) s] by (simp add: unfold)
  qed
qed

lemma shm_list_insert_before_ok:
  assumes r: "list_repr h l (xs @ (a, d) # ys)" and b: "b \<notin> fst ` set (xs @ (a, d) # ys)"
    and s: "Suc (length (xs @ (a, d) # ys)) < 18446744073709551616"
  shows "\<exists>h' l'. shm_list_insert_before h l (Some a) e (Some b) blank = Inr (li_size l + 1, h', l') \<and>
    list_repr h' l' (xs @ (b, e) # (a, d) # ys)"
proof -
  note R = list_reprD [OF r]
  have na: "h a = Some \<lparr>ln_next = hd_ptr ys None, ln_prev = last_ptr None xs, ln_data = d\<rparr>"
    "a \<notin> fst ` set xs" "a \<notin> fst ` set ys" "a \<noteq> b" "b \<noteq> a" "b \<notin> fst ` set xs" "b \<notin> fst ` set ys" using R(1,2) b(1) by auto
  have fst_iff: "Some a = li_first l \<longleftrightarrow> xs = []" using R(3) hd_ptr_eq_iff [OF na(2)] by auto
  note unfold = shm_list_insert_before_def alloc_node_def counted_def ends_ok_def Let_def list_repr_def
  show ?thesis
  proof (cases xs rule: ends_cases)
    case 1
    then show ?thesis using R na fst_iff size_inc [OF R(5) s] by (simp add: unfold)
  next
    case (2 zs c f)
    have c: "h c = Some \<lparr>ln_next = Some a, ln_prev = last_ptr None zs, ln_data = f\<rparr>" "c \<noteq> a" "c \<noteq> b" "b \<noteq> c"
        "c \<notin> fst ` set zs" "c \<notin> fst ` set ys"
      using R(1,2) b(1) 2 by auto
    then show ?thesis using 2 R na fst_iff size_inc [OF R(5) s] by (simp add: unfold)
  qed
qed

section \<open>Rings\<close>

text \<open>The ring with the head \<open>l\<close> and the other nodes \<open>xs\<close>.\<close>

definition ring :: "eheap \<Rightarrow> nat \<Rightarrow> (nat \<times> unit) list \<Rightarrow> bool" where
  "ring h l xs \<longleftrightarrow> distinct (l # map fst xs) \<and> dlseg h (last_ptr (Some l) xs) ((l, ()) # xs) (Some l)"

lemma ring_init:
  "h l = Some n \<Longrightarrow> \<exists>h'. shm_list_embedded_init h (Some l) = Inr h' \<and> ring h' l []"
  by (simp add: shm_list_embedded_init_def ring_def)

lemma ring_insert_after:
  assumes r: "ring h l xs" and e: "e \<notin> insert l (fst ` set xs)" "h e = Some n"
  shows "\<exists>h'. shm_list_embedded_insert_after h (Some l) (Some e) = Inr h' \<and> ring h' l ((e, ()) # xs)"
proof (cases xs)
  case Nil
  then show ?thesis using r e by (simp add: ring_def shm_list_embedded_insert_after_def)
next
  case (Cons x us)
  obtain c where x: "x = (c, ())" by (cases x) simp
  have l: "h l = Some \<lparr>ln_next = Some c, ln_prev = last_ptr (Some c) us, ln_data = ()\<rparr>"
    and c: "h c = Some \<lparr>ln_next = hd_ptr us (Some l), ln_prev = Some l, ln_data = ()\<rparr>"
    and d: "c \<noteq> l" "l \<noteq> c" "c \<notin> fst ` set us" "l \<notin> fst ` set us" "distinct (map fst us)" "dlseg h (Some c) us (Some l)"
    using r Cons x by (auto simp: ring_def)
  have ed: "e \<noteq> l" "l \<noteq> e" "e \<noteq> c" "c \<noteq> e" "e \<notin> fst ` set us" using e(1) Cons x by auto
  show ?thesis using l c d ed e(2) Cons x by (simp add: ring_def shm_list_embedded_insert_after_def)
qed

lemma ring_remove:
  assumes r: "ring h l (xs @ (a, ()) # ys)"
  shows "\<exists>h'. shm_list_embedded_remove h (Some a) = Inr h' \<and> ring h' l (xs @ ys) \<and>
    h' a = Some \<lparr>ln_next = None, ln_prev = None, ln_data = ()\<rparr>"
proof -
  let ?p = "last_ptr (Some a) ys"
  have na: "h a = Some \<lparr>ln_next = hd_ptr ys (Some l), ln_prev = last_ptr (Some l) xs, ln_data = ()\<rparr>"
    and nl: "h l = Some \<lparr>ln_next = hd_ptr xs (Some a), ln_prev = ?p, ln_data = ()\<rparr>"
    and s: "dlseg h (Some l) xs (Some a)" "dlseg h (Some a) ys (Some l)"
    and d: "a \<noteq> l" "l \<noteq> a" "a \<notin> fst ` set xs" "a \<notin> fst ` set ys" "l \<notin> fst ` set xs" "l \<notin> fst ` set ys"
      "distinct (map fst xs)" "distinct (map fst ys)" "fst ` set xs \<inter> fst ` set ys = {}"
    using r by (auto simp: ring_def)
  note unfold = ring_def shm_list_embedded_remove_def
  show ?thesis
  proof (cases xs rule: ends_cases)
    case 1
    show ?thesis
    proof (cases ys)
      case Nil
      then show ?thesis using 1 na nl d by (simp add: unfold)
    next
      case (Cons y us)
      obtain c where y: "y = (c, ())" by (cases y) simp
      have "h c = Some \<lparr>ln_next = hd_ptr us (Some l), ln_prev = Some a, ln_data = ()\<rparr>" "c \<noteq> a" "c \<noteq> l" "l \<noteq> c" "c \<notin> fst ` set us"
          "a \<notin> fst ` set us" "l \<notin> fst ` set us"
        using s(2) d Cons y by auto
      then show ?thesis using 1 Cons y na nl d s by (simp add: unfold)
    qed
  next
    case (2 zs b e)
    have b: "h b = Some \<lparr>ln_next = Some a, ln_prev = last_ptr (Some l) zs, ln_data = ()\<rparr>" "b \<noteq> a" "a \<noteq> b" "b \<noteq> l" "l \<noteq> b"
        "b \<notin> fst ` set zs" "b \<notin> fst ` set ys"
      using s(1) d 2 by auto
    show ?thesis
    proof (cases ys)
      case Nil
      then show ?thesis using 2 b na nl d s by (simp add: unfold)
    next
      case (Cons y us)
      obtain c where y: "y = (c, ())" by (cases y) simp
      have "h c = Some \<lparr>ln_next = hd_ptr us (Some l), ln_prev = Some a, ln_data = ()\<rparr>" "c \<noteq> a" "c \<noteq> l" "l \<noteq> c" "c \<noteq> b" "b \<noteq> c"
          "c \<notin> fst ` set us" "c \<notin> fst ` set zs" "a \<notin> fst ` set us" "l \<notin> fst ` set us" "b \<notin> fst ` set us"
        using s(2) d b 2 Cons y by auto
      then show ?thesis using 2 b Cons y na nl d s by (auto simp: unfold)
    qed
  qed
qed

lemma embedded_size_loop_ok:
  "dlseg h p xs (Some l) \<Longrightarrow> l \<notin> fst ` set xs \<Longrightarrow> length xs < fuel \<Longrightarrow>
    embedded_size_loop fuel h (Some l) (hd_ptr xs (Some l)) n = Some (Inr (n + of_nat (length xs)))"
proof (induction fuel arbitrary: p xs n)
  case (Suc fuel)
  show ?case
  proof (cases xs)
    case (Cons x ys)
    obtain a where x: "x = (a, ())" by (cases x) simp
    have "length ys < fuel" "a \<noteq> l" "l \<notin> fst ` set ys" "dlseg h (Some a) ys (Some l)"
      "h a = Some \<lparr>ln_next = hd_ptr ys (Some l), ln_prev = p, ln_data = ()\<rparr>"
      using Suc.prems Cons x by auto
    with Suc.IH [of "Some a" ys "n + 1"] show ?thesis using Cons x by (simp add: algebra_simps)
  qed simp
qed simp

text \<open>The splice of \<open>insert_list\<close>: the nodes \<open>ys\<close> of the other ring come first.\<close>

lemma ring_insert_list:
  assumes r: "ring h l xs" "ring h k ys" and dis: "insert l (fst ` set xs) \<inter> insert k (fst ` set ys) = {}"
  shows "\<exists>h'. shm_list_embedded_insert_list h (Some l) (Some k) = Inr h' \<and> ring h' l (ys @ xs)"
proof -
  have k: "h k = Some \<lparr>ln_next = hd_ptr ys (Some k), ln_prev = last_ptr (Some k) ys, ln_data = ()\<rparr>"
    and l: "h l = Some \<lparr>ln_next = hd_ptr xs (Some l), ln_prev = last_ptr (Some l) xs, ln_data = ()\<rparr>"
    and sx: "dlseg h (Some l) xs (Some l)" and sy: "dlseg h (Some k) ys (Some k)"
    and d: "l \<notin> fst ` set xs" "k \<notin> fst ` set ys" "distinct (map fst xs)" "distinct (map fst ys)" "k \<noteq> l" "l \<noteq> k"
      "l \<notin> fst ` set ys" "k \<notin> fst ` set xs" "fst ` set ys \<inter> fst ` set xs = {}"
    using r dis by (auto simp: ring_def)
  note unfold = ring_def shm_list_embedded_insert_list_def shm_list_embedded_empty_def
  show ?thesis
  proof (cases ys)
    case Nil
    then show ?thesis using k l r by (simp add: unfold)
  next
    case (Cons y us)
    obtain c where y: "y = (c, ())" by (cases y) simp
    show ?thesis
    proof (cases us rule: ends_cases)
      case 1
      have c: "h c = Some \<lparr>ln_next = Some k, ln_prev = Some k, ln_data = ()\<rparr>" "c \<noteq> l" "l \<noteq> c" "c \<noteq> k" "k \<noteq> c" "c \<notin> fst ` set xs"
        using sy d Cons y 1 by auto
      show ?thesis
      proof (cases xs)
        case Nil
        then show ?thesis using 1 Cons y c k l d by (simp add: unfold)
      next
        case xs: (Cons x vs)
        obtain f where x: "x = (f, ())" by (cases x) simp
        have "h f = Some \<lparr>ln_next = hd_ptr vs (Some l), ln_prev = Some l, ln_data = ()\<rparr>" "f \<noteq> l" "l \<noteq> f" "f \<noteq> k" "k \<noteq> f" "f \<noteq> c" "c \<noteq> f"
            "f \<notin> fst ` set vs" "c \<notin> fst ` set vs" "k \<notin> fst ` set vs" "l \<notin> fst ` set vs"
          using sx d c xs x by auto
        then show ?thesis using 1 Cons y c k l d sx xs x by (simp add: unfold)
      qed
    next
      case (2 ms b e)
      have cb: "h c = Some \<lparr>ln_next = hd_ptr ms (Some b), ln_prev = Some k, ln_data = ()\<rparr>" "c \<noteq> l" "l \<noteq> c" "c \<noteq> k" "k \<noteq> c" "c \<notin> fst ` set xs"
          "h b = Some \<lparr>ln_next = Some k, ln_prev = last_ptr (Some c) ms, ln_data = ()\<rparr>" "b \<noteq> l" "l \<noteq> b" "b \<noteq> k" "k \<noteq> b" "b \<notin> fst ` set xs"
          "c \<noteq> b" "b \<noteq> c" "c \<notin> fst ` set ms" "b \<notin> fst ` set ms" "l \<notin> fst ` set ms" "k \<notin> fst ` set ms" "dlseg h (Some c) ms (Some b)"
          "fst ` set ms \<inter> fst ` set xs = {}" "distinct (map fst ms)"
        using sy d Cons y 2 by auto
      show ?thesis
      proof (cases xs)
        case Nil
        then show ?thesis using 2 Cons y cb k l d by (simp add: unfold)
      next
        case xs: (Cons x vs)
        obtain f where x: "x = (f, ())" by (cases x) simp
        have "h f = Some \<lparr>ln_next = hd_ptr vs (Some l), ln_prev = Some l, ln_data = ()\<rparr>" "f \<noteq> l" "l \<noteq> f" "f \<noteq> k" "k \<noteq> f" "f \<noteq> c" "c \<noteq> f"
            "f \<noteq> b" "b \<noteq> f" "f \<notin> fst ` set vs" "c \<notin> fst ` set vs" "b \<notin> fst ` set vs" "k \<notin> fst ` set vs" "l \<notin> fst ` set vs" "f \<notin> fst ` set ms"
          using sx d cb xs x by auto
        then show ?thesis using 2 Cons y cb k l d sx xs x by (auto simp: unfold)
      qed
    qed
  qed
qed

section \<open>Properties\<close>

text \<open>
  on a well-formed list with the nodes \<open>xs\<close>, then \<open>a\<close>, then \<open>ys\<close>, \<open>shm_list_remove\<close> of \<open>a\<close> returns the
  new size and leaves a well-formed list of \<open>xs\<close> and \<open>ys\<close> (forward and backward links, ends, size,
  data), and \<open>shm_list_append_elem\<close> puts the removed node, which is still allocated with its data, at
  the end, as the reuse of aux buffers does.
\<close>

theorem list_move_to_end:
  assumes "list_repr h l (xs @ (a, d) # ys)"
  shows "\<exists>h1 l1 h2 l2. shm_list_remove h l (Some a) = Inr (li_size l - 1, h1, l1) \<and> list_repr h1 l1 (xs @ ys) \<and>
    shm_list_append_elem h1 l1 (Some a) = Inr (li_size l, h2, l2) \<and> list_repr h2 l2 (xs @ ys @ [(a, d)])"
proof -
  note R = list_reprD [OF assms]
  obtain h1 l1 n where rem: "shm_list_remove h l (Some a) = Inr (li_size l - 1, h1, l1)" "list_repr h1 l1 (xs @ ys)"
      "h1 a = Some n" "ln_data n = d"
    using shm_list_remove_ok [OF assms] by (elim exE conjE) (rule that)
  have a: "a \<notin> fst ` set (xs @ ys)" using R(1) by auto
  have sz: "Suc (length (xs @ ys)) < 18446744073709551616"
    using R(5) unat_less_2p64 [of "li_size l"] by simp
  have "unat (li_size l - 1) = unat (li_size l1)" using list_reprD(5) [OF rem(2)] R(5) by (simp add: unat_sub_64)
  then have "li_size l1 + 1 = li_size l" by (simp add: word_64_eq_iff [symmetric] eq_diff_eq [symmetric])
  then show ?thesis
    using link_last_ok [OF rem(2) a rem(3) sz] last_has_no_next_ok [OF rem(2)] rem
    by (auto simp: shm_list_append_elem_def)
qed

definition heap_example :: "nat lheap" where
  "heap_example = [1 \<mapsto> \<lparr>ln_next = Some 2, ln_prev = None, ln_data = 10\<rparr>, 2 \<mapsto> \<lparr>ln_next = Some 3, ln_prev = Some 1, ln_data = 20\<rparr>,
     3 \<mapsto> \<lparr>ln_next = None, ln_prev = Some 2, ln_data = 30\<rparr>]"

definition list_example :: shm_list where
  "list_example = \<lparr>li_first = Some 1, li_last = Some 3, li_size = 3\<rparr>"

lemma list_example_repr: "list_repr heap_example list_example [(1, 10), (2, 20), (3, 30)]"
  by (simp add: list_repr_def heap_example_def list_example_def)

theorem list_move_to_end_witness:
  "\<exists>h1 l1 h2 l2. shm_list_remove heap_example list_example (Some 1) = Inr (2, h1, l1) \<and>
    shm_list_append_elem h1 l1 (Some 1) = Inr (3, h2, l2) \<and> list_repr h2 l2 [(2, 20), (3, 30), (1, 10)]"
proof -
  have r: "list_repr heap_example list_example ([] @ (1, 10) # [(2, 20), (3, 30)])" using list_example_repr by simp
  have "li_size list_example = 3" by (simp add: list_example_def)
  then show ?thesis using list_move_to_end [OF r] by auto
qed

text \<open>
  C26: splicing the ring of \<open>k\<close> into the ring of \<open>l\<close> keeps both orders (the nodes of \<open>k\<close> first), and
  counting the nodes of the resulting ring terminates with their number.
\<close>

theorem ring_splice_and_count:
  assumes "ring h l xs" "ring h k ys" and "insert l (fst ` set xs) \<inter> insert k (fst ` set ys) = {}"
    and "length xs + length ys < fuel"
  shows "\<exists>h'. shm_list_embedded_insert_list h (Some l) (Some k) = Inr h' \<and> ring h' l (ys @ xs) \<and>
    shm_list_embedded_size fuel h' (Some l) = Some (Inr (of_nat (length ys + length xs)))"
proof -
  obtain h' where h: "shm_list_embedded_insert_list h (Some l) (Some k) = Inr h'" "ring h' l (ys @ xs)"
    using ring_insert_list [OF assms(1-3)] by auto
  let ?zs = "ys @ xs"
  have n: "h' l = Some \<lparr>ln_next = hd_ptr ?zs (Some l), ln_prev = last_ptr (Some l) ?zs, ln_data = ()\<rparr>"
    and s: "dlseg h' (Some l) ?zs (Some l)" "l \<notin> fst ` set ?zs"
    using h(2) by (auto simp: ring_def simp del: hd_ptr_simps(3) dlseg_append last_ptr_append)
  have "embedded_size_loop fuel h' (Some l) (hd_ptr ?zs (Some l)) 0 = Some (Inr (0 + of_nat (length ?zs)))"
    using assms(4) by (intro embedded_size_loop_ok [OF s]) simp
  then have "shm_list_embedded_size fuel h' (Some l) = Some (Inr (of_nat (length ys + length xs)))"
    using n by (simp add: shm_list_embedded_size_def)
  with h show ?thesis by blast
qed

definition rings_example :: eheap where
  "rings_example = [1 \<mapsto> \<lparr>ln_next = Some 2, ln_prev = Some 2, ln_data = ()\<rparr>, 2 \<mapsto> \<lparr>ln_next = Some 1, ln_prev = Some 1, ln_data = ()\<rparr>,
     5 \<mapsto> \<lparr>ln_next = Some 6, ln_prev = Some 6, ln_data = ()\<rparr>, 6 \<mapsto> \<lparr>ln_next = Some 5, ln_prev = Some 5, ln_data = ()\<rparr>]"

theorem ring_splice_and_count_witness:
  "\<exists>h'. shm_list_embedded_insert_list rings_example (Some 1) (Some 5) = Inr h' \<and> ring h' 1 [(6, ()), (2, ())] \<and>
    shm_list_embedded_size 9 h' (Some 1) = Some (Inr 2)"
proof -
  have "ring rings_example 1 [(2, ())]" "ring rings_example 5 [(6, ())]" by (simp_all add: ring_def rings_example_def)
  from ring_splice_and_count [OF this, of 9] show ?thesis by auto
qed

section \<open>Findings\<close>

text \<open>\<open>shm_list_prepend\<close> does not set the back link of the old first node.\<close>

lemma prepend_leaves_back_link:
  "\<exists>h' l'. shm_list_prepend heap_example list_example 5 (Some 9) \<lparr>ln_next = None, ln_prev = None, ln_data = 0\<rparr> = Inr (4, h', l') \<and>
    li_first l' = Some 9 \<and> map_option ln_next (h' 9) = Some (Some 1) \<and> map_option ln_prev (h' 1) = Some None"
  by (simp add: shm_list_prepend_def heap_example_def list_example_def alloc_node_def counted_def ends_ok_def Let_def)

text \<open>\<open>shm_list_destroy\<close> frees the next node and then reads it.\<close>

lemma destroy_uses_freed_node:
  assumes "list_repr h l ((a, d) # (b, e) # xs)"
  shows "shm_list_destroy (Suc (Suc fuel)) h l = Some (Inl (UB ''dangling pointer''))"
  using assms by (auto simp: shm_list_destroy_def list_repr_def deref_def Let_def)

end
