(* ===== verification/Shm_Files.thy ===== *)
theory Shm_Files
  imports Shm_Aux
begin

text \<open>
  Creating, opening and removing shared-memory buffers: the names of \<open>shmbuf/shm.c\<close>, the size
  computation of \<open>shmbuf/utils.c\<close>, the life cycle in \<open>shmbuf/buffer.c\<close>, the control buffers of
  \<open>shmbuf/buffer-control.c\<close>, the sub-buffers of \<open>shmbuf/buffer-sub.c\<close>, the local buffers of
  \<open>shmbuf/buffer-local.c\<close> and the waiting client of \<open>shmbuf/client.c\<close>. The operating system is the
  directory of shared memory: names refer to files, and a file that is mapped keeps its contents
  when its name is removed. Which system calls succeed is an argument. A file descriptor is the
  number of the file it is open on; unmapping memory and closing descriptors change no file, and
  messages are left out. A handle carries its view of the mapped memory; \<open>share\<close> puts the view
  back into the file for the other processes.
\<close>

section \<open>Shared-memory files\<close>

datatype shm_file =
    Raw_file size_t               \<comment> \<open>a file of a given size, without meaningful contents\<close>
  | Buffer_file shmbuffer
  | Control_file source_control

record shm_fs =
  fs_names :: "string \<Rightarrow> nat option"
  fs_files :: "nat \<Rightarrow> shm_file"
  fs_next :: nat
  fs_segs :: "size_t \<Rightarrow> aux_buffer option"  \<comment> \<open>the files \<open>/aux.<idx>\<close>\<close>

text \<open>Which calls of the operating system succeed.\<close>

record os =
  os_open :: bool
  os_ftruncate :: bool
  os_mmap :: bool
  os_rename :: bool
  os_unlink :: bool
  os_pread :: bool

definition open_file :: "os \<Rightarrow> shm_fs \<Rightarrow> string \<Rightarrow> bool \<Rightarrow> bool \<Rightarrow> int \<times> shm_fs" where
  "open_file os fs name creat trunc =
     (if \<not> os_open os then (-1, fs)
      else case fs_names fs name of
        Some i \<Rightarrow> (int i, if trunc then fs\<lparr>fs_files := (fs_files fs)(i := Raw_file 0)\<rparr> else fs)
      | None \<Rightarrow>
          if creat then (int (fs_next fs),
            fs\<lparr>fs_names := (fs_names fs)(name := Some (fs_next fs)),
               fs_files := (fs_files fs)(fs_next fs := Raw_file 0), fs_next := fs_next fs + 1\<rparr>)
          else (-1, fs))"

definition set_file :: "int \<Rightarrow> shm_file \<Rightarrow> shm_fs \<Rightarrow> shm_fs" where
  "set_file fd f fs = fs\<lparr>fs_files := (fs_files fs)(nat fd := f)\<rparr>"

definition rename_file :: "os \<Rightarrow> shm_fs \<Rightarrow> string \<Rightarrow> string \<Rightarrow> int \<times> shm_fs" where
  "rename_file os fs old new =
     (if \<not> os_rename os then (-1, fs)
      else case fs_names fs old of
        None \<Rightarrow> (-1, fs)
      | Some i \<Rightarrow> (0, fs\<lparr>fs_names := (fs_names fs)(old := None, new := Some i)\<rparr>))"

definition unlink_file :: "os \<Rightarrow> shm_fs \<Rightarrow> string \<Rightarrow> int \<times> shm_fs" where
  "unlink_file os fs name =
     (if \<not> os_unlink os \<or> fs_names fs name = None then (-1, fs)
      else (0, fs\<lparr>fs_names := (fs_names fs)(name := None)\<rparr>))"

section \<open>Names\<close>

definition SHM_NAME_MAXLEN :: nat where
  "SHM_NAME_MAXLEN = 256"

definition shm_dir :: string where
  "shm_dir = ''/dev/shm/''"

text \<open>The buffer for the result has \<open>SHM_NAME_MAXLEN\<close> bytes; the last write is the byte after the NUL.\<close>

definition shm_mapname :: "string \<Rightarrow> string res" where
  "shm_mapname name =
     assertE (take 1 name = ''/'') ''name starts with a slash''
     (let name = dropWhile (\<lambda>c. c = CHR ''/'') name; namelen = length name + 1 in
      assertE (\<not> (namelen = 1 \<or> namelen \<ge> SHM_NAME_MAXLEN \<or> CHR ''/'' \<in> set name)) ''invalid shm name''
      (assertE (\<not> SHM_NAME_MAXLEN \<le> length shm_dir + namelen) ''buffer too short''
      (if length shm_dir + namelen < SHM_NAME_MAXLEN then Inr (shm_dir @ name) else Inl (UB ''buf''))))"

definition shamon_map_ctrl_key :: "string \<Rightarrow> string res" where
  "shamon_map_ctrl_key buffkey =
     assertE (length buffkey < SHM_NAME_MAXLEN - 6) ''tmplen < SHM_NAME_MAXLEN - 6''
     (Inr (buffkey @ ''.ctrl''))"

text \<open>The key is appended to what \<open>buf\<close> holds.\<close>

definition shamon_get_tmp_key :: "string \<Rightarrow> string \<Rightarrow> nat \<Rightarrow> string option res" where
  "shamon_get_tmp_key key buf bufsize =
     (if length key + 5 > bufsize then Inr None
      else if length buf + length key + 5 > bufsize then Inl (UB ''strcat'')
      else Inr (Some (buf @ key @ ''.tmp'')))"

definition shamon_shm_open :: "os \<Rightarrow> shm_fs \<Rightarrow> string \<Rightarrow> bool \<Rightarrow> bool \<Rightarrow> (int \<times> shm_fs) res" where
  "shamon_shm_open os fs key creat trunc =
     bindE (shm_mapname key) (\<lambda>name. Inr (open_file os fs name creat trunc))"

definition shamon_shm_rename :: "os \<Rightarrow> shm_fs \<Rightarrow> string \<Rightarrow> string \<Rightarrow> (int \<times> shm_fs) res" where
  "shamon_shm_rename os fs old_key new_key =
     bindE (shm_mapname old_key) (\<lambda>old_name.
     bindE (shm_mapname new_key) (\<lambda>new_name. Inr (rename_file os fs old_name new_name)))"

definition shamon_shm_unlink :: "os \<Rightarrow> shm_fs \<Rightarrow> string \<Rightarrow> (int \<times> shm_fs) res" where
  "shamon_shm_unlink os fs key = bindE (shm_mapname key) (\<lambda>name. Inr (unlink_file os fs name))"

definition buffer_get_key_path :: "buffer \<Rightarrow> nat \<Rightarrow> (int \<times> string) res" where
  "buffer_get_key_path buff keypathsize =
     (if SHM_NAME_MAXLEN \<le> keypathsize then Inr (-1, [])
      else bindE (shm_mapname (bf_key buff)) (\<lambda>p.
        if length p + 2 \<le> keypathsize then Inr (0, p) else Inl (UB ''keypath'')))"

definition buffer_get_ctrl_key_path :: "buffer \<Rightarrow> nat \<Rightarrow> (int \<times> string) res" where
  "buffer_get_ctrl_key_path buff keypathsize =
     (if SHM_NAME_MAXLEN \<le> keypathsize then Inr (-1, [])
      else bindE (shamon_map_ctrl_key (bf_key buff)) (\<lambda>k.
        bindE (shm_mapname k) (\<lambda>p.
        if length p + 2 \<le> keypathsize then Inr (0, p) else Inl (UB ''keypath''))))"

section \<open>The size of a buffer\<close>

abbreviation PAGE_SIZE :: size_t where
  "PAGE_SIZE \<equiv> 4096"

definition SIZEOF_SHMBUFFER :: size_t where
  "SIZEOF_SHMBUFFER = 576"

text \<open>The message about unused memory divides by the element size.\<close>

definition compute_shm_size :: "size_t \<Rightarrow> size_t \<Rightarrow> size_t res" where
  "compute_shm_size elem_size capacity =
     (let sz = elem_size * capacity + SIZEOF_SHMBUFFER;
          roundup = PAGE_SIZE - sz mod PAGE_SIZE
      in if roundup > PAGE_SIZE div 4 \<and> elem_size = 0 then Inl (UB ''division by zero'')
         else let sz = sz + roundup in
              assertE (sz mod PAGE_SIZE = 0) ''size % PAGE_SIZE == 0'' (Inr sz))"

section \<open>Control buffers\<close>

text \<open>\<open>memcpy(mem, control, size)\<close>: reading past the records of the argument is out of bounds.\<close>

definition copy_control :: "source_control \<Rightarrow> size_t \<Rightarrow> source_control res" where
  "copy_control control sz =
     (if unat sz \<le> 8 + length (sc_events control) * unat SIZEOF_RECORD
      then Inr (control\<lparr>sc_events := take ((unat sz - 8) div unat SIZEOF_RECORD) (sc_events control)\<rparr>)
      else Inl (UB ''control''))"

definition create_shared_control_buffer ::
    "os \<Rightarrow> shm_fs \<Rightarrow> string \<Rightarrow> source_control \<Rightarrow> (source_control option \<times> shm_fs) res" where
  "create_shared_control_buffer os fs buff_key control =
     bindE (shamon_map_ctrl_key buff_key) (\<lambda>key.
     bindE (shamon_get_tmp_key key [] SHM_NAME_MAXLEN) (\<lambda>t. case t of None \<Rightarrow> Inr (None, fs) | Some tmpkey \<Rightarrow>
     bindE (shamon_shm_open os fs tmpkey True False) (\<lambda>(fd, fs).
     if fd < 0 then Inr (None, fs)
     else let sz = (if sc_size control = 0 then 8 else sc_size control) in
     assertE (sz \<ge> 8) ''size >= sizeof(control->size)''
     (if \<not> os_ftruncate os then Inr (None, fs)
      else let fs = set_file fd (Raw_file sz) fs in
      if \<not> os_mmap os then bindE (shamon_shm_unlink os fs key) (\<lambda>(_, fs). Inr (None, fs))
      else bindE (copy_control control sz) (\<lambda>mem.
      let fs = set_file fd (Control_file mem) fs in
      bindE (shamon_shm_rename os fs tmpkey key) (\<lambda>(r, fs).
      if r < 0 then bindE (shamon_shm_unlink os fs tmpkey) (\<lambda>(_, fs). Inr (None, fs))
      else Inr (Some mem, fs)))))))"

text \<open>
  Opening a control buffer reads its first field as the size to map. A file that has just been
  created is empty, and the size stays indeterminate; \<open>mmap\<close> refuses the length 0.
\<close>

definition get_shared_control_buffer ::
    "os \<Rightarrow> shm_fs \<Rightarrow> string \<Rightarrow> (source_control option \<times> shm_fs) res" where
  "get_shared_control_buffer os fs buff_key =
     bindE (shamon_map_ctrl_key buff_key) (\<lambda>key.
     bindE (shamon_shm_open os fs key True False) (\<lambda>(fd, fs).
     if fd < 0 then Inr (None, fs)
     else if \<not> os_pread os then Inr (None, fs)
     else case fs_files fs (nat fd) of
       Control_file mem \<Rightarrow>
         if \<not> os_mmap os \<or> sc_size mem = 0
         then bindE (shamon_shm_unlink os fs key) (\<lambda>(_, fs). Inr (None, fs))
         else Inr (Some mem, fs)
     | Buffer_file _ \<Rightarrow> Inl (UB ''not a control buffer'')
     | Raw_file _ \<Rightarrow> Inl (UB ''indeterminate size'')))"

definition destroy_shared_control_buffer :: "os \<Rightarrow> shm_fs \<Rightarrow> string \<Rightarrow> shm_fs res" where
  "destroy_shared_control_buffer os fs buffkey =
     bindE (shamon_map_ctrl_key buffkey) (\<lambda>key.
     bindE (shamon_shm_unlink os fs key) (\<lambda>(_, fs). Inr fs))"

section \<open>Buffers\<close>

text \<open>
  The mapped memory of a new file: the header is set field by field after it has been zeroed; in
  the data area the bytes of \<open>capacity\<close> elements are set (a check of the build without
  \<open>NDEBUG\<close>), the rest of a new file is zero.
\<close>

definition zero_ringbuf :: shm_spsc_ringbuf where
  "zero_ringbuf = \<lparr>rb_capacity = 0, rb_tail = 0, rb_seen_head = 0, rb_seen_tail = 0, rb_head = 0, rb_wip_head = 0, rb_wip_n = 0\<rparr>"

definition init_shm :: "size_t \<Rightarrow> size_t \<Rightarrow> size_t \<Rightarrow> byte list \<Rightarrow> shmbuffer res" where
  "init_shm memsize elem_size capacity mem =
     bindE (shm_spsc_ringbuf_init zero_ringbuf (capacity + 1)) (\<lambda>rb.
     Inr \<lparr>sb_ringbuf = rb, sb_allocated_size = memsize, sb_capacity = capacity, sb_elem_size = elem_size,
       sb_last_processed_id = 0, sb_dropped_ranges = replicate (unat DROPPED_RANGES_NUM) (0, 0),
       sb_dropped_ranges_next = 0, sb_dropped_ranges_lock = False, sb_subbuffers_no = 0,
       sb_destroyed = False, sb_monitor_attached = False, sb_data = mem\<rparr>)"

definition new_handle ::
    "shmbuffer \<Rightarrow> (size_t \<Rightarrow> aux_buffer option) \<Rightarrow> source_control \<Rightarrow> int \<Rightarrow> string \<Rightarrow> 32 word \<Rightarrow> buffer" where
  "new_handle shm segs control fd key mode =
     \<lparr>bf_shm = shm, bf_segs = segs, bf_control = control, bf_cur_aux = None, bf_aux_buffers = [],
      bf_aux_buf_idx = 0, bf_aux_age = [], bf_fd = fd, bf_key = key, bf_mode = mode, bf_last_subbufer_no = 0\<rparr>"

text \<open>
  The creation in three phases, between which other processes may look at the files: the file is
  opened under the temporary key, it is sized and filled, and it is renamed. A failure of the first
  two phases is \<open>None\<close>.
\<close>

definition open_tmp :: "os \<Rightarrow> shm_fs \<Rightarrow> string \<Rightarrow> ((string \<times> int) option \<times> shm_fs) res" where
  "open_tmp os fs key =
     bindE (shamon_get_tmp_key key [] SHM_NAME_MAXLEN) (\<lambda>t. case t of None \<Rightarrow> Inr (None, fs) | Some tmpkey \<Rightarrow>
     bindE (shamon_shm_open os fs tmpkey True True) (\<lambda>(fd, fs).
     Inr (if fd < 0 then None else Some (tmpkey, fd), fs)))"

definition fill_tmp ::
    "os \<Rightarrow> shm_fs \<Rightarrow> string \<Rightarrow> int \<Rightarrow> size_t \<Rightarrow> size_t \<Rightarrow> size_t \<Rightarrow> (shmbuffer option \<times> shm_fs) res" where
  "fill_tmp os fs tmpkey fd memsize elem_size capacity =
     (if \<not> os_ftruncate os then Inr (None, fs)
      else let fs = set_file fd (Raw_file memsize) fs in
      if \<not> os_mmap os \<or> memsize = 0 then bindE (shamon_shm_unlink os fs tmpkey) (\<lambda>(_, fs). Inr (None, fs))
      else bindE (init_shm memsize elem_size capacity (replicate (unat (memsize - SIZEOF_SHMBUFFER)) 0)) (\<lambda>shm.
      bindE (mem_write (sb_data shm) 0 (replicate (unat (capacity * elem_size)) 255)) (\<lambda>mem.
      let shm = shm\<lparr>sb_data := mem\<rparr> in
      Inr (Some shm, set_file fd (Buffer_file shm) fs))))"

definition initialize_shared_buffer ::
    "os \<Rightarrow> shm_fs \<Rightarrow> string \<Rightarrow> 32 word \<Rightarrow> size_t \<Rightarrow> size_t \<Rightarrow> source_control \<Rightarrow> (buffer option \<times> shm_fs) res" where
  "initialize_shared_buffer os fs key mode elem_size capacity control =
     assertE (elem_size > 0) ''Element size is 0''
     (assertE (capacity > 0) ''Capacity is 0''
     (bindE (compute_shm_size elem_size (capacity + 1)) (\<lambda>memsize.
      bindE (open_tmp os fs key) (\<lambda>(t, fs). case t of None \<Rightarrow> Inr (None, fs) | Some (tmpkey, fd) \<Rightarrow>
      bindE (fill_tmp os fs tmpkey fd memsize elem_size capacity) (\<lambda>(m, fs). case m of None \<Rightarrow> Inr (None, fs) | Some shm \<Rightarrow>
      bindE (shamon_shm_rename os fs tmpkey key) (\<lambda>(r, fs).
      if r < 0 then bindE (shamon_shm_unlink os fs tmpkey) (\<lambda>(_, fs). Inr (None, fs))
      else Inr (Some (new_handle shm (fs_segs fs) control fd key mode), fs)))))))"

abbreviation S_IRWXU :: "32 word" where
  "S_IRWXU \<equiv> 448"

definition create_shared_buffer ::
    "os \<Rightarrow> os \<Rightarrow> shm_fs \<Rightarrow> string \<Rightarrow> size_t \<Rightarrow> source_control \<Rightarrow> (buffer option \<times> shm_fs) res" where
  "create_shared_buffer os os' fs key capacity control =
     bindE (create_shared_control_buffer os fs key control) (\<lambda>(c, fs). case c of None \<Rightarrow> Inr (None, fs) | Some ctrl \<Rightarrow>
     bindE (source_control_max_event_size ctrl) (\<lambda>elem_size.
     initialize_shared_buffer os' fs key S_IRWXU elem_size capacity ctrl))"

definition create_shared_buffer_adv ::
    "os \<Rightarrow> os \<Rightarrow> shm_fs \<Rightarrow> string \<Rightarrow> 32 word \<Rightarrow> size_t \<Rightarrow> size_t \<Rightarrow> source_control \<Rightarrow> (buffer option \<times> shm_fs) res" where
  "create_shared_buffer_adv os os' fs key mode elem_size capacity control =
     bindE (create_shared_control_buffer os fs key control) (\<lambda>(c, fs). case c of None \<Rightarrow> Inr (None, fs) | Some ctrl \<Rightarrow>
     bindE (if elem_size = 0 then source_control_max_event_size ctrl else Inr elem_size) (\<lambda>elem_size.
     initialize_shared_buffer os' fs key (if mode = 0 then S_IRWXU else mode) elem_size capacity ctrl))"

text \<open>
  Opening retries: \<open>env n\<close> is what other processes do during the sleep after which \<open>n\<close> attempts
  are left. The handle comes from \<open>malloc\<close> (\<open>None\<close>: no memory) and keeps what is not assigned;
  \<open>strdup_ok\<close> tells whether the key could be copied.
\<close>

primrec open_retry ::
    "os \<Rightarrow> (nat \<Rightarrow> shm_fs \<Rightarrow> shm_fs) \<Rightarrow> string \<Rightarrow> nat \<Rightarrow> shm_fs \<Rightarrow> (int \<times> shm_fs) res" where
  "open_retry os env key 0 fs = Inr (-1, fs)"
| "open_retry os env key (Suc n) fs =
     bindE (shamon_shm_open os fs key False False) (\<lambda>(fd, fs).
     if fd \<ge> 0 then Inr (fd, fs) else open_retry os env key n (env n fs))"

definition try_get_shared_buffer ::
    "os \<Rightarrow> os \<Rightarrow> (nat \<Rightarrow> shm_fs \<Rightarrow> shm_fs) \<Rightarrow> buffer option \<Rightarrow> bool \<Rightarrow> shm_fs \<Rightarrow> string \<Rightarrow> size_t \<Rightarrow>
      (buffer option \<times> shm_fs) res" where
  "try_get_shared_buffer os os' env malloc strdup_ok fs key retry =
     bindE (open_retry os env key (unat retry + 1) fs) (\<lambda>(fd, fs).
     if fd = -1 then Inr (None, fs)
     else if \<not> os_pread os then Inr (None, fs)
     else case fs_files fs (nat fd) of
       Raw_file _ \<Rightarrow> Inl (UB ''indeterminate buffer info'')
     | Control_file _ \<Rightarrow> Inl (UB ''not a buffer'')
     | Buffer_file shm \<Rightarrow>
         if sb_allocated_size shm = 0 then Inr (None, fs)
         else if \<not> os_mmap os \<or> malloc = None \<or> \<not> strdup_ok
         then bindE (shamon_shm_unlink os fs key) (\<lambda>(_, fs). Inr (None, fs))
         else bindE (get_shared_control_buffer os' fs key) (\<lambda>(c, fs). case c of
                None \<Rightarrow> bindE (shamon_shm_unlink os fs key) (\<lambda>(_, fs). Inr (None, fs))
              | Some control \<Rightarrow>
                  Inr (Some ((the malloc)\<lparr>bf_shm := shm, bf_segs := fs_segs fs, bf_control := control,
                    bf_cur_aux := None, bf_aux_buffers := [], bf_aux_buf_idx := 0, bf_fd := fd, bf_key := key,
                    bf_mode := 0\<rparr>), fs)))"

definition get_shared_buffer ::
    "os \<Rightarrow> os \<Rightarrow> (nat \<Rightarrow> shm_fs \<Rightarrow> shm_fs) \<Rightarrow> buffer option \<Rightarrow> bool \<Rightarrow> shm_fs \<Rightarrow> string \<Rightarrow> (buffer option \<times> shm_fs) res" where
  "get_shared_buffer os os' env malloc strdup_ok fs key = try_get_shared_buffer os os' env malloc strdup_ok fs key 10"

text \<open>What a process wrote to its mapping is in the file.\<close>

definition share :: "buffer \<Rightarrow> shm_fs \<Rightarrow> shm_fs" where
  "share buff fs = (set_file (bf_fd buff) (Buffer_file (bf_shm buff)) fs)\<lparr>fs_segs := bf_segs buff\<rparr>"

text \<open>Releasing the auxiliary buffers unmaps them: they must be there, and their size is made of pages.\<close>

definition aux_buffer_release :: "size_t \<Rightarrow> aux_buffer \<Rightarrow> unit res" where
  "aux_buffer_release pg_size ab =
     assertE ((ab_size ab + SIZEOF_AUX_BUFFER) mod pg_size = 0) ''aux buffer size'' (Inr ())"

primrec release_aux_buffers :: "size_t \<Rightarrow> buffer \<Rightarrow> size_t list \<Rightarrow> unit res" where
  "release_aux_buffers pg_size buff [] = Inr ()"
| "release_aux_buffers pg_size buff (i # is) =
     bindE (seg_at buff i) (\<lambda>ab.
     bindE (aux_buffer_release pg_size ab) (\<lambda>_. release_aux_buffers pg_size buff is))"

definition release_shared_buffer :: "size_t \<Rightarrow> shm_fs \<Rightarrow> buffer \<Rightarrow> shm_fs res" where
  "release_shared_buffer pg_size fs buff =
     bindE (release_aux_buffers pg_size buff (bf_aux_buffers buff)) (\<lambda>_. Inr fs)"

definition destroy_shared_buffer :: "os \<Rightarrow> size_t \<Rightarrow> shm_fs \<Rightarrow> buffer \<Rightarrow> shm_fs res" where
  "destroy_shared_buffer os pg_size fs buff =
     (let buff = upd_shm (\<lambda>s. s\<lparr>sb_destroyed := True\<rparr>) buff; fs = share buff fs in
      bindE (release_aux_buffers pg_size buff (bf_aux_buffers buff)) (\<lambda>_.
      bindE (shamon_shm_unlink os fs (bf_key buff)) (\<lambda>(_, fs).
      destroy_shared_control_buffer os fs (bf_key buff))))"

section \<open>Sub-buffers\<close>

fun decimal :: "nat \<Rightarrow> string" where
  "decimal n = (if n < 10 then [char_of (48 + n)] else decimal (n div 10) @ [char_of (48 + n mod 10)])"

declare decimal.simps [simp del]

definition get_sub_buffer_key :: "string \<Rightarrow> size_t \<Rightarrow> string res" where
  "get_sub_buffer_key key idx =
     (let tmp = key @ ''.sub.'' @ decimal (unat idx) in
      if length tmp \<ge> length key + 16 then Inl (Abort ''get_sub_buffer_key'') else Inr tmp)"

text \<open>The number of sub-buffers is counted in the shared memory of the parent buffer.\<close>

definition create_shared_sub_buffer ::
    "os \<Rightarrow> os \<Rightarrow> shm_fs \<Rightarrow> buffer \<Rightarrow> size_t \<Rightarrow> source_control \<Rightarrow> (buffer option \<times> buffer \<times> shm_fs) res" where
  "create_shared_sub_buffer os os' fs buff capacity control =
     (let buff = buff\<lparr>bf_last_subbufer_no := bf_last_subbufer_no buff + 1\<rparr> in
      bindE (get_sub_buffer_key (bf_key buff) (bf_last_subbufer_no buff)) (\<lambda>key.
      bindE (create_shared_control_buffer os fs key control) (\<lambda>(c, fs). case c of None \<Rightarrow> Inr (None, buff, fs) | Some ctrl \<Rightarrow>
      bindE (source_control_max_event_size ctrl) (\<lambda>elem_size.
      let capacity = (if capacity = 0 then buffer_capacity buff else capacity) in
      bindE (initialize_shared_buffer os' fs key S_IRWXU elem_size capacity ctrl) (\<lambda>(sbuf, fs).
      let buff = upd_shm (\<lambda>s. s\<lparr>sb_subbuffers_no := sb_subbuffers_no s + 1\<rparr>) buff in
      Inr (sbuf, buff, share buff fs))))))"

definition destroy_shared_sub_buffer :: "size_t \<Rightarrow> shm_fs \<Rightarrow> buffer \<Rightarrow> shm_fs res" where
  "destroy_shared_sub_buffer pg_size fs buff =
     (let buff = upd_shm (\<lambda>s. s\<lparr>sb_destroyed := True\<rparr>) buff in
      bindE (release_aux_buffers pg_size buff (bf_aux_buffers buff)) (\<lambda>_. Inr (share buff fs)))"

definition release_shared_sub_buffer :: "os \<Rightarrow> size_t \<Rightarrow> shm_fs \<Rightarrow> buffer \<Rightarrow> shm_fs res" where
  "release_shared_sub_buffer os pg_size fs buff =
     bindE (release_aux_buffers pg_size buff (bf_aux_buffers buff)) (\<lambda>_.
     bindE (shamon_shm_unlink os fs (bf_key buff)) (\<lambda>(_, fs).
     destroy_shared_control_buffer os fs (bf_key buff)))"

section \<open>Local buffers\<close>

text \<open>
  A local buffer is allocated memory (\<open>posix_memalign\<close> gives its contents after the header, or
  fails). Only the header is cleared.
\<close>

definition initialize_local_buffer ::
    "(size_t \<Rightarrow> byte list option) \<Rightarrow> buffer \<Rightarrow> string \<Rightarrow> size_t \<Rightarrow> size_t \<Rightarrow> source_control \<Rightarrow> buffer option res" where
  "initialize_local_buffer memalign malloc key elem_size capacity control =
     assertE (elem_size > 0) ''Element size is 0''
     (bindE (compute_shm_size elem_size capacity) (\<lambda>memsize.
      case memalign (memsize - SIZEOF_SHMBUFFER) of None \<Rightarrow> Inr None | Some mem \<Rightarrow>
      bindE (init_shm memsize elem_size capacity mem) (\<lambda>shm.
      Inr (Some (malloc\<lparr>bf_shm := shm, bf_key := key, bf_aux_buffers := [], bf_aux_age := [], bf_aux_buf_idx := 0,
        bf_cur_aux := None, bf_fd := -1, bf_control := control\<rparr>)))))"

definition release_local_buffer :: "size_t \<Rightarrow> buffer \<Rightarrow> unit res" where
  "release_local_buffer pg_size buff = release_aux_buffers pg_size buff (bf_aux_buffers buff)"

section \<open>Waiting for the monitor\<close>

text \<open>
  One round of the loop: the error of the sleep, if any, whether \<open>SIGINT\<close> has arrived, and what the
  other process has done to the shared memory. The result is \<open>-errno\<close> or 0.
\<close>

record client_round =
  cr_sleep :: "int option"
  cr_interrupted :: bool
  cr_others :: "buffer \<Rightarrow> buffer"

abbreviation EINTR :: int where
  "EINTR \<equiv> 4"

fun wait_for_monitor_loop :: "client_round list \<Rightarrow> buffer \<Rightarrow> (int \<times> buffer) waiting" where
  "wait_for_monitor_loop env buff =
     (if buffer_monitor_attached buff then Returned (0, buff)
      else case env of
        [] \<Rightarrow> Waiting
      | r # env \<Rightarrow>
          let buff = cr_others r buff in
          (case cr_sleep r of
             Some e \<Rightarrow> Returned (- e, buff)
           | None \<Rightarrow> if cr_interrupted r then Returned (- EINTR, buff) else wait_for_monitor_loop env buff))"

declare wait_for_monitor_loop.simps [simp del]

definition buffer_wait_for_monitor :: "client_round list \<Rightarrow> int option \<Rightarrow> buffer \<Rightarrow> (int \<times> buffer) waiting" where
  "buffer_wait_for_monitor env last_sleep buff =
     (case wait_for_monitor_loop env buff of
        Waiting \<Rightarrow> Waiting
      | Returned (err, buff) \<Rightarrow>
          if err < 0 then Returned (err, buff)
          else (case last_sleep of Some e \<Rightarrow> Returned (- e, buff) | None \<Rightarrow> Returned (err, buff)))"

section \<open>Keys and the directory\<close>

definition key_ok :: "string \<Rightarrow> bool" where
  "key_ok key \<longleftrightarrow> take 1 key = ''/'' \<and> tl key \<noteq> [] \<and> CHR ''/'' \<notin> set (tl key) \<and> length key \<le> 231"

definition shm_path :: "string \<Rightarrow> string" where
  "shm_path key = shm_dir @ tl key"

lemma key_ok_Cons: "key_ok key \<Longrightarrow> key = CHR ''/'' # tl key"
  by (cases key) (simp_all add: key_ok_def)

lemma shm_mapname_ok:
  assumes "take 1 key = ''/''" and "tl key \<noteq> []" and "CHR ''/'' \<notin> set (tl key)" and "length key < 247"
  shows "shm_mapname key = Inr (shm_path key)"
proof -
  obtain n where k: "key = CHR ''/'' # n" using assms(1) by (cases key) simp_all
  then obtain c m where n: "n = c # m" using assms(2) by (cases n) simp_all
  have "dropWhile (\<lambda>c. c = CHR ''/'') key = n" using k n assms(3) by auto
  then show ?thesis using k n assms(3,4)
    by (simp add: shm_mapname_def Let_def shm_path_def shm_dir_def SHM_NAME_MAXLEN_def)
qed

lemma key_suffix:
  assumes "key_ok key" and "length sfx \<le> 15" and "CHR ''/'' \<notin> set sfx"
  shows "shm_mapname (key @ sfx) = Inr (shm_path (key @ sfx))"
proof -
  obtain n where "key = CHR ''/'' # n" using key_ok_Cons [OF assms(1)] by blast
  then show ?thesis using assms by (intro shm_mapname_ok) (simp_all add: key_ok_def)
qed

lemma key_paths:
  assumes "key_ok key"
  shows "shm_mapname key = Inr (shm_path key)" "shm_mapname (key @ ''.ctrl'') = Inr (shm_path (key @ ''.ctrl''))"
    "shm_mapname (key @ ''.tmp'') = Inr (shm_path (key @ ''.tmp''))"
    "shm_mapname (key @ ''.ctrl.tmp'') = Inr (shm_path (key @ ''.ctrl.tmp''))"
  using key_suffix [OF assms, of "[]"] key_suffix [OF assms, of "''.ctrl''"] key_suffix [OF assms, of "''.tmp''"]
    key_suffix [OF assms, of "''.ctrl.tmp''"] by simp_all

lemma shm_path_inj: "key_ok key \<Longrightarrow> shm_path (key @ a) = shm_path (key @ b) \<longleftrightarrow> a = b"
  using key_ok_Cons [of key] by (cases key) (auto simp: shm_path_def)

lemma shm_path_neq:
  assumes "key_ok key"
  shows "shm_path (key @ ''.tmp'') \<noteq> shm_path key" "shm_path (key @ ''.ctrl'') \<noteq> shm_path key"
    "shm_path (key @ ''.ctrl.tmp'') \<noteq> shm_path key" "shm_path (key @ ''.ctrl.tmp'') \<noteq> shm_path (key @ ''.ctrl'')"
    "shm_path (key @ ''.ctrl'') \<noteq> shm_path (key @ ''.tmp'')" "shm_path (key @ ''.ctrl.tmp'') \<noteq> shm_path (key @ ''.tmp'')"
  using shm_path_inj [OF assms, of _ "[]"] shm_path_inj [OF assms] by simp_all

lemma tmp_key_ok: "length key \<le> 240 \<Longrightarrow> shamon_get_tmp_key key [] SHM_NAME_MAXLEN = Inr (Some (key @ ''.tmp''))"
  by (simp add: shamon_get_tmp_key_def SHM_NAME_MAXLEN_def)

lemma ctrl_key_ok: "key_ok key \<Longrightarrow> shamon_map_ctrl_key key = Inr (key @ ''.ctrl'')"
  by (simp add: shamon_map_ctrl_key_def SHM_NAME_MAXLEN_def key_ok_def)

text \<open>A directory without links: every name has a file of its own.\<close>

definition fs_ok :: "shm_fs \<Rightarrow> bool" where
  "fs_ok fs \<longleftrightarrow> (\<forall>p i. fs_names fs p = Some i \<longrightarrow> i < fs_next fs) \<and>
     (\<forall>p q i. fs_names fs p = Some i \<longrightarrow> fs_names fs q = Some i \<longrightarrow> p = q)"

definition fs_lookup :: "shm_fs \<Rightarrow> string \<Rightarrow> shm_file option" where
  "fs_lookup fs p = map_option (fs_files fs) (fs_names fs p)"

text \<open>Nothing but the file with the name \<open>t\<close> has changed.\<close>

definition only_touches :: "string set \<Rightarrow> shm_fs \<Rightarrow> shm_fs \<Rightarrow> bool" where
  "only_touches T fs fs' \<longleftrightarrow> (\<forall>p. p \<notin> T \<longrightarrow> fs_lookup fs' p = fs_lookup fs p) \<and> fs_segs fs' = fs_segs fs"

lemma only_touches_refl [simp]: "only_touches T fs fs"
  by (simp add: only_touches_def)

lemma only_touches_trans: "only_touches T fs fs1 \<Longrightarrow> only_touches T fs1 fs2 \<Longrightarrow> only_touches T fs fs2"
  by (simp add: only_touches_def)

lemma only_touches_mono: "only_touches T fs fs1 \<Longrightarrow> T \<subseteq> U \<Longrightarrow> only_touches U fs fs1"
  by (auto simp: only_touches_def)

lemma fs_ok_fresh: "fs_ok fs \<Longrightarrow> fs_names fs p \<noteq> Some (fs_next fs)"
  by (auto simp: fs_ok_def)

lemma fs_ok_inj: "fs_ok fs \<Longrightarrow> fs_names fs p = Some i \<Longrightarrow> fs_names fs q = Some i \<Longrightarrow> p = q"
  by (auto simp: fs_ok_def)

lemma lookup_other:
  assumes "fs_names fs p \<noteq> Some i"
  shows "map_option ((fs_files fs)(i := f)) (fs_names fs p) = map_option (fs_files fs) (fs_names fs p)"
  using assms by (cases "fs_names fs p") auto

lemma open_file_ok:
  assumes ok: "fs_ok fs" and o: "open_file os fs t creat trunc = (fd, fs1)"
  shows "fs_ok fs1 \<and> only_touches {t} fs fs1 \<and> (fd \<noteq> -1 \<longrightarrow> 0 \<le> fd \<and> fs_names fs1 t = Some (nat fd)) \<and> -1 \<le> fd"
proof (cases "fs_names fs t")
  case None
  have "fs_ok fs1"
    using o None ok fs_ok_fresh [OF ok]
    by (auto simp: open_file_def fs_ok_def less_Suc_eq split: if_splits)
  moreover have "only_touches {t} fs fs1"
    using o None lookup_other [OF fs_ok_fresh [OF ok]] by (auto simp: open_file_def only_touches_def fs_lookup_def split: if_splits)
  ultimately show ?thesis using o None by (auto simp: open_file_def split: if_splits)
next
  case (Some i)
  have "p \<noteq> t \<Longrightarrow> fs_names fs p \<noteq> Some i" for p using fs_ok_inj [OF ok _ Some] by blast
  note l = lookup_other [OF this]
  have "only_touches {t} fs fs1"
    using o Some l by (auto simp: open_file_def only_touches_def fs_lookup_def split: if_splits)
  moreover have "fs_ok fs1" using o Some ok by (auto simp: open_file_def fs_ok_def split: if_splits)
  ultimately show ?thesis using o Some by (auto simp: open_file_def split: if_splits)
qed

lemma set_file_ok:
  assumes "fs_ok fs" and "fs_names fs t = Some (nat fd)"
  shows "fs_ok (set_file fd f fs)" "only_touches {t} fs (set_file fd f fs)" "fs_names (set_file fd f fs) = fs_names fs"
    "fs_lookup (set_file fd f fs) t = Some f"
  using assms by (auto simp: set_file_def fs_ok_def only_touches_def fs_lookup_def map_option_case split: option.splits)

lemma unlink_file_ok:
  assumes "fs_ok fs" and "unlink_file os fs t = (r, fs1)"
  shows "fs_ok fs1 \<and> only_touches {t} fs fs1 \<and> (os_unlink os \<longrightarrow> fs_lookup fs1 t = None)"
  using assms by (auto simp: unlink_file_def fs_ok_def only_touches_def fs_lookup_def split: if_splits)

lemma rename_file_ok:
  assumes "fs_ok fs" and "fs_names fs t = Some i" and "t \<noteq> k" and "rename_file os fs t k = (r, fs1)"
  shows "fs_ok fs1 \<and> (r < 0 \<longrightarrow> fs1 = fs) \<and> (os_rename os \<longrightarrow> r = 0) \<and>
    (\<not> r < 0 \<longrightarrow> only_touches {t, k} fs fs1 \<and> fs_names fs1 k = Some i \<and> fs_lookup fs1 k = fs_lookup fs t \<and>
      fs_lookup fs1 t = None)"
  using assms by (auto simp: rename_file_def fs_ok_def only_touches_def fs_lookup_def split: if_splits option.splits)

section \<open>Sizes\<close>

lemma page_mod: "unat (x mod PAGE_SIZE) = unat x mod 4096"
  by (simp add: unat_mod)

lemma compute_shm_size_ok:
  assumes "0 < es" and "unat es * unat c + 4672 < 18446744073709551616"
  shows "\<exists>sz. compute_shm_size es c = Inr sz \<and> unat sz mod 4096 = 0 \<and>
    unat es * unat c + 576 < unat sz \<and> unat sz \<le> unat es * unat c + 4672"
proof -
  let ?n = "unat es * unat c + 576"
  have p: "unat (es * c) = unat es * unat c" using assms(2) by (simp add: unat_mult_64)
  have n: "unat (es * c + SIZEOF_SHMBUFFER) = ?n" using assms(2) p by (simp add: SIZEOF_SHMBUFFER_def unat_add_64)
  have r: "unat (PAGE_SIZE - (es * c + SIZEOF_SHMBUFFER) mod PAGE_SIZE) = 4096 - ?n mod 4096"
    using n by (simp add: unat_sub_64 page_mod)
  define sz where "sz = es * c + SIZEOF_SHMBUFFER + (PAGE_SIZE - (es * c + SIZEOF_SHMBUFFER) mod PAGE_SIZE)"
  have s: "unat sz = ?n + (4096 - ?n mod 4096)"
    using n r assms(2) by (simp add: sz_def unat_add_64)
  have m: "(?n + (4096 - ?n mod 4096)) mod 4096 = 0"
    by (metis add_diff_inverse_nat less_imp_le_nat mod_add_left_eq mod_less_divisor mod_self not_less zero_less_numeral)
  then have "sz mod PAGE_SIZE = 0"
    using s by (simp add: word_64_eq_iff page_mod)
  moreover have "\<not> es = 0" using assms(1) by auto
  ultimately have "compute_shm_size es c = Inr sz"
    by (simp add: compute_shm_size_def Let_def sz_def)
  moreover have "?n mod 4096 < 4096" by simp
  then have "?n < unat sz" "unat sz \<le> ?n + 4096" using s by linarith+
  moreover have "unat sz mod 4096 = 0" using s m by simp
  ultimately show ?thesis by auto
qed

section \<open>Creation\<close>

definition fits :: "size_t \<Rightarrow> size_t \<Rightarrow> bool" where
  "fits es c \<longleftrightarrow> 0 < es \<and> 0 < c \<and> unat c + 3 < 18446744073709551616 \<and>
     unat es * (unat c + 1) + 4672 < 18446744073709551616"

text \<open>A new buffer, as the process that creates it and the ones that open it see it.\<close>

definition fresh_shm :: "size_t \<Rightarrow> size_t \<Rightarrow> shmbuffer \<Rightarrow> bool" where
  "fresh_shm es c shm \<longleftrightarrow> pq_inv (sb_queue shm) \<and> pq_elems (sb_queue shm) = [] \<and> sb_capacity shm = c \<and> sb_elem_size shm = es \<and>
     \<not> sb_destroyed shm \<and> \<not> sb_monitor_attached shm \<and> sb_subbuffers_no shm = 0 \<and> sb_allocated_size shm \<noteq> 0 \<and>
     SIZEOF_SHMBUFFER \<le> sb_allocated_size shm \<and> length (sb_data shm) = unat (sb_allocated_size shm - SIZEOF_SHMBUFFER)"

lemma unat_SIZEOF_SHMBUFFER [simp]: "unat SIZEOF_SHMBUFFER = 576"
  by (simp add: SIZEOF_SHMBUFFER_def)

lemma init_shm_ok:
  assumes "fits es c" and "(unat c + 1) * unat es \<le> length mem" and "length mem = unat (ms - SIZEOF_SHMBUFFER)"
    and "ms \<noteq> 0" and "SIZEOF_SHMBUFFER \<le> ms"
  shows "\<exists>shm. init_shm ms es c mem = Inr shm \<and> fresh_shm es c shm \<and> sb_data shm = mem \<and>
    (\<forall>mem'. length mem' = length mem \<longrightarrow> fresh_shm es c (shm\<lparr>sb_data := mem'\<rparr>))"
proof -
  have c1: "unat (c + 1) = unat c + 1" using assms(1) by (simp add: fits_def unat_add_64)
  then have "0 < c + 1" "c + 1 < SIZE_MAX - 1"
    using assms(1) by (simp_all add: fits_def word_less_nat_alt unat_sub_64)
  then obtain rb where rb: "shm_spsc_ringbuf_init zero_ringbuf (c + 1) = Inr rb" "rb_inv rb" "rb_slots rb = []" "rb_capacity rb = c + 1"
    using shm_spsc_ringbuf_init_ok by blast
  have f: "unat es * unat c + unat es < 18446744073709551616" "0 < c" "0 < es"
    using assms(1) by (simp_all add: fits_def algebra_simps)
  show ?thesis using rb c1 f assms(2-5)
    by (simp add: init_shm_def fresh_shm_def sb_queue_def queue_bytes_def pq_inv_def pq_elems_def algebra_simps)
qed

lemma open_tmp_ok:
  assumes "fs_ok fs" and "key_ok key"
  shows "\<exists>r fs1. open_tmp os fs key = Inr (r, fs1) \<and> fs_ok fs1 \<and> only_touches {shm_path (key @ ''.tmp'')} fs fs1 \<and>
    (os_open os \<longrightarrow> r \<noteq> None) \<and>
    (case r of None \<Rightarrow> True | Some (t, fd) \<Rightarrow> t = key @ ''.tmp'' \<and> 0 \<le> fd \<and> fs_names fs1 (shm_path t) = Some (nat fd))"
proof -
  obtain fd fs1 where o: "open_file os fs (shm_path (key @ ''.tmp'')) True True = (fd, fs1)" by fastforce
  have "open_tmp os fs key = Inr (if fd < 0 then None else Some (key @ ''.tmp'', fd), fs1)"
    using o key_paths(3) [OF assms(2)] tmp_key_ok [of key] assms(2)
    by (simp add: open_tmp_def shamon_shm_open_def key_ok_def)
  moreover have "os_open os \<Longrightarrow> 0 \<le> fd" using o by (auto simp: open_file_def split: option.splits)
  ultimately show ?thesis using open_file_ok [OF assms(1) o] by auto
qed

lemma unlink_key_ok:
  assumes "fs_ok fs" and "shm_mapname k = Inr p"
  shows "\<exists>r fs1. shamon_shm_unlink os fs k = Inr (r, fs1) \<and> fs_ok fs1 \<and> only_touches {p} fs fs1 \<and> (os_unlink os \<longrightarrow> fs_lookup fs1 p = None)"
  using unlink_file_ok [OF assms(1), of os p] assms(2) by (cases "unlink_file os fs p") (simp add: shamon_shm_unlink_def)

lemma fill_tmp_ok:
  assumes ok: "fs_ok fs" and key: "shm_mapname t = Inr p" and n: "fs_names fs p = Some (nat fd)" and f: "fits es c"
    and ms: "compute_shm_size es (c + 1) = Inr ms"
  shows "\<exists>r fs1. fill_tmp os fs t fd ms es c = Inr (r, fs1) \<and> fs_ok fs1 \<and> only_touches {p} fs fs1 \<and>
    (os_ftruncate os \<and> os_mmap os \<longrightarrow> r \<noteq> None) \<and>
    (case r of None \<Rightarrow> True | Some shm \<Rightarrow> fresh_shm es c shm \<and> fs_names fs1 = fs_names fs \<and> fs_lookup fs1 p = Some (Buffer_file shm))"
proof -
  have c1: "unat (c + 1) = unat c + 1" using f by (simp add: fits_def unat_add_64)
  have b: "unat es * unat (c + 1) + 576 < unat ms"
    using compute_shm_size_ok [of es "c + 1"] ms f c1 by (auto simp: fits_def)
  then have m0: "ms \<noteq> 0" "SIZEOF_SHMBUFFER \<le> ms" by (auto simp: word_le_nat_alt)
  let ?mem = "replicate (unat (ms - SIZEOF_SHMBUFFER)) (0 :: byte)"
  have u: "unat (ms - SIZEOF_SHMBUFFER) = unat ms - 576" using b by (simp add: unat_sub_64)
  have len: "(unat c + 1) * unat es \<le> length ?mem" using b c1 u by (simp add: algebra_simps)
  obtain shm where s: "init_shm ms es c ?mem = Inr shm" "sb_data shm = ?mem"
      "\<And>mem'. length mem' = length ?mem \<Longrightarrow> fresh_shm es c (shm\<lparr>sb_data := mem'\<rparr>)"
    using init_shm_ok [OF f len _ m0] by auto
  have "unat (c * es) = unat c * unat es"
    using f by (simp add: fits_def unat_mult_64 algebra_simps)
  then have w: "unat (c * es) \<le> length ?mem" using len by (simp add: algebra_simps)
  let ?shm = "shm\<lparr>sb_data := mem_upd ?mem 0 (replicate (unat (c * es)) 255)\<rparr>"
  let ?fs = "set_file fd (Raw_file ms) fs"
  have F: "fs_ok ?fs" "only_touches {p} fs ?fs" "fs_names ?fs p = Some (nat fd)" "fs_names ?fs = fs_names fs"
    using set_file_ok [OF ok n, of "Raw_file ms"] n by simp_all
  consider "\<not> os_ftruncate os" | "os_ftruncate os" "\<not> os_mmap os" | "os_ftruncate os" "os_mmap os" by blast
  then show ?thesis
  proof cases
    case 2
    obtain r fs1 where "shamon_shm_unlink os ?fs t = Inr (r, fs1)" "fs_ok fs1" "only_touches {p} ?fs fs1"
      using unlink_key_ok [OF F(1) key] by blast
    then show ?thesis using 2 F(2) by (auto simp: fill_tmp_def Let_def intro: only_touches_trans)
  next
    case 3
    have "fill_tmp os fs t fd ms es c = Inr (Some ?shm, set_file fd (Buffer_file ?shm) ?fs)"
      using 3 s(1,2) m0(1) w by (simp add: fill_tmp_def Let_def)
    then show ?thesis using set_file_ok [OF F(1,3), of "Buffer_file ?shm"] F(2,4) s(3) w
      by (auto intro: only_touches_trans simp: mem_upd_def)
  qed (use ok in \<open>simp add: fill_tmp_def\<close>)
qed

lemma initialize_shared_buffer_ok:
  assumes ok: "fs_ok fs" and key: "key_ok key" and f: "fits es c"
  shows "\<exists>r fs'. initialize_shared_buffer os fs key mode es c ctl = Inr (r, fs') \<and> fs_ok fs' \<and>
    only_touches {shm_path key, shm_path (key @ ''.tmp'')} fs fs' \<and>
    (os_open os \<and> os_ftruncate os \<and> os_mmap os \<and> os_rename os \<longrightarrow> r \<noteq> None) \<and>
    (case r of None \<Rightarrow> fs_lookup fs' (shm_path key) = fs_lookup fs (shm_path key)
     | Some b \<Rightarrow> fresh_shm es c (bf_shm b) \<and> fs_lookup fs' (shm_path key) = Some (Buffer_file (bf_shm b)) \<and>
         fs_lookup fs' (shm_path (key @ ''.tmp'')) = None \<and> fs_names fs' (shm_path key) = Some (nat (bf_fd b)) \<and>
         bf_segs b = fs_segs fs' \<and> bf_control b = ctl \<and> bf_key b = key \<and> bf_aux_buffers b = [] \<and> bf_last_subbufer_no b = 0)"
proof -
  let ?k = "shm_path key" and ?t = "shm_path (key @ ''.tmp'')"
  note kt = shm_path_neq(1) [OF key] and paths = key_paths [OF key]
  have c1: "unat (c + 1) = unat c + 1" using f by (simp add: fits_def unat_add_64)
  obtain ms where ms: "compute_shm_size es (c + 1) = Inr ms"
    using compute_shm_size_ok [of es "c + 1"] f c1 by (auto simp: fits_def)
  obtain r1 fs1 where o: "open_tmp os fs key = Inr (r1, fs1)" "fs_ok fs1" "only_touches {?t} fs fs1" "os_open os \<longrightarrow> r1 \<noteq> None"
      "case r1 of None \<Rightarrow> True | Some (t, fd) \<Rightarrow> t = key @ ''.tmp'' \<and> 0 \<le> fd \<and> fs_names fs1 (shm_path t) = Some (nat fd)"
    using open_tmp_ok [OF ok key, of os] by (elim exE conjE) (rule that)
  have T: "only_touches {?t} fs fs' \<Longrightarrow> only_touches {?k, ?t} fs fs' \<and> fs_lookup fs' ?k = fs_lookup fs ?k" for fs'
    using kt by (auto simp: only_touches_def)
  have start: "initialize_shared_buffer os fs key mode es c ctl =
      bindE (open_tmp os fs key) (\<lambda>(t, fs). case t of None \<Rightarrow> Inr (None, fs) | Some (tmpkey, fd) \<Rightarrow>
      bindE (fill_tmp os fs tmpkey fd ms es c) (\<lambda>(m, fs). case m of None \<Rightarrow> Inr (None, fs) | Some shm \<Rightarrow>
      bindE (shamon_shm_rename os fs tmpkey key) (\<lambda>(r, fs).
      if r < 0 then bindE (shamon_shm_unlink os fs tmpkey) (\<lambda>(_, fs). Inr (None, fs))
      else Inr (Some (new_handle shm (fs_segs fs) ctl fd key mode), fs))))"
    using f ms by (simp add: initialize_shared_buffer_def fits_def)
  show ?thesis
  proof (cases r1)
    case None
    then show ?thesis using start o(1,2,4) T [OF o(3)] by simp
  next
    case (Some tf)
    then obtain fd where t: "r1 = Some (key @ ''.tmp'', fd)" "0 \<le> fd" "fs_names fs1 ?t = Some (nat fd)" using o(5) by (cases tf) auto
    obtain r2 fs2 where g: "fill_tmp os fs1 (key @ ''.tmp'') fd ms es c = Inr (r2, fs2)" "fs_ok fs2" "only_touches {?t} fs1 fs2"
        "os_ftruncate os \<and> os_mmap os \<longrightarrow> r2 \<noteq> None"
        "case r2 of None \<Rightarrow> True | Some shm \<Rightarrow> fresh_shm es c shm \<and> fs_names fs2 = fs_names fs1 \<and> fs_lookup fs2 ?t = Some (Buffer_file shm)"
      using fill_tmp_ok [OF o(2) paths(3) t(3) f ms, of os] by (elim exE conjE) (rule that)
    have T2: "only_touches {?t} fs fs2" using o(3) g(3) by (rule only_touches_trans)
    show ?thesis
    proof (cases r2)
      case None
      then show ?thesis using start o(1) t g(1,2,4) T [OF T2] by simp blast
    next
      case (Some shm)
      then have n2: "fs_names fs2 ?t = Some (nat fd)" "fresh_shm es c shm" "fs_lookup fs2 ?t = Some (Buffer_file shm)" using g(5) t by simp_all
      obtain r3 fs3 where rn: "rename_file os fs2 ?t ?k = (r3, fs3)" by fastforce
      note R = rename_file_ok [OF g(2) n2(1) kt rn]
      obtain r4 fs4 where u: "shamon_shm_unlink os fs3 (key @ ''.tmp'') = Inr (r4, fs4)" "fs_ok fs4" "only_touches {?t} fs3 fs4"
        using unlink_key_ok [of fs3, OF _ paths(3), of os] R by blast
      have e: "initialize_shared_buffer os fs key mode es c ctl =
          (if r3 < 0 then Inr (None, fs4) else Inr (Some (new_handle shm (fs_segs fs3) ctl fd key mode), fs3))"
        using start o(1) t(1) g(1) Some rn u(1) paths by (simp add: shamon_shm_rename_def)
      show ?thesis
      proof (cases "r3 < 0")
        case True
        then have "fs3 = fs2" using R by blast
        then have "only_touches {?t} fs fs4" using T2 u(3) by (auto intro: only_touches_trans)
        from T [OF this] show ?thesis using e True u(2) R by simp
      next
        case False
        then have r: "only_touches {?k, ?t} fs2 fs3" "fs_names fs3 ?k = Some (nat fd)" "fs_lookup fs3 ?k = fs_lookup fs2 ?t" "fs_lookup fs3 ?t = None"
          using R by (simp_all add: insert_commute)
        have "only_touches {?k, ?t} fs fs3" by (rule only_touches_trans [OF conjunct1 [OF T [OF T2]] r(1)])
        then show ?thesis using e False R r n2 by (simp add: new_handle_def)
      qed
    qed
  qed
qed

definition all_ok :: "os \<Rightarrow> bool" where
  "all_ok os \<longleftrightarrow> os_open os \<and> os_ftruncate os \<and> os_mmap os \<and> os_rename os \<and> os_unlink os \<and> os_pread os"

text \<open>A complete description: the size field counts the records.\<close>

definition control_ok :: "source_control \<Rightarrow> bool" where
  "control_ok ctl \<longleftrightarrow> unat (sc_size ctl) = 8 + length (sc_events ctl) * 112"

lemma copy_control_ok: "control_ok ctl \<Longrightarrow> copy_control ctl (sc_size ctl) = Inr ctl"
  by (simp add: control_ok_def copy_control_def)

lemma create_shared_control_buffer_ok:
  assumes ok: "fs_ok fs" and key: "key_ok key" and ctl: "control_ok ctl" and os: "all_ok os"
  shows "\<exists>fs'. create_shared_control_buffer os fs key ctl = Inr (Some ctl, fs') \<and> fs_ok fs' \<and>
    only_touches {shm_path (key @ ''.ctrl''), shm_path (key @ ''.ctrl.tmp'')} fs fs' \<and>
    fs_lookup fs' (shm_path (key @ ''.ctrl'')) = Some (Control_file ctl)"
proof -
  let ?k = "shm_path (key @ ''.ctrl'')" and ?t = "shm_path (key @ ''.ctrl.tmp'')"
  note paths = key_paths [OF key]
  have sz: "sc_size ctl \<noteq> 0" "8 \<le> sc_size ctl" using ctl by (auto simp: control_ok_def word_le_nat_alt)
  have tmp: "shamon_get_tmp_key (key @ ''.ctrl'') [] SHM_NAME_MAXLEN = Inr (Some (key @ ''.ctrl.tmp''))"
    using tmp_key_ok [of "key @ ''.ctrl''"] key by (simp add: key_ok_def)
  obtain fd fs1 where o: "open_file os fs ?t True False = (fd, fs1)" by fastforce
  note O = open_file_ok [OF ok o]
  have fd: "0 \<le> fd" "fs_names fs1 ?t = Some (nat fd)"
    using O o os by (auto simp: open_file_def all_ok_def split: option.splits)
  have fo: "fs_ok fs1" "only_touches {?t} fs fs1" using O by simp_all
  let ?fs2 = "set_file fd (Raw_file (sc_size ctl)) fs1"
  note S2 = set_file_ok [OF fo(1) fd(2), of "Raw_file (sc_size ctl)"]
  let ?fs3 = "set_file fd (Control_file ctl) ?fs2"
  have n2: "fs_names ?fs2 ?t = Some (nat fd)" using S2 fd by simp
  note S3 = set_file_ok [OF S2(1) n2, of "Control_file ctl"]
  have n3: "fs_names ?fs3 ?t = Some (nat fd)" using S3 n2 by simp
  obtain r fs4 where rn: "rename_file os ?fs3 ?t ?k = (r, fs4)" by fastforce
  note R = rename_file_ok [OF S3(1) n3 shm_path_neq(4) [OF key] rn]
  have r: "r = 0" "only_touches {?k, ?t} ?fs3 fs4" using R os by (simp_all add: all_ok_def insert_commute)
  have "create_shared_control_buffer os fs key ctl = Inr (Some ctl, fs4)"
    using ctrl_key_ok [OF key] tmp o fd sz os copy_control_ok [OF ctl] rn r paths
    by (simp add: create_shared_control_buffer_def shamon_shm_open_def shamon_shm_rename_def all_ok_def Let_def)
  moreover have "only_touches {?k, ?t} fs fs4"
    using fo(2) S2(2) S3(2) r(2) by (meson only_touches_trans only_touches_mono subset_insertI)
  ultimately show ?thesis using R r S3(4) by simp
qed

text \<open>What a creation leaves for the processes that open the buffer.\<close>

definition published :: "string \<Rightarrow> buffer \<Rightarrow> shm_fs \<Rightarrow> bool" where
  "published key b fs \<longleftrightarrow> fs_ok fs \<and> key_ok key \<and> fs_names fs (shm_path key) = Some (nat (bf_fd b)) \<and>
     fs_lookup fs (shm_path key) = Some (Buffer_file (bf_shm b)) \<and> fs_segs fs = bf_segs b \<and> bf_key b = key \<and>
     fs_lookup fs (shm_path (key @ ''.ctrl'')) = Some (Control_file (bf_control b)) \<and> sc_size (bf_control b) \<noteq> 0 \<and>
     sb_allocated_size (bf_shm b) \<noteq> 0"

lemma create_shared_buffer_ok:
  assumes ok: "fs_ok fs" and key: "key_ok key" and ctl: "control_ok ctl" and os: "all_ok os" "all_ok os'"
    and es: "source_control_max_event_size ctl = Inr es" and f: "fits es c"
  shows "\<exists>b fs'. create_shared_buffer os os' fs key c ctl = Inr (Some b, fs') \<and> published key b fs' \<and>
    bf_live b \<and> bf_elems b = [] \<and> sb_capacity (bf_shm b) = c \<and> sb_elem_size (bf_shm b) = es \<and> bf_control b = ctl \<and>
    bf_aux_buffers b = []"
proof -
  obtain fs1 where c: "create_shared_control_buffer os fs key ctl = Inr (Some ctl, fs1)" "fs_ok fs1"
      "fs_lookup fs1 (shm_path (key @ ''.ctrl'')) = Some (Control_file ctl)"
    using create_shared_control_buffer_ok [OF ok key ctl os(1)] by auto
  obtain r fs2 where i: "initialize_shared_buffer os' fs1 key S_IRWXU es c ctl = Inr (r, fs2)" "fs_ok fs2"
      "only_touches {shm_path key, shm_path (key @ ''.tmp'')} fs1 fs2"
      "os_open os' \<and> os_ftruncate os' \<and> os_mmap os' \<and> os_rename os' \<longrightarrow> r \<noteq> None"
      "case r of None \<Rightarrow> fs_lookup fs2 (shm_path key) = fs_lookup fs1 (shm_path key)
       | Some b \<Rightarrow> fresh_shm es c (bf_shm b) \<and> fs_lookup fs2 (shm_path key) = Some (Buffer_file (bf_shm b)) \<and>
         fs_lookup fs2 (shm_path (key @ ''.tmp'')) = None \<and> fs_names fs2 (shm_path key) = Some (nat (bf_fd b)) \<and>
         bf_segs b = fs_segs fs2 \<and> bf_control b = ctl \<and> bf_key b = key \<and> bf_aux_buffers b = [] \<and> bf_last_subbufer_no b = 0"
    using initialize_shared_buffer_ok [OF c(2) key f, of os' S_IRWXU ctl] by (elim exE conjE) (rule that)
  obtain b where b: "r = Some b" using i(4) os(2) by (auto simp: all_ok_def)
  have "fs_lookup fs2 (shm_path (key @ ''.ctrl'')) = Some (Control_file ctl)"
    using i(3) c(3) shm_path_neq [OF key] by (simp add: only_touches_def)
  moreover have "sc_size ctl \<noteq> 0" using ctl by (auto simp: control_ok_def)
  ultimately have "published key b fs2" using i b key by (simp add: published_def fresh_shm_def)
  moreover have "bf_live b" "bf_elems b = []" using i(5) b by (simp_all add: bf_live_def bf_ok_def bf_elems_def fresh_shm_def)
  ultimately show ?thesis using c(1) es i b by (simp add: create_shared_buffer_def fresh_shm_def)
qed

text \<open>What the creator does to its mapping keeps the buffer published.\<close>

lemma published_share:
  assumes p: "published key b fs" and b': "bf_fd b' = bf_fd b" "bf_key b' = bf_key b" "bf_control b' = bf_control b"
      "sb_allocated_size (bf_shm b') \<noteq> 0"
  shows "published key b' (share b' fs)"
proof -
  have ok: "fs_ok fs" "key_ok key" "fs_names fs (shm_path key) = Some (nat (bf_fd b'))" using p b' by (simp_all add: published_def)
  note S = set_file_ok [OF ok(1,3), of "Buffer_file (bf_shm b')"]
  let ?fs = "set_file (bf_fd b') (Buffer_file (bf_shm b')) fs"
  have l: "fs_lookup (share b' fs) q = fs_lookup ?fs q" for q by (simp add: share_def fs_lookup_def)
  have "fs_ok (share b' fs)" using S(1) by (simp add: share_def fs_ok_def)
  moreover have "fs_lookup ?fs (shm_path (key @ ''.ctrl'')) = fs_lookup fs (shm_path (key @ ''.ctrl''))"
    using S(2) shm_path_neq(2) [OF ok(2)] by (simp add: only_touches_def)
  moreover have "fs_names (share b' fs) = fs_names fs" "fs_segs (share b' fs) = bf_segs b'" using S(3) by (simp_all add: share_def)
  ultimately show ?thesis using p b' S(4) l by (simp add: published_def)
qed

text \<open>Opening a published buffer, at the first attempt at which the file is there.\<close>

lemma open_existing:
  assumes "os_open os" and "fs_names fs p = Some i"
  shows "open_file os fs p creat False = (int i, fs)"
  using assms by (simp add: open_file_def)

lemma get_shared_control_buffer_ok:
  assumes p: "published key b fs" and os: "all_ok os"
  shows "get_shared_control_buffer os fs key = Inr (Some (bf_control b), fs)"
proof -
  have key: "key_ok key" using p by (simp add: published_def)
  obtain i where "fs_names fs (shm_path (key @ ''.ctrl'')) = Some i" "fs_files fs i = Control_file (bf_control b)"
    using p by (auto simp: published_def fs_lookup_def)
  then show ?thesis using p os ctrl_key_ok [OF key] key_paths(2) [OF key] open_existing [of os fs]
    by (simp add: get_shared_control_buffer_def shamon_shm_open_def all_ok_def published_def)
qed

lemma get_shared_buffer_ok:
  assumes p: "published key b fs" and os: "all_ok os" "all_ok os'"
  shows "try_get_shared_buffer os os' env (Some junk) True fs key retry = Inr (Some (junk\<lparr>bf_shm := bf_shm b,
      bf_segs := bf_segs b, bf_control := bf_control b, bf_cur_aux := None, bf_aux_buffers := [], bf_aux_buf_idx := 0,
      bf_fd := int (nat (bf_fd b)), bf_key := key, bf_mode := 0\<rparr>), fs)"
proof -
  have key: "key_ok key" and n: "fs_names fs (shm_path key) = Some (nat (bf_fd b))" using p by (simp_all add: published_def)
  have "fs_files fs (nat (bf_fd b)) = Buffer_file (bf_shm b)" using p n by (simp add: published_def fs_lookup_def)
  moreover have "open_retry os env key (unat retry + 1) fs = Inr (int (nat (bf_fd b)), fs)"
    using os n key_paths(1) [OF key] open_existing [of os fs] by (simp add: shamon_shm_open_def all_ok_def)
  ultimately show ?thesis using p os get_shared_control_buffer_ok [OF p os(2)]
    by (simp add: try_get_shared_buffer_def all_ok_def published_def del: open_retry.simps int_nat_eq)
qed

lemma open_retry_waits:
  assumes "k < n" and key: "key_ok key" and os: "os_open os"
    and absent: "\<And>j. j < k \<Longrightarrow> fs_names (w j) (shm_path key) = None" and "w 0 = fs"
    and step: "\<And>j. j < k \<Longrightarrow> w (Suc j) = env (n - Suc j) (w j)" and there: "fs_names (w k) (shm_path key) = Some i"
  shows "open_retry os env key n fs = Inr (int i, w k)"
  using assms(1,4-7)
proof (induction k arbitrary: n w fs)
  case 0
  then obtain m where "n = Suc m" by (cases n) auto
  then show ?case using 0 os key_paths(1) [OF key] open_existing [OF os 0(5)] by (simp add: shamon_shm_open_def)
next
  case (Suc k)
  obtain m where m: "n = Suc m" using Suc.prems(1) by (cases n) auto
  have "open_file os fs (shm_path key) False False = (-1, fs)" using Suc.prems(2,3) os by (auto simp: open_file_def)
  then have "open_retry os env key n fs = open_retry os env key m (env m fs)"
    using m key_paths(1) [OF key] by (simp add: shamon_shm_open_def)
  also have "\<dots> = Inr (int i, w (Suc k))"
  proof (rule Suc.IH)
    show "k < m" "w (Suc 0) = env m fs" using Suc.prems(1,3) Suc.prems(4) [of 0] m by simp_all
    show "fs_names (w (Suc k)) (shm_path key) = Some i" by (rule Suc.prems(5))
    show "fs_names (w (Suc j)) (shm_path key) = None" if "j < k" for j using Suc.prems(2) [of "Suc j"] that by blast
    show "w (Suc (Suc j)) = env (m - Suc j) (w (Suc j))" if "j < k" for j
      using Suc.prems(4) [of "Suc j"] that m by (simp only: diff_Suc_Suc Suc_less_eq)
  qed
  finally show ?case .
qed

section \<open>Destruction\<close>

lemma destroy_shared_buffer_ok:
  assumes p: "published key b fs" and os: "all_ok os" and "bf_aux_buffers b = []"
  shows "\<exists>fs'. destroy_shared_buffer os pg fs b = Inr fs' \<and> fs_ok fs' \<and> fs_names fs' (shm_path key) = None \<and>
    fs_names fs' (shm_path (key @ ''.ctrl'')) = None \<and>
    fs_files fs' (nat (bf_fd b)) = Buffer_file ((bf_shm b)\<lparr>sb_destroyed := True\<rparr>) \<and>
    only_touches {shm_path key, shm_path (key @ ''.ctrl'')} fs fs'"
proof -
  let ?b = "upd_shm (\<lambda>s. s\<lparr>sb_destroyed := True\<rparr>) b"
  have key: "key_ok key" "bf_key b = key" using p by (simp_all add: published_def)
  have P: "published key ?b (share ?b fs)" using published_share [OF p, of ?b] p by (simp add: published_def)
  have n: "fs_names (share ?b fs) (shm_path key) = Some (nat (bf_fd b))"
      "fs_names (share ?b fs) (shm_path (key @ ''.ctrl'')) \<noteq> None" using P by (auto simp: published_def fs_lookup_def)
  then obtain i where i: "fs_names (share ?b fs) (shm_path (key @ ''.ctrl'')) = Some i" by blast
  let ?fs = "(share ?b fs)\<lparr>fs_names := (fs_names (share ?b fs))(shm_path key := None, shm_path (key @ ''.ctrl'') := None)\<rparr>"
  have "destroy_shared_buffer os pg fs b = Inr ?fs"
    using assms(3) key key_paths [OF key(1)] ctrl_key_ok [OF key(1)] n(1) i os shm_path_neq(2) [OF key(1)]
    by (simp add: destroy_shared_buffer_def destroy_shared_control_buffer_def shamon_shm_unlink_def unlink_file_def all_ok_def Let_def)
  moreover have "fs_ok ?fs" using P by (auto simp: published_def fs_ok_def)
  moreover have "only_touches {shm_path key, shm_path (key @ ''.ctrl'')} fs ?fs"
  proof -
    have "only_touches {shm_path key} fs (share ?b fs)"
      using set_file_ok(2) [of fs "shm_path key" "bf_fd b"] p by (simp add: share_def only_touches_def fs_lookup_def published_def)
    then show ?thesis by (simp add: only_touches_def fs_lookup_def)
  qed
  moreover have "fs_files (share ?b fs) (nat (bf_fd b)) = Buffer_file (bf_shm ?b)" by (simp add: share_def set_file_def)
  ultimately show ?thesis by simp
qed

section \<open>The handle under queue operations\<close>

definition same_handle :: "buffer \<Rightarrow> buffer \<Rightarrow> bool" where
  "same_handle b b' \<longleftrightarrow> bf_fd b' = bf_fd b \<and> bf_key b' = bf_key b \<and> bf_control b' = bf_control b \<and> bf_segs b' = bf_segs b \<and>
     bf_aux_buffers b' = bf_aux_buffers b \<and> sb_allocated_size (bf_shm b') = sb_allocated_size (bf_shm b) \<and>
     sb_capacity (bf_shm b') = sb_capacity (bf_shm b) \<and> sb_elem_size (bf_shm b') = sb_elem_size (bf_shm b)"

lemma start_push_handle: "buffer_start_push b = Inr (p, b') \<Longrightarrow> same_handle b b'"
  by (auto simp: buffer_start_push_def same_handle_def Let_def split: if_splits prod.splits)

lemma bf_push_handle: "bf_push b x = Inr (r, b') \<Longrightarrow> same_handle b b'"
  by (auto dest!: start_push_handle simp: bf_push_def buffer_push_def buffer_finish_push_def same_handle_def Let_def
      split: if_splits option.splits)

lemma buffer_pop_handle: "buffer_pop b = Inr (r, b') \<Longrightarrow> same_handle b b'"
  by (auto simp: buffer_pop_def buffer_read_pointer_def same_handle_def Let_def split: if_splits option.splits prod.splits)

lemma impl_run_handle:
  "impl_run bf_push buffer_pop b ps = Inr (rs, b') \<Longrightarrow> same_handle b b'"
proof (induction ps arbitrary: b rs)
  case (Cons p ps)
  then show ?case
    by (cases p) (auto dest!: bf_push_handle buffer_pop_handle simp: same_handle_def)
qed (simp add: same_handle_def)

section \<open>Properties\<close>

text \<open>
  C18: the size of the memory for a buffer: for every element size and capacity for which the
  arithmetic does not wrap around, \<open>compute_shm_size\<close> returns a multiple of the page size that is
  larger than the header and the elements, by at most one page.
\<close>

theorem shm_size_bounds:
  assumes "0 < es" and "unat es * unat c + 4672 < 18446744073709551616"
  shows "\<exists>sz. compute_shm_size es c = Inr sz \<and> unat sz mod 4096 = 0 \<and>
    unat es * unat c + unat SIZEOF_SHMBUFFER < unat sz \<and> unat sz \<le> unat es * unat c + unat SIZEOF_SHMBUFFER + 4096"
  using compute_shm_size_ok [OF assms] by auto

theorem shm_size_bounds_witness:
  "\<exists>sz. compute_shm_size 24 1025 = Inr sz \<and> unat sz mod 4096 = 0 \<and> 25176 < unat sz \<and> unat sz \<le> 29272"
  using shm_size_bounds [of 24 1025] by simp

lemma creation_phases_hidden:
  assumes "fs_ok fs" and "key_ok key" and "fits es c"
  shows "\<exists>ms t fs1. compute_shm_size es (c + 1) = Inr ms \<and> open_tmp os fs key = Inr (t, fs1) \<and>
      fs_lookup fs1 (shm_path key) = fs_lookup fs (shm_path key) \<and>
      (case t of None \<Rightarrow> True | Some (tmpkey, fd) \<Rightarrow>
        \<exists>m fs2. fill_tmp os fs1 tmpkey fd ms es c = Inr (m, fs2) \<and> fs_lookup fs2 (shm_path key) = fs_lookup fs (shm_path key))"
proof -
  have c1: "unat (c + 1) = unat c + 1" using assms(3) by (simp add: fits_def unat_add_64)
  obtain ms where ms: "compute_shm_size es (c + 1) = Inr ms"
    using compute_shm_size_ok [of es "c + 1"] assms(3) c1 by (auto simp: fits_def)
  obtain t fs1 where o: "open_tmp os fs key = Inr (t, fs1)" "fs_ok fs1" "only_touches {shm_path (key @ ''.tmp'')} fs fs1"
      "case t of None \<Rightarrow> True | Some (t, fd) \<Rightarrow> t = key @ ''.tmp'' \<and> 0 \<le> fd \<and> fs_names fs1 (shm_path t) = Some (nat fd)"
    using open_tmp_ok [OF assms(1,2), of os] by (elim exE conjE) (rule that)
  have l: "fs_lookup fs' (shm_path key) = fs_lookup fs'' (shm_path key)"
    if "only_touches {shm_path (key @ ''.tmp'')} fs'' fs'" for fs' fs''
    using that shm_path_neq(1) [OF assms(2)] by (simp add: only_touches_def)
  have "case t of None \<Rightarrow> True | Some (tmpkey, fd) \<Rightarrow>
      \<exists>m fs2. fill_tmp os fs1 tmpkey fd ms es c = Inr (m, fs2) \<and> fs_lookup fs2 (shm_path key) = fs_lookup fs (shm_path key)"
  proof (cases t)
    case (Some tf)
    then obtain fd where fd: "tf = (key @ ''.tmp'', fd)" "fs_names fs1 (shm_path (key @ ''.tmp'')) = Some (nat fd)"
      using o(4) by (cases tf) auto
    from fill_tmp_ok [OF o(2) key_paths(3) [OF assms(2)] fd(2) assms(3) ms, of os]
    show ?thesis using Some fd(1) l o(3) by fastforce
  qed simp
  then show ?thesis using ms o(1) l [OF o(3)] by blast
qed

text \<open>
  C16: nobody opens a half-initialised buffer. Whatever system calls fail, while
  \<open>initialize_shared_buffer\<close> prepares the file under the temporary key, the key itself shows what it
  showed before; when the function returns, the key shows either that or the completely initialised,
  empty buffer (and then the temporary name is gone), and no other file has changed.
\<close>

theorem creation_is_atomic:
  assumes "fs_ok fs" and "key_ok key" and "fits es c"
  shows "(\<exists>ms t fs1. compute_shm_size es (c + 1) = Inr ms \<and> open_tmp os fs key = Inr (t, fs1) \<and>
      fs_lookup fs1 (shm_path key) = fs_lookup fs (shm_path key) \<and>
      (case t of None \<Rightarrow> True | Some (tmpkey, fd) \<Rightarrow>
        \<exists>m fs2. fill_tmp os fs1 tmpkey fd ms es c = Inr (m, fs2) \<and> fs_lookup fs2 (shm_path key) = fs_lookup fs (shm_path key))) \<and>
    (\<exists>r fs'. initialize_shared_buffer os fs key mode es c ctl = Inr (r, fs') \<and> fs_ok fs' \<and>
      only_touches {shm_path key, shm_path (key @ ''.tmp'')} fs fs' \<and>
      (case r of None \<Rightarrow> fs_lookup fs' (shm_path key) = fs_lookup fs (shm_path key)
       | Some b \<Rightarrow> fs_lookup fs' (shm_path key) = Some (Buffer_file (bf_shm b)) \<and>
           fs_lookup fs' (shm_path (key @ ''.tmp'')) = None \<and> bf_live b \<and> bf_elems b = [] \<and>
           sb_capacity (bf_shm b) = c \<and> sb_elem_size (bf_shm b) = es))"
proof -
  obtain r fs' where i: "initialize_shared_buffer os fs key mode es c ctl = Inr (r, fs')" "fs_ok fs'"
      "only_touches {shm_path key, shm_path (key @ ''.tmp'')} fs fs'"
      "case r of None \<Rightarrow> fs_lookup fs' (shm_path key) = fs_lookup fs (shm_path key)
       | Some b \<Rightarrow> fresh_shm es c (bf_shm b) \<and> fs_lookup fs' (shm_path key) = Some (Buffer_file (bf_shm b)) \<and>
         fs_lookup fs' (shm_path (key @ ''.tmp'')) = None \<and> fs_names fs' (shm_path key) = Some (nat (bf_fd b)) \<and>
         bf_segs b = fs_segs fs' \<and> bf_control b = ctl \<and> bf_key b = key \<and> bf_aux_buffers b = [] \<and> bf_last_subbufer_no b = 0"
    using initialize_shared_buffer_ok [OF assms, of os mode ctl] by (elim exE conjE) (rule that)
  then show ?thesis
    by (intro conjI creation_phases_hidden [OF assms] exI [of _ r] exI [of _ fs'])
      (cases r; simp add: fresh_shm_def bf_live_def bf_ok_def bf_elems_def)+
qed

definition fs_example :: shm_fs where
  "fs_example = \<lparr>fs_names = (\<lambda>_. None), fs_files = (\<lambda>_. Raw_file 0), fs_next = 3, fs_segs = (\<lambda>_. None)\<rparr>"

definition os_example :: os where
  "os_example = \<lparr>os_open = True, os_ftruncate = True, os_mmap = True, os_rename = True, os_unlink = True, os_pread = True\<rparr>"

definition ctl_example :: source_control where
  "ctl_example = \<lparr>sc_size = 232, sc_events = [blank_record\<lparr>er_size := 24\<rparr>, blank_record\<lparr>er_size := 16\<rparr>]\<rparr>"

lemma example_facts:
  "fs_ok fs_example" "key_ok ''/buf''" "all_ok os_example" "control_ok ctl_example"
  "source_control_max_event_size ctl_example = Inr 24" "fits 24 4"
  by (simp_all add: fs_ok_def fs_example_def key_ok_def all_ok_def os_example_def control_ok_def ctl_example_def fits_def)
    (simp add: source_control_max_event_size_def source_control_get_records_num_def upt_rec rec_at_def)

theorem creation_is_atomic_witness:
  "\<exists>r fs'. initialize_shared_buffer (os_example\<lparr>os_rename := False\<rparr>) fs_example ''/buf'' 448 24 4 ctl_example = Inr (r, fs') \<and> fs_ok fs' \<and>
      only_touches {shm_path ''/buf'', shm_path ''/buf.tmp''} fs_example fs' \<and>
      (case r of None \<Rightarrow> fs_lookup fs' (shm_path ''/buf'') = fs_lookup fs_example (shm_path ''/buf'')
       | Some b \<Rightarrow> fs_lookup fs' (shm_path ''/buf'') = Some (Buffer_file (bf_shm b)) \<and>
           fs_lookup fs' (shm_path ''/buf.tmp'') = None \<and> bf_live b \<and> bf_elems b = [] \<and>
           sb_capacity (bf_shm b) = 4 \<and> sb_elem_size (bf_shm b) = 24)"
  using conjunct2 [OF creation_is_atomic [OF example_facts(1,2,6), of "os_example\<lparr>os_rename := False\<rparr>" 448 ctl_example]]
  unfolding append.simps .

text \<open>
  C15: two processes share a buffer. One creates it and runs any sequence of pushes and pops on it;
  another one that opens it by its key afterwards, at whichever attempt, gets a buffer in use with
  exactly the elements a bounded list would hold, the same capacity and element size, and the
  description of the events the creator gave.
\<close>

theorem processes_share_buffer:
  assumes "fs_ok fs" and "key_ok key" and "control_ok ctl" and "all_ok os" "all_ok os'" "all_ok os1" "all_ok os1'"
    and "source_control_max_event_size ctl = Inr es" and "fits es c"
    and "\<forall>p \<in> set ps. \<forall>x \<in> qop_args p. length x = unat es"
  shows "\<exists>b fs1 b'. create_shared_buffer os os' fs key c ctl = Inr (Some b, fs1) \<and>
    impl_run bf_push buffer_pop b ps = Inr (fst (spec_run (unat c) [] ps), b') \<and>
    (\<exists>r. try_get_shared_buffer os1 os1' env (Some junk) True (share b' fs1) key retry = Inr (Some r, share b' fs1) \<and>
      bf_live r \<and> bf_elems r = snd (spec_run (unat c) [] ps) \<and> buffer_capacity r = c \<and> buffer_elem_size r = es \<and> bf_control r = ctl)"
proof -
  obtain b fs1 where b: "create_shared_buffer os os' fs key c ctl = Inr (Some b, fs1)" "published key b fs1"
      "bf_live b" "bf_elems b = []" "sb_capacity (bf_shm b) = c" "sb_elem_size (bf_shm b) = es" "bf_control b = ctl"
    using create_shared_buffer_ok [OF assms(1-5,8,9)] by (elim exE conjE) (rule that)
  obtain b' where b': "impl_run bf_push buffer_pop b ps = Inr (fst (spec_run (unat c) [] ps), b')" "bf_live b'"
      "bf_elems b' = snd (spec_run (unat c) [] ps)"
    using shb.run_refines [OF b(3), of ps] assms(10) b(4-6) by auto
  have h: "same_handle b b'" using impl_run_handle [OF b'(1)] .
  have "published key b' (share b' fs1)"
    using published_share [OF b(2), of b'] h b(2) by (simp add: same_handle_def published_def)
  note g = get_shared_buffer_ok [OF this assms(6,7), of env junk retry]
  have "sb_capacity (bf_shm b') = c \<and> sb_elem_size (bf_shm b') = es" using h b(5,6) by (simp add: same_handle_def)
  then show ?thesis using b(1,7) b' g h
    by (auto simp: buffer_capacity_def buffer_elem_size_def same_handle_def bf_live_def bf_ok_def bf_elems_def)
qed

theorem processes_share_buffer_witness:
  "\<exists>b fs1 b'. create_shared_buffer os_example os_example fs_example ''/buf'' 4 ctl_example = Inr (Some b, fs1) \<and>
    impl_run bf_push buffer_pop b [Push (replicate 24 7), Push (replicate 24 8), Pop] =
      Inr ([Pushed True, Pushed True, Popped (Some (replicate 24 7))], b') \<and>
    (\<exists>r. try_get_shared_buffer os_example os_example (\<lambda>_ fs. fs) (Some bf_example) True (share b' fs1) ''/buf'' 0 = Inr (Some r, share b' fs1) \<and>
      bf_live r \<and> bf_elems r = [replicate 24 8] \<and> buffer_capacity r = 4 \<and> buffer_elem_size r = 24 \<and> bf_control r = ctl_example)"
  using processes_share_buffer [OF example_facts(1,2,4,3,3,3,3,5,6),
      of "[Push (replicate 24 7), Push (replicate 24 8), Pop]" "\<lambda>_ fs. fs" bf_example 0] by simp



text \<open>
  A control buffer of size 0 (the user wants none) is stored as 8 bytes whose size field is 0, and
  that length cannot be mapped: opening the buffer removes the names of both files.
\<close>

lemma empty_control_not_opened:
  assumes "key_ok key" and "fs_names fs (shm_path (key @ ''.ctrl'')) = Some i" and "fs_files fs i = Control_file ctl"
    and "sc_size ctl = 0" and "all_ok os"
  shows "get_shared_control_buffer os fs key =
    Inr (None, fs\<lparr>fs_names := (fs_names fs)(shm_path (key @ ''.ctrl'') := None)\<rparr>)"
  using assms ctrl_key_ok [OF assms(1)] key_paths(2) [OF assms(1)] open_existing [of os fs]
  by (simp add: get_shared_control_buffer_def shamon_shm_open_def shamon_shm_unlink_def unlink_file_def all_ok_def)

text \<open>The path of a key is refused exactly when the caller's array is large enough for every path.\<close>

lemma key_path_refused: "256 \<le> n \<Longrightarrow> buffer_get_key_path b n = Inr (-1, [])"
  by (simp add: buffer_get_key_path_def SHM_NAME_MAXLEN_def)

text \<open>A local buffer has memory for \<open>capacity\<close> elements only: the ring buffer needs one more.\<close>

lemma local_buffer_too_small:
  "compute_shm_size 3519 1 = Inr 4096 \<and> unat ((4096 :: size_t) - SIZEOF_SHMBUFFER) < (1 + 1) * 3519"
  by (simp add: compute_shm_size_def SIZEOF_SHMBUFFER_def)

text \<open>When mapping a new control buffer fails, the name of an existing one is removed, not the temporary one.\<close>

lemma control_failure_unlinks_key:
  assumes "key_ok key" and "control_ok ctl" and "fs_ok fs" and "fs_names fs (shm_path (key @ ''.ctrl'')) = Some i"
    and "all_ok os"
  shows "\<exists>fs'. create_shared_control_buffer (os\<lparr>os_mmap := False\<rparr>) fs key ctl = Inr (None, fs') \<and>
    fs_names fs' (shm_path (key @ ''.ctrl'')) = None \<and> fs_names fs' (shm_path (key @ ''.ctrl.tmp'')) \<noteq> None"
proof -
  let ?os = "os\<lparr>os_mmap := False\<rparr>" and ?k = "shm_path (key @ ''.ctrl'')" and ?t = "shm_path (key @ ''.ctrl.tmp'')"
  have sz: "sc_size ctl \<noteq> 0" "8 \<le> sc_size ctl" using assms(2) by (auto simp: control_ok_def word_le_nat_alt)
  have tmp: "shamon_get_tmp_key (key @ ''.ctrl'') [] SHM_NAME_MAXLEN = Inr (Some (key @ ''.ctrl.tmp''))"
    using tmp_key_ok [of "key @ ''.ctrl''"] assms(1) by (simp add: key_ok_def)
  obtain fd fs1 where o: "open_file ?os fs ?t True False = (fd, fs1)" by fastforce
  note neq = shm_path_neq(4) [OF assms(1)]
  have fd: "0 \<le> fd" "fs_names fs1 ?t \<noteq> None" "fs_names fs1 ?k = Some i"
    using o assms(4,5) neq by (auto simp: open_file_def all_ok_def split: option.splits)
  let ?fs = "set_file fd (Raw_file (sc_size ctl)) fs1"
  have "create_shared_control_buffer ?os fs key ctl = Inr (None, ?fs\<lparr>fs_names := (fs_names ?fs)(?k := None)\<rparr>)"
    using ctrl_key_ok [OF assms(1)] tmp o fd sz assms(5) key_paths [OF assms(1)]
    by (simp add: create_shared_control_buffer_def shamon_shm_open_def shamon_shm_unlink_def unlink_file_def all_ok_def Let_def
        set_file_def)
  then show ?thesis using fd(2) neq by (simp add: set_file_def)
qed

end
