(* ===== verification/Buffer_Groups.thy ===== *)
theory Buffer_Groups
  imports Linked_Lists "HOL-Library.Multiset"
begin

text \<open>
  Buffer groups: the ordered, doubly linked lists of streams that compiled monitors keep
  (\<open>compiler/cfiles/compiler_utils.c\<close>), on the heap of \<open>Linked_Lists\<close>. A node's data are the
  identity of its stream, its buffer and the arguments the order compares. \<open>order_exp x y\<close> says
  that \<open>x\<close> comes after \<open>y\<close>. Every loop has fuel: \<open>None\<close> is running out of it.
\<close>

section \<open>State and operations\<close>

record 'a bg_data =
  bd_stream :: nat
  bd_buffer :: nat
  bd_args :: 'a

record buffer_group =
  bg_head :: ptr
  bg_tail :: ptr
  bg_size :: int

type_synonym 'a bg_heap = "'a bg_data lheap"

abbreviation INT_MAX :: int where
  "INT_MAX \<equiv> 2147483647"

definition bindO :: "'a res option \<Rightarrow> ('a \<Rightarrow> 'b res option) \<Rightarrow> 'b res option" where
  "bindO m f = (case m of None \<Rightarrow> None | Some (Inl e) \<Rightarrow> Some (Inl e) | Some (Inr x) \<Rightarrow> f x)"

lemma bindO_Inr [simp]: "bindO (Some (Inr x)) f = f x"
  by (simp add: bindO_def)

definition init_buffer_group :: buffer_group where
  "init_buffer_group = \<lparr>bg_head = None, bg_tail = None, bg_size = 0\<rparr>"

primrec bg_destroy_loop :: "nat \<Rightarrow> 'a bg_heap \<Rightarrow> ptr \<Rightarrow> 'a bg_heap res option" where
  "bg_destroy_loop 0 h cur = None"
| "bg_destroy_loop (Suc fuel) h cur =
     (case cur of None \<Rightarrow> Some (Inr h)
      | Some a \<Rightarrow> bindO (Some (deref h cur)) (\<lambda>n. bg_destroy_loop fuel (h(a := None)) (ln_next n)))"

definition destroy_buffer_group :: "nat \<Rightarrow> 'a bg_heap \<Rightarrow> buffer_group \<Rightarrow> 'a bg_heap res option" where
  "destroy_buffer_group fuel h bg = bg_destroy_loop fuel h (bg_head bg)"

text \<open>The search for the first node the new one does not come after.\<close>

primrec bg_find_loop :: "nat \<Rightarrow> ('a \<Rightarrow> 'a \<Rightarrow> bool) \<Rightarrow> 'a bg_heap \<Rightarrow> 'a \<Rightarrow> ptr \<Rightarrow> ptr res option" where
  "bg_find_loop 0 order_exp h args cur = None"
| "bg_find_loop (Suc fuel) order_exp h args cur =
     bindO (Some (deref h cur)) (\<lambda>n.
     if order_exp args (bd_args (ln_data n)) then bg_find_loop fuel order_exp h args (ln_next n)
     else Some (Inr cur))"

definition bg_count :: "'a bg_heap \<Rightarrow> buffer_group \<Rightarrow> ('a bg_heap \<times> buffer_group) res" where
  "bg_count h bg =
     (if bg_size bg + 1 > INT_MAX then Inl (UB ''signed overflow'') else Inr (h, bg\<lparr>bg_size := bg_size bg + 1\<rparr>))"

text \<open>The new node \<open>a\<close> goes before the node that was found, unless it or the one before it has the stream.\<close>

definition insert_middle ::
    "nat \<Rightarrow> ('a \<Rightarrow> 'a \<Rightarrow> bool) \<Rightarrow> 'a bg_heap \<Rightarrow> buffer_group \<Rightarrow> nat \<Rightarrow> 'a \<Rightarrow> nat \<Rightarrow> ('a bg_heap \<times> buffer_group) res option" where
  "insert_middle fuel order_exp h bg stream args a =
     bindO (bg_find_loop fuel order_exp h args (bg_head bg)) (\<lambda>cur.
     bindO (Some (deref h cur)) (\<lambda>c.
     if bd_stream (ln_data c) = stream then Some (Inr (h, bg)) else
     bindO (Some (deref h (ln_prev c))) (\<lambda>p.
     if bd_stream (ln_data p) = stream then Some (Inr (h, bg)) else
     Some (bindE (set_prev h (Some a) (ln_prev c)) (\<lambda>h.
           bindE (set_next h (Some a) cur) (\<lambda>h.
           bindE (set_next h (ln_prev c) (Some a)) (\<lambda>h.
           bindE (set_prev h cur (Some a)) (\<lambda>h.
           bg_count h bg))))))))"

definition bg_insert ::
    "nat \<Rightarrow> ('a \<Rightarrow> 'a \<Rightarrow> bool) \<Rightarrow> 'a bg_heap \<Rightarrow> buffer_group \<Rightarrow> nat \<Rightarrow> nat \<Rightarrow> 'a \<Rightarrow> ptr \<Rightarrow>
      ('a bg_heap \<times> buffer_group) res option" where
  "bg_insert fuel order_exp h bg stream buff args new_node =
     (case new_node of None \<Rightarrow> Some (Inl (UB ''NULL dereferenced'')) | Some a \<Rightarrow>
      let h = h(a \<mapsto> \<lparr>ln_next = None, ln_prev = None,
                       ln_data = \<lparr>bd_stream = stream, bd_buffer = buff, bd_args = args\<rparr>\<rparr>) in
      if bg_size bg = 0 then Some (bg_count h (bg\<lparr>bg_head := Some a, bg_tail := Some a\<rparr>))
      else bindO (Some (deref h (bg_tail bg))) (\<lambda>t.
        if bd_stream (ln_data t) = stream then Some (Inr (h, bg)) else
        bindO (Some (deref h (bg_head bg))) (\<lambda>hd.
        if bd_stream (ln_data hd) = stream then Some (Inr (h, bg)) else
        if order_exp args (bd_args (ln_data t)) then
          Some (bindE (set_next h (bg_tail bg) (Some a)) (\<lambda>h.
                bindE (set_prev h (Some a) (bg_tail bg)) (\<lambda>h.
                bg_count h (bg\<lparr>bg_tail := Some a\<rparr>))))
        else if \<not> order_exp args (bd_args (ln_data hd)) then
          Some (bindE (set_next h (Some a) (bg_head bg)) (\<lambda>h.
                bindE (set_prev h (bg_head bg) (Some a)) (\<lambda>h.
                bg_count h (bg\<lparr>bg_head := Some a\<rparr>))))
        else
          insert_middle fuel order_exp h bg stream args a)))"

text \<open>Taking the node at \<open>a\<close> out of the list and freeing it.\<close>

definition bg_unlink :: "'a bg_heap \<Rightarrow> buffer_group \<Rightarrow> nat \<Rightarrow> ('a bg_heap \<times> buffer_group) res" where
  "bg_unlink h bg a =
     bindE (deref h (Some a)) (\<lambda>n.
     bindE (if ln_prev n \<noteq> None then set_next h (ln_prev n) (ln_next n) else Inr h) (\<lambda>h.
     bindE (if ln_next n \<noteq> None then set_prev h (ln_next n) (ln_prev n) else Inr h) (\<lambda>h.
     let bg = (if Some a = bg_head bg then bg\<lparr>bg_head := ln_next n\<rparr> else bg);
         bg = (if Some a = bg_tail bg then bg\<lparr>bg_tail := ln_prev n\<rparr> else bg)
     in Inr (h(a := None), bg\<lparr>bg_size := bg_size bg - 1\<rparr>))))"

primrec bg_remove_loop ::
    "nat \<Rightarrow> 'a bg_heap \<Rightarrow> buffer_group \<Rightarrow> nat \<Rightarrow> ptr \<Rightarrow> (bool \<times> 'a bg_heap \<times> buffer_group) res option" where
  "bg_remove_loop 0 h bg stream cur = None"
| "bg_remove_loop (Suc fuel) h bg stream cur =
     (case cur of None \<Rightarrow> Some (Inr (False, h, bg))
      | Some a \<Rightarrow> bindO (Some (deref h cur)) (\<lambda>n.
          if bd_stream (ln_data n) = stream
          then Some (bindE (bg_unlink h bg a) (\<lambda>(h, bg). Inr (True, h, bg)))
          else bg_remove_loop fuel h bg stream (ln_next n)))"

definition bg_remove ::
    "nat \<Rightarrow> 'a bg_heap \<Rightarrow> buffer_group \<Rightarrow> nat \<Rightarrow> (bool \<times> 'a bg_heap \<times> buffer_group) res option" where
  "bg_remove fuel h bg stream = bg_remove_loop fuel h bg stream (bg_head bg)"

text \<open>The neighbour is read before the node is removed; \<open>n\<close> counts down, a negative \<open>n\<close> removes nothing.\<close>

primrec remove_n_loop ::
    "nat \<Rightarrow> ('a bg_data lnode \<Rightarrow> ptr) \<Rightarrow> 'a bg_heap \<Rightarrow> buffer_group \<Rightarrow> ptr \<Rightarrow> nat \<Rightarrow> ('a bg_heap \<times> buffer_group) res option" where
  "remove_n_loop fuel step h bg cur 0 = Some (Inr (h, bg))"
| "remove_n_loop fuel step h bg cur (Suc n) =
     (if bg_size bg \<le> 0 then Some (Inr (h, bg))
      else bindO (Some (deref h cur)) (\<lambda>c.
        bindO (bg_remove fuel h bg (bd_stream (ln_data c))) (\<lambda>(_, h, bg).
        remove_n_loop fuel step h bg (step c) n)))"

definition bg_remove_first_n :: "nat \<Rightarrow> 'a bg_heap \<Rightarrow> buffer_group \<Rightarrow> int \<Rightarrow> ('a bg_heap \<times> buffer_group) res option" where
  "bg_remove_first_n fuel h bg n = remove_n_loop fuel ln_next h bg (bg_head bg) (nat n)"

definition bg_remove_last_n :: "nat \<Rightarrow> 'a bg_heap \<Rightarrow> buffer_group \<Rightarrow> int \<Rightarrow> ('a bg_heap \<times> buffer_group) res option" where
  "bg_remove_last_n fuel h bg n = remove_n_loop fuel ln_prev h bg (bg_tail bg) (nat n)"

text \<open>The nodes are written to an array of the caller, from its beginning; all of them are.\<close>

primrec get_n_loop ::
    "nat \<Rightarrow> ('a bg_data lnode \<Rightarrow> ptr) \<Rightarrow> 'a bg_heap \<Rightarrow> ptr \<Rightarrow> nat \<Rightarrow> ptr list \<Rightarrow> ptr list res option" where
  "get_n_loop 0 step h cur i result = None"
| "get_n_loop (Suc fuel) step h cur i result =
     (case cur of None \<Rightarrow> Some (Inr result)
      | Some a \<Rightarrow>
          if i < length result then
            bindO (Some (deref h cur)) (\<lambda>n. get_n_loop fuel step h (step n) (i + 1) (result[i := cur]))
          else Some (Inl (UB ''write out of bounds'')))"

definition bg_get_first_n ::
    "nat \<Rightarrow> 'a bg_heap \<Rightarrow> buffer_group \<Rightarrow> int \<Rightarrow> ptr list \<Rightarrow> (bool \<times> ptr list) res option" where
  "bg_get_first_n fuel h bg at_least result =
     (if bg_size bg < at_least then Some (Inr (False, result))
      else bindO (get_n_loop fuel ln_next h (bg_head bg) 0 result) (\<lambda>result. Some (Inr (True, result))))"

definition bg_get_last_n ::
    "nat \<Rightarrow> 'a bg_heap \<Rightarrow> buffer_group \<Rightarrow> int \<Rightarrow> ptr list \<Rightarrow> (bool \<times> ptr list) res option" where
  "bg_get_last_n fuel h bg at_least result =
     (if bg_size bg < at_least then Some (Inr (False, result))
      else bindO (get_n_loop fuel ln_prev h (bg_tail bg) 0 result) (\<lambda>result. Some (Inr (True, result))))"

definition swap_dll_node :: "'a bg_heap \<Rightarrow> ptr \<Rightarrow> ptr \<Rightarrow> 'a bg_heap res" where
  "swap_dll_node h node1 node2 =
     bindE (deref h node1) (\<lambda>n1.
     bindE (deref h node2) (\<lambda>n2.
     bindE (if ln_prev n1 \<noteq> None then set_next h (ln_prev n1) node2 else Inr h) (\<lambda>h.
     assertE (ln_next n1 = node2) ''node1_next == node2''
     (bindE (set_prev h node1 node2) (\<lambda>h.
      bindE (set_next h node1 (ln_next n2)) (\<lambda>h.
      assertE (ln_prev n2 = node1) ''node2_prev == node1''
      (bindE (set_prev h node2 (ln_prev n1)) (\<lambda>h.
       bindE (set_next h node2 node1) (\<lambda>h.
       if ln_next n2 \<noteq> None then set_prev h (ln_next n2) node1 else Inr h)))))))))"

text \<open>One pass over the list, and the passes until nothing changes.\<close>

primrec bg_pass ::
    "nat \<Rightarrow> ('a \<Rightarrow> 'a \<Rightarrow> bool) \<Rightarrow> 'a bg_heap \<Rightarrow> buffer_group \<Rightarrow> ptr \<Rightarrow> bool \<Rightarrow>
      (bool \<times> 'a bg_heap \<times> buffer_group) res option" where
  "bg_pass 0 order_exp h bg prev change = None"
| "bg_pass (Suc fuel) order_exp h bg prev change =
     (case prev of None \<Rightarrow> Some (Inr (change, h, bg))
      | Some _ \<Rightarrow> bindO (Some (deref h prev)) (\<lambda>p.
          if ln_next p = None then Some (Inr (change, h, bg))
          else bindO (Some (deref h (ln_next p))) (\<lambda>c.
            if order_exp (bd_args (ln_data p)) (bd_args (ln_data c)) then
              let current = ln_next p;
                  bg = (if prev = bg_head bg then bg\<lparr>bg_head := current\<rparr> else bg);
                  bg = (if current = bg_tail bg then bg\<lparr>bg_tail := prev\<rparr> else bg)
              in bindO (Some (swap_dll_node h prev current)) (\<lambda>h.
                 bindO (Some (deref h prev)) (\<lambda>p. bg_pass fuel order_exp h bg (ln_next p) True))
            else bg_pass fuel order_exp h bg (ln_next p) change)))"

primrec bg_update ::
    "nat \<Rightarrow> nat \<Rightarrow> ('a \<Rightarrow> 'a \<Rightarrow> bool) \<Rightarrow> 'a bg_heap \<Rightarrow> buffer_group \<Rightarrow> ('a bg_heap \<times> buffer_group) res option" where
  "bg_update 0 fuel order_exp h bg = None"
| "bg_update (Suc passes) fuel order_exp h bg =
     bindO (bg_pass fuel order_exp h bg (bg_head bg) False) (\<lambda>(change, h, bg).
     if change then bg_update passes fuel order_exp h bg else Some (Inr (h, bg)))"

section \<open>The list of a group\<close>

definition bg_repr :: "'a bg_heap \<Rightarrow> buffer_group \<Rightarrow> (nat \<times> 'a bg_data) list \<Rightarrow> bool" where
  "bg_repr h bg xs \<longleftrightarrow> distinct (map fst xs) \<and> dlseg h None xs None \<and> bg_head bg = hd_ptr xs None \<and>
     bg_tail bg = last_ptr None xs \<and> bg_size bg = int (length xs)"

lemma bg_reprD:
  assumes "bg_repr h bg xs"
  shows "distinct (map fst xs)" "dlseg h None xs None" "bg_head bg = hd_ptr xs None" "bg_tail bg = last_ptr None xs"
    "bg_size bg = int (length xs)"
  using assms by (simp_all add: bg_repr_def)

lemma node_at:
  assumes "dlseg h p (xs @ (a, d) # ys) q"
  shows "h a = Some \<lparr>ln_next = hd_ptr ys q, ln_prev = last_ptr p xs, ln_data = d\<rparr>"
  using assms by simp

text \<open>Exchanging two neighbours, with the ends of the group moved before.\<close>

lemma swap_ok:
  assumes r: "bg_repr h bg (xs @ (a, d) # (b, e) # ys)"
  shows "\<exists>h'. swap_dll_node h (Some a) (Some b) = Inr h' \<and>
    bg_repr h' (bg\<lparr>bg_head := (if Some a = bg_head bg then Some b else bg_head bg),
                   bg_tail := (if Some b = bg_tail bg then Some a else bg_tail bg)\<rparr>) (xs @ (b, e) # (a, d) # ys)"
proof -
  note R = bg_reprD [OF r]
  have na: "h a = Some \<lparr>ln_next = Some b, ln_prev = last_ptr None xs, ln_data = d\<rparr>"
      "h b = Some \<lparr>ln_next = hd_ptr ys None, ln_prev = Some a, ln_data = e\<rparr>" "a \<noteq> b"
      "a \<notin> fst ` set xs" "a \<notin> fst ` set ys" "b \<notin> fst ` set xs" "b \<notin> fst ` set ys"
    using R(1,2) by auto
  have hd: "Some a = bg_head bg \<longleftrightarrow> xs = []" using R(3) hd_ptr_eq_iff [OF na(4)] by auto
  have tl: "Some b = bg_tail bg \<longleftrightarrow> ys = []" using R(4) last_ptr_eq_iff [OF na(7)] by auto
  note unfold = swap_dll_node_def bg_repr_def
  show ?thesis
  proof (cases xs rule: ends_cases)
    case 1
    show ?thesis
    proof (cases ys)
      case Nil
      then show ?thesis using 1 R na hd tl by (simp add: unfold)
    next
      case (Cons y zs)
      obtain c f where y: "y = (c, f)" by (cases y)
      have c: "h c = Some \<lparr>ln_next = hd_ptr zs None, ln_prev = Some b, ln_data = f\<rparr>" "c \<noteq> a" "c \<noteq> b" "c \<notin> fst ` set zs"
        using R(1,2) Cons y by auto
      then show ?thesis using 1 Cons y R na hd tl by (simp add: unfold)
    qed
  next
    case (2 us k g)
    have k: "h k = Some \<lparr>ln_next = Some a, ln_prev = last_ptr None us, ln_data = g\<rparr>" "k \<noteq> a" "k \<noteq> b" "k \<notin> fst ` set us" "k \<notin> fst ` set ys"
      using R(1,2) 2 by auto
    show ?thesis
    proof (cases ys)
      case Nil
      then show ?thesis using 2 k R na hd tl by (simp add: unfold)
    next
      case (Cons y zs)
      obtain c f where y: "y = (c, f)" by (cases y)
      have c: "h c = Some \<lparr>ln_next = hd_ptr zs None, ln_prev = Some b, ln_data = f\<rparr>" "c \<noteq> a" "c \<noteq> b" "c \<noteq> k" "c \<notin> fst ` set zs" "c \<notin> fst ` set us"
        using R(1,2) 2 Cons y by auto
      then show ?thesis using 2 k Cons y R na hd tl by (simp add: unfold)
    qed
  qed
qed

section \<open>Sorting\<close>

text \<open>What a pass does to the list: after an exchange the following pair is skipped.\<close>

fun pass :: "('x \<Rightarrow> 'x \<Rightarrow> bool) \<Rightarrow> 'x list \<Rightarrow> bool \<times> 'x list" where
  "pass ord (x # y # zs) =
     (if ord x y then (True, y # x # snd (pass ord zs)) else (fst (pass ord (y # zs)), x # snd (pass ord (y # zs))))"
| "pass ord xs = (False, xs)"

abbreviation node_ord :: "('a \<Rightarrow> 'a \<Rightarrow> bool) \<Rightarrow> nat \<times> 'a bg_data \<Rightarrow> nat \<times> 'a bg_data \<Rightarrow> bool" where
  "node_ord ord x y \<equiv> ord (bd_args (snd x)) (bd_args (snd y))"

lemma bg_pass_ok:
  assumes "bg_repr h bg (us @ xs)" and "length xs < fuel"
  shows "\<exists>h' bg'. bg_pass fuel ord h bg (hd_ptr xs None) change =
      Some (Inr (change \<or> fst (pass (node_ord ord) xs), h', bg')) \<and> bg_repr h' bg' (us @ snd (pass (node_ord ord) xs))"
  using assms
proof (induction xs arbitrary: us h bg fuel change rule: induct_list012)
  case (3 x y zs)
  obtain a d b e where xy: "x = (a, d)" "y = (b, e)" by (cases x, cases y)
  obtain f where f: "fuel = Suc f" using 3(4) by (cases fuel) auto
  note R = bg_reprD [OF 3(3)]
  have n: "h a = Some \<lparr>ln_next = Some b, ln_prev = last_ptr None us, ln_data = d\<rparr>"
      "h b = Some \<lparr>ln_next = hd_ptr zs None, ln_prev = Some a, ln_data = e\<rparr>"
    using R(2) xy by simp_all
  show ?case
  proof (cases "node_ord ord x y")
    case True
    let ?bg = "bg\<lparr>bg_head := (if Some a = bg_head bg then Some b else bg_head bg),
      bg_tail := (if Some b = bg_tail bg then Some a else bg_tail bg)\<rparr>"
    obtain h' where s: "swap_dll_node h (Some a) (Some b) = Inr h'" "bg_repr h' ?bg (us @ y # x # zs)"
      using swap_ok [of h bg us a d b e zs] 3(3) xy by auto
    have na: "h' a = Some \<lparr>ln_next = hd_ptr zs None, ln_prev = Some b, ln_data = d\<rparr>"
      using bg_reprD(2) [OF s(2)] xy by simp
    have e: "bg_pass fuel ord h bg (hd_ptr (x # y # zs) None) change = bg_pass f ord h' ?bg (hd_ptr zs None) True"
      using f xy n True s(1) na by (auto simp: Let_def)
    obtain h2 bg2 where i: "bg_pass f ord h' ?bg (hd_ptr zs None) True = Some (Inr (True \<or> fst (pass (node_ord ord) zs), h2, bg2))"
        "bg_repr h2 bg2 ((us @ [y, x]) @ snd (pass (node_ord ord) zs))"
      using 3(1) [of h' ?bg "us @ [y, x]" f True] s(2) 3(4) f by auto
    show ?thesis using e i True by simp
  next
    case False
    have e: "bg_pass fuel ord h bg (hd_ptr (x # y # zs) None) change = bg_pass f ord h bg (hd_ptr (y # zs) None) change"
      using f xy n False by simp
    obtain h2 bg2 where i: "bg_pass f ord h bg (hd_ptr (y # zs) None) change =
        Some (Inr (change \<or> fst (pass (node_ord ord) (y # zs)), h2, bg2))"
        "bg_repr h2 bg2 ((us @ [x]) @ snd (pass (node_ord ord) (y # zs)))"
      using 3(2) [of h bg "us @ [x]" f change] 3(3,4) f by auto
    show ?thesis using e i False by simp
  qed
next
  case 1
  then show ?case by (cases fuel) auto
next
  case (2 v)
  obtain a d where v: "v = (a, d)" by (cases v)
  obtain f where "fuel = Suc f" using 2(2) by (cases fuel) auto
  then show ?case using 2(1) bg_reprD(2) [OF 2(1)] v by simp
qed

primrec inversions :: "('x \<Rightarrow> 'x \<Rightarrow> bool) \<Rightarrow> 'x list \<Rightarrow> nat" where
  "inversions r [] = 0"
| "inversions r (x # xs) = size {#y \<in># mset xs. r x y#} + inversions r xs"

lemma inversions_bound: "inversions r xs \<le> length xs * length xs"
proof (induction xs)
  case (Cons x xs)
  have "size {#y \<in># mset xs. r x y#} \<le> length xs" by (metis size_filter_mset_lesseq size_mset)
  with Cons show ?case by simp
qed simp

lemma pass_mset: "mset (snd (pass r xs)) = mset xs"
  by (induction r xs rule: pass.induct) simp_all

lemma pass_length: "length (snd (pass r xs)) = length xs"
  by (metis pass_mset size_mset)

lemma pass_inversions:
  assumes "\<And>x y. r x y \<Longrightarrow> \<not> r y x"
  shows "inversions r (snd (pass r xs)) + (if fst (pass r xs) then 1 else 0) \<le> inversions r xs"
proof (induction xs rule: induct_list012)
  case (3 x y zs)
  then show ?case using assms [of x y] by (auto simp: pass_mset)
qed simp_all

lemma pass_unchanged:
  "\<not> fst (pass r xs) \<Longrightarrow> snd (pass r xs) = xs \<and> successively (\<lambda>x y. \<not> r x y) xs"
  by (induction r xs rule: pass.induct) (auto split: if_splits)

lemma bg_update_ok:
  assumes "bg_repr h bg xs" and "length xs < fuel" and "inversions (node_ord ord) xs < passes"
    and asym: "\<And>x y. ord x y \<Longrightarrow> \<not> ord y x"
  shows "\<exists>h' bg' ys. bg_update passes fuel ord h bg = Some (Inr (h', bg')) \<and> bg_repr h' bg' ys \<and> mset ys = mset xs \<and>
    successively (\<lambda>x y. \<not> node_ord ord x y) ys"
  using assms(1-3)
proof (induction passes arbitrary: h bg xs)
  case (Suc n)
  let ?p = "pass (node_ord ord) xs"
  obtain h1 bg1 where p: "bg_pass fuel ord h bg (bg_head bg) False = Some (Inr (fst ?p, h1, bg1))" "bg_repr h1 bg1 (snd ?p)"
    using bg_pass_ok [of h bg "[]" xs fuel ord False] Suc.prems(1,2) by (auto simp: bg_repr_def)
  show ?case
  proof (cases "fst ?p")
    case True
    have "inversions (node_ord ord) (snd ?p) < n"
      using pass_inversions [of "node_ord ord" xs] asym True Suc.prems(3) by simp
    then have "\<exists>h' bg' ys. bg_update n fuel ord h1 bg1 = Some (Inr (h', bg')) \<and> bg_repr h' bg' ys \<and> mset ys = mset (snd ?p) \<and>
        successively (\<lambda>x y. \<not> node_ord ord x y) ys"
      using Suc.IH [OF p(2)] Suc.prems(2) pass_length [of "node_ord ord" xs] by simp
    then show ?thesis using p(1) True pass_mset [of "node_ord ord" xs] by simp
  next
    case False
    then show ?thesis using p pass_unchanged [OF False] by auto
  qed
qed simp

section \<open>Insertion\<close>

lemma bg_find_loop_ok:
  assumes "dlseg h p xs q" and "\<exists>x \<in> set xs. \<not> ord args (bd_args (snd x))" and "length xs < fuel"
  shows "\<exists>us c d vs. xs = us @ (c, d) # vs \<and> bg_find_loop fuel ord h args (hd_ptr xs q) = Some (Inr (Some c)) \<and>
    \<not> ord args (bd_args d) \<and> (\<forall>x \<in> set us. ord args (bd_args (snd x)))"
  using assms
proof (induction xs arbitrary: p fuel)
  case (Cons x xs)
  obtain a d where x: "x = (a, d)" by (cases x)
  obtain f where f: "fuel = Suc f" using Cons.prems(3) by (cases fuel) auto
  show ?case
  proof (cases "ord args (bd_args d)")
    case True
    then have "\<exists>x \<in> set xs. \<not> ord args (bd_args (snd x))" using Cons.prems(2) x by auto
    then obtain us c e vs where "xs = us @ (c, e) # vs" "bg_find_loop f ord h args (hd_ptr xs q) = Some (Inr (Some c))"
        "\<not> ord args (bd_args e)" "\<forall>x \<in> set us. ord args (bd_args (snd x))"
      using Cons.IH [of "Some a" f] Cons.prems f x by fastforce
    then show ?thesis using True Cons.prems(1) f x by (intro exI [of _ "x # us"] exI) auto
  next
    case False
    then show ?thesis using Cons.prems(1) f x by (intro exI [of _ "[]"] exI [of _ a] exI [of _ d] exI [of _ xs]) auto
  qed
qed simp

lemma successively_insert:
  assumes "successively P (us @ vs)" and "us \<noteq> [] \<Longrightarrow> P (last us) x" and "vs \<noteq> [] \<Longrightarrow> P x (hd vs)"
  shows "successively P (us @ x # vs)"
  using assms by (auto simp: successively_append_iff successively_Cons)

text \<open>Linking a fresh node between two neighbours, before the first or after the last node.\<close>

lemma bg_count_ok: "bg_size bg < INT_MAX \<Longrightarrow> bg_count h bg = Inr (h, bg\<lparr>bg_size := bg_size bg + 1\<rparr>)"
  by (simp add: bg_count_def)

abbreviation fresh_node :: "'d \<Rightarrow> 'd lnode" where
  "fresh_node d \<equiv> \<lparr>ln_next = None, ln_prev = None, ln_data = d\<rparr>"

lemma link_between:
  assumes r: "bg_repr h bg (us @ (b, e) # (c, f) # vs)" and a: "a \<notin> fst ` set (us @ (b, e) # (c, f) # vs)"
    and h: "h a = Some (fresh_node d)" and sz: "bg_size bg < INT_MAX"
  shows "\<exists>h' bg'. bindE (set_prev h (Some a) (Some b)) (\<lambda>h. bindE (set_next h (Some a) (Some c)) (\<lambda>h.
      bindE (set_next h (Some b) (Some a)) (\<lambda>h. bindE (set_prev h (Some c) (Some a)) (\<lambda>h. bg_count h bg)))) = Inr (h', bg') \<and>
    bg_repr h' bg' (us @ (b, e) # (a, d) # (c, f) # vs)"
proof -
  note R = bg_reprD [OF r]
  have n: "h b = Some \<lparr>ln_next = Some c, ln_prev = last_ptr None us, ln_data = e\<rparr>"
      "h c = Some \<lparr>ln_next = hd_ptr vs None, ln_prev = Some b, ln_data = f\<rparr>" "b \<noteq> c" "a \<noteq> b" "a \<noteq> c" "b \<noteq> a" "c \<noteq> a"
      "a \<notin> fst ` set us" "a \<notin> fst ` set vs" "b \<notin> fst ` set us" "b \<notin> fst ` set vs" "c \<notin> fst ` set us" "c \<notin> fst ` set vs"
    using R(1,2) a by auto
  show ?thesis using R n h sz by (simp add: bg_repr_def bg_count_def)
qed

lemma link_tail:
  assumes r: "bg_repr h bg (us @ [(b, e)])" and a: "a \<notin> fst ` set (us @ [(b, e)])"
    and h: "h a = Some (fresh_node d)" and sz: "bg_size bg < INT_MAX"
  shows "\<exists>h' bg'. bindE (set_next h (bg_tail bg) (Some a)) (\<lambda>h. bindE (set_prev h (Some a) (bg_tail bg)) (\<lambda>h.
      bg_count h (bg\<lparr>bg_tail := Some a\<rparr>))) = Inr (h', bg') \<and> bg_repr h' bg' (us @ [(b, e), (a, d)])"
proof -
  note R = bg_reprD [OF r]
  have n: "h b = Some \<lparr>ln_next = None, ln_prev = last_ptr None us, ln_data = e\<rparr>" "bg_tail bg = Some b" "b \<noteq> a" "a \<noteq> b"
      "a \<notin> fst ` set us" "b \<notin> fst ` set us"
    using R a by auto
  show ?thesis using R n h sz by (simp add: bg_repr_def bg_count_def)
qed

lemma link_head:
  assumes r: "bg_repr h bg ((b, e) # us)" and a: "a \<notin> fst ` set ((b, e) # us)"
    and h: "h a = Some (fresh_node d)" and sz: "bg_size bg < INT_MAX"
  shows "\<exists>h' bg'. bindE (set_next h (Some a) (bg_head bg)) (\<lambda>h. bindE (set_prev h (bg_head bg) (Some a)) (\<lambda>h.
      bg_count h (bg\<lparr>bg_head := Some a\<rparr>))) = Inr (h', bg') \<and> bg_repr h' bg' ((a, d) # (b, e) # us)"
proof -
  note R = bg_reprD [OF r]
  have n: "h b = Some \<lparr>ln_next = hd_ptr us None, ln_prev = None, ln_data = e\<rparr>" "bg_head bg = Some b" "b \<noteq> a" "a \<noteq> b"
      "a \<notin> fst ` set us" "b \<notin> fst ` set us"
    using R a by auto
  show ?thesis using R n h sz by (simp add: bg_repr_def bg_count_def)
qed

text \<open>
  What inserting the stream \<open>s\<close> does to the list: a node for it goes to a place where the order
  holds, or a neighbour of that place (or an end of the list) is the stream already.
\<close>

definition inserted ::
    "('a \<Rightarrow> 'a \<Rightarrow> bool) \<Rightarrow> nat \<times> 'a bg_data \<Rightarrow> (nat \<times> 'a bg_data) list \<Rightarrow> (nat \<times> 'a bg_data) list \<Rightarrow> bool" where
  "inserted ord x xs ys \<longleftrightarrow>
     (ys = xs \<and> (\<exists>y \<in> set xs. bd_stream (snd y) = bd_stream (snd x))) \<or>
     (\<exists>us vs. xs = us @ vs \<and> ys = us @ x # vs \<and> (us \<noteq> [] \<longrightarrow> node_ord ord x (last us)) \<and> (vs \<noteq> [] \<longrightarrow> \<not> node_ord ord x (hd vs)))"

lemma inserted_ordered:
  assumes "inserted ord x xs ys" and "successively (\<lambda>x y. \<not> node_ord ord x y) xs" and "\<And>x y. ord x y \<Longrightarrow> \<not> ord y x"
  shows "successively (\<lambda>x y. \<not> node_ord ord x y) ys"
  using assms by (auto simp: inserted_def intro!: successively_insert)

lemma insert_middle_ok:
  assumes r: "bg_repr h bg xs" and a: "a \<notin> fst ` set xs" "h a = Some (fresh_node d)" and sz: "bg_size bg < INT_MAX"
    and f: "length xs < fuel" and ends: "\<exists>x \<in> set xs. \<not> ord (bd_args d) (bd_args (snd x))"
      "ord (bd_args d) (bd_args (snd (hd xs)))"
  shows "\<exists>h' bg' ys. insert_middle fuel ord h bg (bd_stream d) (bd_args d) a = Some (Inr (h', bg')) \<and> bg_repr h' bg' ys \<and>
    inserted ord (a, d) xs ys"
proof -
  note R = bg_reprD [OF r]
  obtain ws k g vs where w: "xs = ws @ (k, g) # vs" "bg_find_loop fuel ord h (bd_args d) (hd_ptr xs None) = Some (Inr (Some k))"
      "\<not> ord (bd_args d) (bd_args g)" "\<forall>x \<in> set ws. ord (bd_args d) (bd_args (snd x))"
    using bg_find_loop_ok [where ord = ord and args = "bd_args d", OF R(2) ends(1) f] by blast
  have "ws \<noteq> []" using w(1,3) ends(2) by auto
  then obtain zs b q where b: "ws = zs @ [(b, q)]" by (cases ws rule: ends_cases) auto
  have xs: "xs = zs @ (b, q) # (k, g) # vs" using w(1) b by simp
  have n: "h k = Some \<lparr>ln_next = hd_ptr vs None, ln_prev = Some b, ln_data = g\<rparr>"
      "h b = Some \<lparr>ln_next = Some k, ln_prev = last_ptr None zs, ln_data = q\<rparr>"
    using R(2) xs by simp_all
  obtain h' bg' where l: "bindE (set_prev h (Some a) (Some b)) (\<lambda>h. bindE (set_next h (Some a) (Some k)) (\<lambda>h.
      bindE (set_next h (Some b) (Some a)) (\<lambda>h. bindE (set_prev h (Some k) (Some a)) (\<lambda>h. bg_count h bg)))) = Inr (h', bg')"
      "bg_repr h' bg' (zs @ (b, q) # (a, d) # (k, g) # vs)"
    using link_between [OF r [unfolded xs] a(1) [unfolded xs] a(2) sz] by blast
  show ?thesis
  proof (cases "bd_stream g = bd_stream d \<or> bd_stream q = bd_stream d")
    case True
    then have "insert_middle fuel ord h bg (bd_stream d) (bd_args d) a = Some (Inr (h, bg))"
      using w(2) n R(3) by (auto simp: insert_middle_def)
    moreover have "inserted ord (a, d) xs xs" using True xs by (auto simp: inserted_def)
    ultimately show ?thesis using r by blast
  next
    case False
    then have "insert_middle fuel ord h bg (bd_stream d) (bd_args d) a = Some (Inr (h', bg'))"
      using w(2) n l(1) R(3) by (simp add: insert_middle_def del: bindE_eq_Inr)
    moreover have "inserted ord (a, d) xs (zs @ (b, q) # (a, d) # (k, g) # vs)"
      using xs b w(3,4) unfolding inserted_def by (intro disjI2 exI [of _ "zs @ [(b, q)]"] exI [of _ "(k, g) # vs"]) simp
    ultimately show ?thesis using l(2) by blast
  qed
qed

lemma bg_insert_ok:
  assumes r: "bg_repr h bg xs" and a: "a \<notin> fst ` set xs" and sz: "bg_size bg < INT_MAX" and f: "length xs < fuel"
  shows "\<exists>h' bg' ys. bg_insert fuel ord h bg s buff args (Some a) = Some (Inr (h', bg')) \<and> bg_repr h' bg' ys \<and>
    inserted ord (a, \<lparr>bd_stream = s, bd_buffer = buff, bd_args = args\<rparr>) xs ys"
proof -
  let ?d = "\<lparr>bd_stream = s, bd_buffer = buff, bd_args = args\<rparr>"
  let ?h = "h(a \<mapsto> fresh_node ?d)"
  have r': "bg_repr ?h bg xs" using r a by (simp add: bg_repr_def)
  note R = bg_reprD [OF r']
  have ha: "?h a = Some (fresh_node ?d)" by simp
  show ?thesis
  proof (cases xs rule: ends_cases)
    case 1
    then show ?thesis using R sz
      by (auto simp: bg_insert_def Let_def bg_repr_def bg_count_def inserted_def)
  next
    case (2 us t e)
    obtain hd hde rest where hd: "xs = (hd, hde) # rest" using 2 by (cases us) auto
    have t: "bg_tail bg = Some t" "?h t = Some \<lparr>ln_next = None, ln_prev = last_ptr None us, ln_data = e\<rparr>"
      using R(4) node_at [of ?h None us t e "[]"] R(2) 2 by simp_all
    have hn: "bg_head bg = Some hd" "?h hd = Some \<lparr>ln_next = hd_ptr rest None, ln_prev = None, ln_data = hde\<rparr>"
      using R(3) node_at [of ?h None "[]" hd hde rest] R(2) hd by simp_all
    have mem: "(t, e) \<in> set xs" using 2 by simp
    have mem': "(hd, hde) \<in> set xs" using hd by simp
    have s0: "bg_size bg \<noteq> 0" using R(5) 2 by simp
    note start = bg_insert_def Let_def s0 t hn
    consider "bd_stream e = s \<or> bd_stream hde = s" | "bd_stream e \<noteq> s" "bd_stream hde \<noteq> s" "ord args (bd_args e)"
      | "bd_stream e \<noteq> s" "bd_stream hde \<noteq> s" "\<not> ord args (bd_args e)" "\<not> ord args (bd_args hde)"
      | "bd_stream e \<noteq> s" "bd_stream hde \<noteq> s" "\<not> ord args (bd_args e)" "ord args (bd_args hde)" by blast
    then show ?thesis
    proof cases
      case c: 1
      then have "bg_insert fuel ord h bg s buff args (Some a) = Some (Inr (?h, bg))"
        using t(2) hn(2) by (auto simp: start)
      moreover have "inserted ord (a, ?d) xs xs" using c bexI [OF _ mem] bexI [OF _ mem'] by (auto simp: inserted_def)
      ultimately show ?thesis using r' by blast
    next
      case c: 2
      obtain h' bg' where l: "bindE (set_next ?h (bg_tail bg) (Some a)) (\<lambda>h. bindE (set_prev h (Some a) (bg_tail bg)) (\<lambda>h.
          bg_count h (bg\<lparr>bg_tail := Some a\<rparr>))) = Inr (h', bg')" "bg_repr h' bg' (us @ [(t, e), (a, ?d)])"
        using link_tail [OF r' [unfolded 2] a [unfolded 2] ha sz] by blast
      have "bg_insert fuel ord h bg s buff args (Some a) = Some (Inr (h', bg'))"
        using c t(2) hn(2) l(1) by (simp add: start del: bindE_eq_Inr)
      moreover have "inserted ord (a, ?d) xs (us @ [(t, e), (a, ?d)])"
        using 2 c unfolding inserted_def by (intro disjI2 exI [of _ "us @ [(t, e)]"] exI [of _ "[]"]) simp
      ultimately show ?thesis using l(2) by blast
    next
      case c: 3
      obtain h' bg' where l: "bindE (set_next ?h (Some a) (bg_head bg)) (\<lambda>h. bindE (set_prev h (bg_head bg) (Some a)) (\<lambda>h.
          bg_count h (bg\<lparr>bg_head := Some a\<rparr>))) = Inr (h', bg')" "bg_repr h' bg' ((a, ?d) # xs)"
        using link_head [OF r' [unfolded hd] a [unfolded hd] ha sz] unfolding hd by blast
      have "bg_insert fuel ord h bg s buff args (Some a) = Some (Inr (h', bg'))"
        using c t(2) hn(2) l(1) by (simp add: start del: bindE_eq_Inr)
      moreover have "inserted ord (a, ?d) xs ((a, ?d) # xs)"
        using hd c unfolding inserted_def by (intro disjI2 exI [of _ "[]"] exI [of _ xs]) simp
      ultimately show ?thesis using l(2) by blast
    next
      case c: 4
      have "\<exists>x \<in> set xs. \<not> ord args (bd_args (snd x))" using c by (intro bexI [OF _ mem]) simp
      then have "\<exists>h' bg' ys. insert_middle fuel ord ?h bg s args a = Some (Inr (h', bg')) \<and> bg_repr h' bg' ys \<and> inserted ord (a, ?d) xs ys"
        using insert_middle_ok [OF r' a ha sz f, of ord] c hd by (simp del: fun_upd_apply)
      moreover have "bg_insert fuel ord h bg s buff args (Some a) = insert_middle fuel ord ?h bg s args a"
        using c t(2) hn(2) by (simp add: start)
      ultimately show ?thesis by simp
    qed
  qed
qed

section \<open>Removal\<close>

lemma bg_unlink_ok:
  assumes r: "bg_repr h bg (xs @ (a, d) # ys)"
  shows "\<exists>h' bg'. bg_unlink h bg a = Inr (h', bg') \<and> bg_repr h' bg' (xs @ ys) \<and> h' a = None"
proof -
  note R = bg_reprD [OF r]
  have na: "h a = Some \<lparr>ln_next = hd_ptr ys None, ln_prev = last_ptr None xs, ln_data = d\<rparr>"
    "a \<notin> fst ` set xs" "a \<notin> fst ` set ys" using R(1,2) by auto
  have hd: "Some a = bg_head bg \<longleftrightarrow> xs = []" using R(3) hd_ptr_eq_iff [OF na(2)] by auto
  have tl: "Some a = bg_tail bg \<longleftrightarrow> ys = []" using R(4) last_ptr_eq_iff [OF na(3)] by auto
  note unfold = bg_unlink_def Let_def bg_repr_def
  show ?thesis
  proof (cases xs rule: ends_cases)
    case 1
    show ?thesis
    proof (cases ys)
      case Nil
      then show ?thesis using 1 R na hd tl by (simp add: unfold)
    next
      case (Cons y zs)
      obtain c f where y: "y = (c, f)" by (cases y)
      have c: "h c = Some \<lparr>ln_next = hd_ptr zs None, ln_prev = Some a, ln_data = f\<rparr>" "c \<noteq> a" "c \<notin> fst ` set zs"
        using R(1,2) 1 Cons y by auto
      then show ?thesis using 1 Cons y R na hd tl by (simp add: unfold)
    qed
  next
    case (2 zs b e)
    have b: "h b = Some \<lparr>ln_next = hd_ptr ((a, d) # ys) None, ln_prev = last_ptr None zs, ln_data = e\<rparr>" "b \<noteq> a" "b \<notin> fst ` set zs" "b \<notin> fst ` set ys"
      using R(1,2) 2 by auto
    show ?thesis
    proof (cases ys)
      case Nil
      then show ?thesis using 2 b R na hd tl by (simp add: unfold)
    next
      case (Cons y us)
      obtain c f where y: "y = (c, f)" by (cases y)
      have c: "h c = Some \<lparr>ln_next = hd_ptr us None, ln_prev = Some a, ln_data = f\<rparr>" "c \<noteq> a" "c \<noteq> b" "c \<notin> fst ` set us" "c \<notin> fst ` set zs"
        using R(1,2) 2 Cons y by auto
      then show ?thesis using 2 b Cons y R na hd tl by (simp add: unfold)
    qed
  qed
qed

text \<open>Only the first node of the stream goes.\<close>

fun remove_stream :: "nat \<Rightarrow> (nat \<times> 'a bg_data) list \<Rightarrow> (nat \<times> 'a bg_data) list" where
  "remove_stream s [] = []"
| "remove_stream s (x # xs) = (if bd_stream (snd x) = s then xs else x # remove_stream s xs)"

abbreviation streams :: "(nat \<times> 'a bg_data) list \<Rightarrow> nat list" where
  "streams xs \<equiv> map (\<lambda>x. bd_stream (snd x)) xs"

lemma bg_remove_loop_ok:
  assumes "bg_repr h bg (us @ xs)" and "length xs < fuel"
  shows "\<exists>h' bg'. bg_remove_loop fuel h bg s (hd_ptr xs None) = Some (Inr (s \<in> set (streams xs), h', bg')) \<and>
    bg_repr h' bg' (us @ remove_stream s xs)"
  using assms
proof (induction xs arbitrary: us fuel)
  case Nil
  then show ?case by (cases fuel) auto
next
  case (Cons x xs)
  obtain a d where x: "x = (a, d)" by (cases x)
  obtain f where f: "fuel = Suc f" using Cons.prems(2) by (cases fuel) auto
  have n: "h a = Some \<lparr>ln_next = hd_ptr xs None, ln_prev = last_ptr None us, ln_data = d\<rparr>"
    using bg_reprD(2) [OF Cons.prems(1)] x by simp
  show ?case
  proof (cases "bd_stream d = s")
    case True
    obtain h' bg' where "bg_unlink h bg a = Inr (h', bg')" "bg_repr h' bg' (us @ xs)"
      using bg_unlink_ok [of h bg us a d xs] Cons.prems(1) x by auto
    then show ?thesis using True n x f by simp
  next
    case False
    have "\<exists>h' bg'. bg_remove_loop f h bg s (hd_ptr xs None) = Some (Inr (s \<in> set (streams xs), h', bg')) \<and>
        bg_repr h' bg' ((us @ [x]) @ remove_stream s xs)"
      using Cons.IH [of "us @ [x]" f] Cons.prems f by simp
    then show ?thesis using False n x f by auto
  qed
qed

lemma bg_remove_ok:
  assumes "bg_repr h bg xs" and "length xs < fuel"
  shows "\<exists>h' bg'. bg_remove fuel h bg s = Some (Inr (s \<in> set (streams xs), h', bg')) \<and> bg_repr h' bg' (remove_stream s xs)"
  using bg_remove_loop_ok [of h bg "[]" xs fuel s] assms bg_reprD(3) [OF assms(1)] by (simp add: bg_remove_def)

lemma bg_remove_first_n_ok:
  assumes "bg_repr h bg xs" and "length xs < fuel"
  shows "\<exists>h' bg'. bg_remove_first_n fuel h bg n = Some (Inr (h', bg')) \<and> bg_repr h' bg' (drop (nat n) xs)"
proof -
  have "\<exists>h' bg'. remove_n_loop fuel ln_next h bg (hd_ptr xs None) k = Some (Inr (h', bg')) \<and> bg_repr h' bg' (drop k xs)" for k
    using assms
  proof (induction k arbitrary: h bg xs)
    case (Suc k)
    note R = bg_reprD [OF Suc.prems(1)]
    show ?case
    proof (cases xs)
      case Nil
      then show ?thesis using Suc.prems(1) R(5) by simp
    next
      case (Cons x zs)
      obtain a d where x: "x = (a, d)" by (cases x)
      have n: "h a = Some \<lparr>ln_next = hd_ptr zs None, ln_prev = None, ln_data = d\<rparr>" using R(2) Cons x by simp
      obtain h1 bg1 where r: "bg_remove fuel h bg (bd_stream d) = Some (Inr (True, h1, bg1))" "bg_repr h1 bg1 zs"
        using bg_remove_ok [OF Suc.prems, of "bd_stream d"] Cons x by auto
      then show ?thesis using Suc.IH [OF r(2)] Suc.prems(2) n R(5) Cons x by simp
    qed
  qed simp
  then show ?thesis using bg_reprD(3) [OF assms(1)] by (simp add: bg_remove_first_n_def)
qed

lemma remove_last_stream:
  assumes "distinct (streams (xs @ [x]))"
  shows "remove_stream (bd_stream (snd x)) (xs @ [x]) = xs"
  using assms by (induction xs) auto

lemma bg_remove_last_n_ok:
  assumes "bg_repr h bg xs" and "length xs < fuel" and "distinct (streams xs)"
  shows "\<exists>h' bg'. bg_remove_last_n fuel h bg n = Some (Inr (h', bg')) \<and> bg_repr h' bg' (take (length xs - nat n) xs)"
proof -
  have "\<exists>h' bg'. remove_n_loop fuel ln_prev h bg (last_ptr None xs) k = Some (Inr (h', bg')) \<and>
    bg_repr h' bg' (take (length xs - k) xs)" for k
    using assms
  proof (induction k arbitrary: h bg xs)
    case (Suc k)
    note R = bg_reprD [OF Suc.prems(1)]
    show ?case
    proof (cases xs rule: ends_cases)
      case 1
      then show ?thesis using Suc.prems(1) R(5) by simp
    next
      case (2 zs a d)
      have n: "h a = Some \<lparr>ln_next = None, ln_prev = last_ptr None zs, ln_data = d\<rparr>" using R(2) 2 by simp
      obtain h1 bg1 where r: "bg_remove fuel h bg (bd_stream d) = Some (Inr (True, h1, bg1))" "bg_repr h1 bg1 zs"
        using bg_remove_ok [OF Suc.prems(1,2), of "bd_stream d"] remove_last_stream [of zs "(a, d)"] Suc.prems(3) 2 by auto
      then show ?thesis using Suc.IH [OF r(2)] Suc.prems(2,3) n R(5) 2 by simp
    qed
  qed simp
  then show ?thesis using bg_reprD(4) [OF assms(1)] by (simp add: bg_remove_last_n_def)
qed

section \<open>Properties\<close>

text \<open>
  C19: \<open>bg_update\<close> sorts a group. For every asymmetric order the passes over the list end (with at
  most the square of the length many passes that change something), no assertion fails, no dangling
  pointer is followed, and the result is a well-linked list of the same nodes in which no node
  comes after its successor.
\<close>

theorem bg_update_sorts:
  assumes "bg_repr h bg xs" and "length xs < fuel" and "length xs * length xs < passes" and "\<And>x y. ord x y \<Longrightarrow> \<not> ord y x"
  shows "\<exists>h' bg' ys. bg_update passes fuel ord h bg = Some (Inr (h', bg')) \<and> bg_repr h' bg' ys \<and> mset ys = mset xs \<and>
    successively (\<lambda>x y. \<not> ord (bd_args (snd x)) (bd_args (snd y))) ys"
proof -
  have "inversions (node_ord ord) xs < passes" using inversions_bound [of "node_ord ord" xs] assms(3) by linarith
  from bg_update_ok [OF assms(1,2) this assms(4)] show ?thesis by simp
qed

definition bg_node :: "nat \<Rightarrow> ptr \<Rightarrow> ptr \<Rightarrow> int \<Rightarrow> int bg_data lnode" where
  "bg_node s prev nxt x = \<lparr>ln_next = nxt, ln_prev = prev, ln_data = \<lparr>bd_stream = s, bd_buffer = s, bd_args = x\<rparr>\<rparr>"

definition bg_example_heap :: "int \<Rightarrow> int \<Rightarrow> int \<Rightarrow> int bg_heap" where
  "bg_example_heap x y z =
     [1 \<mapsto> bg_node 10 None (Some 2) x, 2 \<mapsto> bg_node 20 (Some 1) (Some 3) y, 3 \<mapsto> bg_node 30 (Some 2) None z]"

definition bg_example :: buffer_group where
  "bg_example = \<lparr>bg_head = Some 1, bg_tail = Some 3, bg_size = 3\<rparr>"

definition bg_example_list :: "int \<Rightarrow> int \<Rightarrow> int \<Rightarrow> (nat \<times> int bg_data) list" where
  "bg_example_list x y z =
     map (\<lambda>(a, s, x). (a, \<lparr>bd_stream = s, bd_buffer = s, bd_args = x\<rparr>)) [(1, 10, x), (2, 20, y), (3, 30, z)]"

lemma bg_example_repr: "bg_repr (bg_example_heap x y z) bg_example (bg_example_list x y z)"
  by (simp add: bg_repr_def bg_example_heap_def bg_example_def bg_node_def bg_example_list_def)

theorem bg_update_sorts_witness:
  "\<exists>h' bg' ys. bg_update 10 4 (>) (bg_example_heap 7 5 9) bg_example = Some (Inr (h', bg')) \<and> bg_repr h' bg' ys \<and>
    mset ys = mset (bg_example_list 7 5 9) \<and> successively (\<lambda>x y. \<not> bd_args (snd x) > bd_args (snd y)) ys"
  using bg_update_sorts [OF bg_example_repr, of 7 5 9 4 10 "(>)"] by (simp add: bg_example_list_def)

text \<open>
  C20: \<open>bg_insert\<close> keeps a group ordered. In a group in which no node comes after its successor, the
  new stream gets a node where this still holds, or the list stays as it is because the stream is at
  one of its ends or next to that place already. The search for the place ends inside the list.
\<close>

theorem bg_insert_keeps_order:
  assumes "bg_repr h bg xs" and "a \<notin> fst ` set xs" and "bg_size bg < INT_MAX" and "length xs < fuel"
    and "successively (\<lambda>x y. \<not> ord (bd_args (snd x)) (bd_args (snd y))) xs" and "\<And>x y. ord x y \<Longrightarrow> \<not> ord y x"
  shows "\<exists>h' bg' ys. bg_insert fuel ord h bg s buff args (Some a) = Some (Inr (h', bg')) \<and> bg_repr h' bg' ys \<and>
    successively (\<lambda>x y. \<not> ord (bd_args (snd x)) (bd_args (snd y))) ys \<and>
    (ys = xs \<and> s \<in> set (streams xs) \<or>
     (\<exists>us vs. xs = us @ vs \<and> ys = us @ (a, \<lparr>bd_stream = s, bd_buffer = buff, bd_args = args\<rparr>) # vs))"
proof -
  obtain h' bg' ys where i: "bg_insert fuel ord h bg s buff args (Some a) = Some (Inr (h', bg'))" "bg_repr h' bg' ys"
      "inserted ord (a, \<lparr>bd_stream = s, bd_buffer = buff, bd_args = args\<rparr>) xs ys"
    using bg_insert_ok [OF assms(1-4)] by blast
  then show ?thesis using inserted_ordered [OF i(3) assms(5,6)] by (auto simp: inserted_def)
qed

theorem bg_insert_keeps_order_witness:
  "\<exists>h' bg' ys. bg_insert 4 (>) (bg_example_heap 5 7 9) bg_example 40 0 (6 :: int) (Some 4) = Some (Inr (h', bg')) \<and> bg_repr h' bg' ys \<and>
    successively (\<lambda>x y. \<not> bd_args (snd x) > bd_args (snd y)) ys \<and> length ys = 4"
proof -
  have "\<exists>h' bg' ys. bg_insert 4 (>) (bg_example_heap 5 7 9) bg_example 40 0 (6 :: int) (Some 4) = Some (Inr (h', bg')) \<and> bg_repr h' bg' ys \<and>
    successively (\<lambda>x y. \<not> bd_args (snd x) > bd_args (snd y)) ys \<and>
    (ys = bg_example_list 5 7 9 \<and> 40 \<in> set (streams (bg_example_list 5 7 9)) \<or>
     (\<exists>us vs. bg_example_list 5 7 9 = us @ vs \<and> ys = us @ (4, \<lparr>bd_stream = 40, bd_buffer = 0, bd_args = 6\<rparr>) # vs))"
    by (rule bg_insert_keeps_order [OF bg_example_repr]) (simp_all add: bg_example_list_def bg_example_def)
  moreover have "40 \<notin> set (streams (bg_example_list 5 7 9))" "length (bg_example_list 5 7 9) = 3" by (simp_all add: bg_example_list_def)
  moreover have "length (us @ x # vs) = 4" if "bg_example_list 5 7 9 = us @ vs" for us vs x
    using arg_cong [OF that, of length] by (simp add: bg_example_list_def)
  ultimately show ?thesis by blast
qed

text \<open>
  \<open>bg_get_first_n\<close> writes every node of the group, not the \<open>at_least\<close> nodes that are asked for: an
  array of that length is overrun when the group is longer.
\<close>

lemma get_first_n_overruns:
  "bg_get_first_n 4 (bg_example_heap 5 7 9) bg_example 2 [None, None] = Some (Inl (UB ''write out of bounds''))"
  by (simp add: bg_get_first_n_def bg_example_def bg_example_heap_def bg_node_def numeral_eq_Suc bindO_def)

text \<open>The check for a stream that is in the group already looks at neighbours only.\<close>

lemma insert_duplicates_stream:
  "\<exists>h' bg'. bg_insert 5 (>)
      [1 \<mapsto> bg_node 10 None (Some 2) 1, 2 \<mapsto> bg_node 20 (Some 1) (Some 3) 2, 3 \<mapsto> bg_node 30 (Some 2) (Some 4) 3,
       4 \<mapsto> bg_node 40 (Some 3) None 5] \<lparr>bg_head = Some 1, bg_tail = Some 4, bg_size = 4\<rparr> 20 0 (4 :: int) (Some 5) =
    Some (Inr (h', bg')) \<and> bg_size bg' = 5"
  by (simp add: bg_insert_def bg_node_def insert_middle_def numeral_eq_Suc bindO_def Let_def bg_count_def)

end
