(* ===== verification/Shamon.thy ===== *)
theory Shamon
  imports Arbiter_Flow Shm_Files
begin

text \<open>
  The library as its users see it: \<open>core/shamon.c\<close>, the streams of \<open>streams/\<close> and their creation
  from the command line (\<open>streams/streams.c\<close>), and the sub-streams of \<open>core/stream.c\<close>. A \<open>shamon\<close>
  holds one arbiter buffer per stream; the \<open>i\<close>-th stream of the vector \<open>streams\<close> is the stream of the
  \<open>i\<close>-th buffer. The threads that fill the buffers are those of \<open>Arbiter_Flow\<close>; here only their number
  is kept, and what they do to the buffers while a call waits is an argument.
\<close>

section \<open>The kinds of streams\<close>

text \<open>All streams on shared memory are ready as long as the source runs or events are left, and copy events.\<close>

definition shm_buffer_ready :: "buffer \<Rightarrow> bool res" where
  "shm_buffer_ready b = (if buffer_is_ready b then Inr True else bindE (buffer_size b) (\<lambda>n. Inr (n > 0)))"

definition funs_is_ready :: "buffer \<Rightarrow> bool res" where "funs_is_ready = shm_buffer_ready"
definition sregex_is_ready :: "buffer \<Rightarrow> bool res" where "sregex_is_ready = shm_buffer_ready"
definition sregexrw_is_ready :: "buffer \<Rightarrow> bool res" where "sregexrw_is_ready = shm_buffer_ready"
definition drregex_is_ready :: "buffer \<Rightarrow> bool res" where "drregex_is_ready = shm_buffer_ready"

definition copy_event :: "size_t \<Rightarrow> byte list \<Rightarrow> byte list \<Rightarrow> byte list" where
  "copy_event event_size inp out = mem_upd out 0 (take (unat event_size) inp)"

definition funs_alter :: "size_t \<Rightarrow> byte list \<Rightarrow> byte list \<Rightarrow> byte list" where "funs_alter = copy_event"
definition sregex_alter :: "size_t \<Rightarrow> byte list \<Rightarrow> byte list \<Rightarrow> byte list" where "sregex_alter = copy_event"
definition sregexrw_alter :: "size_t \<Rightarrow> byte list \<Rightarrow> byte list \<Rightarrow> byte list" where "sregexrw_alter = copy_event"
definition drregex_alter :: "size_t \<Rightarrow> byte list \<Rightarrow> byte list \<Rightarrow> byte list" where "drregex_alter = copy_event"

text \<open>The shared buffer is what \<open>get_shared_buffer\<close> returned for the key.\<close>

definition create_shm_stream ::
    "uint64_t \<Rightarrow> buffer option \<Rightarrow> string \<Rightarrow> (buffer \<Rightarrow> bool res) \<Rightarrow> (size_t \<Rightarrow> byte list \<Rightarrow> byte list \<Rightarrow> byte list) \<Rightarrow>
      hole_handling option \<Rightarrow> string \<Rightarrow> (uint64_t \<times> shm_stream) res" where
  "create_shm_stream last_stream_id shmbuffer name is_ready alter hole_handling ty =
     (case shmbuffer of
        None \<Rightarrow> Inl (Assertion ''Getting the shm buffer failed'')
      | Some b \<Rightarrow>
          (let elem_size = buffer_elem_size b in
           assertE (elem_size > 0) ''elem_size > 0''
           (shm_stream_init last_stream_id b elem_size is_ready None (Some alter) hole_handling ty name)))"

definition shm_create_funs_stream :: "uint64_t \<Rightarrow> buffer option \<Rightarrow> string \<Rightarrow> (uint64_t \<times> shm_stream) res" where
  "shm_create_funs_stream sid b name = create_shm_stream sid b name funs_is_ready funs_alter None ''funs-stream''"

definition shm_create_sregex_stream ::
    "uint64_t \<Rightarrow> buffer option \<Rightarrow> string \<Rightarrow> hole_handling option \<Rightarrow> (uint64_t \<times> shm_stream) res" where
  "shm_create_sregex_stream sid b name hh = create_shm_stream sid b name sregex_is_ready sregex_alter hh ''regex-stream''"

definition shm_create_sregexrw_stream :: "uint64_t \<Rightarrow> buffer option \<Rightarrow> string \<Rightarrow> (uint64_t \<times> shm_stream) res" where
  "shm_create_sregexrw_stream sid b name = create_shm_stream sid b name sregexrw_is_ready sregexrw_alter None ''regexrw-stream''"

definition shm_create_drregex_stream :: "uint64_t \<Rightarrow> buffer option \<Rightarrow> string \<Rightarrow> (uint64_t \<times> shm_stream) res" where
  "shm_create_drregex_stream sid b name = create_shm_stream sid b name drregex_is_ready drregex_alter None ''drregex-stream''"

section \<open>Stream specifications\<close>

text \<open>A specification is \<open>name:kind:key;...\<close>; \<open>None\<close> stands for \<open>NULL\<close>.\<close>

fun strchr :: "string \<Rightarrow> char \<Rightarrow> nat option" where
  "strchr [] c = None"
| "strchr (x # xs) c = (if x = c then Some 0 else map_option Suc (strchr xs c))"

definition find_next_part :: "string \<Rightarrow> string option" where
  "find_next_part params =
     (case strchr params CHR '':'' of
        None \<Rightarrow> None
      | Some k \<Rightarrow> if drop (k + 1) params = [] then None else Some (drop (k + 1) params))"

text \<open>
  The part up to the delimiter, which is searched from the second character on, goes to an array of
  256 characters; the assertion compares a negative number and never fails.
\<close>

definition get_next_part :: "string option \<Rightarrow> string \<Rightarrow> char \<Rightarrow> (string option \<times> string) res" where
  "get_next_part params out delim =
     (case params of
        None \<Rightarrow> Inr (None, out)
      | Some [] \<Rightarrow> Inr (None, out)
      | Some (c # cs) \<Rightarrow>
          (case strchr cs delim of
             Some k \<Rightarrow>
               if k + 1 < 256 then Inr (Some (drop (k + 1) cs), take (k + 1) (c # cs))
               else Inl (UB ''write out of bounds'')
           | None \<Rightarrow>
               if length (c # cs) < 256 then Inr (None, c # cs) else Inl (UB ''write out of bounds'')))"

text \<open>The first argument (after the program's name) that starts with the name of the stream.\<close>

definition get_spec :: "string \<Rightarrow> string list \<Rightarrow> string option" where
  "get_spec stream_name argv =
     find (\<lambda>arg. take (length stream_name) arg = stream_name) (tl argv)"

datatype stream_kind = Calls | Regex | Regexrw | Drregex | Generic

definition kind_of_source :: "string \<Rightarrow> stream_kind option" where
  "kind_of_source source =
     (if source = ''calls'' then Some Calls
      else if source = ''regex'' then Some Regex
      else if source = ''regexrw'' then Some Regexrw
      else if source = ''drregex'' then Some Drregex
      else if source = ''generic'' then Some Generic
      else None)"

text \<open>The parsing of \<open>shm_stream_create\<close>: the kind and the key, or \<open>None\<close> when it returns \<open>NULL\<close>.\<close>

definition parse_spec :: "string \<Rightarrow> (stream_kind \<times> string) option res" where
  "parse_spec spec =
     (case find_next_part spec of
        None \<Rightarrow> Inr None
      | Some nxt \<Rightarrow>
          bindE (get_next_part (Some nxt) [] CHR '':'') (\<lambda>(nxt, source).
          if source = [] then Inr None
          else case kind_of_source source of
            None \<Rightarrow> Inl (Abort ''Unknown stream'')
          | Some kind \<Rightarrow>
              if nxt = None \<or> nxt = Some [] then Inr None
              else bindE (get_next_part nxt [] CHR '';'') (\<lambda>(nxt, key).
                if kind = Calls \<and> nxt \<noteq> None then Inr None else Inr (Some (kind, key)))))"

definition shm_stream_create ::
    "(string \<Rightarrow> buffer option) \<Rightarrow> uint64_t \<Rightarrow> string \<Rightarrow> string \<Rightarrow> hole_handling option \<Rightarrow>
      (uint64_t \<times> shm_stream option) res" where
  "shm_stream_create get_buffer sid stream_name spec hole_handling =
     bindE (parse_spec spec) (\<lambda>r. case r of None \<Rightarrow> Inr (sid, None) | Some (kind, key) \<Rightarrow>
     bindE (case kind of
         Calls \<Rightarrow> shm_create_funs_stream sid (get_buffer key) stream_name
       | Regex \<Rightarrow> shm_create_sregex_stream sid (get_buffer key) stream_name hole_handling
       | Regexrw \<Rightarrow> shm_create_sregexrw_stream sid (get_buffer key) stream_name
       | Drregex \<Rightarrow> shm_create_drregex_stream sid (get_buffer key) stream_name
       | Generic \<Rightarrow> shm_create_generic_stream sid (get_buffer key) stream_name hole_handling)
       (\<lambda>(sid, s). Inr (sid, Some s)))"

definition shm_stream_create_from_argv ::
    "(string \<Rightarrow> buffer option) \<Rightarrow> uint64_t \<Rightarrow> string \<Rightarrow> string list \<Rightarrow> hole_handling option \<Rightarrow>
      (uint64_t \<times> shm_stream option) res" where
  "shm_stream_create_from_argv get_buffer sid stream_name argv hole_handling =
     (case get_spec stream_name argv of
        None \<Rightarrow> Inr (sid, None)
      | Some spec \<Rightarrow> shm_stream_create get_buffer sid stream_name spec hole_handling)"

section \<open>Sub-streams and the end of streams\<close>

text \<open>
  A source that announces a new sub-buffer gives its stream a sub-stream, which inherits the
  callbacks that are not given. The arguments for \<open>get_shared_buffer\<close> are collected in a record. The
  callback \<open>is_ready\<close> of a generic stream looks at \<open>incoming_events_buffer\<close>; those of the other kinds
  look at a field behind the \<open>shm_stream\<close>, which is the same buffer in the streams created above but
  does not exist in a sub-stream, so sub-streams are modelled for generic streams.
\<close>

record opener =
  op_os :: os
  op_os_ctrl :: os
  op_env :: "nat \<Rightarrow> shm_fs \<Rightarrow> shm_fs"
  op_malloc :: "buffer option"
  op_strdup :: bool

definition open_buffer :: "opener \<Rightarrow> shm_fs \<Rightarrow> string \<Rightarrow> (buffer option \<times> shm_fs) res" where
  "open_buffer opn fs key =
     get_shared_buffer (op_os opn) (op_os_ctrl opn) (op_env opn) (op_malloc opn) (op_strdup opn) fs key"

definition shm_stream_create_substream ::
    "opener \<Rightarrow> shm_fs \<Rightarrow> uint64_t \<Rightarrow> shm_stream \<Rightarrow> (buffer \<Rightarrow> bool res) option \<Rightarrow> (byte list \<Rightarrow> bool) option \<Rightarrow>
      (size_t \<Rightarrow> byte list \<Rightarrow> byte list \<Rightarrow> byte list) option \<Rightarrow> hole_handling option \<Rightarrow>
      (shm_stream option \<times> shm_stream \<times> uint64_t \<times> shm_fs) res" where
  "shm_stream_create_substream opn fs sid stream is_ready filt alter hole_handling =
     (if \<not> shm_stream_has_new_substreams stream then Inr (None, stream, sid, fs)
      else let stream = stream\<lparr>st_substreams_no := st_substreams_no stream + 1\<rparr>; no = st_substreams_no stream in
      bindE (get_sub_buffer_key (buffer_get_key (st_buffer stream)) no) (\<lambda>key.
      bindE (open_buffer opn fs key) (\<lambda>(b, fs).
      case b of None \<Rightarrow> Inl (Assertion ''Getting the shm buffer failed'') | Some b \<Rightarrow>
      let elem_size = buffer_elem_size b in
      assertE (elem_size > 0) ''elem_size > 0''
      (bindE (get_sub_buffer_key (shm_stream_get_name stream) no) (\<lambda>name.
       bindE (shm_stream_init sid b elem_size (case is_ready of None \<Rightarrow> st_is_ready stream | Some r \<Rightarrow> r)
         (if filt = None then st_filter stream else filt) (if alter = None then st_alter stream else alter)
         (Some (case hole_handling of None \<Rightarrow> st_hole_handling stream | Some hh \<Rightarrow> hh))
         (shm_stream_get_type stream) name) (\<lambda>(sid, sub).
       Inr (Some (sub\<lparr>st_has_parent := True\<rparr>), stream, sid, fs)))))))"

text \<open>
  The streams with their sub-streams. Destroying a stream detaches it and releases its buffer; the
  buffers of sub-streams are removed by the reader. The callback \<open>destroy\<close> is \<open>NULL\<close> in all streams of
  the repository.
\<close>

datatype stream_tree = Stream_tree shm_stream "stream_tree list"

fun shm_substream_destroy :: "os \<Rightarrow> size_t \<Rightarrow> shm_fs \<Rightarrow> stream_tree \<Rightarrow> shm_fs res"
  and destroy_substreams :: "os \<Rightarrow> size_t \<Rightarrow> shm_fs \<Rightarrow> stream_tree list \<Rightarrow> shm_fs res" where
  "shm_substream_destroy os pg_size fs (Stream_tree s subs) =
     (let s = shm_stream_detach s; fs = share (st_buffer s) fs in
      bindE (destroy_substreams os pg_size fs subs) (\<lambda>fs.
      release_shared_sub_buffer os pg_size fs (st_buffer s)))"
| "destroy_substreams os pg_size fs [] = Inr fs"
| "destroy_substreams os pg_size fs (t # ts) =
     bindE (shm_substream_destroy os pg_size fs t) (\<lambda>fs. destroy_substreams os pg_size fs ts)"

definition shm_stream_destroy :: "os \<Rightarrow> size_t \<Rightarrow> shm_fs \<Rightarrow> stream_tree \<Rightarrow> shm_fs res" where
  "shm_stream_destroy os pg_size fs t =
     (case t of Stream_tree s subs \<Rightarrow>
      let s = shm_stream_detach s; fs = share (st_buffer s) fs in
      bindE (destroy_substreams os pg_size fs subs) (\<lambda>fs.
      release_shared_buffer pg_size fs (st_buffer s)))"

section \<open>The state of the library\<close>

type_synonym process_events_fn = "shm_arbiter_buffer list \<Rightarrow> ((byte list \<times> nat) option \<times> shm_arbiter_buffer list) res"

record shamon =
  sh_buffers :: "shm_arbiter_buffer list"
  sh_threads :: nat
  sh_process_events :: "process_events_fn option"  \<comment> \<open>\<open>None\<close>: the default\<close>
  sh_ev :: "byte list"
  sh_ev_size :: size_t
  sh_next :: nat                                    \<comment> \<open>the counter of \<open>default_process_events\<close>\<close>

definition shamon_create :: "byte list \<Rightarrow> process_events_fn option \<Rightarrow> shamon" where
  "shamon_create ev process_events =
     \<lparr>sh_buffers = [], sh_threads = 0, sh_process_events = process_events, sh_ev = ev,
      sh_ev_size = of_nat SIZEOF_DEFAULT_HOLE, sh_next = 0\<rparr>"

definition shamon_get_buffers :: "shamon \<Rightarrow> shm_arbiter_buffer list" where
  "shamon_get_buffers shmn = sh_buffers shmn"

definition shamon_get_streams :: "shamon \<Rightarrow> shm_stream list" where
  "shamon_get_streams shmn = map ar_stream (sh_buffers shmn)"

text \<open>
  Adding a stream. \<open>realloc\<close> gives the new block for the event (its contents are indeterminate).
  When the aligned vector of buffers has to grow beyond its first ten elements, its elements are
  lost (\<open>aligned_push_loses_elements\<close>), and the buffers that are read afterwards are indeterminate.
\<close>

definition shamon_add_stream ::
    "(size_t \<Rightarrow> byte list option) \<Rightarrow> (byte list \<Rightarrow> size_t \<Rightarrow> byte list) \<Rightarrow> shm_arbiter_buffer \<Rightarrow> shamon \<Rightarrow> shm_stream \<Rightarrow>
      size_t \<Rightarrow> shamon res" where
  "shamon_add_stream malloc realloc mem shmn stream capacity =
     (if list_ex (\<lambda>s. st_name s = st_name stream) (shamon_get_streams shmn) then Inl (Abort ''Stream added multiple times'')
      else
      let ev_size = (if st_event_size stream > hh_size (st_hole_handling stream) then st_event_size stream
                     else hh_size (st_hole_handling stream));
          shmn = (if ev_size > sh_ev_size shmn then shmn\<lparr>sh_ev := realloc (sh_ev shmn) ev_size, sh_ev_size := ev_size\<rparr> else shmn)
      in if length (sh_buffers shmn) \<ge> 10 then Inl (UB ''arbiter buffers lost'')
      else bindE (shm_arbiter_buffer_init malloc mem stream 0 capacity) (\<lambda>ar.
        Inr (shmn\<lparr>sh_buffers := sh_buffers shmn @ [shm_arbiter_buffer_set_active ar True],
                  sh_threads := sh_threads shmn + 1\<rparr>)))"

definition shamon_detach :: "shamon \<Rightarrow> shamon" where
  "shamon_detach shmn =
     shmn\<lparr>sh_buffers := map (\<lambda>ar. ar\<lparr>ar_stream := shm_stream_detach (ar_stream ar)\<rparr>) (sh_buffers shmn)\<rparr>"

text \<open>The end: the threads have been joined, and the streams that are no sub-streams are destroyed with theirs.\<close>

primrec destroy_streams :: "os \<Rightarrow> size_t \<Rightarrow> shm_fs \<Rightarrow> stream_tree list \<Rightarrow> shm_fs res" where
  "destroy_streams os pg_size fs [] = Inr fs"
| "destroy_streams os pg_size fs (t # ts) =
     (case t of Stream_tree s _ \<Rightarrow>
      bindE (if \<not> shm_stream_is_substream s then shm_stream_destroy os pg_size fs t else Inr fs) (\<lambda>fs.
      destroy_streams os pg_size fs ts))"

definition shamon_destroy :: "os \<Rightarrow> size_t \<Rightarrow> shm_fs \<Rightarrow> shamon \<Rightarrow> stream_tree list \<Rightarrow> shm_fs res" where
  "shamon_destroy os pg_size fs shmn trees =
     assertE (sh_threads shmn = length (sh_buffers shmn)) ''VEC_SIZE(buffer_threads) == shm_vector_size(buffers)''
     (destroy_streams os pg_size fs trees)"

primrec any_ready :: "shm_arbiter_buffer list \<Rightarrow> bool res" where
  "any_ready [] = Inr False"
| "any_ready (ar # ars) =
     bindE (shm_stream_is_ready (ar_stream ar)) (\<lambda>r.
     if r \<or> shm_stream_has_new_substreams (ar_stream ar) then Inr True
     else bindE (shm_arbiter_buffer_size ar) (\<lambda>n. if n > 0 then Inr True else any_ready ars))"

definition shamon_is_ready :: "shamon \<Rightarrow> bool res" where
  "shamon_is_ready shmn = any_ready (sh_buffers shmn)"

section \<open>The next event\<close>

text \<open>
  \<open>qsize > 0.8 * c\<close>: the product of the double nearest to 0.8 with a capacity below \<open>2 ^ 50\<close>, rounded,
  lies on the same side of every integer as the exact one.
\<close>

definition almost_full :: "size_t \<Rightarrow> size_t \<Rightarrow> bool" where
  "almost_full qsize c \<longleftrightarrow> 4 * unat c < 5 * unat qsize"

text \<open>What the monitor gets from one buffer that is not empty: its oldest event, or a hole for half of it.\<close>

definition take_event :: "shamon \<Rightarrow> shm_arbiter_buffer \<Rightarrow> size_t \<Rightarrow> size_t option \<Rightarrow> (shamon \<times> shm_arbiter_buffer) res" where
  "take_event shmn ar qsize p =
     (case p of None \<Rightarrow> Inl (UB ''inevent is NULL'') | Some p \<Rightarrow>
      let c = shm_arbiter_buffer_capacity ar in
      if almost_full qsize c then
        bindE (shm_event_id (pq_data (ar_buffer ar)) (unat p)) (\<lambda>i.
        bindE (shm_arbiter_buffer_drop ar (c div 2)) (\<lambda>(n, ar).
        assertE (n \<noteq> 0) ''Failed dropping events''
        (bindE (shm_stream_prepare_hole_event (sh_ev shmn) i) (\<lambda>ev. Inr (shmn\<lparr>sh_ev := ev\<rparr>, ar)))))
      else
        bindE (mem_read (pq_data (ar_buffer ar)) (unat p) (unat (shm_arbiter_buffer_elem_size ar))) (\<lambda>x.
        bindE (mem_write (sh_ev shmn) 0 x) (\<lambda>ev.
        bindE (shm_arbiter_buffer_drop ar 1) (\<lambda>(n, ar).
        assertE (n = 1) ''n == 1'' (Inr (shmn\<lparr>sh_ev := ev\<rparr>, ar))))))"

text \<open>
  The loop over the buffers from the counter on. A buffer that is not active is looked at again and
  again: every time, the other threads act on the buffers.
\<close>

function process_loop ::
    "(shm_arbiter_buffer list \<Rightarrow> shm_arbiter_buffer list) list \<Rightarrow> shamon \<Rightarrow> ((byte list \<times> nat) option waiting \<times> shamon) res" where
  "process_loop env shmn =
     (let i = sh_next shmn; bufs = sh_buffers shmn in
      if \<not> i < length bufs then Inr (Returned None, shmn)
      else if \<not> shm_arbiter_buffer_active (bufs ! i) then
        (case env of [] \<Rightarrow> Inr (Waiting, shmn)
         | act # env \<Rightarrow> process_loop env (shmn\<lparr>sh_buffers := act bufs\<rparr>))
      else
        bindE (shm_arbiter_buffer_peek1 (bufs ! i)) (\<lambda>(qsize, p, ar).
        let shmn = shmn\<lparr>sh_buffers := bufs[i := ar], sh_next := i + 1\<rparr> in
        if qsize > 0 then
          bindE (take_event shmn ar qsize p) (\<lambda>(shmn, ar).
          Inr (Returned (Some (sh_ev shmn, i)), shmn\<lparr>sh_buffers := (sh_buffers shmn)[i := ar]\<rparr>))
        else process_loop env shmn))"
  by pat_completeness auto
termination
  by (relation "measures [\<lambda>(env, _). length env, \<lambda>(_, shmn). length (sh_buffers shmn) - sh_next shmn]") auto

declare process_loop.simps [simp del]

definition default_process_events ::
    "(shm_arbiter_buffer list \<Rightarrow> shm_arbiter_buffer list) list \<Rightarrow> shamon \<Rightarrow> ((byte list \<times> nat) option waiting \<times> shamon) res" where
  "default_process_events env shmn =
     process_loop env (if sh_next shmn \<ge> length (sh_buffers shmn) then shmn\<lparr>sh_next := 0\<rparr> else shmn)"

text \<open>Before that, every stream is asked for a new sub-stream; the streams that are added are asked, too.\<close>

primrec add_substreams ::
    "nat \<Rightarrow> (size_t \<Rightarrow> byte list option) \<Rightarrow> (byte list \<Rightarrow> size_t \<Rightarrow> byte list) \<Rightarrow> shm_arbiter_buffer \<Rightarrow> opener \<Rightarrow>
      nat \<Rightarrow> shamon \<Rightarrow> uint64_t \<Rightarrow> shm_fs \<Rightarrow> (shamon \<times> uint64_t \<times> shm_fs) res option" where
  "add_substreams 0 malloc realloc mem opn i shmn sid fs = None"
| "add_substreams (Suc fuel) malloc realloc mem opn i shmn sid fs =
     (if \<not> i < length (sh_buffers shmn) then Some (Inr (shmn, sid, fs))
      else let ar = sh_buffers shmn ! i in
      (case bindE (shm_stream_create_substream opn fs sid (ar_stream ar) None None None None) (\<lambda>(sub, s, sid, fs).
          let shmn = shmn\<lparr>sh_buffers := (sh_buffers shmn)[i := ar\<lparr>ar_stream := s\<rparr>]\<rparr> in
          case sub of None \<Rightarrow> Inr (shmn, sid, fs)
          | Some sub \<Rightarrow>
              bindE (shm_stream_register_all_events sub) (\<lambda>(_, sub).
              bindE (shamon_add_stream malloc realloc mem shmn sub (shm_arbiter_buffer_capacity ar)) (\<lambda>shmn.
              Inr (shmn, sid, fs)))) of
         Inl e \<Rightarrow> Some (Inl e)
       | Inr (shmn, sid, fs) \<Rightarrow> add_substreams fuel malloc realloc mem opn (i + 1) shmn sid fs))"

definition shamon_get_next_ev ::
    "nat \<Rightarrow> (size_t \<Rightarrow> byte list option) \<Rightarrow> (byte list \<Rightarrow> size_t \<Rightarrow> byte list) \<Rightarrow> shm_arbiter_buffer \<Rightarrow> opener \<Rightarrow>
      (shm_arbiter_buffer list \<Rightarrow> shm_arbiter_buffer list) list \<Rightarrow> shamon \<Rightarrow> uint64_t \<Rightarrow> shm_fs \<Rightarrow>
      ((byte list \<times> nat) option waiting \<times> shamon \<times> uint64_t \<times> shm_fs) res option" where
  "shamon_get_next_ev fuel malloc realloc mem opn env shmn sid fs =
     (case add_substreams fuel malloc realloc mem opn 0 shmn sid fs of
        None \<Rightarrow> None
      | Some (Inl e) \<Rightarrow> Some (Inl e)
      | Some (Inr (shmn, sid, fs)) \<Rightarrow>
          Some (case sh_process_events shmn of
            Some f \<Rightarrow> bindE (f (sh_buffers shmn)) (\<lambda>(r, bufs). Inr (Returned r, shmn\<lparr>sh_buffers := bufs\<rparr>, sid, fs))
          | None \<Rightarrow> bindE (default_process_events env shmn) (\<lambda>(r, shmn). Inr (r, shmn, sid, fs))))"

end
