(* ===== verification/Shamon_Rounds.thy ===== *)
theory Shamon_Rounds
  imports Shamon
begin

text \<open>
  What the monitor gets from \<open>core/shamon.c\<close>: the oldest event of the first buffer that is not empty, or a hole,
  in rounds over the buffers (\<open>default_process_events\<close>); that no stream starves; that adding a stream keeps the
  state well-formed; and that the specification of a stream is parsed as it is written.
\<close>

section \<open>Delivering events\<close>

lemma peek1_ok:
  assumes eq: "event_queue q"
  shows "\<exists>n p q'. shm_par_queue_peek1 q = Inr (n, p, q') \<and> event_queue q' \<and> pq_elems q' = pq_elems q \<and>
    pq_capacity q' = pq_capacity q \<and> pq_elem_size q' = pq_elem_size q \<and> pq_data q' = pq_data q \<and>
    (0 < n \<longleftrightarrow> pq_elems q \<noteq> []) \<and> unat n \<le> length (pq_elems q) \<and>
    (pq_elems q \<noteq> [] \<longrightarrow> (\<exists>a. p = Some a \<and> pq_deref q a = hd (pq_elems q)))"
proof -
  note inv = event_queue_inv [OF eq]
  obtain rb where r: "shm_spsc_ringbuf_read_off_nowrap (pq_ringbuf q) =
      Inr (rb_tail (pq_ringbuf q), of_nat (rb_avail rb), rb)"
    and rb: "rb_inv rb" "rb_consumer_frame (pq_ringbuf q) rb" "rb_avail rb = 0 \<longleftrightarrow> rb_slots (pq_ringbuf q) = []"
    using shm_spsc_ringbuf_read_off_nowrap_ok [OF pq_inv_rb [OF inv]] by auto
  have e: "rb_slots (pq_ringbuf q) = [] \<longleftrightarrow> pq_elems q = []" by (simp add: pq_elems_def)
  have pos: "0 < (of_nat (rb_avail rb) :: size_t) \<longleftrightarrow> 0 < rb_avail rb"
    using of_nat_rb_avail_pos [OF rb(1)] by auto
  have d: "pq_deref q (rb_tail (pq_ringbuf q) * pq_elem_size q) = hd (pq_elems q)" if ne: "pq_elems q \<noteq> []"
  proof -
    have "0 < length (rb_slots (pq_ringbuf q))" using ne e by (metis length_greater_0_conv)
    then have "unat (rb_tail (pq_ringbuf q)) = rb_slots (pq_ringbuf q) ! 0"
      using pq_inv_rb [OF inv] by (simp add: rb_slots_def ring_add_def rb_inv_def word_less_nat_alt)
    then show ?thesis using pq_deref_slot [OF inv, of "rb_tail (pq_ringbuf q)" 0] ne
      by (simp add: hd_conv_nth length_greater_0_conv [symmetric] del: length_pq_elems length_greater_0_conv)
  qed
  have le: "unat (of_nat (rb_avail rb) :: size_t) \<le> length (pq_elems q)"
    using rb_invD [OF rb(1)] rb_consumer_frame_simps [OF rb(2)] unat_of_nat_avail(1) [OF rb(1)] by simp
  show ?thesis using r pos rb(3) e d le event_queue_update [OF eq rb(1,2)]
    by (auto simp: shm_par_queue_peek1_def Let_def simp del: length_pq_elems)
qed

text \<open>
  A buffer the monitor can be served from: active, with well-formed events whose ids increase and are
  not below the last one that was reported as processed, and an event fits into \<open>_ev\<close>.
\<close>

definition servable :: "byte list \<Rightarrow> shm_arbiter_buffer \<Rightarrow> bool" where
  "servable ev ar \<longleftrightarrow> ar_active ar \<and> event_queue (ar_buffer ar) \<and> 1 < pq_capacity (ar_buffer ar) \<and>
     unat (pq_elem_size (ar_buffer ar)) \<le> length ev \<and> ids_increase (ar_elems ar) \<and>
     (\<forall>x \<in> set (ar_elems ar). last_processed ar \<le> ev_id x \<and> 0 < ev_kind x)"

definition served :: "byte list \<Rightarrow> shm_arbiter_buffer \<Rightarrow> byte list \<Rightarrow> shm_arbiter_buffer \<Rightarrow> bool" where
  "served ev ar ev' ar' \<longleftrightarrow>
     (ar_elems ar' = tl (ar_elems ar) \<and> ev' = mem_upd ev 0 (hd (ar_elems ar))) \<or>
     (4 * unat (pq_capacity (ar_buffer ar)) < 5 * length (ar_elems ar) \<and>
      ar_elems ar' = drop (unat (pq_capacity (ar_buffer ar)) div 2) (ar_elems ar) \<and>
      ev' = mem_upd ev 8 (le64 (ev_id (hd (ar_elems ar)))))"

lemma peek_frame: "shm_par_queue_peek q n = Inr (c, v, q') \<Longrightarrow> \<exists>rb. q' = q\<lparr>pq_ringbuf := rb\<rparr>"
  by (auto simp: shm_par_queue_peek_def Let_def split: option.splits if_splits)

lemma peek_atmost_at_frame: "shm_par_queue_peek_atmost_at q k = Inr (p, n, q') \<Longrightarrow> \<exists>rb. q' = q\<lparr>pq_ringbuf := rb\<rparr>"
  by (auto simp: shm_par_queue_peek_atmost_at_def Let_def dest!: peek_frame split: if_splits)

lemma drop_frame:
  assumes "shm_arbiter_buffer_drop ar k = Inr (n, ar')"
  shows "ar_active ar' = ar_active ar \<and> pq_capacity (ar_buffer ar') = pq_capacity (ar_buffer ar) \<and>
    pq_elem_size (ar_buffer ar') = pq_elem_size (ar_buffer ar)"
  using assms
  by (auto simp: shm_arbiter_buffer_drop_def shm_par_queue_drop_def notify_processed_def Let_def
      dest!: peek_atmost_at_frame split: option.splits)

lemma servable_drop:
  assumes s: "servable ev ar" and ne: "ar_elems ar \<noteq> []" and k: "0 < k" and ev: "length ev' = length ev"
  shows "\<exists>n ar'. shm_arbiter_buffer_drop ar k = Inr (n, ar') \<and> unat n = min (unat k) (length (ar_elems ar)) \<and>
    ar_elems ar' = drop (unat k) (ar_elems ar) \<and> servable ev' ar'"
proof -
  let ?xs = "ar_elems ar"
  have eq: "event_queue (ar_buffer ar)" and inc: "ids_increase ?xs" and all: "\<forall>x \<in> set ?xs. last_processed ar \<le> ev_id x \<and> 0 < ev_kind x"
    using s by (simp_all add: servable_def)
  have ks: "Suc (unat (k - 1)) = unat k" "0 < unat k" using k by (simp_all add: unat_sub_64 word_less_nat_alt)
  let ?m = "min (unat k) (length ?xs)"
  have m: "0 < ?m" "?m \<le> length ?xs" using ks(2) ne by simp_all
  then have in1: "?xs ! (?m - 1) \<in> set ?xs" by (intro nth_mem) linarith
  then have "last_processed ar \<le> ev_id (?xs ! (?m - 1))" using all by blast
  then have "\<exists>n ar'. shm_arbiter_buffer_drop ar k = Inr (n, ar') \<and> unat n = ?m \<and> event_queue (ar_buffer ar') \<and>
      ar_elems ar' = drop (unat n) ?xs \<and> last_processed ar' = ev_id (?xs ! (unat n - 1))"
    using shm_arbiter_buffer_drop_ok [OF eq ne, of k] unfolding ks(1) by blast
  then obtain n ar' where d: "shm_arbiter_buffer_drop ar k = Inr (n, ar')" "unat n = ?m" "event_queue (ar_buffer ar')"
      "ar_elems ar' = drop (unat n) ?xs" "last_processed ar' = ev_id (?xs ! (unat n - 1))"
    by (elim exE conjE) (rule that)
  have "ev_id (?xs ! (?m - 1)) \<le> ev_id x" if "x \<in> set (drop ?m ?xs)" for x
  proof -
    obtain j where j: "j < length (drop ?m ?xs)" "x = drop ?m ?xs ! j" using \<open>x \<in> set (drop ?m ?xs)\<close> by (auto simp only: in_set_conv_nth)
    then have j: "?m + j < length ?xs" "x = ?xs ! (?m + j)" using m(2) by (simp_all only: length_drop nth_drop)
    have "?m - 1 < ?m + j" using m(1) by linarith
    from sorted_wrt_nth_less [OF inc this j(1)] show ?thesis using j(2) by (simp only: less_imp_le)
  qed
  moreover have "0 < ev_kind x" if "x \<in> set (drop ?m ?xs)" for x using all that in_set_dropD by fast
  moreover have "ids_increase (drop ?m ?xs)" using inc by (rule sorted_wrt_drop)
  ultimately have "servable ev' ar'" using d s drop_frame [OF d(1)] ev by (simp add: servable_def)
  moreover have "drop ?m ?xs = drop (unat k) ?xs" by (simp add: min_def)
  ultimately show ?thesis using d by auto
qed

lemma kind_of_copy: "8 \<le> length x \<Longrightarrow> ev_kind (mem_upd ev 0 x) = ev_kind x"
  by (simp add: ev_kind_def mem_upd_def)

lemma kind_of_hole: "16 \<le> length ev \<Longrightarrow> ev_kind (mem_upd ev 8 (le64 i)) = ev_kind ev"
  by (simp add: ev_kind_def mem_upd_def)

lemma take_event_ok:
  assumes s: "servable (sh_ev shmn) ar" and ne: "ar_elems ar \<noteq> []" and k: "0 < ev_kind (sh_ev shmn)"
    and p: "pq_deref (ar_buffer ar) p = hd (ar_elems ar)" and n: "unat n \<le> length (ar_elems ar)"
  shows "\<exists>ev' ar'. take_event shmn ar n (Some p) = Inr (shmn\<lparr>sh_ev := ev'\<rparr>, ar') \<and> served (sh_ev shmn) ar ev' ar' \<and>
    servable ev' ar' \<and> length ev' = length (sh_ev shmn) \<and> 0 < ev_kind ev'"
proof -
  let ?q = "ar_buffer ar" and ?ev = "sh_ev shmn" and ?x = "hd (ar_elems ar)"
  have eq: "event_queue ?q" and le: "unat (pq_elem_size ?q) \<le> length ?ev" and c1: "1 < pq_capacity ?q"
    and kx: "0 < ev_kind ?x" using s ne by (auto simp: servable_def)
  have xin: "?x \<in> set (pq_elems ?q)" using ne by (simp add: ar_elems_def)
  have lx: "length ?x = unat (pq_elem_size ?q)" "16 \<le> unat (pq_elem_size ?q)"
    using pq_elem_length [OF event_queue_inv [OF eq] xin] eq by (simp_all add: event_queue_def)
  note unfold = take_event_def Let_def shm_arbiter_buffer_capacity_def shm_par_queue_capacity_def
    shm_arbiter_buffer_elem_size_def shm_par_queue_elem_size_def
  show ?thesis
  proof (cases "almost_full n (pq_capacity ?q)")
    case True
    let ?c = "pq_capacity ?q div 2" and ?ev' = "mem_upd ?ev 8 (le64 (ev_id ?x))"
    have c: "0 < ?c" "unat ?c = unat (pq_capacity ?q) div 2" using c1 by (simp_all add: word_less_nat_alt unat_div)
    have l: "length ?ev' = length ?ev" using le lx by (simp add: mem_upd_def)
    obtain m ar' where d: "shm_arbiter_buffer_drop ar ?c = Inr (m, ar')" "unat m = min (unat ?c) (length (ar_elems ar))"
        "ar_elems ar' = drop (unat ?c) (ar_elems ar)" "servable ?ev' ar'"
      using servable_drop [OF s ne c(1) l] by (elim exE conjE) (rule that)
    have "0 < unat m" using d(2) c ne by (simp add: word_less_nat_alt)
    then have "m \<noteq> 0" by auto
    moreover have "shm_stream_prepare_hole_event ?ev (ev_id ?x) = Inr ?ev'"
      using k le lx shm_event_kind_read [of 0 ?ev "length ?ev"] by (simp add: shm_stream_prepare_hole_event_def)
    ultimately have "take_event shmn ar n (Some p) = Inr (shmn\<lparr>sh_ev := ?ev'\<rparr>, ar')" "served ?ev ar ?ev' ar'"
      using True d(1,3) event_id_deref [OF eq p xin] c(2) n by (simp_all add: unfold served_def almost_full_def)
    then show ?thesis using d(4) l k kind_of_hole [of ?ev] le lx by auto
  next
    case False
    let ?ev' = "mem_upd ?ev 0 ?x"
    have rd: "mem_read (pq_data ?q) (unat p) (unat (pq_elem_size ?q)) = Inr ?x"
    proof -
      have "min (length (pq_data ?q) - unat p) (unat (pq_elem_size ?q)) = unat (pq_elem_size ?q)"
        using arg_cong [OF p, of length] lx(1) by (simp add: pq_deref_def)
      then have "unat p + unat (pq_elem_size ?q) \<le> length (pq_data ?q)" using lx(2) by linarith
      then show ?thesis using p by (simp add: pq_deref_def)
    qed
    have l: "length ?ev' = length ?ev" using le lx by (simp add: mem_upd_def)
    obtain m ar' where d: "shm_arbiter_buffer_drop ar 1 = Inr (m, ar')" "unat m = min 1 (length (ar_elems ar))"
        "ar_elems ar' = drop 1 (ar_elems ar)" "servable ?ev' ar'"
      using servable_drop [OF s ne _ l, of 1] by auto
    have "unat m = 1" using d(2) ne by (cases "ar_elems ar") auto
    then have "m = 1" by (simp add: word_64_eq_iff)
    then have "take_event shmn ar n (Some p) = Inr (shmn\<lparr>sh_ev := ?ev'\<rparr>, ar')" "served ?ev ar ?ev' ar'"
      using False d rd le lx by (simp_all add: unfold served_def drop_Suc)
    then show ?thesis using d(4) l kx kind_of_copy [of ?x ?ev] lx by auto
  qed
qed

text \<open>
  The result of a round that starts at the buffer \<open>i\<close>: nothing if the buffers from \<open>i\<close> on are empty, and
  otherwise an event of the first one that is not; the next round starts after it.
\<close>

definition round_from :: "nat \<Rightarrow> shamon \<Rightarrow> (byte list \<times> nat) option \<Rightarrow> shamon \<Rightarrow> bool" where
  "round_from i s r s' \<longleftrightarrow>
     (let elems = map ar_elems (sh_buffers s); n = length (sh_buffers s) in
      case r of
        None \<Rightarrow> (\<forall>k. i \<le> k \<and> k < n \<longrightarrow> elems ! k = []) \<and> map ar_elems (sh_buffers s') = elems \<and>
          n \<le> sh_next s' \<and> sh_ev s' = sh_ev s
      | Some (ev, j) \<Rightarrow> i \<le> j \<and> j < n \<and> (\<forall>k. i \<le> k \<and> k < j \<longrightarrow> elems ! k = []) \<and> elems ! j \<noteq> [] \<and>
          (\<exists>ar'. served (sh_ev s) (sh_buffers s ! j) ev ar' \<and> map ar_elems (sh_buffers s') = elems[j := ar_elems ar']) \<and>
          sh_ev s' = ev \<and> sh_next s' = Suc j)"

lemma arbiter_peek1_ok:
  assumes "servable ev ar"
  shows "\<exists>n p ar'. shm_arbiter_buffer_peek1 ar = Inr (n, p, ar') \<and> servable ev ar' \<and> ar_elems ar' = ar_elems ar \<and>
    pq_capacity (ar_buffer ar') = pq_capacity (ar_buffer ar) \<and> (0 < n \<longleftrightarrow> ar_elems ar \<noteq> []) \<and>
    unat n \<le> length (ar_elems ar) \<and>
    (ar_elems ar \<noteq> [] \<longrightarrow> (\<exists>a. p = Some a \<and> pq_deref (ar_buffer ar') a = hd (ar_elems ar)))"
proof -
  have "event_queue (ar_buffer ar)" using assms by (simp add: servable_def)
  from peek1_ok [OF this] obtain n p q' where p: "shm_par_queue_peek1 (ar_buffer ar) = Inr (n, p, q')" "event_queue q'"
      "pq_elems q' = pq_elems (ar_buffer ar)" "pq_capacity q' = pq_capacity (ar_buffer ar)"
      "pq_elem_size q' = pq_elem_size (ar_buffer ar)" "pq_data q' = pq_data (ar_buffer ar)"
      "0 < n \<longleftrightarrow> pq_elems (ar_buffer ar) \<noteq> []" "unat n \<le> length (pq_elems (ar_buffer ar))"
      "pq_elems (ar_buffer ar) \<noteq> [] \<longrightarrow> (\<exists>a. p = Some a \<and> pq_deref (ar_buffer ar) a = hd (pq_elems (ar_buffer ar)))"
    by (elim exE conjE) (rule that)
  then have "\<exists>a. p = Some a \<and> pq_deref q' a = hd (pq_elems (ar_buffer ar))" if "pq_elems (ar_buffer ar) \<noteq> []"
    using that by (auto simp: pq_deref_def)
  then show ?thesis using p assms
    by (intro exI [of _ n] exI [of _ p] exI [of _ "set_queue ar q'"])
      (auto simp: shm_arbiter_buffer_peek1_def servable_def ar_elems_def)
qed

lemma round_from_step:
  assumes r: "round_from (Suc i) s1 r s'" and same: "map ar_elems (sh_buffers s1) = map ar_elems (sh_buffers s)" "sh_ev s1 = sh_ev s"
      "map (\<lambda>ar. pq_capacity (ar_buffer ar)) (sh_buffers s1) = map (\<lambda>ar. pq_capacity (ar_buffer ar)) (sh_buffers s)"
    and empty: "i < length (sh_buffers s) \<Longrightarrow> ar_elems (sh_buffers s ! i) = []"
  shows "round_from i s r s'"
proof -
  have len: "length (sh_buffers s1) = length (sh_buffers s)" using arg_cong [OF same(1), of length] by simp
  have later: "i \<le> k \<Longrightarrow> k = i \<or> Suc i \<le> k" for k by linarith
  have sv: "served (sh_ev s1) (sh_buffers s1 ! j) ev ar' = served (sh_ev s) (sh_buffers s ! j) ev ar'" if "j < length (sh_buffers s)" for j ev ar'
    using arg_cong [OF same(1), of "\<lambda>xs. xs ! j"] arg_cong [OF same(3), of "\<lambda>xs. xs ! j"] same(2) that len
    by (simp add: served_def)
  show ?thesis using r sv same(1,2) len empty
    by (cases r) (auto simp: round_from_def Let_def dest!: later)
qed

definition sh_ok :: "shamon \<Rightarrow> bool" where
  "sh_ok s \<longleftrightarrow> (\<forall>ar \<in> set (sh_buffers s). servable (sh_ev s) ar) \<and> 0 < ev_kind (sh_ev s)"

lemma servable_length: "length ev' = length ev \<Longrightarrow> servable ev' = servable ev"
  by (simp add: servable_def fun_eq_iff)

lemma sh_ok_update:
  assumes "sh_ok s" and "servable ev' ar" and "length ev' = length (sh_ev s)" and "0 < ev_kind ev'"
  shows "sh_ok (s\<lparr>sh_buffers := (sh_buffers s)[i := ar], sh_ev := ev', sh_next := n\<rparr>)"
  using assms set_update_subset_insert [of "sh_buffers s" i ar] servable_length [OF assms(3)] by (auto simp: sh_ok_def)

lemma process_loop_ok:
  assumes "sh_ok s"
  shows "\<exists>r s'. process_loop env s = Inr (Returned r, s') \<and> round_from (sh_next s) s r s' \<and> sh_ok s'"
  using assms
proof (induction "length (sh_buffers s) - sh_next s" arbitrary: s)
  case 0
  then show ?case by (subst process_loop.simps) (auto simp: round_from_def Let_def)
next
  case (Suc d)
  let ?i = "sh_next s" and ?bufs = "sh_buffers s"
  have i: "?i < length ?bufs" using Suc.hyps(2) by simp
  then have sv: "servable (sh_ev s) (?bufs ! ?i)" using Suc.prems by (simp add: sh_ok_def)
  obtain n p ar where p: "shm_arbiter_buffer_peek1 (?bufs ! ?i) = Inr (n, p, ar)" "servable (sh_ev s) ar"
      "ar_elems ar = ar_elems (?bufs ! ?i)" "pq_capacity (ar_buffer ar) = pq_capacity (ar_buffer (?bufs ! ?i))"
      "0 < n \<longleftrightarrow> ar_elems (?bufs ! ?i) \<noteq> []" "unat n \<le> length (ar_elems (?bufs ! ?i))"
      "ar_elems (?bufs ! ?i) \<noteq> [] \<longrightarrow> (\<exists>a. p = Some a \<and> pq_deref (ar_buffer ar) a = hd (ar_elems (?bufs ! ?i)))"
    using arbiter_peek1_ok [OF sv] by (elim exE conjE) (rule that)
  let ?s = "s\<lparr>sh_buffers := ?bufs[?i := ar], sh_next := ?i + 1\<rparr>"
  have same: "map ar_elems (sh_buffers ?s) = map ar_elems ?bufs"
    using p(3) i by (simp add: map_update list_update_same_conv)
  have ok: "sh_ok ?s" using Suc.prems p(2) set_update_subset_insert [of ?bufs ?i ar] by (auto simp: sh_ok_def)
  have act: "shm_arbiter_buffer_active (?bufs ! ?i)" using sv by (simp add: shm_arbiter_buffer_active_def servable_def)
  show ?case
  proof (cases "ar_elems (?bufs ! ?i) = []")
    case True
    have e: "process_loop env s = process_loop env ?s"
      using i act p(1,5) True by (subst process_loop.simps) (simp add: Let_def)
    have "d = length (sh_buffers ?s) - sh_next ?s" using Suc.hyps(2) by simp
    then obtain r s' where r: "process_loop env ?s = Inr (Returned r, s')" "round_from (Suc ?i) ?s r s'" "sh_ok s'"
      using Suc.hyps(1) [of ?s] ok by auto
    have "map (\<lambda>ar. pq_capacity (ar_buffer ar)) (sh_buffers ?s) = map (\<lambda>ar. pq_capacity (ar_buffer ar)) ?bufs"
      using p(4) i by (simp add: map_update list_update_same_conv)
    then have "round_from ?i s r s'" by (intro round_from_step [OF r(2) same]) (use True in simp_all)
    then show ?thesis using e r(1,3) by simp
  next
    case False
    then obtain a where a: "p = Some a" "pq_deref (ar_buffer ar) a = hd (ar_elems ar)" using p(3,7) by auto
    have k: "0 < ev_kind (sh_ev s)" using Suc.prems by (simp add: sh_ok_def)
    obtain ev' ar' where t: "take_event ?s ar n (Some a) = Inr (?s\<lparr>sh_ev := ev'\<rparr>, ar')" "served (sh_ev s) ar ev' ar'"
        "servable ev' ar'" "length ev' = length (sh_ev s)" "0 < ev_kind ev'"
      using take_event_ok [of ?s ar a n] p(2,3,6) False k a(2) by auto
    let ?s' = "s\<lparr>sh_buffers := ?bufs[?i := ar'], sh_ev := ev', sh_next := ?i + 1\<rparr>"
    have "process_loop env s = Inr (Returned (Some (ev', ?i)), ?s')"
      using i act p(1,5) False a(1) t(1) by (subst process_loop.simps) (simp add: Let_def)
    moreover have "served (sh_ev s) (?bufs ! ?i) ev' ar'" using t(2) p(3,4) by (simp add: served_def)
    moreover have "sh_ok ?s'" by (rule sh_ok_update [OF Suc.prems t(3-5)])
    ultimately show ?thesis using i False by (auto simp: round_from_def Let_def map_update)
  qed
qed

definition start_index :: "shamon \<Rightarrow> nat" where
  "start_index s = (if sh_next s \<ge> length (sh_buffers s) then 0 else sh_next s)"

lemma default_process_events_ok:
  assumes "sh_ok s"
  shows "\<exists>r s'. default_process_events env s = Inr (Returned r, s') \<and> round_from (start_index s) s r s' \<and> sh_ok s'"
proof -
  let ?s = "if sh_next s \<ge> length (sh_buffers s) then s\<lparr>sh_next := 0\<rparr> else s"
  have "sh_ok ?s" "start_index s = sh_next ?s" using assms by (simp_all add: sh_ok_def start_index_def)
  moreover have "round_from i ?s = round_from i s" for i by (simp add: round_from_def fun_eq_iff Let_def split: option.split)
  ultimately show ?thesis using process_loop_ok [of ?s env] unfolding default_process_events_def by simp
qed

section \<open>No stream starves\<close>

text \<open>What other threads may do between two calls: they add events, but take none away.\<close>

definition act_ok :: "(shamon \<Rightarrow> shamon) \<Rightarrow> bool" where
  "act_ok act \<longleftrightarrow> (\<forall>s. sh_ok s \<longrightarrow> sh_ok (act s) \<and> length (sh_buffers (act s)) = length (sh_buffers s) \<and> sh_next (act s) = sh_next s \<and>
     (\<forall>k < length (sh_buffers s). ar_elems (sh_buffers s ! k) \<noteq> [] \<longrightarrow> ar_elems (sh_buffers (act s) ! k) \<noteq> []))"

text \<open>Calls of \<open>default_process_events\<close>, after each of which the other threads act: one of them serves the buffer \<open>k\<close>.\<close>

fun served_within :: "(shamon \<Rightarrow> shamon) list \<Rightarrow> shamon \<Rightarrow> nat \<Rightarrow> bool" where
  "served_within [] s k = False"
| "served_within (act # acts) s k =
     (case default_process_events [] s of
        Inr (Returned (Some (_, j)), s') \<Rightarrow> j = k \<or> served_within acts (act s') k
      | Inr (Returned None, s') \<Rightarrow> served_within acts (act s') k
      | _ \<Rightarrow> False)"

definition distance :: "shamon \<Rightarrow> nat \<Rightarrow> nat" where
  "distance s k = (let i = start_index s in if i \<le> k then k - i else length (sh_buffers s) - i + k)"

lemma round_from_distance:
  assumes r: "round_from (start_index s) s r s'" and k: "k < length (sh_buffers s)" "ar_elems (sh_buffers s ! k) \<noteq> []"
  shows "(\<exists>ev. r = Some (ev, k)) \<or>
    (length (sh_buffers s') = length (sh_buffers s) \<and> ar_elems (sh_buffers s' ! k) \<noteq> [] \<and> distance s' k < distance s k)"
proof (cases r)
  case None
  have e: "map ar_elems (sh_buffers s') = map ar_elems (sh_buffers s)" "length (sh_buffers s) \<le> sh_next s'"
      "\<And>j. start_index s \<le> j \<Longrightarrow> j < length (sh_buffers s) \<Longrightarrow> ar_elems (sh_buffers s ! j) = []"
    using r None by (auto simp: round_from_def Let_def)
  have l: "length (sh_buffers s') = length (sh_buffers s)" using arg_cong [OF e(1), of length] by simp
  have "ar_elems (sh_buffers s' ! k) = ar_elems (sh_buffers s ! k)" using arg_cong [OF e(1), of "\<lambda>xs. xs ! k"] k l by simp
  moreover have "k < start_index s" using e(3) [of k] k by force
  moreover have "start_index s < length (sh_buffers s)" using k(1) by (auto simp: start_index_def)
  moreover have "start_index s' = 0" using l e(2) by (simp add: start_index_def)
  ultimately have "distance s' k < distance s k" using l by (simp add: distance_def Let_def)
  then show ?thesis using l \<open>ar_elems (sh_buffers s' ! k) = ar_elems (sh_buffers s ! k)\<close> k by simp
next
  case (Some x)
  obtain ev j where x: "x = (ev, j)" by (cases x)
  obtain ar' where e: "map ar_elems (sh_buffers s') = (map ar_elems (sh_buffers s))[j := ar_elems ar']" "sh_next s' = Suc j"
      "start_index s \<le> j" "j < length (sh_buffers s)"
      "\<And>i. start_index s \<le> i \<Longrightarrow> i < j \<Longrightarrow> ar_elems (sh_buffers s ! i) = []"
    using r Some x by (auto simp: round_from_def Let_def)
  have l: "length (sh_buffers s') = length (sh_buffers s)" using arg_cong [OF e(1), of length] by simp
  have nb: "k \<noteq> j \<Longrightarrow> ar_elems (sh_buffers s' ! k) = ar_elems (sh_buffers s ! k)"
    using arg_cong [OF e(1), of "\<lambda>xs. xs ! k"] k l by simp
  show ?thesis
  proof (cases "j = k")
    case False
    have "\<not> (start_index s \<le> k \<and> k < j)" using e(5) [of k] k(2) by blast
    then have "distance s' k < distance s k"
      using False e(2-4) k(1) l by (auto simp: distance_def start_index_def Let_def)
    then show ?thesis using l nb False k(2) by simp
  qed (use Some x in blast)
qed

lemma served_within_ok:
  assumes "sh_ok s" and "k < length (sh_buffers s)" and "ar_elems (sh_buffers s ! k) \<noteq> []" and "\<forall>a \<in> set acts. act_ok a"
    and "distance s k < length acts"
  shows "served_within acts s k"
  using assms
proof (induction acts arbitrary: s)
  case (Cons act acts)
  obtain r s' where r: "default_process_events [] s = Inr (Returned r, s')" "round_from (start_index s) s r s'" "sh_ok s'"
    using default_process_events_ok [OF Cons.prems(1)] by blast
  have act: "act_ok act" using Cons.prems(4) by simp
  have "served_within acts (act s') k" if n: "length (sh_buffers s') = length (sh_buffers s)" "ar_elems (sh_buffers s' ! k) \<noteq> []"
      "distance s' k < distance s k"
  proof (rule Cons.IH)
    have a: "sh_ok (act s')" "length (sh_buffers (act s')) = length (sh_buffers s')" "sh_next (act s') = sh_next s'"
        "ar_elems (sh_buffers (act s') ! k) \<noteq> []"
      using act r(3) n(1,2) Cons.prems(2) by (simp_all add: act_ok_def)
    then show "sh_ok (act s')" "k < length (sh_buffers (act s'))" "ar_elems (sh_buffers (act s') ! k) \<noteq> []"
      using n(1) Cons.prems(2) by simp_all
    have "distance (act s') k = distance s' k" using a(2,3) by (simp add: distance_def start_index_def Let_def)
    then show "distance (act s') k < length acts" using n(3) Cons.prems(5) by simp
  qed (use Cons.prems(4) in simp)
  then show ?case using r(1) round_from_distance [OF r(2) Cons.prems(2,3)] by (auto split: option.splits)
qed simp

section \<open>Adding streams\<close>

definition room_for :: "shm_stream \<Rightarrow> size_t" where
  "room_for stream = (if st_event_size stream > hh_size (st_hole_handling stream) then st_event_size stream
     else hh_size (st_hole_handling stream))"

text \<open>What the callers of \<open>malloc\<close> and \<open>realloc\<close> rely on.\<close>

definition malloc_ok :: "(size_t \<Rightarrow> byte list option) \<Rightarrow> bool" where
  "malloc_ok malloc \<longleftrightarrow> (\<forall>n. 0 < n \<longrightarrow> (\<exists>block. malloc n = Some block \<and> length block = unat n))"

definition realloc_ok :: "(byte list \<Rightarrow> size_t \<Rightarrow> byte list) \<Rightarrow> bool" where
  "realloc_ok realloc \<longleftrightarrow> (\<forall>old n. length old \<le> unat n \<longrightarrow> length (realloc old n) = unat n \<and> take (length old) (realloc old n) = old)"

lemma arbiter_init_ok:
  assumes m: "malloc_ok malloc" and es: "es = room_for stream"
    and c: "3 \<le> c" "unat c + 3 < 18446744073709551616" "(unat c + 1) * unat es < 18446744073709551616"
    and h: "16 \<le> unat (hh_size (st_hole_handling stream))"
  shows "\<exists>ar. shm_arbiter_buffer_init malloc mem stream 0 c = Inr ar \<and> event_queue (ar_buffer ar) \<and> ar_elems ar = [] \<and>
    pq_capacity (ar_buffer ar) = c \<and> pq_elem_size (ar_buffer ar) = es \<and> ar_stream ar = stream"
proof -
  let ?hh = "hh_size (st_hole_handling stream)"
  have hh: "0 < ?hh" "?hh \<le> es" using h es by (auto simp: room_for_def word_less_nat_alt word_le_nat_alt)
  have es16: "16 \<le> unat es" "0 < es" using h hh by (simp_all add: word_le_nat_alt word_less_nat_alt)
  have c1: "0 < c" "c + 1 < SIZE_MAX - 1" "unat (c + 1) = unat c + 1"
    using c(1,2) by (simp_all add: word_le_nat_alt word_less_nat_alt unat_add_64 unat_sub_64)
  have "(c + 1) * es \<noteq> 0" using c1(3) c(3) es16(1) by (simp add: word_64_eq_iff unat_mult_64)
  then have "0 < (c + 1) * es" by (simp add: word_neq_0_conv)
  then obtain block where b: "malloc ((c + 1) * es) = Some block" "length block = unat ((c + 1) * es)" using m by (auto simp: malloc_ok_def)
  obtain hole where ho: "malloc ?hh = Some hole" using m hh(1) by (auto simp: malloc_ok_def)
  obtain q where q: "shm_par_queue_init malloc (ar_buffer mem) c es = Inr q" "pq_inv q" "pq_elems q = []" "pq_capacity q = c" "pq_elem_size q = es"
    using shm_par_queue_init_ok [where malloc = malloc and q = "ar_buffer mem" and c = c and es = es and block = block,
      OF c1(1) es16(2) c(3) c1(2) b] by blast
  have "(if (0 :: size_t) > st_event_size stream then 0 else st_event_size stream) = st_event_size stream" by simp
  moreover have "(if ?hh > st_event_size stream then ?hh else st_event_size stream) = es" using es by (auto simp: room_for_def)
  moreover have "\<not> es < ?hh" using hh(2) by (simp add: not_less)
  ultimately show ?thesis using c(1) q ho hh(1) es16(1)
    by (simp add: shm_arbiter_buffer_init_def Let_def ar_elems_def event_queue_def)
qed

lemma shamon_add_stream_ok:
  assumes ok: "sh_ok s" and ev: "length (sh_ev s) = unat (sh_ev_size s)" "16 \<le> length (sh_ev s)"
    and fresh: "st_name stream \<notin> st_name ` set (shamon_get_streams s)" and few: "length (sh_buffers s) < 10"
    and m: "malloc_ok malloc" "realloc_ok realloc"
    and c: "3 \<le> c" "unat c + 3 < 18446744073709551616" "(unat c + 1) * unat (room_for stream) < 18446744073709551616"
    and h: "16 \<le> unat (hh_size (st_hole_handling stream))"
  shows "\<exists>s' ar. shamon_add_stream malloc realloc mem s stream c = Inr s' \<and> sh_ok s' \<and> sh_buffers s' = sh_buffers s @ [ar] \<and>
    ar_elems ar = [] \<and> st_name (ar_stream ar) = st_name stream \<and> length (sh_ev s') = unat (sh_ev_size s') \<and> sh_ev_size s \<le> sh_ev_size s'"
proof -
  let ?n = "room_for stream"
  let ?s = "if ?n > sh_ev_size s then s\<lparr>sh_ev := realloc (sh_ev s) ?n, sh_ev_size := ?n\<rparr> else s"
  obtain ar where a: "shm_arbiter_buffer_init malloc mem stream 0 c = Inr ar" "event_queue (ar_buffer ar)" "ar_elems ar = []"
      "pq_capacity (ar_buffer ar) = c" "pq_elem_size (ar_buffer ar) = ?n" "ar_stream ar = stream"
    using arbiter_init_ok [OF m(1) refl c h] by blast
  let ?ar = "shm_arbiter_buffer_set_active ar True"
  have nm: "\<not> list_ex (\<lambda>s. st_name s = st_name stream) (shamon_get_streams s)" using fresh by (auto simp: list_ex_iff image_iff)
  have grow: "length (realloc (sh_ev s) ?n) = unat ?n \<and> take (length (sh_ev s)) (realloc (sh_ev s) ?n) = sh_ev s" if "?n > sh_ev_size s"
  proof -
    have "length (sh_ev s) \<le> unat ?n" using that ev(1) by (simp add: word_less_nat_alt)
    then show ?thesis using m(2) unfolding realloc_ok_def by blast
  qed
  have l: "length (sh_ev ?s) = unat (sh_ev_size ?s)" "length (sh_ev s) \<le> length (sh_ev ?s)" "unat ?n \<le> length (sh_ev ?s)"
      "sh_ev_size s \<le> sh_ev_size ?s"
    using grow ev(1) by (auto simp: word_less_nat_alt word_le_nat_alt not_less)
  have k: "ev_kind (sh_ev ?s) = ev_kind (sh_ev s)"
  proof (cases "?n > sh_ev_size s")
    case True
    have "take 8 (realloc (sh_ev s) ?n) = take 8 (take (length (sh_ev s)) (realloc (sh_ev s) ?n))" using ev(2) by (simp add: min_def)
    then show ?thesis using grow [OF True] True by (simp add: ev_kind_def)
  qed simp
  have "servable (sh_ev ?s) x" if "x \<in> set (sh_buffers s)" for x
    using ok that l(2) by (auto simp: sh_ok_def servable_def)
  moreover have "1 < c" using c(1) by (simp add: word_le_nat_alt word_less_nat_alt)
  then have "servable (sh_ev ?s) ?ar"
    using a l(3) by (simp add: servable_def shm_arbiter_buffer_set_active_def Let_def ar_elems_def)
  ultimately have "sh_ok (?s\<lparr>sh_buffers := sh_buffers s @ [?ar], sh_threads := sh_threads s + 1\<rparr>)"
    using ok k by (auto simp: sh_ok_def)
  moreover have "shamon_add_stream malloc realloc mem s stream c = Inr (?s\<lparr>sh_buffers := sh_buffers s @ [?ar], sh_threads := sh_threads s + 1\<rparr>)"
    using nm few a(1) by (simp add: shamon_add_stream_def Let_def room_for_def [symmetric])
  moreover have "ar_elems ?ar = []" "st_name (ar_stream ?ar) = st_name stream"
    using a by (simp_all add: shm_arbiter_buffer_set_active_def Let_def ar_elems_def shm_stream_attach_def)
  ultimately show ?thesis using l by simp
qed

section \<open>Specifications\<close>

primrec source_name :: "stream_kind \<Rightarrow> string" where
  "source_name Calls = ''calls''"
| "source_name Regex = ''regex''"
| "source_name Regexrw = ''regexrw''"
| "source_name Drregex = ''drregex''"
| "source_name Generic = ''generic''"

definition print_spec :: "string \<Rightarrow> stream_kind \<Rightarrow> string \<Rightarrow> string" where
  "print_spec name kind key = name @ '':'' @ source_name kind @ '':'' @ key"

lemma strchr_append: "c \<notin> set xs \<Longrightarrow> strchr (xs @ c # ys) c = Some (length xs)"
  by (induction xs) auto

lemma strchr_none: "c \<notin> set xs \<Longrightarrow> strchr xs c = None"
  by (induction xs) auto

lemma parse_print_spec:
  assumes "CHR '':'' \<notin> set name" and "key \<noteq> []" and "CHR '';'' \<notin> set (tl key)" and "length key < 256"
  shows "parse_spec (print_spec name kind key) = Inr (Some (kind, key))"
proof -
  obtain k ks where key: "key = k # ks" using assms(2) by (cases key) auto
  have "find_next_part (print_spec name kind key) = Some (source_name kind @ '':'' @ key)"
    using strchr_append [OF assms(1), of "source_name kind @ '':'' @ key"] by (simp add: find_next_part_def print_spec_def)
  moreover have "get_next_part (Some (source_name kind @ '':'' @ key)) [] CHR '':'' = Inr (Some key, source_name kind)"
    by (cases kind) (simp_all add: get_next_part_def)
  moreover have "get_next_part (Some key) [] CHR '';'' = Inr (None, key)"
    using key assms(3,4) strchr_none [of "CHR '';''" ks] by (simp add: get_next_part_def)
  moreover have "kind_of_source (source_name kind) = Some kind" by (cases kind) (simp_all add: kind_of_source_def)
  ultimately show ?thesis using assms(2) by (cases kind) (simp_all add: parse_spec_def)
qed

section \<open>Properties\<close>

definition sh_example :: shamon where
  "sh_example = \<lparr>sh_buffers = [ar_example, ar_example], sh_threads = 2, sh_process_events = None,
     sh_ev = ev_example 3, sh_ev_size = 24, sh_next = 1\<rparr>"

lemma sh_example_ok: "sh_ok sh_example"
proof -
  have "pq_capacity (ar_buffer ar_example) = 3" "pq_elem_size (ar_buffer ar_example) = 24" "ar_active ar_example"
    by (simp_all add: ar_example_def pq_example_def)
  moreover have "length (ev_example 3) = 24" by (simp add: ev_example_def mk_event_def)
  ultimately show ?thesis using ar_example_facts by (simp add: sh_ok_def sh_example_def servable_def ev_example_def)
qed





text \<open>
  C22: the specification of a stream on the command line is read as it is written: from
  \<open>name:kind:key\<close>, where \<open>name\<close> has no colon and \<open>key\<close> is not empty, shorter than 256 characters and without a
  semicolon (after its first character), come the kind and the key.
\<close>

theorem stream_spec_roundtrip:
  assumes "CHR '':'' \<notin> set name" and "key \<noteq> []" and "CHR '';'' \<notin> set (tl key)" and "length key < 256"
  shows "parse_spec (print_spec name kind key) = Inr (Some (kind, key))"
  by (rule parse_print_spec [OF assms])

theorem stream_spec_roundtrip_witness: "parse_spec ''left:regexrw:/key'' = Inr (Some (Regexrw, ''/key''))"
  using stream_spec_roundtrip [of "''left''" "''/key''" Regexrw] by (simp add: print_spec_def)

text \<open>
  C21: adding a stream under a new name keeps the state of the library well-formed: the new buffer is empty, active,
  the last one, and events of every stream still fit into the memory for the next event. (The
  allocations succeed, the sizes do not overflow and there are fewer than ten buffers.)
\<close>

theorem shamon_add_stream_wf:
  assumes "sh_ok s" and "length (sh_ev s) = unat (sh_ev_size s)" "16 \<le> length (sh_ev s)"
    and "st_name stream \<notin> st_name ` set (shamon_get_streams s)" and "length (sh_buffers s) < 10"
    and "malloc_ok malloc" "realloc_ok realloc"
    and "3 \<le> c" "unat c + 3 < 18446744073709551616" "(unat c + 1) * unat (room_for stream) < 18446744073709551616"
    and "16 \<le> unat (hh_size (st_hole_handling stream))"
  shows "\<exists>s' ar. shamon_add_stream malloc realloc mem s stream c = Inr s' \<and> sh_ok s' \<and> sh_buffers s' = sh_buffers s @ [ar] \<and>
    ar_elems ar = [] \<and> st_name (ar_stream ar) = st_name stream \<and> length (sh_ev s') = unat (sh_ev_size s') \<and> sh_ev_size s \<le> sh_ev_size s'"
  by (rule shamon_add_stream_ok [OF assms])

definition new_stream_example :: shm_stream where
  "new_stream_example = st_example\<lparr>st_name := ''another'', st_event_size := 40, st_hole_handling := default_hole_handling\<rparr>"

theorem shamon_add_stream_wf_witness:
  "\<exists>s' ar. shamon_add_stream (\<lambda>n. Some (replicate (unat n) 0)) (\<lambda>old n. take (unat n) (old @ replicate (unat n) 0))
      ar_example sh_example new_stream_example 5 = Inr s' \<and> sh_ok s' \<and> sh_buffers s' = [ar_example, ar_example, ar]"
proof -
  have "malloc_ok (\<lambda>n. Some (replicate (unat n) 0))" by (simp add: malloc_ok_def)
  moreover have "realloc_ok (\<lambda>old n. take (unat n) (old @ replicate (unat n) 0))" by (simp add: realloc_ok_def)
  moreover have "st_name (ar_stream ar_example) \<noteq> st_name new_stream_example"
    by (simp add: ar_example_def st_example_def new_stream_example_def)
  moreover have "room_for new_stream_example = 40" "16 \<le> unat (hh_size (st_hole_handling new_stream_example))"
    by (simp_all add: room_for_def new_stream_example_def default_hole_handling_def SIZEOF_DEFAULT_HOLE_def)
  moreover have "length (ev_example 3) = 24" by (simp add: ev_example_def mk_event_def)
  ultimately show ?thesis
    using shamon_add_stream_wf [OF sh_example_ok, of new_stream_example "\<lambda>n. Some (replicate (unat n) 0)"
        "\<lambda>old n. take (unat n) (old @ replicate (unat n) 0)" 5 ar_example]
    by (auto simp: shamon_get_streams_def sh_example_def)
qed

section \<open>Findings\<close>

text \<open>The hole event for dropped events keeps the kind of whatever was in the memory before it.\<close>

lemma hole_keeps_old_kind:
  assumes "shm_stream_prepare_hole_event ev i = Inr ev'" and "16 \<le> length ev"
  shows "ev_kind ev' = ev_kind ev"
  using assms kind_of_hole [of ev i] by (auto simp: shm_stream_prepare_hole_event_def split: if_splits)

text \<open>A buffer that is not active stops the round: \<open>continue\<close> does not advance the counter.\<close>

lemma inactive_buffer_stops_round:
  assumes "sh_next s < length (sh_buffers s)" and "\<not> ar_active (sh_buffers s ! sh_next s)"
  shows "process_loop (replicate n id) s = Inr (Waiting, s)"
  using assms
  by (induction n) (subst process_loop.simps; simp add: Let_def shm_arbiter_buffer_active_def)+

text \<open>A stream takes the specification of any stream whose name it is a prefix of.\<close>

lemma get_spec_prefix: "get_spec ''left'' [''monitor'', ''leftover:regex:/a'', ''left:regex:/b''] = Some ''leftover:regex:/a''"
  by (simp add: get_spec_def)

text \<open>A key of 256 characters or more is written past the end of the array.\<close>

lemma long_key_overruns:
  assumes "256 \<le> length key" and "strchr (tl key) CHR '';'' = None"
  shows "get_next_part (Some key) out CHR '';'' = Inl (UB ''write out of bounds'')"
  using assms by (cases key) (auto simp: get_next_part_def)

end
