(* ===== verification/Tsan_Source.thy ===== *)
theory Tsan_Source
  imports Shm_Files Linked_Lists
begin

text \<open>
  The source of the data race detector: the runtime in \<open>sources/tsan/tsan_impl.c\<close> that programs
  instrumented with ThreadSanitizer's pass call. Every thread of the program has a buffer of its own, main
  the top buffer and every other thread a sub-buffer of it; events carry an id that counts the events of the
  thread and a timestamp from a counter that all threads share. A step is the call of one function:
  what a thread does in it touches its own buffer, its own variables, the two atomic counters (once) and the
  list of threads. (The list is not protected against concurrent calls, see the findings.)
  Pointers to buffers and to thread data are addresses that are never reused; what \<open>malloc\<close> returns and the
  contents of new memory are arguments. The node of the list in the thread data at the address \<open>a\<close> has the
  address \<open>a\<close>, too; \<open>data_list\<close> has the address 0.
\<close>

section \<open>State\<close>

record vrd_thread_data =
  vd_data :: nat
  vd_thread_id :: uint64_t
  vd_std_thread_id :: uint64_t
  vd_shmbuf :: ptr
  vd_exited :: bool

record thread_data =
  td_thread_id :: size_t
  td_last_id :: shm_eventid
  td_shmbuf :: ptr
  td_data :: ptr
  td_waited_for_buffer :: size_t

record vrd =
  vr_last_thread_id :: size_t
  vr_timestamp :: size_t
  vr_top_shmbuf :: ptr
  vr_top_control :: source_control
  vr_event_kinds :: "uint64_t list"
  vr_bufs :: "nat \<Rightarrow> buffer option"
  vr_datas :: "nat \<Rightarrow> vrd_thread_data option"
  vr_list :: eheap
  vr_locals :: "nat \<Rightarrow> thread_data"
  vr_fs :: shm_fs

datatype vrd_event = EV_READ | EV_WRITE | EV_ATOMIC_READ | EV_ATOMIC_WRITE | EV_LOCK | EV_UNLOCK | EV_ALLOC | EV_FREE | EV_FORK | EV_JOIN

primrec ev_index :: "vrd_event \<Rightarrow> nat" where
  "ev_index EV_READ = 0"
| "ev_index EV_WRITE = 1"
| "ev_index EV_ATOMIC_READ = 2"
| "ev_index EV_ATOMIC_WRITE = 3"
| "ev_index EV_LOCK = 4"
| "ev_index EV_UNLOCK = 5"
| "ev_index EV_ALLOC = 6"
| "ev_index EV_FREE = 7"
| "ev_index EV_FORK = 8"
| "ev_index EV_JOIN = 9"

definition EVENTS_NUM :: nat where
  "EVENTS_NUM = 10"

definition vrd_start :: "shm_fs \<Rightarrow> source_control \<Rightarrow> vrd" where
  "vrd_start fs control =
     \<lparr>vr_last_thread_id = 1, vr_timestamp = 1, vr_top_shmbuf = None, vr_top_control = control,
      vr_event_kinds = replicate EVENTS_NUM 0, vr_bufs = Map.empty, vr_datas = Map.empty,
      vr_list = [0 \<mapsto> \<lparr>ln_next = Some 0, ln_prev = Some 0, ln_data = ()\<rparr>],
      vr_locals = (\<lambda>_. \<lparr>td_thread_id = 0, td_last_id = 0, td_shmbuf = None, td_data = None, td_waited_for_buffer = 0\<rparr>),
      vr_fs = fs\<rparr>"

definition buf_at :: "vrd \<Rightarrow> ptr \<Rightarrow> buffer res" where
  "buf_at s p =
     (case p of
        None \<Rightarrow> Inl (UB ''NULL dereference'')
      | Some a \<Rightarrow> (case vr_bufs s a of None \<Rightarrow> Inl (UB ''dangling pointer'') | Some b \<Rightarrow> Inr b))"

definition data_at :: "vrd \<Rightarrow> ptr \<Rightarrow> vrd_thread_data res" where
  "data_at s p =
     (case p of
        None \<Rightarrow> Inl (UB ''NULL dereference'')
      | Some a \<Rightarrow> (case vr_datas s a of None \<Rightarrow> Inl (UB ''dangling pointer'') | Some d \<Rightarrow> Inr d))"

definition set_buf :: "vrd \<Rightarrow> ptr \<Rightarrow> buffer \<Rightarrow> vrd" where
  "set_buf s p b = (case p of None \<Rightarrow> s | Some a \<Rightarrow> s\<lparr>vr_bufs := (vr_bufs s)(a \<mapsto> b)\<rparr>)"

definition set_local :: "vrd \<Rightarrow> nat \<Rightarrow> thread_data \<Rightarrow> vrd" where
  "set_local s t td = s\<lparr>vr_locals := (vr_locals s)(t := td)\<rparr>"

section \<open>Initialisation\<close>

definition vrd_event_specs :: "(string \<times> string) list" where
  "vrd_event_specs =
     [(''read'', ''tl''), (''write'', ''tl''), (''atomicread'', ''tl''), (''atomicwrite'', ''tl''), (''lock'', ''tl''),
      (''unlock'', ''tl''), (''alloc'', ''tll''), (''free'', ''tl''), (''fork'', ''tl''), (''join'', ''tl'')]"

text \<open>
  \<open>__tsan_init\<close>. The result of waiting for the monitor is ignored; \<open>None\<close> stands for still waiting.
\<close>

definition tsan_init ::
    "(size_t \<Rightarrow> event_record list option) \<Rightarrow> os \<Rightarrow> os \<Rightarrow> client_round list \<Rightarrow> int option \<Rightarrow> nat \<Rightarrow> vrd \<Rightarrow> (unit waiting \<times> vrd) res" where
  "tsan_init malloc os os' rounds last_sleep a s =
     bindE (source_control_define malloc (of_nat EVENTS_NUM) vrd_event_specs) (\<lambda>control.
     bindE (create_shared_buffer os os' (vr_fs s) ''/vrd'' 512 control) (\<lambda>(b, fs).
     case b of None \<Rightarrow> Inl (Assertion ''top_shmbuf'') | Some b \<Rightarrow>
     let s = set_buf (s\<lparr>vr_top_control := control, vr_top_shmbuf := Some a, vr_fs := fs\<rparr>) (Some a) b in
     case buffer_wait_for_monitor rounds last_sleep b of
       Waiting \<Rightarrow> Inr (Waiting, s)
     | Returned (_, b) \<Rightarrow>
         let (num, events) = buffer_get_avail_events b in
         assertE (unat num = EVENTS_NUM) ''Invalid number of events''
         (if length events < EVENTS_NUM then Inl (UB ''read out of bounds'')
          else (Inr (Returned (), set_buf (s\<lparr>vr_event_kinds := map er_kind (take EVENTS_NUM events)\<rparr>) (Some a) b)))))"

section \<open>Events\<close>

fun start_push_loop :: "(buffer \<Rightarrow> buffer) list \<Rightarrow> size_t \<Rightarrow> buffer \<Rightarrow> (size_t waiting \<times> size_t \<times> buffer) res" where
  "start_push_loop env waited b =
     bindE (buffer_start_push b) (\<lambda>(p, b).
     case p of
       Some a \<Rightarrow> Inr (Returned a, waited, b)
     | None \<Rightarrow> (case env of [] \<Rightarrow> Inr (Waiting, waited, b) | act # env \<Rightarrow> start_push_loop env (waited + 1) (act b)))"

declare start_push_loop.simps [simp del]

definition write64 :: "buffer \<Rightarrow> size_t \<Rightarrow> uint64_t \<Rightarrow> buffer res" where
  "write64 b p x = bindE (mem_write (sb_data (bf_shm b)) (unat p) (le64 x)) (\<lambda>d. Inr (set_data b d))"

text \<open>The waiting of \<open>start_event\<close> takes the actions of the monitor on the buffer meanwhile.\<close>

definition start_event :: "(buffer \<Rightarrow> buffer) list \<Rightarrow> nat \<Rightarrow> vrd_event \<Rightarrow> vrd \<Rightarrow> (size_t waiting \<times> vrd) res" where
  "start_event env t ty s =
     (let td = vr_locals s t; shm = td_shmbuf td in
      bindE (buf_at s shm) (\<lambda>b.
      bindE (start_push_loop env (td_waited_for_buffer td) b) (\<lambda>(r, waited, b).
      let td = td\<lparr>td_waited_for_buffer := waited\<rparr> in
      case r of
        Waiting \<Rightarrow> Inr (Waiting, set_buf (set_local s t td) shm b)
      | Returned ev \<Rightarrow>
          let td = td\<lparr>td_last_id := td_last_id td + 1\<rparr> in
          bindE (write64 b (ev + 8) (td_last_id td)) (\<lambda>b.
          if \<not> ev_index ty < length (vr_event_kinds s) then Inl (UB ''read out of bounds'')
          else (bindE (write64 b ev (vr_event_kinds s ! ev_index ty)) (\<lambda>b.
           let ts = vr_timestamp s in
           bindE (buffer_partial_push b (ev + 16) (le64 ts) 8) (\<lambda>(mem, b).
           Inr (Returned mem, set_buf ((set_local s t td)\<lparr>vr_timestamp := ts + 1\<rparr>) shm b))))))))"

text \<open>The body the functions for accesses, locks, forks and joins share.\<close>

definition emit_event :: "(buffer \<Rightarrow> buffer) list \<Rightarrow> nat \<Rightarrow> vrd_event \<Rightarrow> uint64_t \<Rightarrow> vrd \<Rightarrow> (unit waiting \<times> vrd) res" where
  "emit_event env t ty arg s =
     (let shm = td_shmbuf (vr_locals s t) in
      bindE (start_event env t ty s) (\<lambda>(r, s).
      case r of
        Waiting \<Rightarrow> Inr (Waiting, s)
      | Returned mem \<Rightarrow>
          bindE (buf_at s shm) (\<lambda>b.
          bindE (buffer_partial_push b mem (le64 arg) 8) (\<lambda>(_, b).
          bindE (buffer_finish_push b) (\<lambda>b.
          Inr (Returned (), set_buf s shm b))))))"

type_synonym vrd_hook = "(buffer \<Rightarrow> buffer) list \<Rightarrow> nat \<Rightarrow> uint64_t \<Rightarrow> vrd \<Rightarrow> (unit waiting \<times> vrd) res"

definition tsan_read1 :: vrd_hook where "tsan_read1 env t addr s = emit_event env t EV_READ addr s"
definition tsan_read2 :: vrd_hook where "tsan_read2 env t addr s = emit_event env t EV_READ addr s"
definition tsan_read4 :: vrd_hook where "tsan_read4 env t addr s = emit_event env t EV_READ addr s"
definition tsan_read8 :: vrd_hook where "tsan_read8 env t addr s = emit_event env t EV_READ addr s"
definition tsan_write1 :: vrd_hook where "tsan_write1 env t addr s = emit_event env t EV_WRITE addr s"
definition tsan_write2 :: vrd_hook where "tsan_write2 env t addr s = emit_event env t EV_WRITE addr s"
definition tsan_write4 :: vrd_hook where "tsan_write4 env t addr s = emit_event env t EV_WRITE addr s"
definition tsan_write8 :: vrd_hook where "tsan_write8 env t addr s = emit_event env t EV_WRITE addr s"
definition tsan_unaligned_write1 :: vrd_hook where "tsan_unaligned_write1 = tsan_write1"
definition tsan_unaligned_write2 :: vrd_hook where "tsan_unaligned_write2 = tsan_write2"
definition tsan_unaligned_write4 :: vrd_hook where "tsan_unaligned_write4 = tsan_write4"
definition tsan_unaligned_write8 :: vrd_hook where "tsan_unaligned_write8 = tsan_write8"
definition vrd_mutex_lock :: vrd_hook where "vrd_mutex_lock env t addr s = emit_event env t EV_LOCK addr s"
definition vrd_mutex_unlock :: vrd_hook where "vrd_mutex_unlock env t addr s = emit_event env t EV_UNLOCK addr s"

text \<open>\<open>__tsan_atomic32_fetch_add\<close>: the old value and the new one; no event.\<close>

definition tsan_atomic32_fetch_add :: "32 word \<Rightarrow> 32 word \<Rightarrow> 32 word \<times> 32 word" where
  "tsan_atomic32_fetch_add x val = (x, x + val)"

section \<open>Threads\<close>

definition vrd_create_thrd ::
    "os \<Rightarrow> os \<Rightarrow> nat option \<Rightarrow> vrd_thread_data \<Rightarrow> nat \<Rightarrow> nat \<Rightarrow> vrd \<Rightarrow> (nat \<times> vrd) res" where
  "vrd_create_thrd os os' block mem q original_data s =
     (let tid = vr_last_thread_id s; s = s\<lparr>vr_last_thread_id := tid + 1\<rparr> in
      case block of None \<Rightarrow> Inl (Assertion ''Allocation failed'') | Some a \<Rightarrow>
      bindE (buf_at s (vr_top_shmbuf s)) (\<lambda>top_buf.
      bindE (create_shared_sub_buffer os os' (vr_fs s) top_buf 0 (vr_top_control s)) (\<lambda>(sbuf, top_buf, fs).
      case sbuf of None \<Rightarrow> Inl (Assertion ''Failed creating buffer'') | Some sbuf \<Rightarrow>
      let s = set_buf (set_buf s (vr_top_shmbuf s) top_buf) (Some q) sbuf;
          d = mem\<lparr>vd_data := original_data, vd_thread_id := tid, vd_exited := False, vd_shmbuf := Some q\<rparr> in
      bindE (shm_list_embedded_insert_after ((vr_list s)(a \<mapsto> \<lparr>ln_next = None, ln_prev = None, ln_data = ()\<rparr>)) (Some 0) (Some a)) (\<lambda>l.
      Inr (a, s\<lparr>vr_datas := (vr_datas s)(a \<mapsto> d), vr_list := l, vr_fs := fs\<rparr>)))))"

definition vrd_thrd_created :: "(buffer \<Rightarrow> buffer) list \<Rightarrow> nat \<Rightarrow> nat \<Rightarrow> uint64_t \<Rightarrow> vrd \<Rightarrow> (unit waiting \<times> vrd) res" where
  "vrd_thrd_created env t a std_tid s =
     assertE (td_shmbuf (vr_locals s t) \<noteq> None) ''Do not have SHM buffer''
     (bindE (data_at s (Some a)) (\<lambda>d.
      bindE (emit_event env t EV_FORK (vd_thread_id d) s) (\<lambda>(r, s).
      case r of
        Waiting \<Rightarrow> Inr (Waiting, s)
      | Returned _ \<Rightarrow>
          bindE (data_at s (Some a)) (\<lambda>d.
          Inr (Returned (), s\<lparr>vr_datas := (vr_datas s)(a \<mapsto> d\<lparr>vd_std_thread_id := std_tid\<rparr>)\<rparr>)))))"

definition vrd_thrd_entry :: "nat \<Rightarrow> ptr \<Rightarrow> vrd \<Rightarrow> (nat option \<times> vrd) res" where
  "vrd_thrd_entry t data s =
     (let td = (vr_locals s t)\<lparr>td_waited_for_buffer := 0, td_last_id := 0, td_data := data\<rparr> in
      case data of
        None \<Rightarrow> Inr (None, set_local s t (td\<lparr>td_thread_id := 0, td_shmbuf := vr_top_shmbuf s\<rparr>))
      | Some a \<Rightarrow>
          bindE (data_at s (Some a)) (\<lambda>d.
          assertE (vd_shmbuf d \<noteq> None) ''Do not have SHM buffer''
          (Inr (Some (vd_data d), set_local s t (td\<lparr>td_thread_id := vd_thread_id d, td_shmbuf := vd_shmbuf d\<rparr>)))))"

text \<open>Destroying a buffer frees its handle.\<close>

definition free_buf :: "vrd \<Rightarrow> ptr \<Rightarrow> vrd" where
  "free_buf s p = (case p of None \<Rightarrow> s | Some a \<Rightarrow> s\<lparr>vr_bufs := (vr_bufs s)(a := None)\<rparr>)"

definition vrd_thrd_exit :: "os \<Rightarrow> size_t \<Rightarrow> nat \<Rightarrow> vrd \<Rightarrow> vrd res" where
  "vrd_thrd_exit os pg_size t s =
     (let td = vr_locals s t; shm = td_shmbuf td in
      bindE (case td_data td of None \<Rightarrow> Inr s
             | Some a \<Rightarrow> bindE (data_at s (Some a)) (\<lambda>d. Inr (s\<lparr>vr_datas := (vr_datas s)(a \<mapsto> d\<lparr>vd_exited := True\<rparr>)\<rparr>))) (\<lambda>s.
      bindE (buf_at s shm) (\<lambda>b.
      bindE (if shm = vr_top_shmbuf s then destroy_shared_buffer os pg_size (vr_fs s) b
             else destroy_shared_sub_buffer pg_size (vr_fs s) b) (\<lambda>fs.
      Inr (free_buf (s\<lparr>vr_fs := fs\<rparr>) shm)))))"

text \<open>The search of the list (\<open>None\<close>: not enough fuel), and the calls around \<open>join\<close>.\<close>

primrec get_data_loop :: "nat \<Rightarrow> vrd \<Rightarrow> uint64_t \<Rightarrow> ptr \<Rightarrow> nat option res option" where
  "get_data_loop 0 s std_tid pos = None"
| "get_data_loop (Suc fuel) s std_tid pos =
     (if pos = Some 0 then Some (Inr None)
      else case bindE (data_at s pos) (\<lambda>d. bindE (deref (vr_list s) pos) (\<lambda>n. Inr (d, n))) of
        Inl e \<Rightarrow> Some (Inl e)
      | Inr (d, n) \<Rightarrow>
          if vd_std_thread_id d = std_tid then Some (Inr pos) else get_data_loop fuel s std_tid (ln_next n))"

definition get_data :: "nat \<Rightarrow> vrd \<Rightarrow> uint64_t \<Rightarrow> nat option res option" where
  "get_data fuel s std_tid =
     (case deref (vr_list s) (Some 0) of Inl e \<Rightarrow> Some (Inl e) | Inr n \<Rightarrow> get_data_loop fuel s std_tid (ln_next n))"

definition vrd_thrd_join :: "nat \<Rightarrow> vrd \<Rightarrow> uint64_t \<Rightarrow> nat option res option" where
  "vrd_thrd_join fuel s tid = get_data fuel s tid"

definition vrd_thrd_joined :: "(buffer \<Rightarrow> buffer) list \<Rightarrow> nat \<Rightarrow> nat \<Rightarrow> vrd \<Rightarrow> (unit waiting \<times> vrd) res" where
  "vrd_thrd_joined env t a s =
     bindE (data_at s (Some a)) (\<lambda>d.
     bindE (emit_event env t EV_JOIN (vd_thread_id d) s) (\<lambda>(r, s).
     case r of
       Waiting \<Rightarrow> Inr (Waiting, s)
     | Returned _ \<Rightarrow>
         bindE (shm_list_embedded_remove (vr_list s) (Some a)) (\<lambda>l.
         Inr (Returned (), s\<lparr>vr_list := l(a := None), vr_datas := (vr_datas s)(a := None)\<rparr>))))"

section \<open>The end\<close>

text \<open>The threads that have not been joined, and the handler of fatal signals.\<close>

primrec fini_loop :: "nat \<Rightarrow> size_t \<Rightarrow> ptr \<Rightarrow> vrd \<Rightarrow> vrd res option" where
  "fini_loop 0 pg_size pos s = None"
| "fini_loop (Suc fuel) pg_size pos s =
     (if pos = Some 0 then Some (Inr s)
      else case bindE (deref (vr_list s) pos) (\<lambda>n.
          bindE (data_at s pos) (\<lambda>d.
          bindE (if vd_exited d then Inr s
                 else bindE (buf_at s (vd_shmbuf d)) (\<lambda>b.
                   bindE (destroy_shared_sub_buffer pg_size (vr_fs s) b) (\<lambda>fs.
                   Inr (free_buf (s\<lparr>vr_fs := fs\<rparr>) (vd_shmbuf d))))) (\<lambda>s.
          let s = (case pos of None \<Rightarrow> s | Some a \<Rightarrow> s\<lparr>vr_datas := (vr_datas s)(a := None), vr_list := (vr_list s)(a := None)\<rparr>) in
          Inr (ln_next n, s)))) of
        Inl e \<Rightarrow> Some (Inl e)
      | Inr (pos, s) \<Rightarrow> fini_loop fuel pg_size pos s)"

definition vrd_fini :: "nat \<Rightarrow> size_t \<Rightarrow> vrd \<Rightarrow> vrd res option" where
  "vrd_fini fuel pg_size s =
     (case deref (vr_list s) (Some 0) of Inl e \<Rightarrow> Some (Inl e) | Inr n \<Rightarrow> fini_loop fuel pg_size (ln_next n) s)"

definition sig_handler :: "os \<Rightarrow> size_t \<Rightarrow> vrd \<Rightarrow> vrd res" where
  "sig_handler os pg_size s =
     (if vr_top_shmbuf s = None then Inr s
      else bindE (buf_at s (vr_top_shmbuf s)) (\<lambda>b.
        bindE (destroy_shared_buffer os pg_size (vr_fs s) b) (\<lambda>fs.
        Inr ((free_buf (s\<lparr>vr_fs := fs\<rparr>) (vr_top_shmbuf s))\<lparr>vr_top_shmbuf := None\<rparr>))))"

end
