(* ===== verification/Tsan_Threads.thy ===== *)
theory Tsan_Threads
  imports Tsan_Source
begin

text \<open>
  The threads of an instrumented program with the runtime of \<open>Tsan_Source\<close>: what one event does to a buffer, the
  interleavings of the calls of all threads with the monitor (\<open>vrd_step\<close>, \<open>vrd_reach\<close>), the invariant of the reachable
  states, and from it the order of ids and timestamps, that the functions never fail, and what forks and joins report.
\<close>

section \<open>One event\<close>

text \<open>What the monitor does to a buffer: it takes elements from the front.\<close>

definition consumed :: "buffer \<Rightarrow> buffer \<Rightarrow> bool" where
  "consumed b b' \<longleftrightarrow> bf_live b' \<and> sb_capacity (bf_shm b') = sb_capacity (bf_shm b) \<and>
     sb_elem_size (bf_shm b') = sb_elem_size (bf_shm b) \<and> (\<exists>k. bf_elems b' = drop k (bf_elems b))"

definition monitor_act :: "(buffer \<Rightarrow> buffer) \<Rightarrow> bool" where
  "monitor_act f \<longleftrightarrow> (\<forall>b. bf_live b \<longrightarrow> consumed b (f b))"

lemma consumed_refl: "bf_live b \<Longrightarrow> consumed b b"
  by (auto simp: consumed_def intro: exI [of _ 0])

lemma consumed_trans: "consumed a b \<Longrightarrow> consumed b c \<Longrightarrow> consumed a c"
  by (auto simp: consumed_def)

lemma start_push_consumed:
  assumes "bf_live b" and "buffer_start_push b = Inr (p, b1)"
  shows "consumed b b1"
proof -
  obtain p' b2 where s: "buffer_start_push b = Inr (p', b2)" "\<exists>rb. b2 = set_ringbuf b rb" "bf_live b2" "bf_elems b2 = bf_elems b"
    using buffer_start_push_ok [OF assms(1)] by (elim exE conjE) (rule that, assumption+, blast, assumption+)
  then have "b1 = b2" using assms(2) by simp
  then show ?thesis using s by (auto simp: consumed_def intro: exI [of _ 0])
qed

lemma start_push_loop_ok:
  assumes "bf_live b" and "list_all monitor_act env"
  shows "\<exists>r w b'. start_push_loop env w0 b = Inr (r, w, b') \<and>
    (length (bf_elems b) < unat (sb_capacity (bf_shm b)) \<longrightarrow> r \<noteq> Waiting) \<and>
    (case r of Waiting \<Rightarrow> consumed b b' | Returned a \<Rightarrow> \<exists>b2. consumed b b2 \<and> buffer_start_push b2 = Inr (Some a, b'))"
  using assms
proof (induction env arbitrary: b w0)
  case (Cons act env)
  obtain p b1 where p: "buffer_start_push b = Inr (p, b1)" and room: "length (bf_elems b) < unat (sb_capacity (bf_shm b)) \<Longrightarrow> p \<noteq> None"
    using buffer_start_push_ok [OF Cons.prems(1)] by (auto split: option.splits)
  show ?case
  proof (cases p)
    case None
    have c: "consumed b b1" by (rule start_push_consumed [OF Cons.prems(1) p])
    then have "consumed b1 (act b1)" using Cons.prems(2) by (simp add: monitor_act_def consumed_def)
    then have c2: "consumed b (act b1)" using c consumed_trans by blast
    obtain r w b' where r: "start_push_loop env (w0 + 1) (act b1) = Inr (r, w, b')"
        "case r of Waiting \<Rightarrow> consumed (act b1) b' | Returned a \<Rightarrow> \<exists>b2. consumed (act b1) b2 \<and> buffer_start_push b2 = Inr (Some a, b')"
      using Cons.IH [of "act b1" "w0 + 1"] c2 Cons.prems(2) by (auto simp: consumed_def)
    then have "case r of Waiting \<Rightarrow> consumed b b' | Returned a \<Rightarrow> \<exists>b2. consumed b b2 \<and> buffer_start_push b2 = Inr (Some a, b')"
      using consumed_trans [OF c2] by (cases r) auto
    then show ?thesis using r(1) p None room by (subst start_push_loop.simps) auto
  next
    case (Some a)
    then show ?thesis using p consumed_refl [OF Cons.prems(1)] by (subst start_push_loop.simps) auto
  qed
next
  case Nil
  obtain p b1 where p: "buffer_start_push b = Inr (p, b1)" and room: "length (bf_elems b) < unat (sb_capacity (bf_shm b)) \<Longrightarrow> p \<noteq> None"
    using buffer_start_push_ok [OF Nil.prems(1)] by (auto split: option.splits)
  then show ?case using consumed_refl [OF Nil.prems(1)] start_push_consumed [OF Nil.prems(1) p]
    by (subst start_push_loop.simps) (auto split: option.splits)
qed

lemma mem_upd_reversed:
  assumes "off + length x + length y \<le> length d"
  shows "mem_upd (mem_upd d (off + length x) y) off x = mem_upd d off (x @ y)"
  using assms by (simp add: mem_upd_def ac_simps)

lemma event_push:
  assumes live: "bf_live b" and es: "32 \<le> unat (sb_elem_size (bf_shm b))" and p: "buffer_start_push b = Inr (Some a, b1)"
  shows "\<exists>b2 b3 b4 b5 b6 pad. write64 b1 (a + 8) i = Inr b2 \<and> write64 b2 a k = Inr b3 \<and>
    buffer_partial_push b3 (a + 16) (le64 ts) 8 = Inr (a + 24, b4) \<and> buffer_partial_push b4 (a + 24) (le64 arg) 8 = Inr (a + 32, b5) \<and>
    buffer_finish_push b5 = Inr b6 \<and> bf_live b6 \<and> sb_capacity (bf_shm b6) = sb_capacity (bf_shm b) \<and>
    sb_elem_size (bf_shm b6) = sb_elem_size (bf_shm b) \<and> bf_elems b6 = bf_elems b @ [mk_event k i (le64 ts @ le64 arg @ pad)]"
proof -
  let ?xs = "[le64 k @ le64 i, le64 ts, le64 arg]"
  have l: "list_all (\<lambda>x. x \<noteq> []) ?xs" by (simp flip: length_greater_0_conv)
  have len: "length (concat ?xs) = 32" by simp
  define flag where "flag = (length (bf_elems b) < unat (sb_capacity (bf_shm b)))"
  have t: "take (unat (32 :: size_t)) (concat ?xs) = concat ?xs" using len by simp
  have "(32 :: size_t) \<le> sb_elem_size (bf_shm b)" "unat (32 :: size_t) \<le> length (concat ?xs)"
    using es len by (simp_all add: word_le_nat_alt)
  from buffer_push_ok [OF live this] obtain b6 pad where b6: "buffer_push b (concat ?xs) 32 = Inr (flag, b6)"
     "bf_live b6" "sb_capacity (bf_shm b6) = sb_capacity (bf_shm b)" "sb_elem_size (bf_shm b6) = sb_elem_size (bf_shm b)"
     "bf_elems b6 = (if flag then bf_elems b @ [concat ?xs @ pad] else bf_elems b)"
    unfolding t flag_def [symmetric] by (elim exE conjE) (rule that)
  have "push_in_steps b ?xs = Inr (flag, b6)" using push_in_steps_eq [OF live l] es b6(1) len by simp
  then have f: flag and "bindE (partial_pushes b1 a ?xs) buffer_finish_push = Inr b6" using p by (auto simp: push_in_steps_def)
  then obtain p1 b3 p2 b4 p3 b5 where s: "buffer_partial_push b1 a (le64 k @ le64 i) 16 = Inr (p1, b3)"
      "buffer_partial_push b3 p1 (le64 ts) 8 = Inr (p2, b4)" "buffer_partial_push b4 p2 (le64 arg) 8 = Inr (p3, b5)"
      "buffer_finish_push b5 = Inr b6"
    by auto
  have ps: "p1 = a + 16" "p2 = a + 24" "p3 = a + 32" using s(1-3) by (auto simp: buffer_partial_push_def)
  let ?D = "sb_data (bf_shm b1)"
  have b3: "b3 = set_data b1 (mem_upd ?D (unat a) (le64 k @ le64 i))" "unat a + 16 \<le> length ?D"
    using s(1) by (auto simp: buffer_partial_push_def set_data_def mem_write_def split: if_splits)
  have big: "unat a + 16 < 18446744073709551616" using s(1) unat_less_2p64 [of "buff_end b1"] by (auto simp: buffer_partial_push_def)
  then have a8: "unat (a + 8) = unat a + 8" by (simp add: unat_add_64)
  have "write64 b1 (a + 8) i = Inr (set_data b1 (mem_upd ?D (unat a + 8) (le64 i)))" using a8 b3(2) by (simp add: write64_def)
  moreover have "write64 (set_data b1 (mem_upd ?D (unat a + 8) (le64 i))) a k = Inr b3"
    using b3 mem_upd_reversed [of "unat a" "le64 k" "le64 i" ?D] by (simp add: write64_def)
  ultimately show ?thesis using s ps b6 f by (auto simp: mk_event_def)
qed

definition ev_ts :: "byte list \<Rightarrow> uint64_t" where
  "ev_ts x = of_le (take 8 (drop 16 x))"

definition ev_arg :: "byte list \<Rightarrow> uint64_t" where
  "ev_arg x = of_le (take 8 (drop 24 x))"

definition vrd_event_bytes :: "vrd \<Rightarrow> nat \<Rightarrow> vrd_event \<Rightarrow> uint64_t \<Rightarrow> byte list \<Rightarrow> byte list" where
  "vrd_event_bytes s t ty arg pad =
     mk_event (vr_event_kinds s ! ev_index ty) (td_last_id (vr_locals s t) + 1) (le64 (vr_timestamp s) @ le64 arg @ pad)"

lemma vrd_event_bytes_fields [simp]:
  "ev_kind (vrd_event_bytes s t ty arg pad) = vr_event_kinds s ! ev_index ty"
  "ev_id (vrd_event_bytes s t ty arg pad) = td_last_id (vr_locals s t) + 1"
  "ev_ts (vrd_event_bytes s t ty arg pad) = vr_timestamp s"
  "ev_arg (vrd_event_bytes s t ty arg pad) = arg"
  by (simp_all add: vrd_event_bytes_def mk_event_def ev_kind_def ev_id_def ev_ts_def ev_arg_def)

text \<open>The state after an event of the thread \<open>t\<close>, whose buffer at \<open>p\<close> is \<open>b'\<close> then.\<close>

definition emitted :: "vrd \<Rightarrow> nat \<Rightarrow> nat \<Rightarrow> buffer \<Rightarrow> size_t \<Rightarrow> vrd" where
  "emitted s t p b' w =
     s\<lparr>vr_bufs := (vr_bufs s)(p \<mapsto> b'), vr_timestamp := vr_timestamp s + 1,
       vr_locals := (vr_locals s)(t := (vr_locals s t)\<lparr>td_waited_for_buffer := w, td_last_id := td_last_id (vr_locals s t) + 1\<rparr>)\<rparr>"

definition still_waiting :: "vrd \<Rightarrow> nat \<Rightarrow> nat \<Rightarrow> buffer \<Rightarrow> size_t \<Rightarrow> vrd" where
  "still_waiting s t p b' w =
     s\<lparr>vr_bufs := (vr_bufs s)(p \<mapsto> b'), vr_locals := (vr_locals s)(t := (vr_locals s t)\<lparr>td_waited_for_buffer := w\<rparr>)\<rparr>"

definition good_buf :: "buffer \<Rightarrow> bool" where
  "good_buf b \<longleftrightarrow> bf_live b \<and> 32 \<le> unat (sb_elem_size (bf_shm b))"

definition event_added :: "buffer \<Rightarrow> byte list \<Rightarrow> buffer \<Rightarrow> bool" where
  "event_added b x b' \<longleftrightarrow> bf_live b' \<and> sb_capacity (bf_shm b') = sb_capacity (bf_shm b) \<and>
     sb_elem_size (bf_shm b') = sb_elem_size (bf_shm b) \<and> (\<exists>k. bf_elems b' = drop k (bf_elems b) @ [x])"

lemma emit_event_ok:
  assumes p: "td_shmbuf (vr_locals s t) = Some p" "vr_bufs s p = Some b" "good_buf b"
    and env: "list_all monitor_act env" and ty: "ev_index ty < length (vr_event_kinds s)"
  shows "\<exists>r s' b' w. emit_event env t ty arg s = Inr (r, s') \<and>
    (length (bf_elems b) < unat (sb_capacity (bf_shm b)) \<longrightarrow> r = Returned ()) \<and>
    (case r of Waiting \<Rightarrow> consumed b b' \<and> s' = still_waiting s t p b' w
     | Returned _ \<Rightarrow> (\<exists>pad. event_added b (vrd_event_bytes s t ty arg pad) b') \<and> s' = emitted s t p b' w)"
proof -
  have live: "bf_live b" and es: "32 \<le> unat (sb_elem_size (bf_shm b))" using p(3) by (simp_all add: good_buf_def)
  obtain r w b1 where l: "start_push_loop env (td_waited_for_buffer (vr_locals s t)) b = Inr (r, w, b1)"
      "length (bf_elems b) < unat (sb_capacity (bf_shm b)) \<longrightarrow> r \<noteq> Waiting"
      "case r of Waiting \<Rightarrow> consumed b b1 | Returned a \<Rightarrow> \<exists>b2. consumed b b2 \<and> buffer_start_push b2 = Inr (Some a, b1)"
    using start_push_loop_ok [OF live env] by blast
  have at: "buf_at s (Some p) = Inr b" using p(2) by (simp add: buf_at_def)
  show ?thesis
  proof (cases r)
    case Waiting
    then have "emit_event env t ty arg s = Inr (Waiting, still_waiting s t p b1 w)"
      using l(1) at p(1) by (simp add: emit_event_def start_event_def Let_def set_buf_def set_local_def still_waiting_def)
    then show ?thesis using l(2,3) Waiting by auto
  next
    case (Returned a)
    then obtain b2 where b2: "consumed b b2" "buffer_start_push b2 = Inr (Some a, b1)" using l(3) by auto
    then have "bf_live b2" "32 \<le> unat (sb_elem_size (bf_shm b2))" using es by (simp_all add: consumed_def)
    from event_push [OF this b2(2), of "td_last_id (vr_locals s t) + 1" "vr_event_kinds s ! ev_index ty" "vr_timestamp s" arg]
    obtain c1 c2 c3 c4 c5 pad where c: "write64 b1 (a + 8) (td_last_id (vr_locals s t) + 1) = Inr c1"
        "write64 c1 a (vr_event_kinds s ! ev_index ty) = Inr c2"
        "buffer_partial_push c2 (a + 16) (le64 (vr_timestamp s)) 8 = Inr (a + 24, c3)"
        "buffer_partial_push c3 (a + 24) (le64 arg) 8 = Inr (a + 32, c4)" "buffer_finish_push c4 = Inr c5" "bf_live c5"
        "sb_capacity (bf_shm c5) = sb_capacity (bf_shm b2)" "sb_elem_size (bf_shm c5) = sb_elem_size (bf_shm b2)"
        "bf_elems c5 = bf_elems b2 @ [vrd_event_bytes s t ty arg pad]"
      unfolding vrd_event_bytes_def [symmetric] by (elim exE conjE) (rule that)
    have "emit_event env t ty arg s = Inr (Returned (), emitted s t p c5 w)"
      using l(1) Returned at p(1) c(1-5) ty
      by (simp add: emit_event_def start_event_def Let_def set_buf_def set_local_def emitted_def buf_at_def)
    moreover have "event_added b (vrd_event_bytes s t ty arg pad) c5" using b2(1) c(6-9) by (auto simp: event_added_def consumed_def)
    ultimately show ?thesis by (intro exI [of _ "Returned ()"] exI [of _ "emitted s t p c5 w"] exI [of _ c5] exI [of _ w]) auto
  qed
qed

section \<open>The threads of a program\<close>

text \<open>
  A run: the state of the runtime, the threads that have entered and not exited, the thread data with which a thread
  has entered, the addresses of buffers used so far, and the events that were pushed, each with the
  address of its buffer, in the order in which they were pushed.
\<close>

record vrd_run =
  rn_s :: vrd
  rn_running :: "nat set"
  rn_entered :: "nat set"
  rn_used :: "nat set"
  rn_log :: "(nat \<times> byte list) list"

abbreviation buf_of :: "vrd \<Rightarrow> nat \<Rightarrow> ptr" where
  "buf_of s t \<equiv> td_shmbuf (vr_locals s t)"

definition log_event :: "vrd_run \<Rightarrow> nat \<Rightarrow> vrd \<Rightarrow> vrd_run" where
  "log_event r t s' =
     r\<lparr>rn_s := s', rn_log := rn_log r @ (case buf_of s' t of None \<Rightarrow> [] | Some p \<Rightarrow>
       (case vr_bufs s' p of None \<Rightarrow> [] | Some b \<Rightarrow> [(p, last (bf_elems b))]))\<rparr>"

text \<open>
  The steps: any thread that runs calls a function, or the monitor takes events from a buffer. The
  instrumentation calls the functions as it must: a thread enters once, with data no other has
  entered with, and the data are freed after the thread they belong to has ended.
\<close>

inductive vrd_step :: "vrd_run \<Rightarrow> vrd_run \<Rightarrow> bool" where
  st_emit:
    "t \<in> rn_running r \<Longrightarrow> list_all monitor_act env \<Longrightarrow> emit_event env t ty arg (rn_s r) = Inr (Returned (), s') \<Longrightarrow>
     vrd_step r (log_event r t s')"
| st_create:
    "t \<in> rn_running r \<Longrightarrow> a \<noteq> 0 \<Longrightarrow> a \<notin> dom (vr_datas (rn_s r)) \<Longrightarrow> a \<notin> rn_entered r \<Longrightarrow> q \<notin> rn_used r \<Longrightarrow>
     vrd_create_thrd os os' (Some a) mem q original_data (rn_s r) = Inr (a, s') \<Longrightarrow>
     vrd_step r (r\<lparr>rn_s := s', rn_used := insert q (rn_used r)\<rparr>)"
| st_created:
    "t \<in> rn_running r \<Longrightarrow> list_all monitor_act env \<Longrightarrow> vrd_thrd_created env t a std_tid (rn_s r) = Inr (Returned (), s') \<Longrightarrow>
     vrd_step r (log_event r t s')"
| st_entry:
    "u \<notin> rn_running r \<Longrightarrow> a \<notin> rn_entered r \<Longrightarrow> vrd_thrd_entry u (Some a) (rn_s r) = Inr (x, s') \<Longrightarrow>
     vrd_step r (r\<lparr>rn_s := s', rn_running := insert u (rn_running r), rn_entered := insert a (rn_entered r)\<rparr>)"
| st_exit:
    "t \<in> rn_running r \<Longrightarrow> vrd_thrd_exit os pg_size t (rn_s r) = Inr s' \<Longrightarrow>
     vrd_step r (r\<lparr>rn_s := s', rn_running := rn_running r - {t}\<rparr>)"
| st_joined:
    "t \<in> rn_running r \<Longrightarrow> a \<in> rn_entered r \<Longrightarrow> (\<forall>u \<in> rn_running r. td_data (vr_locals (rn_s r) u) \<noteq> Some a) \<Longrightarrow>
     list_all monitor_act env \<Longrightarrow> vrd_thrd_joined env t a (rn_s r) = Inr (Returned (), s') \<Longrightarrow>
     vrd_step r (log_event r t s')"
| st_monitor:
    "vr_bufs (rn_s r) p = Some b \<Longrightarrow> consumed b b' \<Longrightarrow>
     vrd_step r (r\<lparr>rn_s := (rn_s r)\<lparr>vr_bufs := (vr_bufs (rn_s r))(p \<mapsto> b')\<rparr>\<rparr>)"

text \<open>The state after \<open>__tsan_init\<close>, with the top buffer at \<open>p\<close>, and the runs in which the thread \<open>m\<close> is main.\<close>

definition vrd_ready :: "vrd \<Rightarrow> nat \<Rightarrow> bool" where
  "vrd_ready s p \<longleftrightarrow> vr_timestamp s = 1 \<and> vr_top_shmbuf s = Some p \<and> (\<exists>b. vr_bufs s = [p \<mapsto> b] \<and> good_buf b \<and> bf_elems b = [] \<and>
       (\<exists>es. source_control_max_event_size (vr_top_control s) = Inr es \<and> 32 \<le> unat es \<and> fits es (sb_capacity (bf_shm b)))) \<and>
     control_ok (vr_top_control s) \<and> length (vr_event_kinds s) = EVENTS_NUM \<and> vr_datas s = Map.empty \<and> ring (vr_list s) 0 []"

inductive vrd_reach :: "vrd \<Rightarrow> nat \<Rightarrow> nat \<Rightarrow> vrd_run \<Rightarrow> bool" for s p m where
  reach_main:
    "vrd_ready s p \<Longrightarrow> vrd_thrd_entry m None s = Inr (x, s') \<Longrightarrow>
     vrd_reach s p m \<lparr>rn_s = s', rn_running = {m}, rn_entered = {}, rn_used = {p}, rn_log = []\<rparr>"
| reach_step: "vrd_reach s p m r \<Longrightarrow> vrd_step r r' \<Longrightarrow> vrd_reach s p m r'"

definition sent :: "(nat \<times> byte list) list \<Rightarrow> nat \<Rightarrow> byte list list" where
  "sent log p = map snd (filter (\<lambda>e. fst e = p) log)"

section \<open>The invariant\<close>

text \<open>
  All timestamps are drawn once, in the order of the log; the ids of a buffer's events count from 1;
  a buffer holds the events that were sent to it and not yet taken; a thread that runs has a buffer of its
  own and knows how many events it has sent; the buffers of threads that have not entered yet are
  unused; the list has exactly the thread data.
\<close>

definition log_ok :: "vrd \<Rightarrow> (nat \<times> byte list) list \<Rightarrow> bool" where
  "log_ok s log \<longleftrightarrow> vr_timestamp s = of_nat (Suc (length log)) \<and>
     map (\<lambda>e. ev_ts (snd e)) log = map of_nat [1..<Suc (length log)] \<and>
     (\<forall>q. map ev_id (sent log q) = map of_nat [1..<Suc (length (sent log q))])"

definition bufs_ok :: "vrd \<Rightarrow> (nat \<times> byte list) list \<Rightarrow> bool" where
  "bufs_ok s log \<longleftrightarrow> (\<forall>q b. vr_bufs s q = Some b \<longrightarrow> good_buf b \<and> (\<exists>k. bf_elems b = drop k (sent log q)))"

definition owners_ok :: "vrd \<Rightarrow> nat set \<Rightarrow> (nat \<times> byte list) list \<Rightarrow> bool" where
  "owners_ok s running log \<longleftrightarrow> inj_on (buf_of s) running \<and>
     (\<forall>t \<in> running. \<exists>p. buf_of s t = Some p \<and> p \<in> dom (vr_bufs s) \<and> td_last_id (vr_locals s t) = of_nat (length (sent log p)))"

definition pending :: "vrd \<Rightarrow> nat set \<Rightarrow> nat \<Rightarrow> nat \<Rightarrow> bool" where
  "pending s entered a q \<longleftrightarrow> a \<notin> entered \<and> (\<exists>d. vr_datas s a = Some d \<and> vd_shmbuf d = Some q)"

definition pending_ok :: "vrd \<Rightarrow> nat set \<Rightarrow> nat set \<Rightarrow> (nat \<times> byte list) list \<Rightarrow> bool" where
  "pending_ok s running entered log \<longleftrightarrow>
     (\<forall>a d. vr_datas s a = Some d \<longrightarrow> vd_shmbuf d \<noteq> None) \<and>
     (\<forall>a q. pending s entered a q \<longrightarrow> q \<in> dom (vr_bufs s) \<and> sent log q = [] \<and> Some q \<notin> buf_of s ` running \<and>
        (\<forall>a'. pending s entered a' q \<longrightarrow> a' = a))"

definition used_ok :: "vrd \<Rightarrow> nat set \<Rightarrow> (nat \<times> byte list) list \<Rightarrow> bool" where
  "used_ok s used log \<longleftrightarrow> dom (vr_bufs s) \<subseteq> used \<and> fst ` set log \<subseteq> used \<and> (\<exists>p \<in> used. vr_top_shmbuf s = Some p)"

definition list_ok :: "vrd \<Rightarrow> bool" where
  "list_ok s \<longleftrightarrow> (\<exists>xs. ring (vr_list s) 0 xs \<and> fst ` set xs = dom (vr_datas s))"

definition source_ok :: "vrd \<Rightarrow> bool" where
  "source_ok s \<longleftrightarrow> length (vr_event_kinds s) = EVENTS_NUM \<and> control_ok (vr_top_control s) \<and>
     (\<exists>es. source_control_max_event_size (vr_top_control s) = Inr es \<and> 32 \<le> unat es \<and>
        (\<forall>p b. vr_top_shmbuf s = Some p \<longrightarrow> vr_bufs s p = Some b \<longrightarrow> fits es (sb_capacity (bf_shm b))))"

definition vrd_inv :: "vrd_run \<Rightarrow> bool" where
  "vrd_inv r \<longleftrightarrow> log_ok (rn_s r) (rn_log r) \<and> bufs_ok (rn_s r) (rn_log r) \<and> owners_ok (rn_s r) (rn_running r) (rn_log r) \<and>
     pending_ok (rn_s r) (rn_running r) (rn_entered r) (rn_log r) \<and> used_ok (rn_s r) (rn_used r) (rn_log r) \<and>
     list_ok (rn_s r) \<and> source_ok (rn_s r)"

lemma sent_append [simp]: "sent (log @ [(p, x)]) q = (if q = p then sent log q @ [x] else sent log q)"
  by (simp add: sent_def)

lemma ev_index_less: "ev_index ty < EVENTS_NUM"
  by (cases ty) (simp_all add: EVENTS_NUM_def)

text \<open>A thread that runs has a good buffer.\<close>

lemma running_buf:
  assumes "vrd_inv r" and "t \<in> rn_running r"
  obtains p b where "buf_of (rn_s r) t = Some p" "vr_bufs (rn_s r) p = Some b" "good_buf b"
    "td_last_id (vr_locals (rn_s r) t) = of_nat (length (sent (rn_log r) p))"
  using assms by (force simp: vrd_inv_def owners_ok_def bufs_ok_def)

lemma owner_unique: "vrd_inv r \<Longrightarrow> t \<in> rn_running r \<Longrightarrow> u \<in> rn_running r \<Longrightarrow> buf_of (rn_s r) u = buf_of (rn_s r) t \<Longrightarrow> u = t"
  unfolding vrd_inv_def owners_ok_def by (elim conjE) (rule inj_onD)

lemma event_added_good: "good_buf b \<Longrightarrow> event_added b x b' \<Longrightarrow> good_buf b'"
  by (simp add: good_buf_def event_added_def)

lemma consumed_good: "good_buf b \<Longrightarrow> consumed b b' \<Longrightarrow> good_buf b'"
  by (simp add: good_buf_def consumed_def)

lemma log_event_emitted:
  assumes "buf_of s t = Some p" and "event_added b x b'"
  shows "log_event r t (emitted s t p b' w) = r\<lparr>rn_s := emitted s t p b' w, rn_log := rn_log r @ [(p, x)]\<rparr>"
  using assms by (auto simp: log_event_def emitted_def event_added_def)

lemma emitted_inv:
  assumes inv: "vrd_inv r" and t: "t \<in> rn_running r" and p: "buf_of (rn_s r) t = Some p" "vr_bufs (rn_s r) p = Some b"
    and x: "x = vrd_event_bytes (rn_s r) t ty arg pad" and b': "event_added b x b'"
  shows "vrd_inv (r\<lparr>rn_s := emitted (rn_s r) t p b' w, rn_log := rn_log r @ [(p, x)]\<rparr>)"
proof -
  let ?s = "rn_s r" and ?s' = "emitted (rn_s r) t p b' w" and ?log = "rn_log r" and ?log' = "rn_log r @ [(p, x)]"
  have bo: "buf_of ?s' u = buf_of ?s u" for u by (simp add: emitted_def)
  have dm: "dom (vr_bufs ?s') = dom (vr_bufs ?s)" using p(2) by (auto simp: emitted_def)
  have last: "td_last_id (vr_locals ?s t) = of_nat (length (sent ?log p))"
    using inv t p(1) by (force simp: vrd_inv_def owners_ok_def)
  have "log_ok ?s' ?log'"
    using inv last by (auto simp: vrd_inv_def log_ok_def emitted_def x Suc_le_eq)
  moreover have "bufs_ok ?s' ?log'"
  proof -
    obtain k where k: "good_buf b" "bf_elems b = drop k (sent ?log p)" using inv p(2) by (auto simp: vrd_inv_def bufs_ok_def)
    obtain j where "bf_elems b' = drop j (bf_elems b) @ [x]" using b' by (auto simp: event_added_def)
    then have "\<exists>k. bf_elems b' = drop k (sent ?log p @ [x])" using k(2)
      by (intro exI [of _ "min (j + k) (length (sent ?log p))"]) (simp add: min_def)
    then show ?thesis using inv event_added_good [OF k(1) b'] by (auto simp: vrd_inv_def bufs_ok_def emitted_def)
  qed
  moreover have "owners_ok ?s' (rn_running r) ?log'"
  proof -
    have "u = t" if "u \<in> rn_running r" "buf_of ?s u = Some p" for u
      using owner_unique [OF inv t that(1)] that(2) p(1) by simp
    then have other: "buf_of ?s u \<noteq> Some p" if "u \<in> rn_running r" "u \<noteq> t" for u using that by blast
    have "\<exists>q. buf_of ?s' u = Some q \<and> q \<in> dom (vr_bufs ?s') \<and> td_last_id (vr_locals ?s' u) = of_nat (length (sent ?log' q))"
      if u: "u \<in> rn_running r" for u
    proof (cases "u = t")
      case True
      then show ?thesis using last p unfolding bo dm by (simp add: domI) (simp add: emitted_def)
    next
      case False
      obtain q c where q: "buf_of ?s u = Some q" "vr_bufs ?s q = Some c" "td_last_id (vr_locals ?s u) = of_nat (length (sent ?log q))"
        by (rule running_buf [OF inv u])
      then have "q \<noteq> p" using other [OF u False] by auto
      then show ?thesis using q False unfolding bo dm by (simp add: domI) (simp add: emitted_def)
    qed
    moreover have "inj_on (buf_of ?s') (rn_running r)" using inv unfolding bo vrd_inv_def owners_ok_def by blast
    ultimately show ?thesis by (simp add: owners_ok_def)
  qed
  moreover have "pending_ok ?s' (rn_running r) (rn_entered r) ?log'"
  proof -
    have "q \<noteq> p" if "pending ?s (rn_entered r) a q" for a q
      using inv t p(1) that by (force simp: vrd_inv_def pending_ok_def)
    moreover have "pending ?s' = pending ?s" by (simp add: pending_def emitted_def fun_eq_iff)
    ultimately show ?thesis using inv dm by (auto simp: vrd_inv_def pending_ok_def bo) (auto simp: emitted_def)
  qed
  moreover have "used_ok ?s' (rn_used r) ?log'" using inv p dm by (auto simp: vrd_inv_def used_ok_def) (auto simp: emitted_def)
  moreover have "list_ok ?s'" "source_ok ?s'"
    using inv p b' by (auto simp: vrd_inv_def list_ok_def source_ok_def emitted_def event_added_def)
  ultimately show ?thesis by (simp add: vrd_inv_def)
qed

lemma unit_waiting [simp]: "r \<noteq> Waiting \<longleftrightarrow> r = Returned ()"
  by (cases r) simp_all

lemma emit_returned:
  assumes inv: "vrd_inv r" and t: "t \<in> rn_running r" and env: "list_all monitor_act env"
    and e: "emit_event env t ty arg (rn_s r) = Inr (Returned (), s')"
  obtains p b b' w pad where "buf_of (rn_s r) t = Some p" "vr_bufs (rn_s r) p = Some b"
    "event_added b (vrd_event_bytes (rn_s r) t ty arg pad) b'" "s' = emitted (rn_s r) t p b' w"
proof -
  obtain p b where p: "buf_of (rn_s r) t = Some p" "vr_bufs (rn_s r) p = Some b" "good_buf b" by (rule running_buf [OF inv t])
  have "ev_index ty < length (vr_event_kinds (rn_s r))" using inv ev_index_less by (simp add: vrd_inv_def source_ok_def)
  from emit_event_ok [OF p env this, of arg] e show ?thesis using that [OF p(1,2)] by auto
qed

lemma emit_inv:
  assumes "vrd_inv r" "t \<in> rn_running r" "list_all monitor_act env" "emit_event env t ty arg (rn_s r) = Inr (Returned (), s')"
  shows "vrd_inv (log_event r t s')"
proof -
  obtain p b b' w pad where e: "buf_of (rn_s r) t = Some p" "vr_bufs (rn_s r) p = Some b"
      "event_added b (vrd_event_bytes (rn_s r) t ty arg pad) b'" "s' = emitted (rn_s r) t p b' w"
    by (rule emit_returned [OF assms])
  show ?thesis unfolding e(4) log_event_emitted [OF e(1,3)] by (rule emitted_inv [OF assms(1,2) e(1,2) refl e(3)])
qed

lemma emit_datas:
  assumes "vrd_inv r" "t \<in> rn_running r" "list_all monitor_act env" "emit_event env t ty arg (rn_s r) = Inr (Returned (), s')"
  shows "vr_datas s' = vr_datas (rn_s r)"
proof -
  obtain p b b' w pad where "s' = emitted (rn_s r) t p b' w" by (rule emit_returned [OF assms])
  then show ?thesis by (simp add: emitted_def)
qed

lemma log_event_frame:
  "vr_locals s' = vr_locals s \<Longrightarrow> vr_bufs s' = vr_bufs s \<Longrightarrow> log_event r t s' = (log_event r t s)\<lparr>rn_s := s'\<rparr>"
  by (simp add: log_event_def split: option.split)

lemma set_data_inv:
  assumes "vrd_inv r" and "vr_datas (rn_s r) a = Some d" and "vd_shmbuf d' = vd_shmbuf d"
  shows "vrd_inv (r\<lparr>rn_s := (rn_s r)\<lparr>vr_datas := (vr_datas (rn_s r))(a \<mapsto> d')\<rparr>\<rparr>)"
proof -
  let ?s = "(rn_s r)\<lparr>vr_datas := (vr_datas (rn_s r))(a \<mapsto> d')\<rparr>"
  have "pending ?s = pending (rn_s r)" using assms(2,3) by (simp add: pending_def fun_eq_iff)
  moreover have "dom (vr_datas ?s) = dom (vr_datas (rn_s r))" using assms(2) by auto
  ultimately show ?thesis using assms
    by (simp add: vrd_inv_def log_ok_def bufs_ok_def owners_ok_def pending_ok_def used_ok_def list_ok_def source_ok_def)
qed

lemma created_inv:
  assumes inv: "vrd_inv r" and t: "t \<in> rn_running r" and env: "list_all monitor_act env"
    and c: "vrd_thrd_created env t a std_tid (rn_s r) = Inr (Returned (), s')"
  shows "vrd_inv (log_event r t s')"
proof -
  obtain d s1 where d: "vr_datas (rn_s r) a = Some d" "emit_event env t EV_FORK (vd_thread_id d) (rn_s r) = Inr (Returned (), s1)"
      and s': "s' = s1\<lparr>vr_datas := (vr_datas s1)(a \<mapsto> d\<lparr>vd_std_thread_id := std_tid\<rparr>)\<rparr>"
  proof -
    obtain d s1 d1 where "vr_datas (rn_s r) a = Some d" and e: "emit_event env t EV_FORK (vd_thread_id d) (rn_s r) = Inr (Returned (), s1)"
        "vr_datas s1 a = Some d1" "s' = s1\<lparr>vr_datas := (vr_datas s1)(a \<mapsto> d1\<lparr>vd_std_thread_id := std_tid\<rparr>)\<rparr>"
      using c by (auto simp: vrd_thrd_created_def data_at_def assertE_def split: waiting.splits option.splits if_splits)
    then show ?thesis using that emit_datas [OF inv t env e(1)] by simp
  qed
  have "log_event r t s' = (log_event r t s1)\<lparr>rn_s := s'\<rparr>" by (rule log_event_frame) (simp_all add: s')
  moreover have "vrd_inv ((log_event r t s1)\<lparr>rn_s := s'\<rparr>)"
    using set_data_inv [OF emit_inv [OF inv t env d(2)], of a d "d\<lparr>vd_std_thread_id := std_tid\<rparr>"] d(1) emit_datas [OF inv t env d(2)]
    unfolding s' by (simp add: log_event_def)
  ultimately show ?thesis by simp
qed

lemma ring_free:
  assumes "ring h l (xs @ (a, ()) # ys)"
  obtains h' where "shm_list_embedded_remove h (Some a) = Inr h'" "ring (h'(a := None)) l (xs @ ys)"
proof -
  obtain h' where h: "shm_list_embedded_remove h (Some a) = Inr h'" "ring h' l (xs @ ys)" using ring_remove [OF assms] by blast
  have "a \<notin> fst ` set xs" "a \<notin> fst ` set ys" "l \<noteq> a" using assms by (auto simp: ring_def)
  then have "ring (h'(a := None)) l (xs @ ys)" using h(2) by (simp add: ring_def)
  then show ?thesis using that h(1) by blast
qed

lemma remove_data_inv:
  assumes inv: "vrd_inv r" and a: "a \<in> rn_entered r" "a \<in> dom (vr_datas (rn_s r))"
    and l: "shm_list_embedded_remove (vr_list (rn_s r)) (Some a) = Inr l"
  shows "vrd_inv (r\<lparr>rn_s := (rn_s r)\<lparr>vr_list := l(a := None), vr_datas := (vr_datas (rn_s r))(a := None)\<rparr>\<rparr>)"
proof -
  let ?s = "(rn_s r)\<lparr>vr_list := l(a := None), vr_datas := (vr_datas (rn_s r))(a := None)\<rparr>"
  have p: "pending ?s (rn_entered r) = pending (rn_s r) (rn_entered r)" using a(1) by (auto simp: pending_def fun_eq_iff)
  obtain zs where zs: "ring (vr_list (rn_s r)) 0 zs" "fst ` set zs = dom (vr_datas (rn_s r))" using inv by (auto simp: vrd_inv_def list_ok_def)
  then have "a \<in> fst ` set zs" using a(2) by simp
  then have "(a, ()) \<in> set zs" by force
  then obtain xs ys where split: "zs = xs @ (a, ()) # ys" by (auto dest: split_list)
  have "fst ` set (xs @ ys) = dom (vr_datas (rn_s r)) - {a}" using zs split by (auto simp: ring_def)
  moreover have "ring (l(a := None)) 0 (xs @ ys)" using ring_free [OF zs(1) [unfolded split]] l by auto
  ultimately have "list_ok ?s" unfolding list_ok_def by (intro exI [of _ "xs @ ys"]) simp
  then show ?thesis using inv p
    by (simp add: vrd_inv_def log_ok_def bufs_ok_def owners_ok_def pending_ok_def used_ok_def source_ok_def)
qed

lemma joined_inv:
  assumes inv: "vrd_inv r" and t: "t \<in> rn_running r" and env: "list_all monitor_act env" and a: "a \<in> rn_entered r"
    and c: "vrd_thrd_joined env t a (rn_s r) = Inr (Returned (), s')"
  shows "vrd_inv (log_event r t s')"
proof -
  obtain d s1 l where d: "vr_datas (rn_s r) a = Some d" and e: "emit_event env t EV_JOIN (vd_thread_id d) (rn_s r) = Inr (Returned (), s1)"
      and l: "shm_list_embedded_remove (vr_list s1) (Some a) = Inr l"
      and s': "s' = s1\<lparr>vr_list := l(a := None), vr_datas := (vr_datas s1)(a := None)\<rparr>"
    using c by (auto simp: vrd_thrd_joined_def data_at_def split: waiting.splits option.splits)
  have "log_event r t s' = (log_event r t s1)\<lparr>rn_s := s'\<rparr>" by (rule log_event_frame) (simp_all add: s')
  moreover have "vrd_inv ((log_event r t s1)\<lparr>rn_s := s'\<rparr>)"
    using remove_data_inv [OF emit_inv [OF inv t env e], of a l] a d l emit_datas [OF inv t env e]
    unfolding s' by (simp add: log_event_def domI)
  ultimately show ?thesis by simp
qed

lemma entry_inv:
  assumes inv: "vrd_inv r" and u: "u \<notin> rn_running r" and a: "a \<notin> rn_entered r"
    and e: "vrd_thrd_entry u (Some a) (rn_s r) = Inr (x, s')"
  shows "vrd_inv (r\<lparr>rn_s := s', rn_running := insert u (rn_running r), rn_entered := insert a (rn_entered r)\<rparr>)"
proof -
  let ?s = "rn_s r"
  obtain d where d: "vr_datas ?s a = Some d" using e by (auto simp: vrd_thrd_entry_def data_at_def Let_def split: option.splits)
  then obtain q where q: "vd_shmbuf d = Some q" using inv by (fastforce simp: vrd_inv_def pending_ok_def)
  have "pending ?s (rn_entered r) a q" using d q a by (simp add: pending_def)
  then have qf: "q \<in> dom (vr_bufs ?s)" "sent (rn_log r) q = []" "Some q \<notin> buf_of ?s ` rn_running r"
      and un: "\<And>a'. pending ?s (rn_entered r) a' q \<Longrightarrow> a' = a"
    using inv by (auto simp: vrd_inv_def pending_ok_def)
  obtain td where s': "s' = ?s\<lparr>vr_locals := (vr_locals ?s)(u := td)\<rparr>" and td: "td_shmbuf td = Some q" "td_last_id td = 0"
    using e d q by (auto simp: vrd_thrd_entry_def data_at_def Let_def set_local_def)
  have im: "buf_of s' ` insert u (rn_running r) = insert (Some q) (buf_of ?s ` rn_running r)" using u td(1) by (auto simp: s')
  have "buf_of s' t = buf_of ?s t" if "t \<in> rn_running r" for t using that u by (auto simp: s')
  then have "inj_on (buf_of s') (rn_running r)" "buf_of s' ` rn_running r = buf_of ?s ` rn_running r"
    using inv by (simp_all add: vrd_inv_def owners_ok_def cong: inj_on_cong image_cong)
  then have "inj_on (buf_of s') (insert u (rn_running r))"
    using u qf(3) td(1) by (simp add: inj_on_insert) (simp add: s')
  moreover have "\<exists>p. buf_of s' t = Some p \<and> p \<in> dom (vr_bufs s') \<and> td_last_id (vr_locals s' t) = of_nat (length (sent (rn_log r) p))"
    if "t \<in> insert u (rn_running r)" for t
    using inv that u qf td by (auto simp: vrd_inv_def owners_ok_def s')
  ultimately have "owners_ok s' (insert u (rn_running r)) (rn_log r)" by (simp add: owners_ok_def)
  moreover have "pending_ok s' (insert u (rn_running r)) (insert a (rn_entered r)) (rn_log r)"
  proof -
    have pe: "pending ?s (rn_entered r) a' q'" "q' \<noteq> q" if "pending s' (insert a (rn_entered r)) a' q'" for a' q'
      using that un by (auto simp: pending_def s')
    have old: "q' \<in> dom (vr_bufs ?s) \<and> sent (rn_log r) q' = [] \<and> Some q' \<notin> buf_of ?s ` rn_running r \<and>
        (\<forall>a''. pending ?s (rn_entered r) a'' q' \<longrightarrow> a'' = a')" if "pending ?s (rn_entered r) a' q'" for a' q'
      using inv that by (simp add: vrd_inv_def pending_ok_def)
    have "q' \<in> dom (vr_bufs s') \<and> sent (rn_log r) q' = [] \<and> Some q' \<notin> buf_of s' ` insert u (rn_running r) \<and>
        (\<forall>a''. pending s' (insert a (rn_entered r)) a'' q' \<longrightarrow> a'' = a')" if "pending s' (insert a (rn_entered r)) a' q'" for a' q'
      using old [OF pe(1) [OF that]] pe that unfolding im by (simp add: s')
    moreover have "\<forall>a d. vr_datas s' a = Some d \<longrightarrow> vd_shmbuf d \<noteq> None" using inv by (simp add: vrd_inv_def pending_ok_def s')
    ultimately show ?thesis unfolding pending_ok_def by blast
  qed
  ultimately show ?thesis using inv
    by (simp add: vrd_inv_def log_ok_def bufs_ok_def used_ok_def list_ok_def source_ok_def s')
qed

lemma monitor_inv:
  assumes inv: "vrd_inv r" and p: "vr_bufs (rn_s r) p = Some b" and c: "consumed b b'"
  shows "vrd_inv (r\<lparr>rn_s := (rn_s r)\<lparr>vr_bufs := (vr_bufs (rn_s r))(p \<mapsto> b')\<rparr>\<rparr>)"
proof -
  let ?s = "(rn_s r)\<lparr>vr_bufs := (vr_bufs (rn_s r))(p \<mapsto> b')\<rparr>"
  have dm: "dom (vr_bufs ?s) = dom (vr_bufs (rn_s r))" using p by auto
  have "bufs_ok ?s (rn_log r)"
    using inv p c consumed_good [OF _ c] by (auto simp: vrd_inv_def bufs_ok_def consumed_def) (metis drop_drop)
  moreover have "pending ?s = pending (rn_s r)" by (simp add: pending_def fun_eq_iff)
  moreover have "source_ok ?s" using inv p c by (auto simp: vrd_inv_def source_ok_def consumed_def)
  ultimately show ?thesis using inv dm
    by (simp add: vrd_inv_def log_ok_def owners_ok_def pending_ok_def used_ok_def list_ok_def)
qed

lemma free_inv:
  assumes inv: "vrd_inv r" and t: "t \<in> rn_running r" and p: "buf_of (rn_s r) t = Some p"
  shows "vrd_inv (r\<lparr>rn_s := (rn_s r)\<lparr>vr_fs := fs, vr_bufs := (vr_bufs (rn_s r))(p := None)\<rparr>, rn_running := rn_running r - {t}\<rparr>)"
proof -
  let ?s = "(rn_s r)\<lparr>vr_fs := fs, vr_bufs := (vr_bufs (rn_s r))(p := None)\<rparr>"
  have "\<exists>q. buf_of ?s u = Some q \<and> q \<in> dom (vr_bufs ?s) \<and> td_last_id (vr_locals ?s u) = of_nat (length (sent (rn_log r) q))"
    if u: "u \<in> rn_running r - {t}" for u
  proof -
    obtain q b where q: "buf_of (rn_s r) u = Some q" "vr_bufs (rn_s r) q = Some b"
        "td_last_id (vr_locals (rn_s r) u) = of_nat (length (sent (rn_log r) q))"
      using running_buf [OF inv, of u] u by blast
    moreover have "q \<noteq> p" using owner_unique [OF inv t, of u] u q(1) p by auto
    ultimately show ?thesis by auto
  qed
  then have "owners_ok ?s (rn_running r - {t}) (rn_log r)"
    using inv by (simp add: vrd_inv_def owners_ok_def inj_on_diff)
  moreover have "pending_ok ?s (rn_running r - {t}) (rn_entered r) (rn_log r)"
  proof -
    have pe: "pending ?s = pending (rn_s r)" by (simp add: pending_def fun_eq_iff)
    have "q \<noteq> p" if "pending (rn_s r) (rn_entered r) a q" for a q
      using inv that t p by (force simp: vrd_inv_def pending_ok_def)
    then show ?thesis using inv unfolding pending_ok_def pe by (simp add: vrd_inv_def pending_ok_def) blast
  qed
  moreover have "bufs_ok ?s (rn_log r)" "used_ok ?s (rn_used r) (rn_log r)" "source_ok ?s"
    using inv by (auto simp: vrd_inv_def bufs_ok_def used_ok_def source_ok_def)
  ultimately show ?thesis using inv by (simp add: vrd_inv_def log_ok_def list_ok_def)
qed

lemma exit_inv:
  assumes inv: "vrd_inv r" and t: "t \<in> rn_running r" and e: "vrd_thrd_exit os pg_size t (rn_s r) = Inr s'"
  shows "vrd_inv (r\<lparr>rn_s := s', rn_running := rn_running r - {t}\<rparr>)"
proof -
  obtain p b where p: "buf_of (rn_s r) t = Some p" by (rule running_buf [OF inv t])
  show ?thesis
  proof (cases "td_data (vr_locals (rn_s r) t)")
    case None
    then obtain fs where "s' = (rn_s r)\<lparr>vr_fs := fs, vr_bufs := (vr_bufs (rn_s r))(p := None)\<rparr>"
      using e p by (auto simp: vrd_thrd_exit_def Let_def free_buf_def simp del: fun_upd_apply)
    then show ?thesis using free_inv [OF inv t p] by simp
  next
    case (Some a)
    then obtain d fs where d: "vr_datas (rn_s r) a = Some d"
      and s': "s' = (rn_s r)\<lparr>vr_datas := (vr_datas (rn_s r))(a \<mapsto> d\<lparr>vd_exited := True\<rparr>), vr_fs := fs, vr_bufs := (vr_bufs (rn_s r))(p := None)\<rparr>"
      using e p by (auto simp: vrd_thrd_exit_def Let_def free_buf_def data_at_def simp del: fun_upd_apply split: option.splits)
    let ?r = "r\<lparr>rn_s := (rn_s r)\<lparr>vr_datas := (vr_datas (rn_s r))(a \<mapsto> d\<lparr>vd_exited := True\<rparr>)\<rparr>\<rparr>"
    have "vrd_inv ?r" using set_data_inv [OF inv d, of "d\<lparr>vd_exited := True\<rparr>"] by simp
    from free_inv [OF this, of t p fs] t p show ?thesis by (simp add: s')
  qed
qed

text \<open>The sub-buffer of a new thread.\<close>

lemma fill_tmp_fresh:
  assumes f: "fits es c" and ms: "compute_shm_size es (c + 1) = Inr ms" and r: "fill_tmp os fs k fd ms es c = Inr (Some shm, fs')"
  shows "fresh_shm es c shm"
proof -
  have c1: "unat (c + 1) = unat c + 1" using f by (simp add: fits_def unat_add_64)
  have b: "unat es * unat (c + 1) + 576 < unat ms"
    using compute_shm_size_ok [of es "c + 1"] ms f c1 by (auto simp: fits_def)
  then have m0: "ms \<noteq> 0" "SIZEOF_SHMBUFFER \<le> ms" by (auto simp: word_le_nat_alt)
  let ?mem = "replicate (unat (ms - SIZEOF_SHMBUFFER)) (0 :: byte)"
  have len: "(unat c + 1) * unat es \<le> length ?mem" using b c1 by (simp add: unat_sub_64 algebra_simps)
  obtain shm0 where s: "init_shm ms es c ?mem = Inr shm0" "sb_data shm0 = ?mem"
      "\<And>mem'. length mem' = length ?mem \<Longrightarrow> fresh_shm es c (shm0\<lparr>sb_data := mem'\<rparr>)"
    using init_shm_ok [OF f len _ m0] by auto
  obtain mem where m: "mem_write ?mem 0 (replicate (unat (c * es)) 255) = Inr mem" "shm = shm0\<lparr>sb_data := mem\<rparr>"
    using r s(1,2) by (auto simp: fill_tmp_def Let_def split: if_splits)
  then have "length mem = length ?mem" by (auto simp: mem_write_def mem_upd_def split: if_splits)
  then show ?thesis using s(3) m(2) by simp
qed

lemma initialize_shared_buffer_fresh:
  assumes "fits es c" and "initialize_shared_buffer os fs key mode es c ctl = Inr (Some b, fs')"
  shows "fresh_shm es c (bf_shm b)"
  using assms
  by (auto simp: initialize_shared_buffer_def new_handle_def assertE_def dest!: fill_tmp_fresh split: if_splits option.splits)

lemma control_copied:
  assumes "control_ok ctl" and "create_shared_control_buffer os fs key ctl = Inr (Some c, fs')"
  shows "c = ctl"
proof -
  have "sc_size ctl \<noteq> 0" using assms(1) by (auto simp: control_ok_def)
  then show ?thesis using assms copy_control_ok [OF assms(1)]
    by (auto simp: create_shared_control_buffer_def Let_def assertE_def split: if_splits option.splits)
qed

lemma create_sub_ok:
  assumes c: "create_shared_sub_buffer os os' fs b 0 ctl = Inr (Some sb, b', fs')" and live: "bf_live b" and ctl: "control_ok ctl"
    and es: "source_control_max_event_size ctl = Inr es" and f: "fits es (sb_capacity (bf_shm b))"
  shows "bf_live sb \<and> bf_elems sb = [] \<and> sb_elem_size (bf_shm sb) = es \<and> consumed b b'"
proof -
  obtain key fs1 fs2 where k: "initialize_shared_buffer os' fs1 key S_IRWXU es (sb_capacity (bf_shm b)) ctl = Inr (Some sb, fs2)"
      and b': "b' = upd_shm (\<lambda>s. s\<lparr>sb_subbuffers_no := sb_subbuffers_no s + 1\<rparr>) (b\<lparr>bf_last_subbufer_no := bf_last_subbufer_no b + 1\<rparr>)"
    using c es by (auto simp: create_shared_sub_buffer_def Let_def buffer_capacity_def dest!: control_copied [OF ctl] split: option.splits)
  have "fresh_shm es (sb_capacity (bf_shm b)) (bf_shm sb)" by (rule initialize_shared_buffer_fresh [OF f k])
  then have "bf_live sb" "bf_elems sb = []" "sb_elem_size (bf_shm sb) = es" by (simp_all add: fresh_shm_def bf_live_def bf_ok_def bf_elems_def)
  moreover have "consumed b b'" using live
    by (auto simp: consumed_def bf_live_def bf_ok_def bf_elems_def sb_queue_def queue_bytes_def b' intro: exI [of _ 0])
  ultimately show ?thesis by simp
qed

lemma ring_add:
  assumes "ring h l xs" and "a \<notin> insert l (fst ` set xs)"
  obtains h' where "shm_list_embedded_insert_after (h(a \<mapsto> n)) (Some l) (Some a) = Inr h'" "ring h' l ((a, ()) # xs)"
proof -
  have "a \<noteq> l" "a \<notin> fst ` set xs" using assms(2) by auto
  then have "ring (h(a \<mapsto> n)) l xs" using assms(1) by (simp add: ring_def)
  from ring_insert_after [OF this assms(2), of n] show ?thesis using that by auto
qed

lemma unused:
  assumes "vrd_inv r" and "q \<notin> rn_used r"
  shows "vr_bufs (rn_s r) q = None" "sent (rn_log r) q = []" "Some q \<notin> buf_of (rn_s r) ` rn_running r"
    "\<not> pending (rn_s r) (rn_entered r) a q" "vr_top_shmbuf (rn_s r) \<noteq> Some q"
proof -
  have u: "dom (vr_bufs (rn_s r)) \<subseteq> rn_used r" "fst ` set (rn_log r) \<subseteq> rn_used r" using assms(1) by (simp_all add: vrd_inv_def used_ok_def)
  then show "vr_bufs (rn_s r) q = None" using assms(2) by auto
  then show "Some q \<notin> buf_of (rn_s r) ` rn_running r" using assms(1) by (force simp: vrd_inv_def owners_ok_def)
  show "sent (rn_log r) q = []" using u(2) assms(2) by (auto simp: sent_def filter_empty_conv)
  show "vr_top_shmbuf (rn_s r) \<noteq> Some q" using assms by (auto simp: vrd_inv_def used_ok_def)
  show "\<not> pending (rn_s r) (rn_entered r) a q"
  proof
    assume "pending (rn_s r) (rn_entered r) a q"
    then have "q \<in> dom (vr_bufs (rn_s r))" using assms(1) by (simp add: vrd_inv_def pending_ok_def)
    then show False using \<open>vr_bufs (rn_s r) q = None\<close> by auto
  qed
qed

lemma add_thread_inv:
  assumes inv: "vrd_inv r" and q: "q \<notin> rn_used r" and a: "a \<noteq> 0" "a \<notin> dom (vr_datas (rn_s r))" "a \<notin> rn_entered r"
    and sb: "good_buf sb" "bf_elems sb = []" and d: "vd_shmbuf d = Some q"
    and l: "shm_list_embedded_insert_after ((vr_list (rn_s r))(a \<mapsto> n)) (Some 0) (Some a) = Inr l"
  shows "vrd_inv (r\<lparr>rn_s := (rn_s r)\<lparr>vr_last_thread_id := tid, vr_bufs := (vr_bufs (rn_s r))(q \<mapsto> sb),
    vr_datas := (vr_datas (rn_s r))(a \<mapsto> d), vr_list := l, vr_fs := fs\<rparr>, rn_used := insert q (rn_used r)\<rparr>)"
proof -
  let ?s = "(rn_s r)\<lparr>vr_last_thread_id := tid, vr_bufs := (vr_bufs (rn_s r))(q \<mapsto> sb),
    vr_datas := (vr_datas (rn_s r))(a \<mapsto> d), vr_list := l, vr_fs := fs\<rparr>"
  note f = unused [OF inv q]
  have "bufs_ok ?s (rn_log r)" using inv sb f(2) by (simp add: vrd_inv_def bufs_ok_def)
  moreover have "owners_ok ?s (rn_running r) (rn_log r)" using inv by (fastforce simp: vrd_inv_def owners_ok_def)
  moreover have "pending_ok ?s (rn_running r) (rn_entered r) (rn_log r)"
  proof -
    have pe: "pending ?s (rn_entered r) a' q' \<longleftrightarrow> (if a' = a then q' = q else pending (rn_s r) (rn_entered r) a' q')" for a' q'
      using a(3) d by (auto simp: pending_def)
    have nq: "\<not> pending (rn_s r) (rn_entered r) a' q" for a' by (rule unused(4) [OF inv q])
    have na: "\<not> pending (rn_s r) (rn_entered r) a q'" for q' using a(2) by (auto simp: pending_def)
    show ?thesis using inv f(2,3) d nq na unfolding pending_ok_def pe
      by (simp add: vrd_inv_def pending_ok_def) metis
  qed
  moreover have "used_ok ?s (insert q (rn_used r)) (rn_log r)" using inv by (auto simp: vrd_inv_def used_ok_def)
  moreover have "list_ok ?s"
  proof -
    obtain xs where xs: "ring (vr_list (rn_s r)) 0 xs" "fst ` set xs = dom (vr_datas (rn_s r))" using inv by (auto simp: vrd_inv_def list_ok_def)
    then have "ring l 0 ((a, ()) # xs)" using ring_add [of "vr_list (rn_s r)" 0 xs a n] l a by auto
    moreover have "fst ` set ((a, ()) # xs) = dom (vr_datas ?s)" using xs(2) by simp
    ultimately show ?thesis unfolding list_ok_def by (intro exI [of _ "(a, ()) # xs"]) simp
  qed
  moreover have "source_ok ?s" using inv f(5) by (auto simp: vrd_inv_def source_ok_def)
  moreover have "log_ok ?s (rn_log r)" using inv by (simp add: vrd_inv_def log_ok_def)
  ultimately show ?thesis by (simp add: vrd_inv_def)
qed

lemma create_inv:
  assumes inv: "vrd_inv r" and q: "q \<notin> rn_used r" and a: "a \<noteq> 0" "a \<notin> dom (vr_datas (rn_s r))" "a \<notin> rn_entered r"
    and c: "vrd_create_thrd os os' (Some a) mem q original_data (rn_s r) = Inr (a, s')"
  shows "vrd_inv (r\<lparr>rn_s := s', rn_used := insert q (rn_used r)\<rparr>)"
proof -
  let ?s = "rn_s r" and ?n = "\<lparr>ln_next = None, ln_prev = None, ln_data = ()\<rparr>"
  obtain p where top: "vr_top_shmbuf ?s = Some p" "p \<in> rn_used r" using inv by (auto simp: vrd_inv_def used_ok_def)
  obtain b sb b' fs l where b: "vr_bufs ?s p = Some b"
      and sub: "create_shared_sub_buffer os os' (vr_fs ?s) b 0 (vr_top_control ?s) = Inr (Some sb, b', fs)"
      and l: "shm_list_embedded_insert_after ((vr_list ?s)(a \<mapsto> ?n)) (Some 0) (Some a) = Inr l"
      and s': "s' = ?s\<lparr>vr_last_thread_id := vr_last_thread_id ?s + 1, vr_bufs := (vr_bufs ?s)(p \<mapsto> b', q \<mapsto> sb),
        vr_datas := (vr_datas ?s)(a \<mapsto> mem\<lparr>vd_data := original_data, vd_thread_id := vr_last_thread_id ?s, vd_exited := False, vd_shmbuf := Some q\<rparr>),
        vr_list := l, vr_fs := fs\<rparr>"
    using c top(1) by (auto simp: vrd_create_thrd_def Let_def buf_at_def set_buf_def simp del: fun_upd_apply split: option.splits)
  obtain es where es: "source_control_max_event_size (vr_top_control ?s) = Inr es" "32 \<le> unat es" "fits es (sb_capacity (bf_shm b))"
      "control_ok (vr_top_control ?s)"
    using inv top(1) b by (auto simp: vrd_inv_def source_ok_def)
  have "bf_live b" using inv b by (auto simp: vrd_inv_def bufs_ok_def good_buf_def)
  from create_sub_ok [OF sub this es(4,1,3)] have sb: "good_buf sb" "bf_elems sb = []" "consumed b b'" using es(2) by (auto simp: good_buf_def)
  let ?r = "r\<lparr>rn_s := ?s\<lparr>vr_bufs := (vr_bufs ?s)(p \<mapsto> b')\<rparr>\<rparr>"
  have "vrd_inv ?r" by (rule monitor_inv [OF inv b sb(3)])
  from add_thread_inv [OF this, where q = q and a = a and sb = sb and d = "mem\<lparr>vd_data := original_data, vd_thread_id := vr_last_thread_id ?s, vd_exited := False, vd_shmbuf := Some q\<rparr>"
      and n = ?n and l = l and tid = "vr_last_thread_id ?s + 1" and fs = fs] q a sb l
  show ?thesis by (simp add: s' del: fun_upd_apply)
qed

text \<open>Every step keeps the invariant, and main establishes it.\<close>

lemma step_inv: "vrd_step r r' \<Longrightarrow> vrd_inv r \<Longrightarrow> vrd_inv r'"
proof (induction rule: vrd_step.induct)
  case st_emit
  then show ?case by (intro emit_inv)
next
  case st_create
  then show ?case by (intro create_inv)
next
  case st_created
  then show ?case by (intro created_inv)
next
  case st_entry
  then show ?case by (intro entry_inv)
next
  case st_exit
  then show ?case by (intro exit_inv)
next
  case st_joined
  then show ?case by (intro joined_inv)
next
  case st_monitor
  then show ?case by (intro monitor_inv)
qed

lemma main_inv:
  assumes "vrd_ready s p" and "vrd_thrd_entry m None s = Inr (x, s')"
  shows "vrd_inv \<lparr>rn_s = s', rn_running = {m}, rn_entered = {}, rn_used = {p}, rn_log = []\<rparr>"
proof -
  obtain td where s': "s' = s\<lparr>vr_locals := (vr_locals s)(m := td)\<rparr>" and td: "td_shmbuf td = Some p" "td_last_id td = 0"
    using assms by (auto simp: vrd_thrd_entry_def Let_def set_local_def vrd_ready_def)
  show ?thesis using assms(1) td
    by (auto simp: vrd_inv_def log_ok_def bufs_ok_def owners_ok_def pending_ok_def pending_def used_ok_def list_ok_def source_ok_def
        vrd_ready_def s' sent_def intro: exI [of _ "[]"] split: if_splits)
qed

lemma vrd_reach_inv: "vrd_reach s p m r \<Longrightarrow> vrd_inv r"
  by (induction rule: vrd_reach.induct) (auto intro: step_inv main_inv)

section \<open>Looking for a thread\<close>

lemma get_data_loop_ok:
  assumes "dlseg (vr_list s) p ys (Some 0)" and "0 \<notin> fst ` set ys" and "fst ` set ys \<subseteq> dom (vr_datas s)" and "length ys < fuel"
  shows "get_data_loop fuel s tid (hd_ptr ys (Some 0)) =
    Some (Inr (find (\<lambda>a. vd_std_thread_id (the (vr_datas s a)) = tid) (map fst ys)))"
  using assms
proof (induction ys arbitrary: p fuel)
  case Nil
  then show ?case by (cases fuel) simp_all
next
  case (Cons y ys)
  obtain a where y: "y = (a, ())" by (cases y) simp
  obtain d where d: "vr_datas s a = Some d" using Cons.prems(3) y by auto
  obtain f where f: "fuel = Suc f" using Cons.prems(4) by (cases fuel) auto
  have h: "vr_list s a = Some \<lparr>ln_next = hd_ptr ys (Some 0), ln_prev = p, ln_data = ()\<rparr>" "dlseg (vr_list s) (Some a) ys (Some 0)" "a \<noteq> 0"
    using Cons.prems(1,2) y by auto
  have "get_data_loop f s tid (hd_ptr ys (Some 0)) = Some (Inr (find (\<lambda>a. vd_std_thread_id (the (vr_datas s a)) = tid) (map fst ys)))"
    using Cons.IH [OF h(2)] Cons.prems(2-4) f by auto
  then show ?case using h d y f by (simp add: data_at_def)
qed

lemma get_data_ok:
  assumes "ring (vr_list s) 0 xs" and "fst ` set xs = dom (vr_datas s)" and "length xs < fuel"
  shows "get_data fuel s tid = Some (Inr (find (\<lambda>a. vd_std_thread_id (the (vr_datas s a)) = tid) (map fst xs)))"
  using assms get_data_loop_ok [of s "Some 0" xs fuel tid] by (auto simp: ring_def get_data_def)

section \<open>Initialisation establishes the invariant\<close>

text \<open>What the monitor may do to the top buffer before the program starts: attach and register kinds.\<close>

definition registered :: "buffer \<Rightarrow> buffer \<Rightarrow> bool" where
  "registered b b' \<longleftrightarrow> consumed b b' \<and> sc_size (bf_control b') = sc_size (bf_control b) \<and>
     length (sc_events (bf_control b')) = length (sc_events (bf_control b)) \<and>
     bf_key b' = bf_key b \<and> bf_last_subbufer_no b' = bf_last_subbufer_no b"

definition registers :: "(buffer \<Rightarrow> buffer) \<Rightarrow> bool" where
  "registers f \<longleftrightarrow> (\<forall>b. bf_live b \<longrightarrow> registered b (f b))"

lemma wait_for_monitor_loop_ok:
  assumes "bf_live b" and "list_all (\<lambda>r. registers (cr_others r)) rounds"
  shows "(\<exists>e b'. wait_for_monitor_loop rounds b = Returned (e, b') \<and> registered b b') \<or>
    (wait_for_monitor_loop rounds b = Waiting \<and> (rounds = [] \<or> (\<exists>c. bf_live c \<and> \<not> buffer_monitor_attached (cr_others (last rounds) c))))"
  using assms
proof (induction rounds arbitrary: b)
  case Nil
  then show ?case using consumed_refl by (subst (1 2) wait_for_monitor_loop.simps) (auto simp: registered_def)
next
  case (Cons x rounds)
  let ?b = "cr_others x b"
  have s: "registered b ?b" "bf_live ?b" using Cons.prems by (auto simp: registers_def registered_def consumed_def)
  have tr: "registered b b'" if "registered ?b b'" for b' using s(1) that consumed_trans by (auto simp: registered_def)
  have step: "wait_for_monitor_loop (x # rounds) b =
      (if buffer_monitor_attached b then Returned (0, b)
       else (case cr_sleep x of Some e \<Rightarrow> Returned (- e, ?b)
             | None \<Rightarrow> if cr_interrupted x then Returned (- EINTR, ?b) else wait_for_monitor_loop rounds ?b))"
    by (subst wait_for_monitor_loop.simps) (simp add: Let_def)
  show ?case
  proof (cases "buffer_monitor_attached b \<or> cr_sleep x \<noteq> None \<or> cr_interrupted x")
    case True
    then show ?thesis using s consumed_refl [OF Cons.prems(1)] unfolding step by (auto simp: registered_def split: option.splits)
  next
    case False
    then have e: "wait_for_monitor_loop (x # rounds) b = wait_for_monitor_loop rounds ?b" unfolding step by simp
    show ?thesis
    proof (cases "rounds = []")
      case True
      have "wait_for_monitor_loop [] ?b = (if buffer_monitor_attached ?b then Returned (0, ?b) else Waiting)"
        by (subst wait_for_monitor_loop.simps) simp
      then show ?thesis using s e True Cons.prems(1) by auto
    next
      case False
      then show ?thesis using Cons.IH [OF s(2)] Cons.prems(2) tr unfolding e by auto
    qed
  qed
qed

lemma vrd_specs_ok:
  "list_all valid_pair vrd_event_specs" "length vrd_event_specs = EVENTS_NUM"
  "Max (insert 0 ((\<lambda>p. SIZEOF_EVENT + sum_list (map op_size (snd p))) ` set vrd_event_specs)) = 40"
  by code_simp+

lemma vrd_control_ok:
  assumes "malloc (control_bytes (of_nat EVENTS_NUM)) = Some recs" and "list_all wf_record recs" "length recs = EVENTS_NUM"
  obtains c es where "source_control_define malloc (of_nat EVENTS_NUM) vrd_event_specs = Inr c" "control_ok c"
    "length (sc_events c) = EVENTS_NUM" "source_control_get_records_num c = of_nat EVENTS_NUM"
    "source_control_max_event_size c = Inr es" "unat es = 40"
proof -
  have "source_control_define malloc (of_nat EVENTS_NUM) vrd_event_specs =
      source_control_define_pairwise malloc (of_nat EVENTS_NUM) (map fst vrd_event_specs) (map snd vrd_event_specs)"
    by (simp add: source_control_define_def source_control_define_pairwise_def zip_map_fst_snd)
  then obtain c where c: "source_control_define malloc (of_nat EVENTS_NUM) vrd_event_specs = Inr c" "describes_all c vrd_event_specs"
    using source_control_define_pairwise_ok [OF vrd_specs_ok(1), of malloc recs] assms vrd_specs_ok(2) by (auto simp: EVENTS_NUM_def)
  have "sc_size c = control_bytes (of_nat EVENTS_NUM)" "length (sc_events c) = EVENTS_NUM"
  proof -
    obtain rs where "define_from \<lparr>sc_size = control_bytes (of_nat EVENTS_NUM), sc_events = recs\<rparr> 0 (length vrd_event_specs) vrd_event_specs =
        Inr \<lparr>sc_size = control_bytes (of_nat EVENTS_NUM), sc_events = rs\<rparr>"
      using define_from_ok [OF vrd_specs_ok(1), of 0 "\<lparr>sc_size = control_bytes (of_nat EVENTS_NUM), sc_events = recs\<rparr>"] assms vrd_specs_ok(2) by auto
    then show "sc_size c = control_bytes (of_nat EVENTS_NUM)"
      using c(1) assms(1) vrd_specs_ok(2) by (auto simp: source_control_define_def source_control_allocate_def EVENTS_NUM_def)
    show "length (sc_events c) = EVENTS_NUM" using c(2) vrd_specs_ok(2) by (auto simp: describes_all_def dest: list_all2_lengthD)
  qed
  moreover have "unat (control_bytes (of_nat EVENTS_NUM)) = 1128" by (simp add: control_bytes_def EVENTS_NUM_def)
  ultimately have "control_ok c" "length (sc_events c) = EVENTS_NUM" by (simp_all add: control_ok_def EVENTS_NUM_def)
  moreover have "source_control_get_records_num c = of_nat EVENTS_NUM" using c(2) vrd_specs_ok(2) by (simp add: describes_all_def)
  ultimately show ?thesis using that c source_control_max_event_size_ok [OF c(2)] vrd_specs_ok(3) by auto
qed

lemma created_handle:
  "create_shared_buffer os os' fs key c ctl = Inr (Some b, fs') \<Longrightarrow> bf_key b = key \<and> bf_last_subbufer_no b = 0"
  by (auto simp: create_shared_buffer_def initialize_shared_buffer_def new_handle_def assertE_def split: if_splits option.splits)

lemma tsan_init_ok:
  assumes m: "malloc (control_bytes (of_nat EVENTS_NUM)) = Some recs" "list_all wf_record recs" "length recs = EVENTS_NUM"
    and fs: "fs_ok fs" and os: "all_ok os" "all_ok os'" and rounds: "list_all (\<lambda>r. registers (cr_others r)) rounds"
    and att: "rounds \<noteq> []" "\<And>b. bf_live b \<Longrightarrow> buffer_monitor_attached (cr_others (last rounds) b)"
  shows "\<exists>s b. tsan_init malloc os os' rounds last_sleep p (vrd_start fs ctl) = Inr (Returned (), s) \<and> vrd_ready s p \<and>
    vr_bufs s p = Some b \<and> vr_event_kinds s = map er_kind (sc_events (bf_control b)) \<and>
    sb_capacity (bf_shm b) = 512 \<and> vr_last_thread_id s = 1 \<and> bf_elems b = [] \<and> fs_ok (vr_fs s) \<and>
    bf_key b = ''/vrd'' \<and> bf_last_subbufer_no b = 0"
proof -
  obtain c es where c: "source_control_define malloc (of_nat EVENTS_NUM) vrd_event_specs = Inr c" "control_ok c"
      "length (sc_events c) = EVENTS_NUM" "source_control_get_records_num c = of_nat EVENTS_NUM"
      "source_control_max_event_size c = Inr es" "unat es = 40"
    by (rule vrd_control_ok [of malloc recs, OF m])
  have f: "fits es 512" using c(6) by (simp add: fits_def word_less_nat_alt)
  have key: "key_ok ''/vrd''" by (simp add: key_ok_def)
  obtain b fs' where b: "create_shared_buffer os os' fs ''/vrd'' 512 c = Inr (Some b, fs')" "bf_live b" "bf_elems b = []"
      "sb_capacity (bf_shm b) = 512" "sb_elem_size (bf_shm b) = es" "bf_control b = c" "fs_ok fs'"
    using create_shared_buffer_ok [OF fs key c(2) os c(5) f] unfolding published_def by blast
  obtain e b' where w: "wait_for_monitor_loop rounds b = Returned (e, b')" "registered b b'"
    using wait_for_monitor_loop_ok [OF b(2) rounds] att by auto
  then obtain e' where w': "buffer_wait_for_monitor rounds last_sleep b = Returned (e', b')"
    by (cases last_sleep; cases "e < 0") (auto simp: buffer_wait_for_monitor_def)
  have b': "bf_live b'" "bf_elems b' = []" "sb_capacity (bf_shm b') = 512" "sb_elem_size (bf_shm b') = es"
      "sc_size (bf_control b') = sc_size c" "length (sc_events (bf_control b')) = EVENTS_NUM"
      "bf_key b' = ''/vrd''" "bf_last_subbufer_no b' = 0"
    using w(2) b c(3) created_handle [OF b(1)] by (auto simp: registered_def consumed_def)
  have n: "source_control_get_records_num (bf_control b') = of_nat EVENTS_NUM"
    using c(4) b'(5) by (simp add: source_control_get_records_num_def)
  let ?s = "(vrd_start fs ctl)\<lparr>vr_top_control := c, vr_top_shmbuf := Some p, vr_fs := fs', vr_bufs := [p \<mapsto> b'],
    vr_event_kinds := map er_kind (sc_events (bf_control b'))\<rparr>"
  have "tsan_init malloc os os' rounds last_sleep p (vrd_start fs ctl) = Inr (Returned (), ?s)"
    using c(1) b(1) w' b'(6) n
    by (simp add: tsan_init_def set_buf_def buffer_get_avail_events_def vrd_start_def EVENTS_NUM_def)
  moreover have "vrd_ready ?s p"
    using b' c f by (auto simp: vrd_ready_def vrd_start_def good_buf_def ring_def)
  ultimately show ?thesis using b' b(7) by (auto simp: vrd_start_def)
qed

lemma decimal_ok: "n < 10 ^ Suc k \<Longrightarrow> length (decimal n) \<le> Suc k \<and> CHR ''/'' \<notin> set (decimal n)"
proof (induction n arbitrary: k rule: decimal.induct)
  case (1 n)
  have d: "char_of (48 + m) \<noteq> CHR ''/''" if "m < 10" for m :: nat
  proof
    assume "char_of (48 + m) = CHR ''/''"
    then have "of_char (char_of (48 + m) :: char) = (47 :: nat)" by simp
    then show False using that by simp
  qed
  show ?case
  proof (cases "n < 10")
    case True
    then show ?thesis using d [OF True] by (subst (1 2) decimal.simps) auto
  next
    case False
    then obtain j where k: "k = Suc j" using 1(2) by (cases k) auto
    have "n div 10 < 10 ^ Suc j" using 1(2) k by simp
    then have ih: "length (decimal (n div 10)) \<le> Suc j" "CHR ''/'' \<notin> set (decimal (n div 10))" using 1(1) [OF False] by simp_all
    have "decimal n = decimal (n div 10) @ [char_of (48 + n mod 10)]" using False by (subst decimal.simps) simp
    then show ?thesis using ih d [of "n mod 10"] k by auto
  qed
qed

text \<open>Creating a thread succeeds when the system calls do, for the first ten billion threads less one.\<close>

lemma create_thrd_ok:
  assumes inv: "vrd_inv r" and top: "vr_top_shmbuf (rn_s r) = Some p" "vr_bufs (rn_s r) p = Some b"
    and fs: "fs_ok (vr_fs (rn_s r))" and os: "all_ok os" "all_ok os'"
    and key: "bf_key b = ''/vrd''" "unat (bf_last_subbufer_no b) + 1 < 10000000000"
    and a: "a \<noteq> 0" "a \<notin> dom (vr_datas (rn_s r))"
  shows "\<exists>s'. vrd_create_thrd os os' (Some a) mem q original_data (rn_s r) = Inr (a, s') \<and>
    (\<exists>d. vr_datas s' a = Some d \<and> vd_thread_id d = vr_last_thread_id (rn_s r))"
proof -
  let ?s = "rn_s r" and ?n = "bf_last_subbufer_no b + 1" and ?ctl = "vr_top_control (rn_s r)"
  let ?k = "''/vrd.sub.'' @ decimal (unat ?n)"
  have "unat ?n < 10 ^ Suc 9" using key(2) by (simp add: unat_add_64)
  from decimal_ok [OF this] have dec: "length (decimal (unat ?n)) \<le> 10" "CHR ''/'' \<notin> set (decimal (unat ?n))" by simp_all
  then have k: "get_sub_buffer_key ''/vrd'' ?n = Inr ?k" "key_ok ?k" by (simp_all add: get_sub_buffer_key_def key_ok_def)
  obtain es where es: "source_control_max_event_size ?ctl = Inr es" "fits es (sb_capacity (bf_shm b))" "control_ok ?ctl"
    using inv top by (auto simp: vrd_inv_def source_ok_def)
  obtain fs1 where c: "create_shared_control_buffer os (vr_fs ?s) ?k ?ctl = Inr (Some ?ctl, fs1)" "fs_ok fs1"
    using create_shared_control_buffer_ok [OF fs k(2) es(3) os(1)] by blast
  obtain sb fs2 where i: "initialize_shared_buffer os' fs1 ?k S_IRWXU es (sb_capacity (bf_shm b)) ?ctl = Inr (Some sb, fs2)"
    using initialize_shared_buffer_ok [OF c(2) k(2) es(2), of os' S_IRWXU ?ctl] os(2) by (auto simp: all_ok_def)
  obtain top' fs3 where "create_shared_sub_buffer os os' (vr_fs ?s) b 0 ?ctl = Inr (Some sb, top', fs3)"
    using k(1) c(1) es(1) i key(1) by (simp add: create_shared_sub_buffer_def Let_def buffer_capacity_def)
  moreover obtain xs where xs: "ring (vr_list ?s) 0 xs" "fst ` set xs = dom (vr_datas ?s)" using inv by (auto simp: vrd_inv_def list_ok_def)
  have "a \<notin> insert 0 (fst ` set xs)" using xs(2) a by simp
  with xs(1) obtain l where "shm_list_embedded_insert_after ((vr_list ?s)(a \<mapsto> \<lparr>ln_next = None, ln_prev = None, ln_data = ()\<rparr>)) (Some 0) (Some a) = Inr l"
    by (rule ring_add)
  ultimately show ?thesis using top by (simp add: vrd_create_thrd_def buf_at_def set_buf_def Let_def)
qed

section \<open>Properties\<close>

definition vrd_hooks :: "vrd_hook list" where
  "vrd_hooks = [tsan_read1, tsan_read2, tsan_read4, tsan_read8, tsan_write1, tsan_write2, tsan_write4, tsan_write8,
     tsan_unaligned_write1, tsan_unaligned_write2, tsan_unaligned_write4, tsan_unaligned_write8, vrd_mutex_lock, vrd_mutex_unlock]"

lemma vrd_hooks_emit:
  assumes "hook \<in> set vrd_hooks"
  obtains ty where "\<And>env t addr s. hook env t addr s = emit_event env t ty addr s"
  using assms
  by (auto simp: vrd_hooks_def tsan_read1_def tsan_read2_def tsan_read4_def tsan_read8_def tsan_write1_def tsan_write2_def
      tsan_write4_def tsan_write8_def tsan_unaligned_write1_def tsan_unaligned_write2_def tsan_unaligned_write4_def
      tsan_unaligned_write8_def vrd_mutex_lock_def vrd_mutex_unlock_def)

text \<open>A call of the thread \<open>t\<close> that led to the state \<open>s'\<close> has pushed an event of the given kind and argument.\<close>

definition logged :: "vrd_run \<Rightarrow> nat \<Rightarrow> vrd \<Rightarrow> vrd_event \<Rightarrow> uint64_t \<Rightarrow> bool" where
  "logged r t s' ty arg \<longleftrightarrow> (\<exists>p x. buf_of (rn_s r) t = Some p \<and> log_event r t s' = r\<lparr>rn_s := s', rn_log := rn_log r @ [(p, x)]\<rparr> \<and>
     ev_kind x = vr_event_kinds (rn_s r) ! ev_index ty \<and> ev_arg x = arg)"

lemma emit_logged:
  assumes "vrd_inv r" "t \<in> rn_running r" "list_all monitor_act env" "emit_event env t ty arg (rn_s r) = Inr (Returned (), s1)"
    and "vr_locals s' = vr_locals s1" "vr_bufs s' = vr_bufs s1"
  shows "logged r t s' ty arg"
proof -
  obtain p b b' w pad where e: "buf_of (rn_s r) t = Some p" "event_added b (vrd_event_bytes (rn_s r) t ty arg pad) b'"
      "s1 = emitted (rn_s r) t p b' w"
    by (rule emit_returned [OF assms(1-4)])
  have "log_event r t s' = r\<lparr>rn_s := s', rn_log := rn_log r @ [(p, vrd_event_bytes (rn_s r) t ty arg pad)]\<rparr>"
    unfolding log_event_frame [OF assms(5,6)] e(3) log_event_emitted [OF e(1,2)] by simp
  then show ?thesis using e(1) unfolding logged_def
    by (intro exI [of _ p] exI [of _ "vrd_event_bytes (rn_s r) t ty arg pad"]) simp
qed

lemma find_unique:
  assumes "a \<in> set xs" and "P a" and u: "\<forall>x \<in> set xs. P x \<longrightarrow> x = a"
  shows "find P xs = Some a"
proof (cases "find P xs")
  case None
  then show ?thesis using assms(1,2) by (simp add: find_None_iff)
next
  case (Some x)
  then have "x \<in> set xs \<and> P x" by (auto simp: find_Some_iff)
  then have "x = a" using u by blast
  then show ?thesis using Some by simp
qed

definition attach_round :: client_round where
  "attach_round = \<lparr>cr_sleep = None, cr_interrupted = False, cr_others = (\<lambda>b. buffer_set_attached b True)\<rparr>"

definition vrd_malloc :: "size_t \<Rightarrow> event_record list option" where
  "vrd_malloc n = Some (replicate 10 blank_record)"

lemma attach_round_registers: "registers (cr_others attach_round)"
  "bf_live b \<Longrightarrow> buffer_monitor_attached (cr_others attach_round b)"
  by (auto simp: registers_def registered_def consumed_def attach_round_def buffer_set_attached_def buffer_monitor_attached_def
      bf_live_def bf_ok_def bf_elems_def sb_queue_def queue_bytes_def intro: exI [of _ 0])

lemma vrd_malloc_ok: "vrd_malloc n = Some (replicate 10 blank_record)" "list_all wf_record (replicate 10 blank_record)"
  "length (replicate 10 blank_record) = EVENTS_NUM"
  by (simp_all add: vrd_malloc_def wf_record_def blank_record_def EVENTS_NUM_def list_all_length)

text \<open>
  when the system calls succeed and the monitor attaches in one of the rounds of waiting, \<open>__tsan_init\<close> returns with an
  empty top buffer of 512 elements that are large enough for all events, and with a copy of the kinds the monitor has
  registered.
\<close>

theorem tsan_init_ready:
  assumes "malloc (control_bytes (of_nat EVENTS_NUM)) = Some recs" "list_all wf_record recs" "length recs = EVENTS_NUM"
    and "fs_ok fs" and "all_ok os" "all_ok os'" and "list_all (\<lambda>r. registers (cr_others r)) rounds"
    and "rounds \<noteq> []" "\<And>b. bf_live b \<Longrightarrow> buffer_monitor_attached (cr_others (last rounds) b)"
  shows "\<exists>s b. tsan_init malloc os os' rounds last_sleep p (vrd_start fs ctl) = Inr (Returned (), s) \<and> vrd_ready s p \<and>
    vr_bufs s p = Some b \<and> vr_event_kinds s = map er_kind (sc_events (bf_control b)) \<and>
    sb_capacity (bf_shm b) = 512 \<and> vr_last_thread_id s = 1 \<and> bf_elems b = []"
  using tsan_init_ok [of malloc recs, OF assms] by blast

theorem tsan_init_ready_witness:
  "\<exists>s b. tsan_init vrd_malloc os_example os_example [attach_round] None 7 (vrd_start fs_example ctl_example) = Inr (Returned (), s) \<and>
    vrd_ready s 7 \<and> vr_bufs s 7 = Some b \<and> sb_capacity (bf_shm b) = 512"
proof -
  have "list_all (\<lambda>r. registers (cr_others r)) [attach_round]" "fs_ok fs_example" "all_ok os_example"
    using attach_round_registers(1) by (simp_all add: fs_ok_def fs_example_def all_ok_def os_example_def)
  from tsan_init_ready [of vrd_malloc "replicate 10 blank_record", OF vrd_malloc_ok this(2,3,3,1), of None 7 ctl_example]
  show ?thesis using attach_round_registers(2) by auto
qed


text \<open>An example: main (the thread 1, with the top buffer at 7) creates a thread, whose data is at 3 and whose buffer is at 8,
  and then writes.\<close>

lemma vrd_example:
  obtains s r d where "tsan_init vrd_malloc os_example os_example [attach_round] None 7 (vrd_start fs_example ctl_example) = Inr (Returned (), s)"
    "vrd_reach s 7 1 r" "rn_running r = {1}" "length (rn_log r) = 1" "vr_datas (rn_s r) 3 = Some d" "vd_thread_id d = 1" "dom (vr_datas (rn_s r)) = {3}"
proof -
  have os: "all_ok os_example" by (simp add: all_ok_def os_example_def)
  have "list_all (\<lambda>r. registers (cr_others r)) [attach_round]" "fs_ok fs_example"
    using attach_round_registers(1) by (simp_all add: fs_ok_def fs_example_def)
  from tsan_init_ok [of vrd_malloc "replicate 10 blank_record", OF vrd_malloc_ok this(2) os os this(1), of None 7 ctl_example]
  obtain s b where s: "tsan_init vrd_malloc os_example os_example [attach_round] None 7 (vrd_start fs_example ctl_example) = Inr (Returned (), s)"
      "vrd_ready s 7" "vr_bufs s 7 = Some b" "sb_capacity (bf_shm b) = 512" "bf_elems b = []" "fs_ok (vr_fs s)"
      "bf_key b = ''/vrd''" "bf_last_subbufer_no b = 0" "vr_last_thread_id s = 1"
    using attach_round_registers(2) by auto
  obtain x s1 where e: "vrd_thrd_entry 1 None s = Inr (x, s1)" by (simp add: vrd_thrd_entry_def Let_def)
  let ?r = "\<lparr>rn_s = s1, rn_running = {1}, rn_entered = {}, rn_used = {7}, rn_log = []\<rparr>"
  have r: "vrd_reach s 7 1 ?r" by (rule reach_main [OF s(2) e])
  have s1: "buf_of s1 1 = Some 7" "vr_bufs s1 7 = Some b" "vr_fs s1 = vr_fs s" "vr_top_shmbuf s1 = Some 7" "vr_datas s1 = Map.empty"
      "vr_last_thread_id s1 = 1"
    using e s(2,3,9) by (auto simp: vrd_thrd_entry_def Let_def set_local_def vrd_ready_def)
  obtain mem :: vrd_thread_data where True by simp
  obtain s2 d where c: "vrd_create_thrd os_example os_example (Some 3) mem 8 0 s1 = Inr (3, s2)" "vr_datas s2 3 = Some d" "vd_thread_id d = 1"
    using create_thrd_ok [OF vrd_reach_inv [OF r], of 7 b os_example os_example 3 mem 8 0] s1 s(6-8) os by auto
  let ?r2 = "?r\<lparr>rn_s := s2, rn_used := insert 8 {7}\<rparr>"
  have d2: "dom (vr_datas s2) = {3}" using c(1) s1(4,5)
    by (auto simp: vrd_create_thrd_def Let_def set_buf_def split: option.splits if_splits)
  have "vrd_step ?r ?r2" using st_create [of 1 ?r 3 8 os_example os_example mem 0 s2] c(1) s1(5) by simp
  from reach_step [OF r this] have r2: "vrd_reach s 7 1 ?r2" .
  have "1 \<in> rn_running ?r2" by simp
  then obtain q b2 where "buf_of (rn_s ?r2) 1 = Some q" "vr_bufs (rn_s ?r2) q = Some b2" "good_buf b2" by (rule running_buf [OF vrd_reach_inv [OF r2]])
  then have q: "buf_of s2 1 = Some q" "vr_bufs s2 q = Some b2" "good_buf b2" by simp_all
  have b2: "bf_elems b2 = []" "0 < unat (sb_capacity (bf_shm b2))"
    using vrd_reach_inv [OF r2] q(2,3) by (auto simp: vrd_inv_def bufs_ok_def sent_def good_buf_def bf_live_def bf_ok_def pq_inv_def sb_queue_def word_less_nat_alt)
  have "length (vr_event_kinds s2) = EVENTS_NUM" using vrd_reach_inv [OF r2] by (simp add: vrd_inv_def source_ok_def)
  then obtain s3 where em: "emit_event [] 1 EV_WRITE 4096 s2 = Inr (Returned (), s3)"
    using emit_event_ok [OF q, of "[]" EV_WRITE 4096] ev_index_less [of EV_WRITE] b2 by auto
  have "vrd_step ?r2 (log_event ?r2 1 s3)" using st_emit [of 1 ?r2 "[]" EV_WRITE 4096 s3] em by simp
  from reach_step [OF r2 this] have "vrd_reach s 7 1 (log_event ?r2 1 s3)" .
  moreover have "rn_log (log_event ?r2 1 s3) \<noteq> [] \<and> length (rn_log (log_event ?r2 1 s3)) = 1" "rn_running (log_event ?r2 1 s3) = {1}"
      "rn_s (log_event ?r2 1 s3) = s3"
    using emit_logged [OF vrd_reach_inv [OF r2], of 1 "[]" EV_WRITE 4096 s3 s3] em by (auto simp: logged_def)
  moreover have "vr_datas s3 = vr_datas s2" using emit_datas [OF vrd_reach_inv [OF r2], of 1 "[]" EV_WRITE 4096 s3] em by simp
  ultimately show ?thesis using that s(1) c(2,3) d2 by auto
qed




text \<open>
  C23: the events of forks and joins carry the id of the thread they are about. After \<open>thrd_create\<close> a fork event with the
  internal id of the new thread is pushed and the id of the thread library is stored; as long as no other thread data has that
  id, \<open>__vrd_thrd_join\<close> finds the data (the search ends after at most all threads of the list), and after the
  join an event with the same internal id is pushed and the data is gone.
\<close>

theorem fork_join_events:
  assumes "vrd_reach s p m r" and "t \<in> rn_running r" and "list_all monitor_act env" and "vr_datas (rn_s r) a = Some d"
  shows "(\<forall>tid s'. vrd_thrd_created env t a tid (rn_s r) = Inr (Returned (), s') \<longrightarrow>
      logged r t s' EV_FORK (vd_thread_id d) \<and> vr_datas s' = (vr_datas (rn_s r))(a \<mapsto> d\<lparr>vd_std_thread_id := tid\<rparr>)) \<and>
    (\<forall>fuel. (\<forall>a' d'. vr_datas (rn_s r) a' = Some d' \<longrightarrow> vd_std_thread_id d' = vd_std_thread_id d \<longrightarrow> a' = a) \<longrightarrow>
      card (dom (vr_datas (rn_s r))) < fuel \<longrightarrow> vrd_thrd_join fuel (rn_s r) (vd_std_thread_id d) = Some (Inr (Some a))) \<and>
    (\<forall>s'. vrd_thrd_joined env t a (rn_s r) = Inr (Returned (), s') \<longrightarrow>
      logged r t s' EV_JOIN (vd_thread_id d) \<and> vr_datas s' = (vr_datas (rn_s r))(a := None))"
proof (intro conjI allI impI)
  note inv = vrd_reach_inv [OF assms(1)]
  fix tid s'
  assume "vrd_thrd_created env t a tid (rn_s r) = Inr (Returned (), s')"
  then obtain s1 d1 where e: "emit_event env t EV_FORK (vd_thread_id d) (rn_s r) = Inr (Returned (), s1)" and d1: "vr_datas s1 a = Some d1"
      and s': "s' = s1\<lparr>vr_datas := (vr_datas s1)(a \<mapsto> d1\<lparr>vd_std_thread_id := tid\<rparr>)\<rparr>"
    using assms(4) by (auto simp: vrd_thrd_created_def data_at_def assertE_def split: waiting.splits option.splits if_splits)
  show "logged r t s' EV_FORK (vd_thread_id d)" by (rule emit_logged [OF inv assms(2,3) e]) (simp_all add: s')
  show "vr_datas s' = (vr_datas (rn_s r))(a \<mapsto> d\<lparr>vd_std_thread_id := tid\<rparr>)"
    using emit_datas [OF inv assms(2,3) e] d1 assms(4) s' by simp
next
  fix fuel
  assume u: "\<forall>a' d'. vr_datas (rn_s r) a' = Some d' \<longrightarrow> vd_std_thread_id d' = vd_std_thread_id d \<longrightarrow> a' = a"
    and f: "card (dom (vr_datas (rn_s r))) < fuel"
  obtain xs where xs: "ring (vr_list (rn_s r)) 0 xs" "fst ` set xs = dom (vr_datas (rn_s r))"
    using vrd_reach_inv [OF assms(1)] by (auto simp: vrd_inv_def list_ok_def)
  have "length xs = card (fst ` set xs)" using xs(1) distinct_card [of "map fst xs"] by (simp add: ring_def)
  then have len: "length xs < fuel" using f xs(2) by simp
  have "find (\<lambda>a. vd_std_thread_id (the (vr_datas (rn_s r) a)) = vd_std_thread_id d) (map fst xs) = Some a"
  proof (intro find_unique ballI impI)
    show "a \<in> set (map fst xs)" using xs(2) assms(4) by (simp add: domI)
    fix x
    assume "x \<in> set (map fst xs)" and eq: "vd_std_thread_id (the (vr_datas (rn_s r) x)) = vd_std_thread_id d"
    then obtain d' where "vr_datas (rn_s r) x = Some d'" using xs(2) by auto
    then show "x = a" using u eq by simp
  qed (use assms(4) in simp)
  then show "vrd_thrd_join fuel (rn_s r) (vd_std_thread_id d) = Some (Inr (Some a))"
    using get_data_ok [OF xs len] by (simp add: vrd_thrd_join_def)
next
  note inv = vrd_reach_inv [OF assms(1)]
  fix s'
  assume "vrd_thrd_joined env t a (rn_s r) = Inr (Returned (), s')"
  then obtain s1 l where e: "emit_event env t EV_JOIN (vd_thread_id d) (rn_s r) = Inr (Returned (), s1)"
      and s': "s' = s1\<lparr>vr_list := l(a := None), vr_datas := (vr_datas s1)(a := None)\<rparr>"
    using assms(4) by (auto simp: vrd_thrd_joined_def data_at_def split: waiting.splits option.splits)
  show "logged r t s' EV_JOIN (vd_thread_id d)" by (rule emit_logged [OF inv assms(2,3) e]) (simp_all add: s')
  show "vr_datas s' = (vr_datas (rn_s r))(a := None)" using emit_datas [OF inv assms(2,3) e] s' by simp
qed

theorem fork_join_events_witness:
  "\<exists>s r d. vrd_reach s 7 1 r \<and> vr_datas (rn_s r) 3 = Some d \<and> vrd_thrd_join 2 (rn_s r) (vd_std_thread_id d) = Some (Inr (Some 3)) \<and>
    (\<forall>tid s'. vrd_thrd_created [] 1 3 tid (rn_s r) = Inr (Returned (), s') \<longrightarrow> logged r 1 s' EV_FORK 1)"
proof -
  obtain s r d where r: "vrd_reach s 7 1 r" "rn_running r = {1}" "vr_datas (rn_s r) 3 = Some d" "vd_thread_id d = 1" "dom (vr_datas (rn_s r)) = {3}"
    by (rule vrd_example)
  have "1 \<in> rn_running r" "list_all monitor_act []" using r(2) by simp_all
  note fj = fork_join_events [OF r(1) this r(3)]
  have "\<forall>a' d'. vr_datas (rn_s r) a' = Some d' \<longrightarrow> vd_std_thread_id d' = vd_std_thread_id d \<longrightarrow> a' = 3" using r(5) by auto
  moreover have "card (dom (vr_datas (rn_s r))) < 2" using r(5) by simp
  ultimately have "vrd_thrd_join 2 (rn_s r) (vd_std_thread_id d) = Some (Inr (Some 3))" using conjunct1 [OF conjunct2 [OF fj]] by blast
  moreover have "\<forall>tid s'. vrd_thrd_created [] 1 3 tid (rn_s r) = Inr (Returned (), s') \<longrightarrow> logged r 1 s' EV_FORK 1"
    using conjunct1 [OF fj] unfolding r(4) by blast
  ultimately show ?thesis using r(1,3) by blast
qed

section \<open>Findings\<close>

text \<open>
  Until \<open>__vrd_thrd_created\<close> is called, the id of the thread library in the data of a new thread, which \<open>get_data\<close> of any
  other thread compares, is what \<open>malloc\<close> left there.
\<close>

lemma new_data_std_id_indeterminate:
  assumes "vrd_create_thrd os os' (Some a) mem q original_data s = Inr (a, s')"
  shows "\<exists>d. vr_datas s' a = Some d \<and> vd_std_thread_id d = vd_std_thread_id mem"
  using assms by (auto simp: vrd_create_thrd_def Let_def split: option.splits)

text \<open>
  When main ends with \<open>thrd_exit\<close> the handle of the top buffer is freed but \<open>top_shmbuf\<close> keeps its address: a thread
  that is created later, and the handler of signals, use it.
\<close>

lemma top_buffer_used_after_free:
  assumes e: "vrd_thrd_exit os pg_size t s = Inr s'" and t: "buf_of s t = vr_top_shmbuf s" "vr_top_shmbuf s = Some p"
  shows "vrd_create_thrd os' os'' (Some a) mem q original_data s' = Inl (UB ''dangling pointer'')"
    and "sig_handler os' pg_size s' = Inl (UB ''dangling pointer'')"
proof -
  have "vr_top_shmbuf s' = Some p" "vr_bufs s' p = None"
    using e t by (auto simp: vrd_thrd_exit_def Let_def free_buf_def split: option.splits)
  then show "vrd_create_thrd os' os'' (Some a) mem q original_data s' = Inl (UB ''dangling pointer'')"
    "sig_handler os' pg_size s' = Inl (UB ''dangling pointer'')"
    by (simp_all add: vrd_create_thrd_def sig_handler_def buf_at_def Let_def)
qed

end
