(* ===== verification/Text_Source.thy ===== *)
theory Text_Source
  imports Shm_Files
begin

text \<open>
  The sources that match lines of text against regular expressions: \<open>sources/regex.c\<close>, which reads its
  standard input, and \<open>sources/drregex/regex.c\<close>, which intercepts the writes of a program under
  DynamoRIO. Both send, for every line and every expression that matches it, an event whose arguments are the
  parts of the line the signature asks for.

  Of the C library, the compiled expressions (\<open>regcomp\<close> gives the function that \<open>regexec\<close>
  computes: the offsets of the match and of its groups, -1 for a group without a match) and the conversions to floating-point numbers (as bits)
  are arguments, as are the results of \<open>malloc\<close>, \<open>realloc\<close> and \<open>mmap\<close>. A line is the bytes before its
  terminating NUL. The calls of DynamoRIO into the client are taken one at a time: the client has no lock that works
  (\<open>write_lock_excludes_nobody\<close>).
\<close>

section \<open>The C library\<close>

type_synonym regmatch_t = "int \<times> int"
type_synonym regex_t = "byte list \<Rightarrow> regmatch_t list option"

record libc =
  lc_malloc :: "size_t \<Rightarrow> byte list option"
  lc_realloc :: "byte list \<Rightarrow> size_t \<Rightarrow> byte list option"
  lc_mmap :: "size_t \<Rightarrow> byte list option"
  lc_pg_size :: size_t
  lc_regcomp :: "string \<Rightarrow> regex_t option"
  lc_atof :: "byte list \<Rightarrow> 32 word"
  lc_strtod :: "byte list \<Rightarrow> 64 word"

text \<open>The string at the start of a block, and what \<open>strncpy\<close> writes when its bound is the length of the source.\<close>

definition bstr :: "byte list \<Rightarrow> byte list" where
  "bstr mem = takeWhile (\<lambda>c. c \<noteq> 0) mem"

definition strn :: "byte list \<Rightarrow> byte list" where
  "strn x = bstr x @ replicate (length x - length (bstr x)) 0"

text \<open>\<open>atoi\<close> and \<open>atol\<close>: a number that does not fit is undefined behaviour.\<close>

definition c_isspace :: "byte \<Rightarrow> bool" where
  "c_isspace c \<longleftrightarrow> c = 32 \<or> (9 \<le> c \<and> c \<le> 13)"

definition c_isdigit :: "byte \<Rightarrow> bool" where
  "c_isdigit c \<longleftrightarrow> 48 \<le> c \<and> c \<le> 57"

definition digits_val :: "byte list \<Rightarrow> int" where
  "digits_val ds = foldl (\<lambda>v d. 10 * v + (uint d - 48)) 0 (takeWhile c_isdigit ds)"

definition c_number :: "byte list \<Rightarrow> int" where
  "c_number s =
     (case dropWhile c_isspace s of
        [] \<Rightarrow> 0
      | c # cs \<Rightarrow> if c = 45 then - digits_val cs else if c = 43 then digits_val cs else digits_val (c # cs))"

definition c_atoi :: "byte list \<Rightarrow> 32 word res" where
  "c_atoi s =
     (let v = c_number s in
      if - (2 ^ 31) \<le> v \<and> v < 2 ^ 31 then Inr (word_of_int v) else Inl (UB ''atoi: out of range''))"

definition c_atol :: "byte list \<Rightarrow> 64 word res" where
  "c_atol s =
     (let v = c_number s in
      if - (2 ^ 63) \<le> v \<and> v < 2 ^ 63 then Inr (word_of_int v) else Inl (UB ''atol: out of range''))"

section \<open>The state of a source\<close>

text \<open>
  The expressions with their signatures, the shared buffer, the counters, the temporary buffer. The
  field \<open>tx_env\<close> has what the monitor does to the shared buffer in the rounds in which the source waits for space.
\<close>

record text_source =
  tx_exprs :: "(regex_t \<times> string) list"
  tx_shm :: buffer
  tx_waiting :: size_t
  tx_id :: shm_eventid
  tx_tmpline :: "byte list option"
  tx_tmpline_len :: size_t
  tx_env :: "(buffer \<Rightarrow> buffer) list"

text \<open>Computations that may wait for the monitor for ever.\<close>

definition bindW :: "'a waiting res \<Rightarrow> ('a \<Rightarrow> 'b waiting res) \<Rightarrow> 'b waiting res" where
  "bindW m f = bindE m (\<lambda>w. case w of Waiting \<Rightarrow> Inr Waiting | Returned x \<Rightarrow> f x)"

lemma bindW_simps [simp]:
  "bindW (Inl e) f = Inl e" "bindW (Inr Waiting) f = Inr Waiting" "bindW (Inr (Returned x)) f = f x"
  by (simp_all add: bindW_def)

lemma bindW_cong [fundef_cong]:
  "m = m' \<Longrightarrow> (\<And>x. m' = Inr (Returned x) \<Longrightarrow> f x = g x) \<Longrightarrow> bindW m f = bindW m' g"
  by (auto simp: bindW_def intro!: bindE_cong split: waiting.splits)

function wait_push :: "text_source \<Rightarrow> (size_t waiting \<times> text_source) res" where
  "wait_push s =
     bindE (buffer_start_push (tx_shm s)) (\<lambda>(p, b).
     case p of
       Some a \<Rightarrow> Inr (Returned a, s\<lparr>tx_shm := b\<rparr>)
     | None \<Rightarrow>
         (case tx_env s of
            [] \<Rightarrow> Inr (Waiting, s\<lparr>tx_shm := b\<rparr>)
          | act # env \<Rightarrow> wait_push (s\<lparr>tx_shm := act b, tx_waiting := tx_waiting s + 1, tx_env := env\<rparr>)))"
  by pat_completeness auto
termination
  by (relation "measure (\<lambda>s. length (tx_env s))") auto

declare wait_push.simps [simp del]

section \<open>The arguments of an event\<close>

definition MAXMATCH :: nat where
  "MAXMATCH = 20"

text \<open>The array has \<open>MAXMATCH + 1\<close> entries, of which \<open>regexec\<close> fills \<open>MAXMATCH\<close>.\<close>

definition match_at :: "regmatch_t list \<Rightarrow> nat \<Rightarrow> regmatch_t res" where
  "match_at matches m = (if m < length matches then Inr (matches ! m) else Inl (UB ''uninitialised match''))"

definition ensure_tmpline :: "libc \<Rightarrow> size_t \<Rightarrow> text_source \<Rightarrow> text_source res" where
  "ensure_tmpline lc len s =
     (if tx_tmpline_len s < len then
        (case lc_malloc lc (len + 1) of
           None \<Rightarrow> Inl (Assertion ''Memory allocation failed'')
         | Some mem \<Rightarrow> Inr (s\<lparr>tx_tmpline := Some mem, tx_tmpline_len := len\<rparr>))
      else Inr s)"

definition fill_tmpline :: "byte list \<Rightarrow> text_source \<Rightarrow> text_source res" where
  "fill_tmpline x s =
     (case tx_tmpline s of
        None \<Rightarrow> Inl (UB ''NULL dereference'')
      | Some mem \<Rightarrow>
          bindE (mem_write mem 0 (strn x)) (\<lambda>mem.
          bindE (mem_write mem (length x) [0]) (\<lambda>mem. Inr (s\<lparr>tx_tmpline := Some mem\<rparr>))))"

definition tmp_str :: "text_source \<Rightarrow> byte list" where
  "tmp_str s = (case tx_tmpline s of None \<Rightarrow> [] | Some mem \<Rightarrow> bstr mem)"

definition push_bytes :: "byte list \<Rightarrow> size_t \<Rightarrow> text_source \<Rightarrow> (size_t \<times> text_source) res" where
  "push_bytes x addr s =
     bindE (buffer_partial_push (tx_shm s) addr x (of_nat (length x))) (\<lambda>(addr, b). Inr (addr, s\<lparr>tx_shm := b\<rparr>))"

definition push_string :: "libc \<Rightarrow> byte list \<Rightarrow> size_t \<Rightarrow> text_source \<Rightarrow> (size_t \<times> text_source) res" where
  "push_string lc x addr s =
     bindE (buffer_partial_push_str (lc_mmap lc) (lc_pg_size lc) (tx_shm s) addr (tx_id s) x) (\<lambda>(addr, b).
     Inr (addr, s\<lparr>tx_shm := b\<rparr>))"

text \<open>
  One iteration of the loop over the signature; a group that has no match is skipped with a warning. The offsets
  are within the line, whose terminating NUL may be read.
\<close>

definition push_arg :: "libc \<Rightarrow> byte list \<Rightarrow> regmatch_t list \<Rightarrow> char \<Rightarrow> nat \<Rightarrow> size_t \<Rightarrow> text_source \<Rightarrow> (size_t \<times> text_source) res" where
  "push_arg lc line matches c m addr s =
     (if c = CHR ''L'' then push_string lc line addr s
      else bindE (match_at matches (if c = CHR ''M'' then 0 else m)) (\<lambda>(so, eo).
        if c \<noteq> CHR ''M'' \<and> so < 0 then Inr (addr, s)
        else (let len = eo - so in
          bindE (ensure_tmpline lc (word_of_int len) s) (\<lambda>s.
          assertE (0 \<le> so) ''matches[0].rm_so >= 0''
          (if eo < so \<or> int (length line) < eo then Inl (UB ''read out of bounds'')
           else bindE (fill_tmpline (take (nat len) (drop (nat so) line)) s) (\<lambda>s.
             if c = CHR ''M'' \<or> c = CHR ''S'' then push_string lc (tmp_str s) addr s
             else if c = CHR ''c'' then assertE (len = 1) ''len == 1'' (push_bytes [(line @ [0]) ! nat eo] addr s)
             else if c = CHR ''i'' then bindE (c_atoi (tmp_str s)) (\<lambda>v. push_bytes (le_bytes 4 (ucast v)) addr s)
             else if c = CHR ''l'' then bindE (c_atol (tmp_str s)) (\<lambda>v. push_bytes (le64 v) addr s)
             else if c = CHR ''f'' then push_bytes (le_bytes 4 (ucast (lc_atof lc (tmp_str s)))) addr s
             else if c = CHR ''d'' then push_bytes (le64 (lc_strtod lc (tmp_str s))) addr s
             else Inl (Assertion ''Invalid signature'')))))))"

fun push_args :: "libc \<Rightarrow> byte list \<Rightarrow> regmatch_t list \<Rightarrow> string \<Rightarrow> nat \<Rightarrow> size_t \<Rightarrow> text_source \<Rightarrow> text_source res" where
  "push_args lc line matches [] m addr s = Inr s"
| "push_args lc line matches (c # sig) m addr s =
     (if MAXMATCH < m then Inr s
      else bindE (push_arg lc line matches c m addr s) (\<lambda>(addr, s). push_args lc line matches sig (Suc m) addr s))"

section \<open>Lines\<close>

text \<open>The kind the monitor has assigned to the event with index \<open>i\<close>, read from the shared memory.\<close>

definition kind_at :: "text_source \<Rightarrow> nat \<Rightarrow> shm_kind res" where
  "kind_at s i =
     (let events = snd (buffer_get_avail_events (tx_shm s)) in
      if i < length events then Inr (er_kind (events ! i)) else Inl (UB ''read out of bounds''))"

definition push_match :: "libc \<Rightarrow> nat \<Rightarrow> string \<Rightarrow> byte list \<Rightarrow> regmatch_t list \<Rightarrow> text_source \<Rightarrow> text_source waiting res" where
  "push_match lc i sig line matches s =
     bindE (wait_push s) (\<lambda>(r, s).
     case r of
       Waiting \<Rightarrow> Inr Waiting
     | Returned addr \<Rightarrow>
         let s = s\<lparr>tx_id := tx_id s + 1\<rparr> in
         bindE (kind_at s i) (\<lambda>kind.
         bindE (push_bytes (le64 kind @ le64 (tx_id s)) addr s) (\<lambda>(addr, s).
         bindE (push_args lc line matches sig 1 addr s) (\<lambda>s.
         bindE (buffer_finish_push (tx_shm s)) (\<lambda>b. Inr (Returned (s\<lparr>tx_shm := b\<rparr>)))))))"

fun parse_exprs :: "libc \<Rightarrow> byte list \<Rightarrow> nat \<Rightarrow> (regex_t \<times> string) list \<Rightarrow> text_source \<Rightarrow> text_source waiting res" where
  "parse_exprs lc line i [] s = Inr (Returned s)"
| "parse_exprs lc line i ((re, sig) # es) s =
     bindE (kind_at s i) (\<lambda>kind.
     if kind = 0 then parse_exprs lc line (Suc i) es s
     else (case re line of
        None \<Rightarrow> parse_exprs lc line (Suc i) es s
      | Some matches \<Rightarrow> bindW (push_match lc i sig line matches s) (parse_exprs lc line (Suc i) es)))"

section \<open>The source on the standard input\<close>

text \<open>The loop over the results of \<open>getline\<close>; the last character is taken for the newline.\<close>

definition source_line :: "libc \<Rightarrow> byte list \<Rightarrow> text_source \<Rightarrow> text_source waiting res" where
  "source_line lc line s = parse_exprs lc (bstr line) 0 (tx_exprs s) s"

fun main_loop :: "libc \<Rightarrow> byte list list \<Rightarrow> text_source \<Rightarrow> text_source waiting res" where
  "main_loop lc [] s = Inr (Returned s)"
| "main_loop lc (l # ls) s =
     (if l = [] then main_loop lc ls s else bindW (source_line lc (butlast l) s) (main_loop lc ls))"

text \<open>The arguments; \<open>None\<close> is the end of the program with status 1.\<close>

definition arg_at :: "string list \<Rightarrow> nat \<Rightarrow> string res" where
  "arg_at argv i = (if i < length argv then Inr (argv ! i) else Inl (UB ''read out of bounds''))"

fun parse_triples :: "libc \<Rightarrow> string list \<Rightarrow> nat \<Rightarrow> nat \<Rightarrow> (string \<times> regex_t \<times> string) list option res" where
  "parse_triples lc argv arg_i 0 = Inr (Some [])"
| "parse_triples lc argv arg_i (Suc n) =
     bindE (arg_at argv arg_i) (\<lambda>name.
     bindE (arg_at argv (arg_i + 1)) (\<lambda>expr.
     if length argv \<le> arg_i + 2 then Inr None
     else bindE (arg_at argv (arg_i + 2)) (\<lambda>sig.
       case lc_regcomp lc expr of
         None \<Rightarrow> Inr None
       | Some re \<Rightarrow>
           bindE (parse_triples lc argv (arg_i + 3) n) (\<lambda>r.
           Inr (case r of None \<Rightarrow> None | Some es \<Rightarrow> Some ((name, re, sig) # es))))))"

text \<open>The remainder of C has the sign of the dividend; a negative remainder differs from 0 as well.\<close>

definition parse_argv :: "libc \<Rightarrow> string list \<Rightarrow> (string \<times> (string \<times> regex_t \<times> string) list) option res" where
  "parse_argv lc argv =
     (let argc = int (length argv); exprs_num = (length argv - 1) div 3 in
      if argc < 5 \<and> (argc - 2) mod 3 \<noteq> 0 then Inr None
      else if exprs_num = 0 then Inr None
      else bindE (arg_at argv 1) (\<lambda>shmkey.
        bindE (parse_triples lc argv 2 exprs_num) (\<lambda>r.
        Inr (case r of None \<Rightarrow> None | Some es \<Rightarrow> Some (shmkey, es)))))"

definition regex_main ::
    "libc \<Rightarrow> (size_t \<Rightarrow> event_record list option) \<Rightarrow> os \<Rightarrow> os \<Rightarrow> os \<Rightarrow> shm_fs \<Rightarrow> client_round list \<Rightarrow> int option \<Rightarrow>
      (buffer \<Rightarrow> buffer) list \<Rightarrow> string list \<Rightarrow> byte list list \<Rightarrow> (int \<times> shm_fs) waiting res" where
  "regex_main lc malloc os os' os'' fs rounds last_sleep env argv input =
     bindE (parse_argv lc argv) (\<lambda>r.
     case r of None \<Rightarrow> Inr (Returned (1, fs)) | Some (shmkey, es) \<Rightarrow>
     bindE (source_control_define_pairwise malloc (of_nat (length es)) (map fst es) (map (snd \<circ> snd) es)) (\<lambda>control.
     bindE (create_shared_buffer os os' fs shmkey 256 control) (\<lambda>(shm, fs).
     case shm of None \<Rightarrow> Inl (Assertion ''shm'') | Some shm \<Rightarrow>
     case buffer_wait_for_monitor rounds last_sleep shm of
       Waiting \<Rightarrow> Inr Waiting
     | Returned (_, shm) \<Rightarrow>
         assertE (fst (buffer_get_avail_events shm) = of_nat (length es)) ''Information in shared memory does not fit''
         (bindW (main_loop lc input
             \<lparr>tx_exprs = map snd es, tx_shm = shm, tx_waiting = 0, tx_id = 0, tx_tmpline = None, tx_tmpline_len = 0, tx_env = env\<rparr>) (\<lambda>s.
          bindE (destroy_shared_buffer os'' (lc_pg_size lc) fs (tx_shm s)) (\<lambda>fs. Inr (Returned (0, fs))))))))"

section \<open>The source on the writes of a program\<close>

record drregex =
  dr_src :: text_source
  dr_write_lock :: bool
  dr_partial_line :: "byte list option"
  dr_partial_line_len :: size_t
  dr_partial_line_alloc_len :: size_t
  dr_thread_num :: size_t

text \<open>
  The loop of \<open>write_lock\<close> is that of the lock of the dropped ranges: it is repeated while the exchange succeeds.
\<close>

definition write_lock :: "drregex \<Rightarrow> drregex" where
  "write_lock s = s\<lparr>dr_write_lock := lock_loop (dr_write_lock s)\<rparr>"

definition write_unlock :: "drregex \<Rightarrow> drregex" where
  "write_unlock s = s\<lparr>dr_write_lock := False\<rparr>"

fun dr_parse_exprs :: "libc \<Rightarrow> byte list \<Rightarrow> nat \<Rightarrow> (regex_t \<times> string) list \<Rightarrow> drregex \<Rightarrow> drregex waiting res" where
  "dr_parse_exprs lc line i [] s = Inr (Returned s)"
| "dr_parse_exprs lc line i ((re, sig) # es) s =
     bindE (kind_at (dr_src s) i) (\<lambda>kind.
     if kind = 0 then dr_parse_exprs lc line (Suc i) es s
     else (case re line of
        None \<Rightarrow> dr_parse_exprs lc line (Suc i) es s
      | Some matches \<Rightarrow>
          let s = write_lock s in
          bindW (push_match lc i sig line matches (dr_src s)) (\<lambda>src.
          dr_parse_exprs lc line (Suc i) es (write_unlock (s\<lparr>dr_src := src\<rparr>)))))"

definition parse_line :: "libc \<Rightarrow> byte list \<Rightarrow> drregex \<Rightarrow> drregex waiting res" where
  "parse_line lc line s = dr_parse_exprs lc (bstr line) 0 (tx_exprs (dr_src s)) s"

text \<open>The buffer for a line whose end has not been written yet.\<close>

definition partial_write :: "nat \<Rightarrow> byte list \<Rightarrow> drregex \<Rightarrow> drregex res" where
  "partial_write off x s =
     (case dr_partial_line s of
        None \<Rightarrow> Inl (UB ''NULL dereference'')
      | Some mem \<Rightarrow> bindE (mem_write mem off x) (\<lambda>mem. Inr (s\<lparr>dr_partial_line := Some mem\<rparr>)))"

definition append_partial :: "libc \<Rightarrow> byte list \<Rightarrow> drregex \<Rightarrow> drregex res" where
  "append_partial lc x s =
     (let len = dr_partial_line_len s; linelen = of_nat (length x) in
      bindE (if dr_partial_line_alloc_len s \<le> len + linelen then
               (case (case dr_partial_line s of None \<Rightarrow> lc_malloc lc (len + linelen + 1)
                      | Some mem \<Rightarrow> lc_realloc lc mem (len + linelen + 1)) of
                  None \<Rightarrow> Inl (Assertion ''Allocation failed'')
                | Some mem \<Rightarrow> Inr (s\<lparr>dr_partial_line := Some mem, dr_partial_line_alloc_len := len + linelen + 1\<rparr>))
             else Inr s) (\<lambda>s.
      bindE (partial_write (unat len) (strn x) s) (\<lambda>s.
      Inr (s\<lparr>dr_partial_line_len := len + linelen\<rparr>))))"

definition start_partial :: "libc \<Rightarrow> byte list \<Rightarrow> drregex \<Rightarrow> drregex res" where
  "start_partial lc x s =
     (let linelen = of_nat (length x) in
      bindE (if dr_partial_line_alloc_len s \<le> linelen then
               (case lc_malloc lc (linelen + 1) of
                  None \<Rightarrow> Inl (Assertion ''Allocation failed'')
                | Some mem \<Rightarrow> Inr (s\<lparr>dr_partial_line := Some mem, dr_partial_line_alloc_len := linelen + 1\<rparr>))
             else Inr s) (\<lambda>s.
      assertE (dr_partial_line_alloc_len s > linelen) ''partial_line_alloc_len > linelen''
      (bindE (partial_write 0 (strn x) s) (\<lambda>s.
       Inr (s\<lparr>dr_partial_line_len := linelen\<rparr>)))))"

text \<open>
  A call: the buffer of the program, whether it is writable, and the result of the system call as a signed
  number. The search for the end of a line stops at \<open>endptr\<close> only.
\<close>

function find_newline :: "byte list \<Rightarrow> int \<Rightarrow> nat \<Rightarrow> nat res" where
  "find_newline buf endptr k =
     (if int k = endptr then Inr k
      else if length buf \<le> k then Inl (UB ''read out of bounds'')
      else if buf ! k = 10 then Inr k
      else find_newline buf endptr (Suc k))"
  by pat_completeness auto
termination
  by (relation "measure (\<lambda>(buf, endptr, k). length buf - k)") auto

declare find_newline.simps [simp del]

lemma find_newline_bounds:
  "find_newline buf endptr k = Inr l \<Longrightarrow> k \<le> l \<and> (int l \<noteq> endptr \<longrightarrow> l < length buf \<and> buf ! l = 10)"
  by (induction buf endptr k rule: find_newline.induct) (subst (asm) (2) find_newline.simps, auto split: if_splits)

definition end_line :: "libc \<Rightarrow> byte list \<Rightarrow> bool \<Rightarrow> drregex \<Rightarrow> drregex waiting res" where
  "end_line lc x writable s =
     (if dr_partial_line_len s > 0 then
        bindE (append_partial lc x s) (\<lambda>s.
        bindE (partial_write (unat (dr_partial_line_len s)) [0] s) (\<lambda>s.
        bindW (parse_line lc (case dr_partial_line s of None \<Rightarrow> [] | Some mem \<Rightarrow> mem) s) (\<lambda>s.
        Inr (Returned (s\<lparr>dr_partial_line_len := 0\<rparr>)))))
      else if \<not> writable then Inl (UB ''write to read-only memory'')
      else parse_line lc x s)"

function push_event_loop :: "libc \<Rightarrow> byte list \<Rightarrow> bool \<Rightarrow> int \<Rightarrow> nat \<Rightarrow> drregex \<Rightarrow> drregex waiting res" where
  "push_event_loop lc buf writable endptr line s =
     bindE (find_newline buf endptr line) (\<lambda>line_end.
     let x = take (line_end - line) (drop line buf) in
     if int line_end = endptr then
       bindE (if dr_partial_line_len s > 0 then append_partial lc x s else start_partial lc x s) (\<lambda>s. Inr (Returned s))
     else bindW (end_line lc x writable s) (\<lambda>s.
       if int (Suc line_end) = endptr then Inr (Returned s)
       else push_event_loop lc buf writable endptr (Suc line_end) s))"
  by pat_completeness auto
termination
  by (relation "measure (\<lambda>(lc, buf, w, endptr, line, s). length buf - line)") (auto dest: find_newline_bounds)

declare push_event_loop.simps [simp del]

definition push_event :: "libc \<Rightarrow> byte list \<Rightarrow> bool \<Rightarrow> int \<Rightarrow> drregex \<Rightarrow> drregex waiting res" where
  "push_event lc buf writable retlen s = push_event_loop lc buf writable retlen 0 s"

text \<open>The callbacks around a system call, on Linux.\<close>

record per_thread_t =
  pt_fd :: "32 word"
  pt_buf :: "byte list \<times> bool"
  pt_size :: size_t
  pt_thread :: size_t

definition SYS_read :: int where
  "SYS_read = 0"

definition SYS_write :: int where
  "SYS_write = 1"

definition event_filter_syscall :: "int \<Rightarrow> bool" where
  "event_filter_syscall sysnum \<longleftrightarrow> sysnum = SYS_write \<or> sysnum = SYS_read"

definition event_thread_context_init :: "bool \<Rightarrow> per_thread_t \<Rightarrow> drregex \<Rightarrow> per_thread_t \<times> drregex" where
  "event_thread_context_init new_depth data s =
     (if new_depth then (data\<lparr>pt_fd := - 1, pt_thread := dr_thread_num s\<rparr>, s\<lparr>dr_thread_num := dr_thread_num s + 1\<rparr>)
      else (data, s))"

definition event_pre_syscall :: "int \<Rightarrow> 64 word \<Rightarrow> byte list \<times> bool \<Rightarrow> 64 word \<Rightarrow> per_thread_t \<Rightarrow> per_thread_t" where
  "event_pre_syscall sysnum fd buf sz data =
     (if sysnum \<noteq> SYS_read \<and> sysnum \<noteq> SYS_write then data
      else data\<lparr>pt_fd := ucast fd, pt_buf := buf, pt_size := sz\<rparr>)"

definition event_post_syscall :: "libc \<Rightarrow> int \<Rightarrow> 64 word \<Rightarrow> per_thread_t \<Rightarrow> drregex \<Rightarrow> drregex waiting res" where
  "event_post_syscall lc sysnum retval data s =
     (if sysnum \<noteq> SYS_read \<and> sysnum \<noteq> SYS_write then Inr (Returned s)
      else if pt_fd data \<noteq> 1 then Inr (Returned s)
      else push_event lc (fst (pt_buf data)) (snd (pt_buf data)) (sint retval) s)"

end
