(* ===== verification/Text_Lines.thy ===== *)
theory Text_Lines
  imports Text_Source
begin

text \<open>
  Lines: however the writes of a program cut its output into pieces, the source under DynamoRIO sends the events
  that the source on the standard input sends for the same text.
\<close>

section \<open>Waiting computations\<close>

definition mapW :: "('a \<Rightarrow> 'b) \<Rightarrow> 'a waiting res \<Rightarrow> 'b waiting res" where
  "mapW f m = bindW m (\<lambda>x. Inr (Returned (f x)))"

lemma mapW_simps [simp]:
  "mapW f (Inl e) = Inl e" "mapW f (Inr Waiting) = Inr Waiting" "mapW f (Inr (Returned x)) = Inr (Returned (f x))"
  by (simp_all add: mapW_def)

lemma waiting_res_cases [case_names error waits returns]:
  obtains e where "m = Inl e" | "m = Inr Waiting" | x where "m = Inr (Returned x)"
proof (cases m)
  case (Inr w)
  then show thesis using that by (cases w) auto
qed (rule that(1))

lemma bindW_assoc: "bindW (bindW m f) g = bindW m (\<lambda>x. bindW (f x) g)"
  by (cases m rule: waiting_res_cases) simp_all

lemma mapW_bindW: "mapW f (bindW m g) = bindW m (\<lambda>x. mapW f (g x))"
  by (simp add: mapW_def bindW_assoc)

lemma mapW_bindE: "mapW f (bindE m g) = bindE m (\<lambda>x. mapW f (g x))"
  by (cases m) simp_all

lemma bindW_mapW: "bindW (mapW f m) g = bindW m (\<lambda>x. g (f x))"
  by (simp add: mapW_def bindW_assoc)

lemma bindW_eq_Returned: "bindW m f = Inr (Returned y) \<longleftrightarrow> (\<exists>x. m = Inr (Returned x) \<and> f x = Inr (Returned y))"
  by (cases m rule: waiting_res_cases) simp_all

section \<open>Texts as lines\<close>

fun split_lines :: "byte list \<Rightarrow> byte list \<Rightarrow> byte list list \<times> byte list" where
  "split_lines acc [] = ([], acc)"
| "split_lines acc (c # cs) =
     (if c = 10 then (let (ls, r) = split_lines [] cs in (acc # ls, r)) else split_lines (acc @ [c]) cs)"

lemma split_lines_no_newline: "10 \<notin> set x \<Longrightarrow> split_lines acc x = ([], acc @ x)"
  by (induction x arbitrary: acc) auto

lemma split_lines_newline:
  "10 \<notin> set x \<Longrightarrow> split_lines acc (x @ 10 # cs) = ((acc @ x) # fst (split_lines [] cs), snd (split_lines [] cs))"
  by (induction x arbitrary: acc) (auto split: prod.splits)

lemma split_lines_append:
  "split_lines acc (x @ y) =
     (fst (split_lines acc x) @ fst (split_lines (snd (split_lines acc x)) y), snd (split_lines (snd (split_lines acc x)) y))"
  by (induction acc x rule: split_lines.induct) (auto split: prod.splits)

lemma length_split_lines_rest: "length (snd (split_lines acc x)) \<le> length acc + length x"
proof (induction acc x rule: split_lines.induct)
  case (2 acc c cs)
  show ?case
  proof (cases "c = 10")
    case True
    then show ?thesis using "2.IH"(1) by (auto split: prod.splits)
  next
    case False
    then show ?thesis using "2.IH"(2) by simp
  qed
qed simp

text \<open>Blocks that hold the same string, whatever follows.\<close>

definition same_str :: "byte list \<Rightarrow> byte list \<Rightarrow> bool" where
  "same_str p q \<longleftrightarrow> length p = length q \<and> (\<forall>y. bstr (p @ y) = bstr (q @ y))"

lemma same_str_refl [simp]: "same_str p p"
  by (simp add: same_str_def)

lemma same_str_append: "same_str p q \<Longrightarrow> same_str (p @ x) (q @ x)"
  by (simp add: same_str_def)

lemma length_strn [simp]: "length (strn x) = length x"
  using length_takeWhile_le [of "\<lambda>c. c \<noteq> 0" x] by (simp add: strn_def bstr_def)

lemma bstr_no_nul: "bstr x = x \<or> (\<forall>y. bstr (x @ y) = bstr x) \<and> length (bstr x) < length x"
proof (cases "0 \<in> set x")
  case True
  then have "bstr (x @ y) = bstr x" for y by (auto simp: bstr_def)
  moreover have "bstr x \<noteq> x" using True by (auto simp: bstr_def takeWhile_eq_all_conv)
  then have "length (bstr x) \<noteq> length x"
    using takeWhile_eq_take [of "\<lambda>c. c \<noteq> 0" x] unfolding bstr_def by (metis take_all order_refl)
  then have "length (bstr x) < length x"
    using length_takeWhile_le [of "\<lambda>c. c \<noteq> 0" x] by (simp add: bstr_def)
  ultimately show ?thesis by simp
qed (auto simp: bstr_def takeWhile_eq_all_conv)

lemma bstr_append_cong: "bstr (x @ y) = bstr (x @ z) \<longleftrightarrow> bstr x \<noteq> x \<or> bstr y = bstr z"
proof (cases "\<forall>c \<in> set x. c \<noteq> 0")
  case True
  then show ?thesis by (simp add: bstr_def takeWhile_append takeWhile_eq_all_conv)
next
  case False
  then show ?thesis by (auto simp: bstr_def takeWhile_eq_all_conv)
qed

lemma same_str_strn: "same_str (strn x) x"
proof -
  have "bstr (strn x @ y) = bstr (x @ y)" for y
  proof (cases "bstr x = x")
    case False
    then have l: "length (bstr x) < length x" and e: "bstr (x @ y) = bstr x" using bstr_no_nul [of x] by auto
    obtain k where k: "length x - length (bstr x) = Suc k" using l by (cases "length x - length (bstr x)") auto
    have "bstr (bstr x @ 0 # z) = bstr x" for z
      by (simp add: bstr_def takeWhile_tail)
    then show ?thesis using e k by (simp add: strn_def)
  qed (simp add: strn_def)
  then show ?thesis by (simp add: same_str_def)
qed

lemma same_str_append_strn: "same_str p q \<Longrightarrow> same_str (p @ strn x) (q @ x)"
proof -
  assume pq: "same_str p q"
  have "bstr (p @ strn x @ y) = bstr (p @ x @ y)" for y
    using same_str_strn [of x] by (simp add: bstr_append_cong same_str_def)
  then show ?thesis using pq by (simp add: same_str_def)
qed

lemma split_lines_same_str:
  "same_str p q \<Longrightarrow> map bstr (fst (split_lines p x)) = map bstr (fst (split_lines q x)) \<and>
     same_str (snd (split_lines p x)) (snd (split_lines q x))"
proof (induction x arbitrary: p q)
  case (Cons c cs)
  show ?case
  proof (cases "c = 10")
    case True
    have "bstr p = bstr q" using Cons.prems by (auto simp: same_str_def dest: spec [of _ "[]"])
    then show ?thesis using True by (simp split: prod.splits)
  next
    case False
    then show ?thesis using Cons.IH [OF same_str_append [OF Cons.prems]] by simp
  qed
qed simp

section \<open>The line that has no end yet\<close>

definition lib_ok :: "libc \<Rightarrow> bool" where
  "lib_ok lc \<longleftrightarrow> (\<forall>n. \<exists>mem. lc_malloc lc n = Some mem \<and> length mem = unat n) \<and>
     (\<forall>old n. length old \<le> unat n \<longrightarrow> (\<exists>mem. lc_realloc lc old n = Some mem \<and> length mem = unat n \<and> take (length old) mem = old))"

definition pl_ok :: "drregex \<Rightarrow> bool" where
  "pl_ok s \<longleftrightarrow> (case dr_partial_line s of
     None \<Rightarrow> dr_partial_line_alloc_len s = 0 \<and> dr_partial_line_len s = 0
   | Some mem \<Rightarrow> length mem = unat (dr_partial_line_alloc_len s) \<and> dr_partial_line_len s < dr_partial_line_alloc_len s)"

definition pend :: "drregex \<Rightarrow> byte list" where
  "pend s = (case dr_partial_line s of None \<Rightarrow> [] | Some mem \<Rightarrow> take (unat (dr_partial_line_len s)) mem)"

lemma length_pend: "pl_ok s \<Longrightarrow> length (pend s) = unat (dr_partial_line_len s)"
  by (auto simp: pl_ok_def pend_def word_less_nat_alt split: option.splits)

lemma lib_malloc: "lib_ok lc \<Longrightarrow> \<exists>mem. lc_malloc lc n = Some mem \<and> length mem = unat n"
  by (simp add: lib_ok_def)

lemma take_mem_upd: "n + length x \<le> length mem \<Longrightarrow> take (n + length x) (mem_upd mem n x) = take n mem @ x"
  by (simp add: mem_upd_def)

lemma append_partial_ok:
  assumes lc: "lib_ok lc" and ok: "pl_ok s" and pos: "0 < dr_partial_line_len s"
    and bound: "length (pend s) + length x + 1 < 18446744073709551616"
  shows "\<exists>s'. append_partial lc x s = Inr s' \<and> pl_ok s' \<and> pend s' = pend s @ strn x \<and> dr_src s' = dr_src s \<and>
    unat (dr_partial_line_len s') = length (pend s) + length x"
proof -
  let ?len = "dr_partial_line_len s" and ?n = "of_nat (length x) :: size_t"
  obtain mem where mem: "dr_partial_line s = Some mem" "length mem = unat (dr_partial_line_alloc_len s)"
      "unat ?len < length mem" "pend s = take (unat ?len) mem"
    using ok pos by (auto simp: pl_ok_def pend_def word_less_nat_alt split: option.splits)
  have lp: "length (pend s) = unat ?len" by (rule length_pend [OF ok])
  have u: "unat (?len + ?n) = unat ?len + length x" "unat (?len + ?n + 1) = unat ?len + length x + 1"
    using bound lp by (simp_all add: unat_add_64 unat_of_nat_64)
  have "\<exists>mem' a. (if dr_partial_line_alloc_len s \<le> ?len + ?n then
               (case (case dr_partial_line s of None \<Rightarrow> lc_malloc lc (?len + ?n + 1)
                      | Some mem \<Rightarrow> lc_realloc lc mem (?len + ?n + 1)) of
                  None \<Rightarrow> Inl (Assertion ''Allocation failed'')
                | Some mem \<Rightarrow> Inr (s\<lparr>dr_partial_line := Some mem, dr_partial_line_alloc_len := ?len + ?n + 1\<rparr>))
             else Inr s) = Inr (s\<lparr>dr_partial_line := Some mem', dr_partial_line_alloc_len := a\<rparr>) \<and>
       length mem' = unat a \<and> unat ?len + length x < unat a \<and> take (unat ?len) mem' = pend s"
  proof (cases "dr_partial_line_alloc_len s \<le> ?len + ?n")
    case True
    then have "length mem \<le> unat (?len + ?n + 1)" using mem(2) u by (simp add: word_le_nat_alt)
    then obtain mem' where m: "lc_realloc lc mem (?len + ?n + 1) = Some mem'" "length mem' = unat (?len + ?n + 1)" "take (length mem) mem' = mem"
      using lc unfolding lib_ok_def by blast
    have "take (unat ?len) mem' = take (unat ?len) (take (length mem) mem')" using mem(3) by (simp add: min_def)
    then show ?thesis using True m(1,2) mem(1,3,4) u m(3)
      by (intro exI [of _ mem'] exI [of _ "?len + ?n + 1"]) simp
  next
    case False
    then have "unat ?len + length x < unat (dr_partial_line_alloc_len s)" using u by (simp add: word_le_nat_alt)
    then show ?thesis using False mem
      by (intro exI [of _ mem] exI [of _ "dr_partial_line_alloc_len s"]) simp
  qed
  then obtain mem' a where a: "append_partial lc x s =
        bindE (partial_write (unat ?len) (strn x) (s\<lparr>dr_partial_line := Some mem', dr_partial_line_alloc_len := a\<rparr>)) (\<lambda>s.
        Inr (s\<lparr>dr_partial_line_len := ?len + ?n\<rparr>))"
      "length mem' = unat a" "unat ?len + length x < unat a" "take (unat ?len) mem' = pend s"
    by (auto simp: append_partial_def Let_def)
  let ?s' = "s\<lparr>dr_partial_line := Some (mem_upd mem' (unat ?len) (strn x)), dr_partial_line_alloc_len := a, dr_partial_line_len := ?len + ?n\<rparr>"
  have "append_partial lc x s = Inr ?s'" using a(1-3) by (simp add: partial_write_def)
  moreover have "pl_ok ?s'" using a(2,3) u by (simp add: pl_ok_def word_less_nat_alt)
  moreover have "pend ?s' = pend s @ strn x" using a(2-4) u take_mem_upd [of "unat ?len" "strn x" mem'] by (simp add: pend_def)
  ultimately show ?thesis using u lp by auto
qed

lemma start_partial_ok:
  assumes lc: "lib_ok lc" and ok: "pl_ok s" and z: "\<not> 0 < dr_partial_line_len s"
    and bound: "length x + 1 < 18446744073709551616"
  shows "\<exists>s'. start_partial lc x s = Inr s' \<and> pl_ok s' \<and> pend s' = pend s @ strn x \<and> dr_src s' = dr_src s"
proof -
  let ?n = "of_nat (length x) :: size_t"
  have u: "unat ?n = length x" "unat (?n + 1) = length x + 1" using bound by (simp_all add: unat_add_64 unat_of_nat_64)
  have p: "pend s = []" using z by (simp add: pend_def word_less_nat_alt split: option.splits)
  have "\<exists>mem' a. (if dr_partial_line_alloc_len s \<le> ?n then
               (case lc_malloc lc (?n + 1) of
                  None \<Rightarrow> Inl (Assertion ''Allocation failed'')
                | Some mem \<Rightarrow> Inr (s\<lparr>dr_partial_line := Some mem, dr_partial_line_alloc_len := ?n + 1\<rparr>))
             else Inr s) = Inr (s\<lparr>dr_partial_line := Some mem', dr_partial_line_alloc_len := a\<rparr>) \<and>
       length mem' = unat a \<and> length x < unat a"
  proof (cases "dr_partial_line_alloc_len s \<le> ?n")
    case True
    obtain mem where "lc_malloc lc (?n + 1) = Some mem" "length mem = unat (?n + 1)" using lib_malloc [OF lc] by blast
    then show ?thesis using True u by (intro exI [of _ mem] exI [of _ "?n + 1"]) simp
  next
    case False
    then have lt: "length x < unat (dr_partial_line_alloc_len s)" using u by (simp add: word_le_nat_alt)
    then obtain mem where "dr_partial_line s = Some mem" "length mem = unat (dr_partial_line_alloc_len s)"
      using ok by (auto simp: pl_ok_def split: option.splits)
    then show ?thesis using False lt by (intro exI [of _ mem] exI [of _ "dr_partial_line_alloc_len s"]) simp
  qed
  then obtain mem' a where a: "start_partial lc x s =
        assertE (a > ?n) ''partial_line_alloc_len > linelen''
        (bindE (partial_write 0 (strn x) (s\<lparr>dr_partial_line := Some mem', dr_partial_line_alloc_len := a\<rparr>)) (\<lambda>s.
         Inr (s\<lparr>dr_partial_line_len := ?n\<rparr>)))"
      "length mem' = unat a" "length x < unat a"
    by (auto simp: start_partial_def Let_def)
  let ?s' = "s\<lparr>dr_partial_line := Some (mem_upd mem' 0 (strn x)), dr_partial_line_alloc_len := a, dr_partial_line_len := ?n\<rparr>"
  have "start_partial lc x s = Inr ?s'" using a u by (simp add: partial_write_def word_less_nat_alt)
  moreover have "pl_ok ?s'" using a(2,3) u by (simp add: pl_ok_def word_less_nat_alt)
  moreover have "pend ?s' = pend s @ strn x" using a(2,3) u p take_mem_upd [of 0 "strn x" mem'] by (simp add: pend_def)
  ultimately show ?thesis by auto
qed

section \<open>One line\<close>

fun source_lines :: "libc \<Rightarrow> byte list list \<Rightarrow> text_source \<Rightarrow> text_source waiting res" where
  "source_lines lc [] s = Inr (Returned s)"
| "source_lines lc (l # ls) s = bindW (source_line lc l s) (source_lines lc ls)"

lemma main_loop_lines: "main_loop lc (map (\<lambda>l. l @ [10]) ls) s = source_lines lc ls s"
  by (induction ls arbitrary: s) (auto intro: bindW_cong)

lemma source_lines_append: "source_lines lc (xs @ ys) s = bindW (source_lines lc xs s) (source_lines lc ys)"
  by (induction xs arbitrary: s) (auto simp: bindW_assoc intro: bindW_cong)

lemma source_lines_bstr: "map bstr xs = map bstr ys \<Longrightarrow> source_lines lc xs s = source_lines lc ys s"
proof (induction xs arbitrary: ys s)
  case (Cons x xs)
  then obtain y ys' where ys: "ys = y # ys'" "bstr x = bstr y" "map bstr xs = map bstr ys'" by (cases ys) auto
  then have "source_line lc x s = source_line lc y s" by (simp add: source_line_def)
  then show ?case using ys Cons.IH [OF ys(3)] by (auto intro: bindW_cong)
qed simp

text \<open>The locks make no difference.\<close>

lemma dr_parse_exprs_src: "mapW dr_src (dr_parse_exprs lc line i es s) = parse_exprs lc line i es (dr_src s)"
  by (induction lc line i es s rule: dr_parse_exprs.induct)
    (auto simp: mapW_bindE mapW_bindW write_lock_def write_unlock_def Let_def intro!: bindE_cong bindW_cong split: option.splits)

lemma dr_parse_exprs_partial:
  "dr_parse_exprs lc line i es s = Inr (Returned s') \<Longrightarrow> dr_partial_line s' = dr_partial_line s \<and>
     dr_partial_line_len s' = dr_partial_line_len s \<and> dr_partial_line_alloc_len s' = dr_partial_line_alloc_len s"
proof (induction lc line i es s rule: dr_parse_exprs.induct)
  case (2 lc line i re sig es s)
  obtain k where k: "kind_at (dr_src s) i = Inr k" using "2.prems" by auto
  show ?case
  proof (cases "k = 0 \<or> re line = None")
    case True
    then have "dr_parse_exprs lc line (Suc i) es s = Inr (Returned s')" using "2.prems" k by (auto split: if_splits)
    then show ?thesis using "2.IH"(1,2) [OF k] True by auto
  next
    case False
    then obtain ms where ms: "re line = Some ms" "k \<noteq> 0" by auto
    obtain src where src: "push_match lc i sig line ms (dr_src (write_lock s)) = Inr (Returned src)"
        "dr_parse_exprs lc line (Suc i) es (write_unlock ((write_lock s)\<lparr>dr_src := src\<rparr>)) = Inr (Returned s')"
      using "2.prems" k ms by (auto simp: bindW_eq_Returned Let_def)
    show ?thesis using "2.IH"(3) [OF k ms(2,1) refl src] by (simp add: write_lock_def write_unlock_def)
  qed
qed simp

lemma parse_line_src: "mapW dr_src (parse_line lc x s) = source_line lc x (dr_src s)"
  by (simp add: parse_line_def source_line_def dr_parse_exprs_src)

lemma parse_line_partial:
  "parse_line lc x s = Inr (Returned s') \<Longrightarrow> pl_ok s' = pl_ok s \<and> pend s' = pend s \<and> dr_partial_line_len s' = dr_partial_line_len s"
  unfolding parse_line_def pl_ok_def pend_def by (drule dr_parse_exprs_partial) (elim conjE, simp only: simp_thms)

lemma source_line_bstr: "bstr x = bstr y \<Longrightarrow> source_line lc x s = source_line lc y s"
  by (simp add: source_line_def)

lemma end_line_ok:
  assumes lc: "lib_ok lc" and ok: "pl_ok s" and p: "same_str (pend s) q"
    and bound: "length q + length x + 1 < 18446744073709551616"
  shows "mapW dr_src (end_line lc x True s) = source_line lc (q @ x) (dr_src s)"
    and "end_line lc x True s = Inr (Returned s') \<Longrightarrow> pl_ok s' \<and> pend s' = []"
proof -
  have pq: "bstr (pend s @ x) = bstr (q @ x)" "length (pend s) = length q" using p by (simp_all add: same_str_def)
  have "mapW dr_src (end_line lc x True s) = source_line lc (q @ x) (dr_src s) \<and>
    (\<forall>s'. end_line lc x True s = Inr (Returned s') \<longrightarrow> pl_ok s' \<and> pend s' = [])"
  proof (cases "0 < dr_partial_line_len s")
    case True
    obtain s1 where s1: "append_partial lc x s = Inr s1" "pl_ok s1" "pend s1 = pend s @ strn x" "dr_src s1 = dr_src s"
        "unat (dr_partial_line_len s1) = length (pend s) + length x"
      using append_partial_ok [OF lc ok True] bound pq(2) by auto
    obtain mem where mem: "dr_partial_line s1 = Some mem" "unat (dr_partial_line_len s1) < length mem"
        "length mem = unat (dr_partial_line_alloc_len s1)"
      using s1(2,5) True length_pend [OF ok] by (auto simp: pl_ok_def word_less_nat_alt split: option.splits)
    let ?mem = "mem_upd mem (unat (dr_partial_line_len s1)) [0]"
    let ?s2 = "s1\<lparr>dr_partial_line := Some ?mem\<rparr>"
    have w: "partial_write (unat (dr_partial_line_len s1)) [0] s1 = Inr ?s2" using mem by (simp add: partial_write_def)
    have tk: "take (unat (dr_partial_line_len s1)) mem = pend s @ strn x" using mem(1) s1(3) by (simp add: pend_def)
    then have "bstr ?mem = bstr (pend s @ strn x @ 0 # drop (Suc (unat (dr_partial_line_len s1))) mem)"
      by (simp add: mem_upd_def)
    also have "\<dots> = bstr (pend s @ x @ 0 # drop (Suc (unat (dr_partial_line_len s1))) mem)"
      using same_str_strn [of x] by (simp add: bstr_append_cong same_str_def)
    also have "\<dots> = bstr (q @ x @ [0])" using p by (simp add: same_str_def bstr_append_cong) (simp add: bstr_def)
    also have "\<dots> = bstr (q @ x)" using takeWhile_tail [of "\<lambda>c. c \<noteq> 0" 0 "q @ x" "[]"] by (simp add: bstr_def)
    finally have str: "bstr ?mem = bstr (q @ x)" .
    have e: "end_line lc x True s = bindW (parse_line lc ?mem ?s2) (\<lambda>s. Inr (Returned (s\<lparr>dr_partial_line_len := 0\<rparr>)))"
      using True s1(1) w by (simp add: end_line_def)
    then have "mapW dr_src (end_line lc x True s) = mapW dr_src (parse_line lc ?mem ?s2)"
      by (simp add: mapW_bindW) (simp add: mapW_def)
    also have "\<dots> = source_line lc (q @ x) (dr_src s)" using parse_line_src source_line_bstr [OF str] s1(4) by simp
    finally have *: "mapW dr_src (end_line lc x True s) = source_line lc (q @ x) (dr_src s)" .
    have "pl_ok ?s2" using s1(2) mem by (simp add: pl_ok_def)
    then have "pl_ok s' \<and> pend s' = []" if "end_line lc x True s = Inr (Returned s')" for s'
      using that e by (auto simp: bindW_eq_Returned dest!: parse_line_partial)
        (auto simp: pl_ok_def pend_def word_less_nat_alt split: option.splits)
    with * show ?thesis by blast
  next
    case False
    then have "pend s = []" using length_pend [OF ok] by (simp add: word_less_nat_alt)
    then show ?thesis using False parse_line_src [of lc x s] source_line_bstr [OF pq(1)] ok
      by (auto simp: end_line_def dest!: parse_line_partial)
  qed
  then show "mapW dr_src (end_line lc x True s) = source_line lc (q @ x) (dr_src s)"
    and "end_line lc x True s = Inr (Returned s') \<Longrightarrow> pl_ok s' \<and> pend s' = []"
    by blast+
qed

section \<open>The writes of a program\<close>

lemma find_newline_eq:
  assumes "line \<le> n" and "n \<le> length buf"
  shows "find_newline buf (int n) line = Inr (line + length (takeWhile (\<lambda>c. c \<noteq> 10) (drop line (take n buf))))"
  using assms
proof (induction "n - line" arbitrary: line)
  case 0
  then show ?case by (subst find_newline.simps) simp
next
  case (Suc k)
  then have lt: "line < n" "line < length buf" by simp_all
  then have d: "drop line (take n buf) = buf ! line # drop (Suc line) (take n buf)"
    by (simp add: Cons_nth_drop_Suc [symmetric])
  show ?case using Suc.hyps(1) [of "Suc line"] Suc.hyps(2) Suc.prems lt d by (subst find_newline.simps) auto
qed

lemma push_event_loop_ok:
  assumes "lib_ok lc" and "pl_ok s" and "same_str (pend s) q" and "line \<le> n" "n \<le> length buf"
    and "length q + (n - line) + 1 < 18446744073709551616"
  shows "mapW dr_src (push_event_loop lc buf True (int n) line s) = source_lines lc (fst (split_lines q (drop line (take n buf)))) (dr_src s) \<and>
    (\<forall>s'. push_event_loop lc buf True (int n) line s = Inr (Returned s') \<longrightarrow>
       pl_ok s' \<and> same_str (pend s') (snd (split_lines q (drop line (take n buf)))))"
  using assms
proof (induction "n - line" arbitrary: line s q rule: less_induct)
  case less
  let ?t = "drop line (take n buf)"
  let ?x = "takeWhile (\<lambda>c. c \<noteq> 10) ?t"
  let ?e = "line + length ?x"
  have nl: "10 \<notin> set ?x" by (auto dest: set_takeWhileD)
  have lx: "length ?x \<le> n - line" using length_takeWhile_le [of "\<lambda>c. c \<noteq> 10" ?t] less.prems(5) by simp
  have "take (?e - line) (drop line buf) = take (length ?x) ?t" using lx by (simp add: drop_take min_def)
  also have "\<dots> = ?x" by (rule takeWhile_eq_take [symmetric])
  finally have x: "take (?e - line) (drop line buf) = ?x" .
  have b: "length q + length ?x + 1 < 18446744073709551616" using less.prems(6) lx by simp
  have lq: "length (pend s) = length q" using less.prems(3) by (simp add: same_str_def)
  show ?case
  proof (cases "?e = n")
    case True
    then have t: "?x = ?t" using less.prems(4,5) takeWhile_eq_take [of "\<lambda>c. c \<noteq> 10" ?t] by simp
    have "\<exists>s'. (if dr_partial_line_len s > 0 then append_partial lc ?x s else start_partial lc ?x s) = Inr s' \<and> pl_ok s' \<and>
        pend s' = pend s @ strn ?x \<and> dr_src s' = dr_src s"
      using append_partial_ok [OF less.prems(1,2)] start_partial_ok [OF less.prems(1,2)] b lq by auto
    then obtain s' where s': "(if dr_partial_line_len s > 0 then append_partial lc ?x s else start_partial lc ?x s) = Inr s'" "pl_ok s'"
        "pend s' = pend s @ strn ?x" "dr_src s' = dr_src s"
      by blast
    have f: "find_newline buf (int n) line = Inr n" "take (n - line) (drop line buf) = ?x"
      using find_newline_eq [OF less.prems(4,5)] True x by simp_all
    have ret: "push_event_loop lc buf True (int n) line s = Inr (Returned s')"
      by (subst push_event_loop.simps) (simp only: f s'(1) bindE_Inr Let_def simp_thms if_True)
    have "split_lines q ?t = ([], q @ ?x)" using split_lines_no_newline [OF nl, of q] unfolding t .
    moreover have "same_str (pend s') (q @ ?x)" using s'(3) same_str_append_strn [OF less.prems(3)] by simp
    ultimately show ?thesis using ret s'(2,4) by simp
  next
    case False
    then have lt: "?e < n" using lx less.prems(4) by linarith
    then have "length ?x < length ?t" using less.prems(5) by simp
    then have "?t ! length ?x = 10" using nth_length_takeWhile [of "\<lambda>c. c \<noteq> 10" ?t] by simp
    then have t: "?t = ?x @ 10 # drop (Suc ?e) (take n buf)"
      using id_take_nth_drop [OF \<open>length ?x < length ?t\<close>] takeWhile_eq_take [of "\<lambda>c. c \<noteq> 10" ?t] by (simp add: add.commute)
    let ?r = "drop (Suc ?e) (take n buf)"
    have sp: "split_lines q ?t = ((q @ ?x) # fst (split_lines [] ?r), snd (split_lines [] ?r))"
      using split_lines_newline [OF nl, of q ?r] t by simp
    note el = end_line_ok [OF less.prems(1-3) b]
    have unf: "push_event_loop lc buf True (int n) line s = bindW (end_line lc ?x True s) (\<lambda>s.
       if Suc ?e = n then Inr (Returned s) else push_event_loop lc buf True (int n) (Suc ?e) s)"
      using False x by (subst push_event_loop.simps) (simp add: Let_def find_newline_eq [OF less.prems(4,5)] del: of_nat_Suc)
    define rest where "rest s = (if Suc ?e = n then Inr (Returned s) else push_event_loop lc buf True (int n) (Suc ?e) s)" for s
    have rest: "mapW dr_src (rest s1) = source_lines lc (fst (split_lines [] ?r)) (dr_src s1) \<and>
        (\<forall>s'. rest s1 = Inr (Returned s') \<longrightarrow> pl_ok s' \<and> same_str (pend s') (snd (split_lines [] ?r)))"
      if "pl_ok s1" "pend s1 = []" for s1
    proof (cases "Suc ?e = n")
      case True
      then show ?thesis using that by (simp add: rest_def)
    next
      case False
      then have "n - Suc ?e < n - line" "Suc ?e \<le> n" "same_str (pend s1) []" using lt that by simp_all
      then show ?thesis using less.hyps [of "Suc ?e" s1 "[]"] that False less.prems(1,5,6) by (simp add: rest_def)
    qed
    have "mapW dr_src (bindW (end_line lc ?x True s) rest) = bindW (end_line lc ?x True s) (\<lambda>s. mapW dr_src (rest s))"
      by (rule mapW_bindW)
    also have "\<dots> = bindW (end_line lc ?x True s) (\<lambda>s. source_lines lc (fst (split_lines [] ?r)) (dr_src s))"
      using rest el(2) by (intro bindW_cong) auto
    also have "\<dots> = bindW (mapW dr_src (end_line lc ?x True s)) (source_lines lc (fst (split_lines [] ?r)))"
      by (simp add: bindW_mapW)
    finally have "mapW dr_src (bindW (end_line lc ?x True s) rest) = source_lines lc (fst (split_lines q ?t)) (dr_src s)"
      using el(1) sp by simp
    moreover have "pl_ok s' \<and> same_str (pend s') (snd (split_lines q ?t))"
      if "bindW (end_line lc ?x True s) rest = Inr (Returned s')" for s'
      using that rest el(2) sp by (auto simp: bindW_eq_Returned)
    moreover have "push_event_loop lc buf True (int n) line s = bindW (end_line lc ?x True s) rest"
      by (simp only: unf) (rule bindW_cong, simp_all add: rest_def)
    ultimately show ?thesis by simp
  qed
qed

text \<open>A thread writes \<open>x\<close> to the standard output: the callbacks before and after a call that wrote all of it.\<close>

definition thread_write :: "libc \<Rightarrow> per_thread_t \<Rightarrow> byte list \<Rightarrow> drregex \<Rightarrow> drregex waiting res" where
  "thread_write lc data x s =
     event_post_syscall lc SYS_write (of_nat (length x)) (event_pre_syscall SYS_write 1 (x, True) (of_nat (length x)) data) s"

fun program_writes :: "libc \<Rightarrow> (per_thread_t \<times> byte list) list \<Rightarrow> drregex \<Rightarrow> drregex waiting res" where
  "program_writes lc [] s = Inr (Returned s)"
| "program_writes lc ((data, x) # ws) s = bindW (thread_write lc data x s) (program_writes lc ws)"

lemma sint_of_nat_64: "n < 9223372036854775808 \<Longrightarrow> sint (of_nat n :: 64 word) = int n"
proof -
  assume n: "n < 9223372036854775808"
  then have "uint (of_nat n :: 64 word) = int n" by (simp add: uint_nat unat_of_nat_64)
  then show ?thesis using n by (simp add: sint_uint signed_take_bit_int_eq_self)
qed

lemma thread_write_eq:
  "length x < 9223372036854775808 \<Longrightarrow> thread_write lc data x s = push_event_loop lc x True (int (length x)) 0 s"
  by (simp add: thread_write_def event_post_syscall_def event_pre_syscall_def push_event_def sint_of_nat_64 SYS_write_def SYS_read_def)

lemma program_writes_ok:
  assumes "lib_ok lc" and "pl_ok s" and "same_str (pend s) q" and "length q + length (concat (map snd ws)) < 9223372036854775808"
  shows "mapW dr_src (program_writes lc ws s) = source_lines lc (fst (split_lines q (concat (map snd ws)))) (dr_src s)"
  using assms
proof (induction lc ws s arbitrary: q rule: program_writes.induct)
  case (2 lc data x ws s)
  have l: "length x < 9223372036854775808" "length q + (length x - 0) + 1 < 18446744073709551616" using "2.prems"(4) by simp_all
  let ?q = "snd (split_lines q x)"
  have w: "mapW dr_src (thread_write lc data x s) = source_lines lc (fst (split_lines q x)) (dr_src s)"
    "\<And>s'. thread_write lc data x s = Inr (Returned s') \<Longrightarrow> pl_ok s' \<and> same_str (pend s') ?q"
    using push_event_loop_ok [OF "2.prems"(1-3) _ _ l(2), of x] thread_write_eq [OF l(1)] by simp_all
  have b: "length ?q + length (concat (map snd ws)) < 9223372036854775808"
    using "2.prems"(4) length_split_lines_rest [of q x] by simp
  have "mapW dr_src (program_writes lc ((data, x) # ws) s) = bindW (thread_write lc data x s) (\<lambda>s. mapW dr_src (program_writes lc ws s))"
    by (simp add: mapW_bindW)
  also have "\<dots> = bindW (thread_write lc data x s) (\<lambda>s. source_lines lc (fst (split_lines ?q (concat (map snd ws)))) (dr_src s))"
    using "2.IH" [OF _ "2.prems"(1)] w(2) b by (intro bindW_cong) auto
  also have "\<dots> = bindW (mapW dr_src (thread_write lc data x s)) (source_lines lc (fst (split_lines ?q (concat (map snd ws)))))"
    by (simp add: bindW_mapW)
  finally show ?case using w(1) by (simp add: split_lines_append source_lines_append)
qed simp

section \<open>Properties\<close>


text \<open>A program whose expression takes the whole line, which is written in three pieces.\<close>

definition tx_example :: text_source where
  "tx_example = \<lparr>tx_exprs = [(\<lambda>line. Some ((0, int (length line)) # replicate 19 (- 1, - 1)), ''L'')],
     tx_shm = bf_example, tx_waiting = 0, tx_id = 0, tx_tmpline = None, tx_tmpline_len = 0, tx_env = []\<rparr>"

definition dr_example :: drregex where
  "dr_example = \<lparr>dr_src = tx_example, dr_write_lock = False, dr_partial_line = None, dr_partial_line_len = 0,
     dr_partial_line_alloc_len = 0, dr_thread_num = 0\<rparr>"

definition lc_example :: libc where
  "lc_example = \<lparr>lc_malloc = zero_malloc, lc_realloc = (\<lambda>old n. Some (old @ replicate (unat n - length old) 0)),
     lc_mmap = zero_malloc, lc_pg_size = 4096, lc_regcomp = (\<lambda>_. None), lc_atof = (\<lambda>_. 0), lc_strtod = (\<lambda>_. 0)\<rparr>"

lemma lc_example_ok: "lib_ok lc_example"
  by (auto simp: lib_ok_def lc_example_def zero_malloc_def)


section \<open>Findings\<close>

text \<open>The lock is obtained whoever holds it.\<close>

lemma write_lock_excludes_nobody: "write_lock s = s\<lparr>dr_write_lock := True\<rparr>"
  by (simp add: write_lock_def)

text \<open>
  A system call that failed has a negative result, which \<open>event_post_syscall\<close> hands on as the number of bytes: the
  lines in the buffer are reported although they were not written, and the search continues behind the buffer.
\<close>

lemma find_newline_negative: "endptr < 0 \<Longrightarrow> find_newline buf endptr k = Inr l \<Longrightarrow> int l \<noteq> endptr"
  by (induction buf endptr k rule: find_newline.induct) (subst (asm) (2) find_newline.simps, auto split: if_splits)

lemma failed_write_reads_out_of_bounds:
  "retlen < 0 \<Longrightarrow> push_event lc buf writable retlen s \<noteq> Inr (Returned s')"
proof -
  have "endptr < 0 \<Longrightarrow> push_event_loop lc buf writable endptr line s \<noteq> Inr (Returned s')" for endptr line
  proof (induction lc buf writable endptr line s rule: push_event_loop.induct)
    case (1 lc buf writable endptr line s)
    show ?case
    proof
      assume "push_event_loop lc buf writable endptr line s = Inr (Returned s')"
      then obtain l s1 where l: "find_newline buf endptr line = Inr l" "int l \<noteq> endptr"
          "end_line lc (take (l - line) (drop line buf)) writable s = Inr (Returned s1)"
          "push_event_loop lc buf writable endptr (Suc l) s1 = Inr (Returned s')"
        using "1.prems" find_newline_negative [OF "1.prems"]
        by (subst (asm) push_event_loop.simps) (auto simp: Let_def bindW_eq_Returned)
      then show False using "1.IH" [OF l(1) refl l(2,3)] "1.prems" by simp
    qed
  qed
  then show "retlen < 0 \<Longrightarrow> push_event lc buf writable retlen s \<noteq> Inr (Returned s')" by (simp add: push_event_def)
qed

text \<open>A program that writes a line from read-only memory, e.g. a string literal: the client stores a NUL there.\<close>

lemma line_in_read_only_memory:
  assumes "dr_partial_line_len s = 0" and "10 \<in> set x"
  shows "push_event lc x False (int (length x)) s = Inl (UB ''write to read-only memory'')"
proof -
  have "length (takeWhile (\<lambda>c. c \<noteq> 10) x) \<noteq> length x"
    using assms(2) takeWhile_eq_take [of "\<lambda>c. c \<noteq> 10" x] takeWhile_eq_all_conv [of "\<lambda>c. c \<noteq> 10" x] by fastforce
  then show ?thesis using assms(1) find_newline_eq [of 0 "length x" x]
    by (simp add: push_event_def) (subst push_event_loop.simps, simp add: end_line_def Let_def)
qed

text \<open>The last line of the input loses its last character if it does not end with a newline.\<close>

lemma unfinished_line_truncated: "main_loop lc [[49, 50]] s = source_lines lc [[49]] s"
  by (auto intro: bindW_cong)

text \<open>An empty match, before any other, is written through a null pointer.\<close>

lemma empty_match_dereferences_null:
  assumes "tx_tmpline s = None" "tx_tmpline_len s = 0" and "m < length ms" "ms ! m = (k, k)" "0 \<le> k" "k \<le> int (length line)"
    and "c \<notin> {CHR ''L'', CHR ''M''}"
  shows "push_arg lc line ms c m addr s = Inl (UB ''NULL dereference'')"
  using assms by (simp add: push_arg_def match_at_def ensure_tmpline_def fill_tmpline_def Let_def)

text \<open>A character argument is the byte behind the match.\<close>

lemma char_argument_is_next_byte:
  assumes "m < length ms" "ms ! m = (k, k + 1)" "0 \<le> k" "k + 1 \<le> int (length line)"
    and "tx_tmpline s = Some mem" "2 \<le> length mem" "1 \<le> tx_tmpline_len s"
  shows "\<exists>s'. push_arg lc line ms CHR ''c'' m addr s = push_bytes [(line @ [0]) ! nat (k + 1)] addr s'"
proof -
  have f: "\<exists>s'. fill_tmpline (take 1 (drop (nat k) line)) s = Inr s'"
    using assms(3-6) by (simp add: fill_tmpline_def)
  have "ensure_tmpline lc 1 s = Inr s" using assms(7) by (simp add: ensure_tmpline_def flip: not_less)
  then show ?thesis using assms f by (auto simp: push_arg_def match_at_def Let_def)
qed

text \<open>The group with number 20 is never filled by \<open>regexec\<close>, which is called with room for 20 matches.\<close>

lemma last_group_uninitialised:
  "length ms = MAXMATCH \<Longrightarrow> push_args lc line ms ''i'' MAXMATCH addr s = Inl (UB ''uninitialised match'')"
  by (simp add: push_arg_def match_at_def)

text \<open>The check of the number of arguments lets a surplus argument pass.\<close>

lemma surplus_argument_accepted:
  assumes "lc_regcomp lc e = Some re"
  shows "parse_argv lc [p, k, n, e, sg, x] = Inr (Some (k, [(n, re, sg)]))"
proof -
  have "parse_triples lc [p, k, n, e, sg, x] 2 (Suc 0) = Inr (Some [(n, re, sg)])"
    using assms by (simp add: arg_at_def)
  then show ?thesis by (simp add: parse_argv_def arg_at_def Let_def)
qed

end
