(* ===== verification/Text_Events.thy ===== *)
theory Text_Events
  imports Text_Lines Arbiter
begin

text \<open>
  The events of a text source: what one line adds to the shared buffer. The strings of an event are references into the auxiliary
  buffers, so the statements say what the monitor reads through them.
\<close>

section \<open>Strings of one event\<close>

definition stamped :: "uint64_t \<Rightarrow> aux_buffer \<Rightarrow> aux_buffer" where
  "stamped evid ab = (if ab_first_event_id ab = 0 then ab\<lparr>ab_first_event_id := evid\<rparr> else ab)\<lparr>ab_last_event_id := evid\<rparr>"

lemma stamped_simps [simp]:
  "ab_data (stamped i ab) = ab_data ab" "ab_head (stamped i ab) = ab_head ab" "ab_reusable (stamped i ab) = ab_reusable ab"
  "ab_idx (stamped i ab) = ab_idx ab" "ab_last_event_id (stamped i ab) = i" "seg_wf c (stamped i ab) = seg_wf c ab"
  by (simp_all add: stamped_def seg_wf_def)

lemma set_seg_again: "set_seg c x (set_seg c y b) = set_seg c x b"
  by (simp add: set_seg_def)

text \<open>Storing a string leaves the description of the events alone.\<close>

lemma set_seg_control [simp]: "bf_control (set_seg c ab b) = bf_control b"
  by (simp add: set_seg_def)

lemma writer_find_control: "writer_find b sz cs = Inr (r, b') \<Longrightarrow> bf_control b' = bf_control b"
proof (induction cs arbitrary: b)
  case (Cons c cs)
  obtain ab where ab: "seg_at b c = Inr ab" using Cons.prems by auto
  let ?p = "if ab_last_event_id ab \<le> sb_last_processed_id (bf_shm b) then (True, b) else ab_was_dropped ab b"
  obtain d b1 where p: "?p = (d, b1)" by (cases ?p)
  have "bf_control (snd ?p) = bf_control b" by (simp add: ab_was_dropped_eq)
  then have c: "bf_control b1 = bf_control b" by (simp only: p snd_conv)
  show ?case
    using Cons.prems Cons.IH [of "set_seg c (if d then recycle ab else ab) b1"] c
    by (simp only: writer_find.simps ab bindE_Inr p Let_def prod.case set_seg_simps set_seg_control split: if_splits) auto
qed simp

lemma writer_get_aux_buffer_control: "writer_get_aux_buffer mmap pg b sz = Inr (c, b') \<Longrightarrow> bf_control b' = bf_control b"
  by (auto simp: writer_get_aux_buffer_def new_aux_buffer_def Let_def dest!: writer_find_control split: option.splits if_splits)

lemma buffer_push_str_control: "buffer_push_str mmap pg b i x = Inr (ref, b') \<Longrightarrow> bf_control b' = bf_control b"
  by (auto simp: buffer_push_str_def buffer_push_strn_def buffer_push_strn_raw_def Let_def
      dest!: writer_get_aux_buffer_control split: option.splits)

text \<open>A string that stays where it is: its segment is in use, and its events are neither processed nor dropped.\<close>

definition kept :: "buffer \<Rightarrow> uint64_t \<Rightarrow> byte list \<Rightarrow> bool" where
  "kept b ref x \<longleftrightarrow> (\<exists>c off ab. ref = off OR push_bit 32 c \<and> unat off < 4294967296 \<and> unat c < 4294967296 \<and>
     c \<in> set (bf_aux_age b) \<and> bf_segs b c = Some ab \<and> seg_wf c ab \<and> \<not> reclaimable b ab \<and>
     unat off + length x + 1 \<le> unat (ab_head ab) \<and> take (Suc (length x)) (drop (unat off) (ab_data ab)) = x @ [0])"

text \<open>An id of an event the monitor has not seen: it has not reported it as processed, nor dropped it.\<close>

definition fresh_id :: "buffer \<Rightarrow> shm_eventid \<Rightarrow> bool" where
  "fresh_id b i \<longleftrightarrow> sb_last_processed_id (bf_shm b) < i \<and> (\<forall>r \<in> set (sb_dropped_ranges (bf_shm b)). snd r < i)"

lemma fresh_not_reclaimable:
  "fresh_id b i \<Longrightarrow> ab_last_event_id ab = i \<Longrightarrow> \<not> ab_reusable ab \<Longrightarrow> \<not> reclaimable b ab"
  by (fastforce simp: fresh_id_def reclaimable_def list_ex_iff in_range_def)

lemma same_shm_fresh: "same_shm b b' \<Longrightarrow> fresh_id b' i = fresh_id b i"
  by (auto simp: same_shm_def fresh_id_def)

lemma take_drop_prefix:
  assumes "k + n \<le> h" and "take h d' = take h d"
  shows "take n (drop k d') = take n (drop k d)"
proof -
  have "take n (drop k d') = drop k (take (k + n) (take h d'))" using assms(1) by (simp add: drop_take min_def)
  also have "\<dots> = take n (drop k d)" using assms by (simp add: drop_take min_def)
  finally show ?thesis .
qed

lemma push_str_kept:
  assumes ok: "aux_ok b" and idx: "unat (bf_aux_buf_idx b) < 4294967295"
    and sys: "aux_sys_ok mmap pg (of_nat (length x) + 1)" and x: "length x < 4294967295" and fresh: "fresh_id b i"
  shows "\<exists>ref b'. buffer_push_str mmap pg b i x = Inr (ref, b') \<and> aux_ok b' \<and> same_shm b b' \<and> bf_control b' = bf_control b \<and>
    unat (bf_aux_buf_idx b') \<le> unat (bf_aux_buf_idx b) + 1 \<and> kept b' ref x \<and> (\<forall>r y. kept b r y \<longrightarrow> kept b' r y)"
proof -
  let ?sz = "of_nat (length x) + 1 :: size_t"
  have u: "unat ?sz = length x + 1" using x by (simp add: unat_add_64 unat_of_nat_64)
  obtain c b1 ab where ch: "chosen b ?sz c b1 ab"
    and raw: "buffer_push_strn_raw mmap pg b (x @ [0]) ?sz = Inr (ab_head ab, set_seg c (grown ab (x @ [0]) ?sz) b1)"
    using buffer_push_strn_raw_eq [OF ok idx sys, of "x @ [0]"] u by auto
  have "length (x @ [0]) = unat ?sz" using u by simp
  note c = chosenD [OF ch] and g = grown_ok [OF ch this]
  let ?g = "grown ab (x @ [0]) ?sz"
  let ?b' = "set_seg c (stamped i ?g) b1"
  have ci: "ab_idx ?g = c" using g(3) by (simp add: seg_wf_def)
  have "buffer_push_str mmap pg b i x = Inr ((ab_head ab OR push_bit 32 c) OR push_bit 32 c, ?b')"
    using raw c(3) ci by (simp add: buffer_push_str_def buffer_push_strn_def seg_at_def Let_def set_seg_again) (simp add: stamped_def Let_def)
  then have r: "buffer_push_str mmap pg b i x = Inr (ab_head ab OR push_bit 32 c, ?b')" by (simp add: or.assoc)
  have s: "same_shm b ?b'" using c(2) by (simp add: same_shm_def)
  have nr: "\<not> reclaimable ?b' (stamped i ?g)"
    using fresh_not_reclaimable [of ?b' i "stamped i ?g"] same_shm_fresh [OF s] fresh g(4) by simp
  have "aux_ok ?b'" using aux_inv_set_seg [OF c(1), of c "stamped i ?g"] g(3,4) c(3) by (auto simp: aux_ok_def)
  moreover have "kept ?b' (ab_head ab OR push_bit 32 c) x"
    unfolding kept_def using c(5,13,14) g(2,3,6) nr u by (intro exI [of _ c] exI [of _ "ab_head ab"] exI [of _ "stamped i ?g"]) simp
  moreover have "kept ?b' rf y" if kb: "kept b rf y" for rf y
  proof -
    obtain c' off ab' where k: "rf = off OR push_bit 32 c'" "unat off < 4294967296" "unat c' < 4294967296"
        "c' \<in> set (bf_aux_age b)" "bf_segs b c' = Some ab'" "seg_wf c' ab'" "\<not> reclaimable b ab'"
        "unat off + length y + 1 \<le> unat (ab_head ab')" "take (Suc (length y)) (drop (unat off) (ab_data ab')) = y @ [0]"
      using kb unfolding kept_def by blast
    have b1: "bf_segs b1 c' = Some ab'" by (rule c(6) [OF k(4,5,7)])
    show ?thesis
    proof (cases "c' = c")
      case True
      then have [simp]: "ab' = ab" using b1 c(9) by simp
      have "take (Suc (length y)) (drop (unat off) (ab_data ?g)) = y @ [0]"
        using take_drop_prefix [OF _ g(5), of "unat off" "Suc (length y)"] k(8,9) by simp
      then show ?thesis unfolding kept_def using True k(1-4,8) c(5) g(2,3) nr
        by (intro exI [of _ c] exI [of _ off] exI [of _ "stamped i ?g"]) simp
    next
      case False
      then show ?thesis unfolding kept_def using k b1 c(8) same_shm_reclaimable [OF s]
        by (intro exI [of _ c'] exI [of _ off] exI [of _ ab']) auto
    qed
  qed
  moreover have "bf_control ?b' = bf_control b" by (rule buffer_push_str_control [OF r])
  ultimately show ?thesis using r s c(7) by auto
qed

section \<open>An event under construction\<close>

lemma kept_frame:
  assumes "kept b r y" and "bf_segs b' = bf_segs b" "bf_aux_age b' = bf_aux_age b"
    "sb_last_processed_id (bf_shm b') = sb_last_processed_id (bf_shm b)" "sb_dropped_ranges (bf_shm b') = sb_dropped_ranges (bf_shm b)"
  shows "kept b' r y"
  using assms by (simp add: kept_def reclaimable_def)

text \<open>
  The bytes \<open>d\<close> have been written from \<open>a\<close> on into the buffer that was \<open>b1\<close> when the push began; there is room for \<open>n\<close>.
\<close>

definition writing :: "buffer \<Rightarrow> size_t \<Rightarrow> byte list \<Rightarrow> buffer \<Rightarrow> bool" where
  "writing b1 a d b \<longleftrightarrow> (\<exists>l. bf_shm b = (bf_shm b1)\<lparr>sb_data := mem_upd (sb_data (bf_shm b1)) (unat a) d, sb_dropped_ranges_lock := l\<rparr>) \<and>
     aux_ok b \<and> bf_control b = bf_control b1"

definition has_room :: "buffer \<Rightarrow> size_t \<Rightarrow> nat \<Rightarrow> bool" where
  "has_room b1 a n \<longleftrightarrow> unat a + n \<le> unat (buff_end b1) \<and> unat (buff_end b1) \<le> length (sb_data (bf_shm b1)) \<and> \<not> sb_destroyed (bf_shm b1)"

definition src_frame :: "text_source \<Rightarrow> text_source \<Rightarrow> bool" where
  "src_frame s s' \<longleftrightarrow> tx_exprs s' = tx_exprs s \<and> tx_waiting s' = tx_waiting s \<and> tx_id s' = tx_id s \<and> tx_env s' = tx_env s \<and>
     (\<forall>r y. kept (tx_shm s) r y \<longrightarrow> kept (tx_shm s') r y)"

lemma src_frame_refl [simp]: "src_frame s s"
  by (simp add: src_frame_def)

lemma src_frame_trans: "src_frame s t \<Longrightarrow> src_frame t u \<Longrightarrow> src_frame s u"
  by (simp add: src_frame_def)

lemma room_addr:
  assumes "has_room b1 a n" and "length d < n"
  shows "unat (a + of_nat (length d)) = unat a + length d" "a + of_nat (length d) < buff_end b1"
proof -
  have "unat a + n < 18446744073709551616" using assms(1) unat_less_2p64 [of "buff_end b1"] by (simp add: has_room_def)
  then show u: "unat (a + of_nat (length d)) = unat a + length d"
    using assms(2) by (simp add: unat_add_64 unat_of_nat_64)
  show "a + of_nat (length d) < buff_end b1" using assms u by (simp add: has_room_def word_less_nat_alt)
qed

lemma writingD:
  assumes "writing b1 a d b"
  shows "buff_end b = buff_end b1" "sb_destroyed (bf_shm b) = sb_destroyed (bf_shm b1)" "aux_ok b" "bf_control b = bf_control b1"
    "sb_data (bf_shm b) = mem_upd (sb_data (bf_shm b1)) (unat a) d" "fresh_id b i = fresh_id b1 i"
  using assms by (auto simp: writing_def buff_end_def fresh_id_def)

lemma writing_more:
  assumes w: "writing b1 a d b" and room: "has_room b1 a n" "length d + length x \<le> n"
  shows "writing b1 a (d @ x) (set_data b (mem_upd (sb_data (bf_shm b)) (unat a + length d) x))"
proof -
  have "unat a + length d + length x \<le> length (sb_data (bf_shm b1))" using room by (simp add: has_room_def)
  then have "mem_upd (mem_upd (sb_data (bf_shm b1)) (unat a) d) (unat a + length d) x = mem_upd (sb_data (bf_shm b1)) (unat a) (d @ x)"
    by (rule mem_upd_mem_upd)
  then show ?thesis using w by (auto simp: writing_def set_data_def aux_ok_def intro!: exI [of _ "sb_dropped_ranges_lock (bf_shm b)"] shmbuffer.equality)
qed

lemma push_bytes_ok:
  assumes w: "writing b1 a d (tx_shm s)" and room: "has_room b1 a n" "length d + length x \<le> n" and x: "x \<noteq> []"
  shows "\<exists>b'. push_bytes x (a + of_nat (length d)) s = Inr (a + of_nat (length (d @ x)), s\<lparr>tx_shm := b'\<rparr>) \<and> writing b1 a (d @ x) b' \<and>
    src_frame s (s\<lparr>tx_shm := b'\<rparr>) \<and> bf_aux_buf_idx b' = bf_aux_buf_idx (tx_shm s)"
proof -
  let ?b = "tx_shm s" and ?p = "a + of_nat (length d)"
  let ?b' = "set_data ?b (mem_upd (sb_data (bf_shm ?b)) (unat a + length d) x)"
  have lx: "length d < n" using room(2) x by (cases x) auto
  note p = room_addr [OF room(1) lx] and wd = writingD [OF w]
  have e: "unat ?p + length x \<le> unat (buff_end b1)" using p(1) room by (simp add: has_room_def)
  then have ux: "unat (of_nat (length x) :: size_t) = length x" using unat_less_2p64 [of "buff_end b1"] by (simp add: unat_of_nat_64)
  have len: "length (sb_data (bf_shm ?b)) = length (sb_data (bf_shm b1))"
    using wd(5) room by (simp add: has_room_def)
  have "buffer_partial_push ?b ?p x (of_nat (length x)) = Inr (?p + of_nat (length x), ?b')"
    using e ux p wd(1,2) room(1) len by (simp add: buffer_partial_push_def buffer_is_ready_def has_room_def set_data_def)
  then have "push_bytes x ?p s = Inr (a + of_nat (length (d @ x)), s\<lparr>tx_shm := ?b'\<rparr>)"
    by (simp add: push_bytes_def add.assoc)
  moreover have "src_frame s (s\<lparr>tx_shm := ?b'\<rparr>)"
    by (auto simp: src_frame_def set_data_def elim!: kept_frame)
  ultimately show ?thesis using writing_more [OF w room] by (auto simp: set_data_def)
qed

lemma push_string_ok:
  assumes w: "writing b1 a d (tx_shm s)" and room: "has_room b1 a n" "length d + 8 \<le> n"
    and idx: "unat (bf_aux_buf_idx (tx_shm s)) < 4294967295" and sys: "aux_sys_ok (lc_mmap lc) (lc_pg_size lc) (of_nat (length x) + 1)"
    and x: "length x < 4294967295" and fresh: "fresh_id b1 (tx_id s)"
  shows "\<exists>ref b'. push_string lc x (a + of_nat (length d)) s = Inr (a + of_nat (length (d @ le64 ref)), s\<lparr>tx_shm := b'\<rparr>) \<and>
    writing b1 a (d @ le64 ref) b' \<and> kept b' ref x \<and> src_frame s (s\<lparr>tx_shm := b'\<rparr>) \<and>
    unat (bf_aux_buf_idx b') \<le> unat (bf_aux_buf_idx (tx_shm s)) + 1"
proof -
  let ?b = "tx_shm s" and ?p = "a + of_nat (length d)"
  have "length d < n" using room(2) by simp
  note p = room_addr [OF room(1) this] and wd = writingD [OF w]
  have "fresh_id ?b (tx_id s)" using wd(6) fresh by simp
  then obtain ref b2 where r: "buffer_push_str (lc_mmap lc) (lc_pg_size lc) ?b (tx_id s) x = Inr (ref, b2)" "aux_ok b2" "same_shm ?b b2"
      "bf_control b2 = bf_control ?b" "unat (bf_aux_buf_idx b2) \<le> unat (bf_aux_buf_idx ?b) + 1" "kept b2 ref x"
      "\<forall>r y. kept ?b r y \<longrightarrow> kept b2 r y"
    using push_str_kept [OF wd(3) idx sys x] by blast
  have w2: "writing b1 a d b2" using w r(2,3,4) by (auto simp: writing_def same_shm_def intro!: exI [of _ "sb_dropped_ranges_lock (bf_shm b2)"])
  note wd2 = writingD [OF w2]
  let ?b' = "set_data b2 (mem_upd (sb_data (bf_shm b2)) (unat a + length d) (le64 ref))"
  have "unat ?p + 8 \<le> length (sb_data (bf_shm b2))" using p(1) room wd2(5) by (simp add: has_room_def)
  then have "push_string lc x ?p s = Inr (?p + 8, s\<lparr>tx_shm := ?b'\<rparr>)"
    using r(1) p wd(1,2) room(1) by (simp add: push_string_def buffer_partial_push_str_def store_ref_def set_data_def has_room_def)
  moreover have "kept ?b' ref x" using r(6) by (rule kept_frame) (simp_all add: set_data_def)
  moreover have "kept b2 rf y \<Longrightarrow> kept ?b' rf y" for rf y by (rule kept_frame) (simp_all add: set_data_def)
  then have "src_frame s (s\<lparr>tx_shm := ?b'\<rparr>)" using r(7) by (simp add: src_frame_def)
  ultimately show ?thesis using writing_more [OF w2 room(1), of "le64 ref"] room(2) r(5)
    by (intro exI [of _ ref] exI [of _ ?b']) (simp add: set_data_def add.assoc)
qed

section \<open>The temporary buffer\<close>

definition tmp_ok :: "text_source \<Rightarrow> bool" where
  "tmp_ok s \<longleftrightarrow> (case tx_tmpline s of None \<Rightarrow> tx_tmpline_len s = 0 | Some mem \<Rightarrow> unat (tx_tmpline_len s) < length mem)"

lemma tmp_ok_other [simp]:
  "tmp_ok (s\<lparr>tx_shm := b\<rparr>) = tmp_ok s" "tmp_ok (s\<lparr>tx_id := i\<rparr>) = tmp_ok s"
  by (cases "tx_tmpline s"; simp add: tmp_ok_def)+

lemma bstr_eq: "0 \<notin> set x \<Longrightarrow> bstr (x @ 0 # z) = x \<and> strn x = x"
proof -
  assume "0 \<notin> set x"
  then have "takeWhile (\<lambda>c. c \<noteq> 0) x = x" by (auto simp: takeWhile_eq_all_conv)
  then show ?thesis using takeWhile_tail [of "\<lambda>c. c \<noteq> 0" 0 x z] by (simp add: bstr_def strn_def)
qed

lemma tmpline_ok:
  assumes lc: "lib_ok lc" and ok: "tmp_ok s" and some: "tx_tmpline s \<noteq> None \<or> x \<noteq> []" and x: "length x + 1 < 18446744073709551616" "0 \<notin> set x"
  shows "\<exists>mem l. bindE (ensure_tmpline lc (of_nat (length x)) s) (fill_tmpline x) = Inr (s\<lparr>tx_tmpline := Some mem, tx_tmpline_len := l\<rparr>) \<and>
    bstr mem = x \<and> unat l < length mem"
proof -
  let ?n = "of_nat (length x) :: size_t"
  have u: "unat ?n = length x" "unat (?n + 1) = length x + 1" using x(1) by (simp_all add: unat_add_64 unat_of_nat_64)
  have "\<exists>mem l. ensure_tmpline lc ?n s = Inr (s\<lparr>tx_tmpline := Some mem, tx_tmpline_len := l\<rparr>) \<and> length x \<le> unat l \<and> unat l < length mem"
  proof (cases "tx_tmpline_len s < ?n")
    case True
    obtain mem where "lc_malloc lc (?n + 1) = Some mem" "length mem = unat (?n + 1)" using lib_malloc [OF lc] by blast
    then show ?thesis using True u by (intro exI [of _ mem] exI [of _ ?n]) (simp add: ensure_tmpline_def)
  next
    case False
    then have le: "length x \<le> unat (tx_tmpline_len s)" using u by (simp add: word_less_nat_alt)
    then obtain mem where "tx_tmpline s = Some mem" "unat (tx_tmpline_len s) < length mem"
      using ok some by (auto simp: tmp_ok_def split: option.splits)
    then show ?thesis using False le by (intro exI [of _ mem] exI [of _ "tx_tmpline_len s"]) (simp add: ensure_tmpline_def)
  qed
  then obtain mem l where e: "ensure_tmpline lc ?n s = Inr (s\<lparr>tx_tmpline := Some mem, tx_tmpline_len := l\<rparr>)" "length x \<le> unat l" "unat l < length mem"
    by blast
  let ?m = "mem_upd (mem_upd mem 0 (strn x)) (length x) [0]"
  have "?m = x @ 0 # drop (Suc (length x)) mem" using e(2,3) bstr_eq [OF x(2)] by (simp add: mem_upd_def)
  then have "bstr ?m = x" using bstr_eq [OF x(2)] by simp
  moreover have "length ?m = length mem" using e(2,3) by simp
  ultimately show ?thesis using e by (intro exI [of _ ?m] exI [of _ l]) (simp add: fill_tmpline_def)
qed

section \<open>The arguments\<close>

text \<open>
  What the signature asks for, without buffers: the argument for one character of the signature (\<open>None\<close>: the group has no
  match and nothing is sent), and all arguments.
\<close>

datatype arg = Num "byte list" | Str "byte list"

primrec arg_size :: "arg \<Rightarrow> nat" where
  "arg_size (Num x) = length x"
| "arg_size (Str x) = 8"

definition text_arg :: "libc \<Rightarrow> char \<Rightarrow> byte list \<Rightarrow> byte \<Rightarrow> arg res" where
  "text_arg lc c x nxt =
     (if c = CHR ''M'' \<or> c = CHR ''S'' then Inr (Str x)
      else if c = CHR ''c'' then assertE (length x = 1) ''len == 1'' (Inr (Num [nxt]))
      else if c = CHR ''i'' then bindE (c_atoi x) (\<lambda>v. Inr (Num (le_bytes 4 (ucast v))))
      else if c = CHR ''l'' then bindE (c_atol x) (\<lambda>v. Inr (Num (le64 v)))
      else if c = CHR ''f'' then Inr (Num (le_bytes 4 (ucast (lc_atof lc x))))
      else if c = CHR ''d'' then Inr (Num (le64 (lc_strtod lc x)))
      else Inl (Assertion ''Invalid signature''))"

definition arg_of :: "libc \<Rightarrow> byte list \<Rightarrow> regmatch_t list \<Rightarrow> char \<Rightarrow> nat \<Rightarrow> arg option res" where
  "arg_of lc line matches c m =
     (if c = CHR ''L'' then Inr (Some (Str line))
      else bindE (match_at matches (if c = CHR ''M'' then 0 else m)) (\<lambda>(so, eo).
        if c \<noteq> CHR ''M'' \<and> so < 0 then Inr None
        else if so < 0 \<or> eo < so \<or> int (length line) < eo then Inl (UB ''read out of bounds'')
        else bindE (text_arg lc c (take (nat (eo - so)) (drop (nat so) line)) ((line @ [0]) ! nat eo)) (\<lambda>x. Inr (Some x))))"

fun args_of :: "libc \<Rightarrow> byte list \<Rightarrow> regmatch_t list \<Rightarrow> string \<Rightarrow> nat \<Rightarrow> arg list res" where
  "args_of lc line matches [] m = Inr []"
| "args_of lc line matches (c # sig) m =
     (if MAXMATCH < m then Inr []
      else bindE (arg_of lc line matches c m) (\<lambda>r.
        bindE (args_of lc line matches sig (Suc m)) (\<lambda>as. Inr (case r of None \<Rightarrow> as | Some x \<Rightarrow> x # as))))"

text \<open>The bytes of an argument in an event.\<close>

definition piece :: "buffer \<Rightarrow> arg \<Rightarrow> byte list \<Rightarrow> bool" where
  "piece b x bs \<longleftrightarrow> (case x of Num y \<Rightarrow> bs = y | Str y \<Rightarrow> 0 \<notin> set y \<and> (\<exists>ref. bs = le64 ref \<and> kept b ref y))"

lemma piece_mono: "piece b x bs \<Longrightarrow> (\<And>r y. kept b r y \<Longrightarrow> kept b' r y) \<Longrightarrow> piece b' x bs"
  by (cases x) (auto simp: piece_def)

lemma length_piece: "piece b x bs \<Longrightarrow> length bs = arg_size x"
  by (cases x) (auto simp: piece_def)

text \<open>What sending a line relies on of the system, and the matches it relies on of \<open>regexec\<close> when no temporary buffer exists yet.\<close>

definition sys_ok :: "libc \<Rightarrow> byte list \<Rightarrow> bool" where
  "sys_ok lc line \<longleftrightarrow> lib_ok lc \<and> (\<forall>n \<le> length line. aux_sys_ok (lc_mmap lc) (lc_pg_size lc) (of_nat n + 1)) \<and>
     length line < 4294967295 \<and> 0 \<notin> set line"

definition tmp_ready :: "text_source \<Rightarrow> regmatch_t set \<Rightarrow> bool" where
  "tmp_ready s M \<longleftrightarrow> tmp_ok s \<and> (tx_tmpline s \<noteq> None \<or> (\<forall>(so, eo) \<in> M. so < 0 \<or> so < eo))"

lemma text_arg_sent:
  assumes w: "writing b1 a d (tx_shm s)" and room: "has_room b1 a n" "length d + arg_size y \<le> n"
    and idx: "unat (bf_aux_buf_idx (tx_shm s)) < 4294967295" and sys: "sys_ok lc line" and fresh: "fresh_id b1 (tx_id s)"
    and y: "y = Str x \<and> 0 \<notin> set x \<and> length x \<le> length line \<and> act = push_string lc x \<or> y = Num x \<and> x \<noteq> [] \<and> act = push_bytes x"
  shows "\<exists>b' bs. act (a + of_nat (length d)) s = Inr (a + of_nat (length (d @ bs)), s\<lparr>tx_shm := b'\<rparr>) \<and>
    writing b1 a (d @ bs) b' \<and> piece b' y bs \<and> src_frame s (s\<lparr>tx_shm := b'\<rparr>) \<and>
    unat (bf_aux_buf_idx b') \<le> unat (bf_aux_buf_idx (tx_shm s)) + 1"
proof (cases y)
  case (Num z)
  then have "length d + length x \<le> n" "x \<noteq> []" "z = x" "act = push_bytes x" using y room(2) by auto
  with push_bytes_ok [OF w room(1) this(1,2)] Num show ?thesis by (auto simp: piece_def)
next
  case (Str z)
  then have z: "z = x" "0 \<notin> set x" "length x \<le> length line" "act = push_string lc x" using y by auto
  have "aux_sys_ok (lc_mmap lc) (lc_pg_size lc) (of_nat (length x) + 1)" "length x < 4294967295"
    using sys z(3) by (auto simp: sys_ok_def)
  from push_string_ok [OF w room(1) _ idx this fresh] obtain ref b' where
      "push_string lc x (a + of_nat (length d)) s = Inr (a + of_nat (length (d @ le64 ref)), s\<lparr>tx_shm := b'\<rparr>)"
      "writing b1 a (d @ le64 ref) b'" "kept b' ref x" "src_frame s (s\<lparr>tx_shm := b'\<rparr>)"
      "unat (bf_aux_buf_idx b') \<le> unat (bf_aux_buf_idx (tx_shm s)) + 1"
    using room(2) Str by auto
  then show ?thesis using Str z by (intro exI [of _ b'] exI [of _ "le64 ref"]) (auto simp: piece_def)
qed

lemma match_at_in_set: "match_at ms k = Inr p \<Longrightarrow> p \<in> set ms"
  by (auto simp: match_at_def split: if_splits)

lemma text_arg_act:
  assumes "text_arg lc c x nxt = Inr y" and "0 \<notin> set x"
  obtains z act where "y = Str z \<and> 0 \<notin> set z \<and> length z = length x \<and> act = push_string lc z \<or> y = Num z \<and> z \<noteq> [] \<and> act = push_bytes z"
    and "\<And>addr s. (if c = CHR ''M'' \<or> c = CHR ''S'' then push_string lc x addr s
             else if c = CHR ''c'' then assertE (int (length x) = 1) ''len == 1'' (push_bytes [nxt] addr s)
             else if c = CHR ''i'' then bindE (c_atoi x) (\<lambda>v. push_bytes (le_bytes 4 (ucast v)) addr s)
             else if c = CHR ''l'' then bindE (c_atol x) (\<lambda>v. push_bytes (le64 v) addr s)
             else if c = CHR ''f'' then push_bytes (le_bytes 4 (ucast (lc_atof lc x))) addr s
             else if c = CHR ''d'' then push_bytes (le64 (lc_strtod lc x)) addr s
             else Inl (Assertion ''Invalid signature'')) = act addr s"
proof -
  have ne: "le_bytes 4 v \<noteq> []" "le64 v \<noteq> []" for v by (simp_all flip: length_greater_0_conv)
  consider "c = CHR ''M'' \<or> c = CHR ''S''" "y = Str x"
    | "\<not> (c = CHR ''M'' \<or> c = CHR ''S'')" "\<exists>z. y = Num z"
    using assms(1) by (auto simp: text_arg_def split: if_splits)
  then show thesis
  proof cases
    case 1
    then show thesis using assms(2) that [of x "push_string lc x"] by auto
  next
    case 2
    then obtain z where z: "y = Num z" by blast
    show thesis using 2 assms(1) z ne that [of z "push_bytes z"] by (auto simp: text_arg_def split: if_splits)
  qed
qed

lemma push_arg_ok:
  assumes w: "writing b1 a d (tx_shm s)" and room: "has_room b1 a n" "length d + (case r of None \<Rightarrow> 0 | Some y \<Rightarrow> arg_size y) \<le> n"
    and idx: "unat (bf_aux_buf_idx (tx_shm s)) < 4294967295" and sys: "sys_ok lc line" and fresh: "fresh_id b1 (tx_id s)"
    and tmp: "tmp_ready s M" "set ms \<subseteq> M" and arg: "arg_of lc line ms c m = Inr r"
  shows "\<exists>s' bs. push_arg lc line ms c m (a + of_nat (length d)) s = Inr (a + of_nat (length (d @ bs)), s') \<and>
    writing b1 a (d @ bs) (tx_shm s') \<and> (case r of None \<Rightarrow> bs = [] | Some y \<Rightarrow> piece (tx_shm s') y bs) \<and> src_frame s s' \<and>
    tmp_ready s' M \<and> unat (bf_aux_buf_idx (tx_shm s')) \<le> unat (bf_aux_buf_idx (tx_shm s)) + 1"
proof (cases "c = CHR ''L''")
  case True
  then have r: "r = Some (Str line)" "length d + arg_size (Str line) \<le> n" "0 \<notin> set line" using arg room(2) sys by (auto simp: arg_of_def sys_ok_def)
  have "Str line = Str line \<and> 0 \<notin> set line \<and> length line \<le> length line \<and> push_string lc line = push_string lc line \<or>
      Str line = Num line \<and> line \<noteq> [] \<and> push_string lc line = push_bytes line" using r(3) by simp
  from text_arg_sent [OF w room(1) r(2) idx sys fresh this]
  obtain b' bs where b': "push_string lc line (a + of_nat (length d)) s = Inr (a + of_nat (length (d @ bs)), s\<lparr>tx_shm := b'\<rparr>)"
      "writing b1 a (d @ bs) b'" "piece b' (Str line) bs" "src_frame s (s\<lparr>tx_shm := b'\<rparr>)"
      "unat (bf_aux_buf_idx b') \<le> unat (bf_aux_buf_idx (tx_shm s)) + 1"
    by blast
  have "tmp_ready (s\<lparr>tx_shm := b'\<rparr>) M" using tmp by (simp add: tmp_ready_def)
  then show ?thesis using True r(1) b' by (intro exI [of _ "s\<lparr>tx_shm := b'\<rparr>"] exI [of _ bs]) (simp add: push_arg_def)
next
  case False
  obtain so eo where m: "match_at ms (if c = CHR ''M'' then 0 else m) = Inr (so, eo)" using arg False by (auto simp: arg_of_def)
  show ?thesis
  proof (cases "c \<noteq> CHR ''M'' \<and> so < 0")
    case True
    then show ?thesis using arg False m w tmp
      by (intro exI [of _ s] exI [of _ "[]"]) (auto simp: arg_of_def push_arg_def)
  next
    case nskip: False
    define x where "x = take (nat (eo - so)) (drop (nat so) line)"
    let ?n = "(line @ [0]) ! nat eo"
    have bnd: "0 \<le> so" "so \<le> eo" "eo \<le> int (length line)" and y: "\<exists>y. r = Some y \<and> text_arg lc c x ?n = Inr y"
      using arg False m nskip by (auto simp: arg_of_def x_def split: if_splits)
    then obtain y where y: "r = Some y" "text_arg lc c x ?n = Inr y" by blast
    have lx: "length x \<le> length line" "int (length x) = eo - so" using bnd by (auto simp: x_def)
    have nul: "0 \<notin> set x" using sys by (auto simp: x_def sys_ok_def dest: in_set_takeD in_set_dropD)
    have lc: "lib_ok lc" "length x + 1 < 18446744073709551616" using sys lx(1) by (auto simp: sys_ok_def)
    have "(so, eo) \<in> M" using match_at_in_set [OF m] tmp(2) by blast
    then have "tx_tmpline s \<noteq> None \<or> x \<noteq> []" using tmp bnd lx(2) by (auto simp: tmp_ready_def)
    from tmpline_ok [OF lc(1) _ this lc(2) nul] tmp
    obtain mem l where ml: "bindE (ensure_tmpline lc (of_nat (length x)) s) (fill_tmpline x) = Inr (s\<lparr>tx_tmpline := Some mem, tx_tmpline_len := l\<rparr>)"
        "bstr mem = x" "unat l < length mem"
      by (auto simp: tmp_ready_def)
    let ?s1 = "s\<lparr>tx_tmpline := Some mem, tx_tmpline_len := l\<rparr>"
    obtain s0 where s0: "ensure_tmpline lc (of_nat (length x)) s = Inr s0" "fill_tmpline x s0 = Inr ?s1" using ml(1) by auto
    have wi: "(word_of_int (eo - so) :: size_t) = of_nat (length x)" using lx(2) by (metis of_int_of_nat_eq)
    obtain z act where za: "y = Str z \<and> 0 \<notin> set z \<and> length z = length x \<and> act = push_string lc z \<or> y = Num z \<and> z \<noteq> [] \<and> act = push_bytes z"
      and chain: "\<And>addr s. (if c = CHR ''M'' \<or> c = CHR ''S'' then push_string lc x addr s
             else if c = CHR ''c'' then assertE (int (length x) = 1) ''len == 1'' (push_bytes [?n] addr s)
             else if c = CHR ''i'' then bindE (c_atoi x) (\<lambda>v. push_bytes (le_bytes 4 (ucast v)) addr s)
             else if c = CHR ''l'' then bindE (c_atol x) (\<lambda>v. push_bytes (le64 v) addr s)
             else if c = CHR ''f'' then push_bytes (le_bytes 4 (ucast (lc_atof lc x))) addr s
             else if c = CHR ''d'' then push_bytes (le64 (lc_strtod lc x)) addr s
             else Inl (Assertion ''Invalid signature'')) = act addr s"
      by (rule text_arg_act [OF y(2) nul]) (rule that)
    have ts: "tmp_str ?s1 = x" using ml(2) by (simp add: tmp_str_def)
    have cond: "\<not> (c \<noteq> CHR ''M'' \<and> so < 0)" "0 \<le> so" "\<not> (eo < so \<or> int (length line) < eo)" using nskip bnd by auto
    have eq: "push_arg lc line ms c m addr s = act addr ?s1" for addr
      unfolding push_arg_def m bindE_Inr prod.case Let_def wi if_not_P [OF False] if_not_P [OF cond(1)] s0(1) assertE_pass [OF cond(2)]
        if_not_P [OF cond(3)] x_def [symmetric] s0(2) ts
      by (rule chain [unfolded lx(2)])
    have "y = Str z \<and> 0 \<notin> set z \<and> length z \<le> length line \<and> act = push_string lc z \<or> y = Num z \<and> z \<noteq> [] \<and> act = push_bytes z"
      using za lx(1) by auto
    from text_arg_sent [of b1 a d ?s1 n y, OF _ room(1) _ _ sys _ this] w room(2) y(1) idx fresh
    obtain b' bs where b': "act (a + of_nat (length d)) ?s1 = Inr (a + of_nat (length (d @ bs)), ?s1\<lparr>tx_shm := b'\<rparr>)"
        "writing b1 a (d @ bs) b'" "piece b' y bs" "src_frame ?s1 (?s1\<lparr>tx_shm := b'\<rparr>)"
        "unat (bf_aux_buf_idx b') \<le> unat (bf_aux_buf_idx (tx_shm s)) + 1"
      by auto
    have "src_frame s (?s1\<lparr>tx_shm := b'\<rparr>)" using b'(4) by (simp add: src_frame_def)
    moreover have "tmp_ready (?s1\<lparr>tx_shm := b'\<rparr>) M" using ml(3) by (simp add: tmp_ready_def tmp_ok_def)
    ultimately show ?thesis using eq b'(1-3,5) y(1) by (intro exI [of _ "?s1\<lparr>tx_shm := b'\<rparr>"] exI [of _ bs]) simp
  qed
qed

lemma push_args_ok:
  assumes "writing b1 a d (tx_shm s)" and "has_room b1 a n" "length d + sum_list (map arg_size as) \<le> n"
    and "unat (bf_aux_buf_idx (tx_shm s)) + length as < 4294967296" and "sys_ok lc line" and "fresh_id b1 (tx_id s)"
    and "tmp_ready s M" "set ms \<subseteq> M" and "args_of lc line ms sig m = Inr as"
  shows "\<exists>s' pss. push_args lc line ms sig m (a + of_nat (length d)) s = Inr s' \<and> writing b1 a (d @ concat pss) (tx_shm s') \<and>
    list_all2 (piece (tx_shm s')) as pss \<and> src_frame s s' \<and> tmp_ready s' M \<and>
    unat (bf_aux_buf_idx (tx_shm s')) \<le> unat (bf_aux_buf_idx (tx_shm s)) + length as"
  using assms
proof (induction sig arbitrary: m d s as)
  case Nil
  then show ?case by (auto intro: exI [of _ "[]"])
next
  case (Cons c sig)
  show ?case
  proof (cases "MAXMATCH < m")
    case True
    then show ?thesis using Cons.prems(1,7,9) by (intro exI [of _ s] exI [of _ "[]"]) auto
  next
    case False
    then obtain r as' where r: "arg_of lc line ms c m = Inr r" "args_of lc line ms sig (Suc m) = Inr as'"
        "as = (case r of None \<Rightarrow> as' | Some x \<Rightarrow> x # as')"
      using Cons.prems(9) by auto
    have sz: "length d + (case r of None \<Rightarrow> 0 | Some y \<Rightarrow> arg_size y) \<le> n" using Cons.prems(3) r(3) by (auto split: option.splits)
    show ?thesis
    proof (cases r)
      case None
      obtain so eo where "match_at ms (if c = CHR ''M'' then 0 else m) = Inr (so, eo)" "c \<noteq> CHR ''M'' \<and> so < 0" "c \<noteq> CHR ''L''"
        using r(1) None by (auto simp: arg_of_def split: if_splits)
      then have "push_arg lc line ms c m (a + of_nat (length d)) s = Inr (a + of_nat (length d), s)" by (simp add: push_arg_def)
      then show ?thesis using Cons.IH [OF Cons.prems(1,2) _ _ Cons.prems(5-8) r(2)] Cons.prems(3,4) r(3) None False by simp
    next
      case (Some y)
      have "unat (bf_aux_buf_idx (tx_shm s)) < 4294967295" using Cons.prems(4) r(3) Some by simp
      from push_arg_ok [OF Cons.prems(1,2) sz this Cons.prems(5-8) r(1)] Some
      obtain s1 bs where s1: "push_arg lc line ms c m (a + of_nat (length d)) s = Inr (a + of_nat (length (d @ bs)), s1)"
          "writing b1 a (d @ bs) (tx_shm s1)" "piece (tx_shm s1) y bs" "src_frame s s1" "tmp_ready s1 M"
          "unat (bf_aux_buf_idx (tx_shm s1)) \<le> unat (bf_aux_buf_idx (tx_shm s)) + 1"
        by auto
      have "length (d @ bs) + sum_list (map arg_size as') \<le> n" using Cons.prems(3) r(3) Some length_piece [OF s1(3)] by simp
      moreover have "unat (bf_aux_buf_idx (tx_shm s1)) + length as' < 4294967296" using s1(6) Cons.prems(4) r(3) Some by simp
      moreover have "fresh_id b1 (tx_id s1)" using s1(4) Cons.prems(6) by (simp add: src_frame_def)
      ultimately obtain s' pss where s': "push_args lc line ms sig (Suc m) (a + of_nat (length (d @ bs))) s1 = Inr s'"
          "writing b1 a ((d @ bs) @ concat pss) (tx_shm s')" "list_all2 (piece (tx_shm s')) as' pss" "src_frame s1 s'" "tmp_ready s' M"
          "unat (bf_aux_buf_idx (tx_shm s')) \<le> unat (bf_aux_buf_idx (tx_shm s1)) + length as'"
        using Cons.IH [OF s1(2) Cons.prems(2) _ _ Cons.prems(5) _ s1(5) Cons.prems(8) r(2)] by blast
      have "piece (tx_shm s') y bs" using piece_mono [OF s1(3)] s'(4) by (auto simp: src_frame_def)
      then show ?thesis using s1(1,6) s' src_frame_trans [OF s1(4) s'(4)] r(3) Some False
        by (intro exI [of _ s'] exI [of _ "bs # pss"]) simp
    qed
  qed
qed

section \<open>One event\<close>

lemma sb_queue_lock [simp]: "sb_queue (s\<lparr>sb_dropped_ranges_lock := l\<rparr>) = sb_queue s"
  by (simp add: sb_queue_def queue_bytes_def)

lemma finish_written:
  assumes live: "bf_live b" and st: "buffer_start_push b = Inr (Some a, b1)" and d: "d \<noteq> []" "length d \<le> unat (sb_elem_size (bf_shm b))"
    and w: "writing b1 a d b2"
  shows "\<exists>rb pad. buffer_finish_push b2 = Inr (set_ringbuf b2 rb) \<and> bf_live (set_ringbuf b2 rb) \<and>
    sb_capacity (bf_shm b2) = sb_capacity (bf_shm b) \<and> sb_elem_size (bf_shm b2) = sb_elem_size (bf_shm b) \<and>
    bf_elems (set_ringbuf b2 rb) = bf_elems b @ [d @ pad]"
proof -
  have u: "unat (of_nat (length d) :: size_t) = length d"
    using d(2) unat_less_2p64 [of "sb_elem_size (bf_shm b)"] by (simp add: unat_of_nat_64)
  define f where "f = (length (bf_elems b) < unat (sb_capacity (bf_shm b)))"
  have t: "take (unat (of_nat (length d) :: size_t)) d = d" by (simp only: u take_all order_refl)
  have "of_nat (length d) \<le> sb_elem_size (bf_shm b)" "unat (of_nat (length d) :: size_t) \<le> length d"
    using d(2) u by (simp_all add: word_le_nat_alt)
  from buffer_push_ok [OF live this] obtain b6 pad where p: "buffer_push b d (of_nat (length d)) = Inr (f, b6)" "bf_live b6"
      "sb_capacity (bf_shm b6) = sb_capacity (bf_shm b)" "sb_elem_size (bf_shm b6) = sb_elem_size (bf_shm b)"
      "bf_elems b6 = (if f then bf_elems b @ [d @ pad] else bf_elems b)"
    unfolding t f_def [symmetric] by (elim exE conjE) (rule that)
  have e: "buffer_finish_push (set_data b1 (mem_upd (sb_data (bf_shm b1)) (unat a) d)) = Inr b6" and f: f
    using p(1) st u by (auto simp: buffer_push_def set_data_def mem_write_def split: if_splits)
  then obtain rb where rb: "shm_spsc_ringbuf_write_finish (bf_ringbuf b1) 1 = Inr rb" "\<not> sb_destroyed (bf_shm b1)"
      "b6 = set_ringbuf (set_data b1 (mem_upd (sb_data (bf_shm b1)) (unat a) d)) rb"
    by (auto simp: buffer_finish_push_def)
  obtain l where l: "bf_shm b2 = (bf_shm b1)\<lparr>sb_data := mem_upd (sb_data (bf_shm b1)) (unat a) d, sb_dropped_ranges_lock := l\<rparr>"
    using w by (auto simp: writing_def)
  have "bf_shm (set_ringbuf b2 rb) = (bf_shm b6)\<lparr>sb_dropped_ranges_lock := l\<rparr>"
    using l rb(3) by (auto simp: set_data_def intro!: shmbuffer.equality)
  then have "bf_live (set_ringbuf b2 rb)" "bf_elems (set_ringbuf b2 rb) = bf_elems b6"
    using p(2) by (simp_all add: bf_live_def bf_ok_def bf_elems_def)
  moreover have "sb_capacity (bf_shm b2) = sb_capacity (bf_shm b)" "sb_elem_size (bf_shm b2) = sb_elem_size (bf_shm b)"
    using p(3,4) l rb(3) by (simp_all add: set_data_def)
  moreover have "buffer_finish_push b2 = Inr (set_ringbuf b2 rb)" using l rb(1,2) by (simp add: buffer_finish_push_def)
  ultimately show ?thesis using p(5) f by auto
qed

text \<open>
  What sending an event of the size \<open>n\<close> with \<open>k\<close> arguments relies on: a live buffer with a free slot in which the event fits, and an
  id the monitor has not seen.
\<close>

definition can_send :: "text_source \<Rightarrow> nat \<Rightarrow> nat \<Rightarrow> bool" where
  "can_send s n k \<longleftrightarrow> bf_live (tx_shm s) \<and> aux_ok (tx_shm s) \<and> length (bf_elems (tx_shm s)) < unat (sb_capacity (bf_shm (tx_shm s))) \<and>
     16 + n \<le> unat (sb_elem_size (bf_shm (tx_shm s))) \<and> fresh_id (tx_shm s) (tx_id s + 1) \<and>
     unat (bf_aux_buf_idx (tx_shm s)) + k < 4294967296"

text \<open>The event with the kind \<open>k\<close>, the id \<open>i\<close> and the arguments \<open>as\<close>.\<close>

definition event_of :: "buffer \<Rightarrow> shm_kind \<Rightarrow> shm_eventid \<Rightarrow> arg list \<Rightarrow> byte list \<Rightarrow> bool" where
  "event_of b k i as ev \<longleftrightarrow> (\<exists>pss pad. ev = mk_event k i (concat pss @ pad) \<and> list_all2 (piece b) as pss)"

lemma event_of_mono: "event_of b k i as ev \<Longrightarrow> (\<And>r y. kept b r y \<Longrightarrow> kept b' r y) \<Longrightarrow> event_of b' k i as ev"
  unfolding event_of_def by (elim exE conjE) (intro exI conjI, assumption, erule list_all2_mono, erule piece_mono)

definition after_event :: "text_source \<Rightarrow> text_source \<Rightarrow> byte list \<Rightarrow> nat \<Rightarrow> bool" where
  "after_event s s' ev k \<longleftrightarrow> bf_live (tx_shm s') \<and> aux_ok (tx_shm s') \<and> bf_elems (tx_shm s') = bf_elems (tx_shm s) @ [ev] \<and>
     sb_capacity (bf_shm (tx_shm s')) = sb_capacity (bf_shm (tx_shm s)) \<and> sb_elem_size (bf_shm (tx_shm s')) = sb_elem_size (bf_shm (tx_shm s)) \<and>
     bf_control (tx_shm s') = bf_control (tx_shm s) \<and> tx_id s' = tx_id s + 1 \<and> tx_exprs s' = tx_exprs s \<and>
     (\<forall>i. fresh_id (tx_shm s') i = fresh_id (tx_shm s) i) \<and> (\<forall>r y. kept (tx_shm s) r y \<longrightarrow> kept (tx_shm s') r y) \<and>
     unat (bf_aux_buf_idx (tx_shm s')) \<le> unat (bf_aux_buf_idx (tx_shm s)) + k"

lemma push_match_ok:
  assumes can: "can_send s (sum_list (map arg_size as)) (length as)" and kind: "kind_at s i = Inr k" and sys: "sys_ok lc line"
    and tmp: "tmp_ready s M" "set ms \<subseteq> M" and args: "args_of lc line ms sig 1 = Inr as"
  shows "\<exists>s' ev. push_match lc i sig line ms s = Inr (Returned s') \<and> event_of (tx_shm s') k (tx_id s + 1) as ev \<and>
    after_event s s' ev (length as) \<and> tmp_ready s' M"
proof -
  let ?b = "tx_shm s" and ?n = "16 + sum_list (map arg_size as)"
  have live: "bf_live ?b" and es: "?n \<le> unat (sb_elem_size (bf_shm ?b))" using can by (simp_all add: can_send_def)
  obtain p b1 where st: "buffer_start_push ?b = Inr (p, b1)" "\<exists>rb. b1 = set_ringbuf ?b rb" "bf_live b1"
     "case p of None \<Rightarrow> \<not> length (bf_elems ?b) < unat (sb_capacity (bf_shm ?b))
     | Some a \<Rightarrow> unat a + unat (sb_elem_size (bf_shm ?b)) \<le> queue_bytes (bf_shm ?b)"
    using buffer_start_push_ok [OF live] by (elim exE conjE) (rule that, assumption+, blast, assumption+)
  obtain a where a: "p = Some a" "unat a + unat (sb_elem_size (bf_shm ?b)) \<le> queue_bytes (bf_shm ?b)"
    using st(4) can by (auto simp: can_send_def split: option.splits)
  obtain rb where rb: "b1 = set_ringbuf ?b rb" using st(2) by blast
  have ok1: "bf_ok b1" "\<not> sb_destroyed (bf_shm b1)" using st(3) by (simp_all add: bf_live_def)
  have room: "has_room b1 a ?n"
    using a(2) es rb buff_end_eq [OF ok1(1)] bf_ok_queue_bytes [OF ok1(1)] ok1(2) by (simp add: has_room_def queue_bytes_def)
  let ?s1 = "s\<lparr>tx_shm := b1, tx_id := tx_id s + 1\<rparr>"
  have w0: "writing b1 a [] (tx_shm ?s1)"
    using can rb by (auto simp: writing_def can_send_def aux_ok_def intro!: exI [of _ "sb_dropped_ranges_lock (bf_shm b1)"])
  have hd: "length (le64 k @ le64 (tx_id s + 1)) = 16" by simp
  have "kind_at ?s1 i = Inr k" using kind rb by (simp add: kind_at_def buffer_get_avail_events_def)
  moreover obtain b2 where b2: "push_bytes (le64 k @ le64 (tx_id s + 1)) a ?s1 = Inr (a + of_nat (length (le64 k @ le64 (tx_id s + 1))), ?s1\<lparr>tx_shm := b2\<rparr>)"
      "writing b1 a (le64 k @ le64 (tx_id s + 1)) b2" "src_frame ?s1 (?s1\<lparr>tx_shm := b2\<rparr>)" "bf_aux_buf_idx b2 = bf_aux_buf_idx b1"
    using push_bytes_ok [OF w0 room, of "le64 k @ le64 (tx_id s + 1)"] by (auto simp flip: length_greater_0_conv)
  let ?s2 = "?s1\<lparr>tx_shm := b2\<rparr>"
  have "fresh_id b1 (tx_id ?s2)" "unat (bf_aux_buf_idx (tx_shm ?s2)) + length as < 4294967296"
    using can rb b2(4) by (simp_all add: can_send_def fresh_id_def)
  moreover have "tmp_ready ?s2 M" using tmp by (simp add: tmp_ready_def)
  moreover have "writing b1 a (le64 k @ le64 (tx_id s + 1)) (tx_shm ?s2)" using b2(2) by simp
  moreover have "length (le64 k @ le64 (tx_id s + 1)) + sum_list (map arg_size as) \<le> ?n" by simp
  ultimately obtain s3 pss where s3: "push_args lc line ms sig 1 (a + of_nat (length (le64 k @ le64 (tx_id s + 1)))) ?s2 = Inr s3"
      "writing b1 a ((le64 k @ le64 (tx_id s + 1)) @ concat pss) (tx_shm s3)" "list_all2 (piece (tx_shm s3)) as pss" "src_frame ?s2 s3"
      "tmp_ready s3 M" "unat (bf_aux_buf_idx (tx_shm s3)) \<le> unat (bf_aux_buf_idx (tx_shm ?s2)) + length as"
    using push_args_ok [OF _ room _ _ sys _ _ tmp(2) args] by blast
  let ?d = "(le64 k @ le64 (tx_id s + 1)) @ concat pss"
  have "map length pss = map arg_size as" using s3(3) by (induction as pss rule: list_all2_induct) (auto simp: length_piece)
  then have "length (concat pss) = sum_list (map arg_size as)" by (simp add: length_concat)
  then have "?d \<noteq> []" "length ?d \<le> unat (sb_elem_size (bf_shm ?b))" using es hd by (auto simp flip: length_greater_0_conv)
  from finish_written [OF live _ this s3(2)] st(1) a(1)
  obtain rb' pad where f: "buffer_finish_push (tx_shm s3) = Inr (set_ringbuf (tx_shm s3) rb')" "bf_live (set_ringbuf (tx_shm s3) rb')"
      "sb_capacity (bf_shm (tx_shm s3)) = sb_capacity (bf_shm ?b)" "sb_elem_size (bf_shm (tx_shm s3)) = sb_elem_size (bf_shm ?b)"
      "bf_elems (set_ringbuf (tx_shm s3) rb') = bf_elems ?b @ [?d @ pad]"
    by blast
  let ?b4 = "set_ringbuf (tx_shm s3) rb'"
  let ?s4 = "s3\<lparr>tx_shm := ?b4\<rparr>"
  have "wait_push s = Inr (Returned a, s\<lparr>tx_shm := b1\<rparr>)" using st(1) a(1) by (subst wait_push.simps) simp
  then have run: "push_match lc i sig line ms s = Inr (Returned ?s4)"
    using \<open>kind_at ?s1 i = Inr k\<close> b2(1) s3(1) f(1) by (simp add: push_match_def)
  have k4: "kept (tx_shm s3) r y \<Longrightarrow> kept ?b4 r y" for r y by (rule kept_frame) simp_all
  have "event_of (tx_shm s3) k (tx_id s + 1) as (?d @ pad)" using s3(3) by (auto simp: event_of_def mk_event_def)
  then have ev: "event_of ?b4 k (tx_id s + 1) as (?d @ pad)" using k4 by (rule event_of_mono)
  have "kept ?b r y \<Longrightarrow> kept b1 r y" for r y using rb by (auto elim!: kept_frame)
  then have "kept ?b r y \<Longrightarrow> kept ?b4 r y" for r y using k4 b2(3) s3(4) by (auto simp: src_frame_def)
  moreover have "fresh_id ?b4 j = fresh_id ?b j" for j using writingD(6) [OF s3(2), of j] rb by (simp add: fresh_id_def)
  moreover have "tx_id s3 = tx_id s + 1" "tx_exprs s3 = tx_exprs s" using s3(4) by (simp_all add: src_frame_def)
  moreover have "aux_ok ?b4" "bf_control ?b4 = bf_control ?b" using writingD(3,4) [OF s3(2)] rb by (simp_all add: aux_ok_def)
  ultimately have "after_event s ?s4 (?d @ pad) (length as)"
    using f(2-5) s3(6) b2(4) rb by (simp add: after_event_def)
  moreover have "tmp_ready ?s4 M" using s3(5) by (simp add: tmp_ready_def)
  ultimately show ?thesis using run ev by (intro exI [of _ ?s4] exI [of _ "?d @ pad"]) simp
qed

section \<open>One line\<close>

text \<open>
  The events a line calls for: one for each expression that the monitor has assigned a kind and that matches, in
  the order of the expressions.
\<close>

fun line_events :: "libc \<Rightarrow> byte list \<Rightarrow> shm_kind list \<Rightarrow> (regex_t \<times> string) list \<Rightarrow> (shm_kind \<times> arg list) list res" where
  "line_events lc line (k # ks) ((re, sig) # es) =
     (if k = 0 then line_events lc line ks es
      else (case re line of
         None \<Rightarrow> line_events lc line ks es
       | Some ms \<Rightarrow>
           bindE (args_of lc line ms sig 1) (\<lambda>as.
           bindE (line_events lc line ks es) (\<lambda>rest. Inr ((k, as) # rest)))))"
| "line_events lc line ks es = Inr []"

fun events_of :: "buffer \<Rightarrow> shm_eventid \<Rightarrow> (shm_kind \<times> arg list) list \<Rightarrow> byte list list \<Rightarrow> bool" where
  "events_of b i [] [] = True"
| "events_of b i ((k, as) # specs) (ev # evs) = (event_of b k (i + 1) as ev \<and> events_of b (i + 1) specs evs)"
| "events_of b i specs evs = False"

definition kinds :: "text_source \<Rightarrow> shm_kind list" where
  "kinds s = map er_kind (snd (buffer_get_avail_events (tx_shm s)))"

definition can_send_all :: "text_source \<Rightarrow> (shm_kind \<times> arg list) list \<Rightarrow> bool" where
  "can_send_all s specs \<longleftrightarrow> bf_live (tx_shm s) \<and> aux_ok (tx_shm s) \<and>
     length (bf_elems (tx_shm s)) + length specs \<le> unat (sb_capacity (bf_shm (tx_shm s))) \<and>
     (\<forall>(k, as) \<in> set specs. 16 + sum_list (map arg_size as) \<le> unat (sb_elem_size (bf_shm (tx_shm s)))) \<and>
     (\<forall>j \<in> {1..length specs}. fresh_id (tx_shm s) (tx_id s + of_nat j)) \<and>
     unat (bf_aux_buf_idx (tx_shm s)) + sum_list (map (\<lambda>(k, as). length as) specs) < 4294967296"

text \<open>The parts of the line that the expressions match.\<close>

definition all_matches :: "byte list \<Rightarrow> (regex_t \<times> string) list \<Rightarrow> regmatch_t set" where
  "all_matches line es = {m. \<exists>re sig ms. (re, sig) \<in> set es \<and> re line = Some ms \<and> m \<in> set ms}"

lemma kind_at_kinds: "i < length (kinds s) \<Longrightarrow> kind_at s i = Inr (kinds s ! i)"
  by (simp add: kind_at_def kinds_def Let_def)

lemma parse_exprs_ok:
  assumes "line_events lc line (drop i (kinds s)) es = Inr specs" and "i + length es \<le> length (kinds s)" and "can_send_all s specs"
    and "sys_ok lc line" and "tmp_ready s M" and "all_matches line es \<subseteq> M"
  shows "\<exists>s' evs. parse_exprs lc line i es s = Inr (Returned s') \<and> bf_elems (tx_shm s') = bf_elems (tx_shm s) @ evs \<and>
    events_of (tx_shm s') (tx_id s) specs evs \<and> tx_id s' = tx_id s + of_nat (length specs) \<and> bf_live (tx_shm s') \<and> aux_ok (tx_shm s') \<and>
    tmp_ready s' M \<and> tx_exprs s' = tx_exprs s \<and> kinds s' = kinds s \<and> (\<forall>r y. kept (tx_shm s) r y \<longrightarrow> kept (tx_shm s') r y)"
  using assms
proof (induction es arbitrary: i s specs)
  case Nil
  then have "specs = []" by (cases "drop i (kinds s)") simp_all
  then show ?case using Nil.prems(3,5) by (auto simp: can_send_all_def intro!: exI [of _ s] exI [of _ "[]"])
next
  case (Cons e es)
  obtain re sig where e: "e = (re, sig)" by (cases e)
  let ?k = "kinds s ! i"
  have i: "i < length (kinds s)" "Suc i + length es \<le> length (kinds s)" using Cons.prems(2) by simp_all
  have dr: "drop i (kinds s) = ?k # drop (Suc i) (kinds s)" using i(1) by (simp add: Cons_nth_drop_Suc)
  have sub: "all_matches line es \<subseteq> M" using Cons.prems(6) by (auto simp: all_matches_def)
  show ?case
  proof (cases "?k = 0 \<or> re line = None")
    case True
    then have "line_events lc line (drop (Suc i) (kinds s)) es = Inr specs" using Cons.prems(1) e dr by (auto split: if_splits)
    moreover have "parse_exprs lc line i (e # es) s = parse_exprs lc line (Suc i) es s"
      using True e kind_at_kinds [OF i(1)] by auto
    ultimately show ?thesis using Cons.IH [OF _ i(2) Cons.prems(3-5) sub] by simp
  next
    case False
    then obtain ms where ms: "re line = Some ms" "?k \<noteq> 0" by auto
    obtain as rest where r: "args_of lc line ms sig 1 = Inr as" "line_events lc line (drop (Suc i) (kinds s)) es = Inr rest" "specs = (?k, as) # rest"
      using Cons.prems(1) e dr ms by auto
    have "can_send s (sum_list (map arg_size as)) (length as)"
      using Cons.prems(3) r(3) by (auto simp: can_send_all_def can_send_def dest: bspec [of _ _ 1])
    moreover have "set ms \<subseteq> M" using Cons.prems(6) e ms(1) by (auto simp: all_matches_def)
    ultimately obtain s1 ev where s1: "push_match lc i sig line ms s = Inr (Returned s1)" "event_of (tx_shm s1) ?k (tx_id s + 1) as ev"
        "after_event s s1 ev (length as)" "tmp_ready s1 M"
      using push_match_ok [OF _ kind_at_kinds [OF i(1)] Cons.prems(4,5) _ r(1)] by blast
    note a = s1(3) [unfolded after_event_def]
    have kk: "kinds s1 = kinds s" using a by (simp add: kinds_def buffer_get_avail_events_def)
    have "fresh_id (tx_shm s1) (tx_id s1 + of_nat j)" if "j \<in> {1..length rest}" for j
      using Cons.prems(3) r(3) a that by (auto simp: can_send_all_def add.assoc dest!: bspec [of _ _ "Suc j"])
    then have "can_send_all s1 rest" using Cons.prems(3) r(3) a by (auto simp: can_send_all_def)
    moreover have "line_events lc line (drop (Suc i) (kinds s1)) es = Inr rest" "Suc i + length es \<le> length (kinds s1)" using r(2) kk i(2) by simp_all
    ultimately obtain s' evs where s': "parse_exprs lc line (Suc i) es s1 = Inr (Returned s')" "bf_elems (tx_shm s') = bf_elems (tx_shm s1) @ evs"
        "events_of (tx_shm s') (tx_id s1) rest evs" "tx_id s' = tx_id s1 + of_nat (length rest)" "bf_live (tx_shm s')" "aux_ok (tx_shm s')"
        "tmp_ready s' M" "tx_exprs s' = tx_exprs s1" "kinds s' = kinds s1" "\<forall>r y. kept (tx_shm s1) r y \<longrightarrow> kept (tx_shm s') r y"
      using Cons.IH [of "Suc i" s1 rest, OF _ _ _ Cons.prems(4) s1(4) sub] by blast
    have "event_of (tx_shm s') ?k (tx_id s + 1) as ev" using event_of_mono [OF s1(2)] s'(10) by blast
    then have "events_of (tx_shm s') (tx_id s) specs (ev # evs)" using s'(3) r(3) a by simp
    moreover have "parse_exprs lc line i (e # es) s = Inr (Returned s')"
      using e kind_at_kinds [OF i(1)] ms s1(1) s'(1) by simp
    ultimately show ?thesis using s' a r(3) kk by (intro exI [of _ s'] exI [of _ "ev # evs"]) (auto simp: add.assoc)
  qed
qed

section \<open>What the monitor reads\<close>

text \<open>The monitor, which shares the segments, reads the string \<open>x\<close> through the reference.\<close>

definition reads_str :: "buffer \<Rightarrow> uint64_t \<Rightarrow> byte list \<Rightarrow> bool" where
  "reads_str b ref x \<longleftrightarrow> (\<forall>r. bf_segs r = bf_segs b \<longrightarrow>
     (\<exists>p r'. buffer_get_str True True r ref = Inr (p, r') \<and> str_at r' p = x))"

definition reads_arg :: "buffer \<Rightarrow> arg \<Rightarrow> byte list \<Rightarrow> bool" where
  "reads_arg b x bs \<longleftrightarrow> (case x of Num y \<Rightarrow> bs = y | Str y \<Rightarrow> (\<exists>ref. bs = le64 ref \<and> reads_str b ref y))"

definition reads_event :: "buffer \<Rightarrow> shm_kind \<Rightarrow> shm_eventid \<Rightarrow> arg list \<Rightarrow> byte list \<Rightarrow> bool" where
  "reads_event b k i as ev \<longleftrightarrow> (\<exists>pss pad. ev = mk_event k i (concat pss @ pad) \<and> list_all2 (reads_arg b) as pss)"

lemma kept_reads: "kept b ref x \<Longrightarrow> 0 \<notin> set x \<Longrightarrow> reads_str b ref x"
proof -
  assume "kept b ref x" and nul: "0 \<notin> set x"
  then obtain c off ab where k: "ref = off OR push_bit 32 c" "unat off < 4294967296" "unat c < 4294967296" "bf_segs b c = Some ab"
      "seg_wf c ab" "take (Suc (length x)) (drop (unat off) (ab_data ab)) = x @ [0]"
    unfolding kept_def by blast
  show "reads_str b ref x"
    unfolding reads_str_def
  proof (intro allI impI)
    fix r :: buffer
    assume "bf_segs r = bf_segs b"
    then have "bf_segs r c = Some ab" using k(4) by simp
    from buffer_get_str_seg [OF this k(5,6,2,3) nul]
    show "\<exists>p r'. buffer_get_str True True r ref = Inr (p, r') \<and> str_at r' p = x" using k(1) by blast
  qed
qed

lemma event_of_reads: "event_of b k i as ev \<Longrightarrow> reads_event b k i as ev"
  unfolding event_of_def reads_event_def
  by (elim exE conjE, intro exI conjI, assumption, erule list_all2_mono)
    (auto simp: piece_def reads_arg_def kept_reads split: arg.splits)

lemma events_of_nth:
  "events_of b i specs evs \<Longrightarrow> length evs = length specs \<and>
     (\<forall>j < length specs. event_of b (fst (specs ! j)) (i + of_nat (Suc j)) (snd (specs ! j)) (evs ! j))"
proof (induction b i specs evs rule: events_of.induct)
  case (2 b i k as specs ev evs)
  then show ?case by (auto simp: nth_Cons add.assoc split: nat.splits)
qed simp_all

section \<open>Properties\<close>


definition tx_text :: text_source where
  "tx_text = \<lparr>tx_exprs = [(\<lambda>line. Some [(0, 4), (2, 4)], ''iL''), (\<lambda>line. None, ''S'')],
     tx_shm = bf_example\<lparr>bf_shm := sb_example\<lparr>sb_elem_size := 32, sb_data := replicate 128 0, sb_last_processed_id := 0\<rparr>,
       bf_control := \<lparr>sc_size = control_bytes 2, sc_events = [blank_record\<lparr>er_kind := 5\<rparr>, blank_record\<lparr>er_kind := 6\<rparr>]\<rparr>\<rparr>,
     tx_waiting = 0, tx_id = 0, tx_tmpline = None, tx_tmpline_len = 0, tx_env = []\<rparr>"

lemma tx_text_buffer: "bf_live (tx_shm tx_text)" "length (bf_elems (tx_shm tx_text)) = 2" "aux_ok (tx_shm tx_text)"
proof -
  have q: "sb_queue (bf_shm (tx_shm tx_text)) = \<lparr>pq_ringbuf = rb_example, pq_elem_size = 32, pq_capacity = 3, pq_data = replicate 128 0\<rparr>"
    by (simp add: tx_text_def sb_example_def sb_queue_def queue_bytes_def)
  have c: "unat (rb_capacity rb_example) = 4" by (simp add: rb_example_def)
  show "bf_live (tx_shm tx_text)" using q rb_example_inv c
    by (simp add: bf_live_def bf_ok_def pq_inv_def) (simp add: tx_text_def sb_example_def)
  show "length (bf_elems (tx_shm tx_text)) = 2" by (simp add: bf_elems_def q) (simp add: rb_example_def rb_written_def ring_dist_def)
  show "aux_ok (tx_shm tx_text)" by (simp add: tx_text_def aux_ok_def aux_inv_def bf_example_def)
qed

lemma tx_text_can_send:
  "length specs = 1 \<Longrightarrow> (\<forall>(k, as) \<in> set specs. sum_list (map arg_size as) \<le> 16 \<and> length as \<le> 2) \<Longrightarrow> can_send_all tx_text specs"
  using tx_text_buffer
  by (cases specs) (auto simp: can_send_all_def fresh_id_def tx_text_def sb_example_def bf_example_def)

lemma lc_example_aux: "n \<le> 4 \<Longrightarrow> aux_sys_ok (lc_mmap lc_example) (lc_pg_size lc_example) (of_nat n + 1)"
  using zero_malloc_ok by (auto simp: aux_sys_ok_def lc_example_def zero_malloc_def unat_add_64 unat_of_nat_64)


end
