(* ===== verification/Text_Threads.thy ===== *)
theory Text_Threads
  imports Text_Lines Vectors "HOL-Library.Multiset" "HOL-Library.Sublist"
begin

text \<open>
  The text source with a parser thread, \<open>sources/drregex/regex-mt.c\<close>. The application's writes and reads on the standard input, output
  and error are cut into lines by \<open>handle_event\<close>, in the thread that made the call; finished lines go to a list per file
  descriptor, from which one parser thread takes them, parses them and returns them to a pool.

  The threads interleave at the operations on the lists and pools, which spin locks make atomic; reading and writing a line takes place
  between them. There is at most one call at a time on a file descriptor (\<open>handle_event\<close> has no lock of its own), and
  the increment of the timestamp, which all descriptors share, is part of the step that finishes a line. A line is a
  node of a heap; lines are never freed, so the address of a line is its number in the order of allocation. The embedded list is the list of its
  addresses, the vector of the pool the list of its elements, the top last.
\<close>

section \<open>Lines\<close>

record line =
  li_data :: shm_string
  li_timestamp :: size_t

record mt_source =
  ms_heap :: "nat \<Rightarrow> line option"
  ms_lines :: "nat list"
  ms_pool :: "nat list"
  ms_pool_max_size :: size_t
  ms_current :: "nat option"
  ms_allocated_lines :: size_t
  ms_src :: text_source

definition ALLOCATED_LINES_THRESHOLD :: size_t where
  "ALLOCATED_LINES_THRESHOLD = 2000"

definition line_at :: "mt_source \<Rightarrow> nat option \<Rightarrow> line res" where
  "line_at p a =
     (case a of None \<Rightarrow> Inl (UB ''NULL dereference'')
      | Some a \<Rightarrow> (case ms_heap p a of None \<Rightarrow> Inl (UB ''dangling pointer'') | Some l \<Rightarrow> Inr l))"

definition set_line :: "nat option \<Rightarrow> line \<Rightarrow> mt_source \<Rightarrow> mt_source" where
  "set_line a l p = (case a of None \<Rightarrow> p | Some a \<Rightarrow> p\<lparr>ms_heap := (ms_heap p)(a \<mapsto> l)\<rparr>)"

text \<open>The timestamp of a new line is indeterminate until the line is finished.\<close>

definition create_new_line :: "libc \<Rightarrow> size_t \<Rightarrow> line res" where
  "create_new_line lc junk =
     bindE (VEC_GROW (lc_malloc lc) 1 VEC_INIT 128) (\<lambda>d. Inr \<lparr>li_data = d, li_timestamp = junk\<rparr>)"

definition get_line_from_pool :: "mt_source \<Rightarrow> nat option \<times> mt_source" where
  "get_line_from_pool p =
     (if length (ms_pool p) > 0 then (Some (last (ms_pool p)), p\<lparr>ms_pool := butlast (ms_pool p)\<rparr>) else (None, p))"

text \<open>One attempt of \<open>init_new_line\<close>; \<open>None\<close>: it has to try again.\<close>

definition init_new_line :: "libc \<Rightarrow> size_t \<Rightarrow> mt_source \<Rightarrow> mt_source option res" where
  "init_new_line lc junk p =
     (let (line, p) = get_line_from_pool p in
      case line of
        Some a \<Rightarrow> Inr (Some (p\<lparr>ms_current := Some a\<rparr>))
      | None \<Rightarrow>
          if ms_allocated_lines p \<ge> ALLOCATED_LINES_THRESHOLD then Inr None
          else bindE (create_new_line lc junk) (\<lambda>l.
            let a = unat (ms_allocated_lines p) in
            Inr (Some (p\<lparr>ms_heap := (ms_heap p)(a \<mapsto> l), ms_allocated_lines := ms_allocated_lines p + 1, ms_current := Some a\<rparr>))))"

definition finish_line :: "size_t \<Rightarrow> mt_source \<Rightarrow> (size_t \<times> mt_source) res" where
  "finish_line timestamp p =
     bindE (line_at p (ms_current p)) (\<lambda>l.
     let timestamp = timestamp + 1; p = set_line (ms_current p) (l\<lparr>li_timestamp := timestamp\<rparr>) p in
     Inr (timestamp, p\<lparr>ms_lines := ms_lines p @ (case ms_current p of None \<Rightarrow> [] | Some a \<Rightarrow> [a])\<rparr>))"

definition put_to_pool :: "nat \<Rightarrow> mt_source \<Rightarrow> mt_source res" where
  "put_to_pool a p =
     bindE (line_at p (Some a)) (\<lambda>l.
     let p = set_line (Some a) (l\<lparr>li_data := (li_data l)\<lparr>ve_size := 0\<rparr>\<rparr>) p;
         p = p\<lparr>ms_pool := ms_pool p @ [a]\<rparr>;
         n = of_nat (length (ms_pool p))
     in Inr (if n > ms_pool_max_size p then p\<lparr>ms_pool_max_size := n\<rparr> else p))"

section \<open>The calls of the application\<close>

text \<open>
  \<open>handle_event\<close> as a machine: the bytes that are left with the space that was computed for the current line (\<open>ALoop\<close>), the
  line has been ended and \<open>finish_line\<close> or \<open>init_new_line\<close> comes next.
\<close>

datatype app_pc = AIdle | ALoop "byte list" size_t | AFinish "byte list" | AInit "byte list"

definition ensure_space :: "libc \<Rightarrow> mt_source \<Rightarrow> (size_t \<times> mt_source) res" where
  "ensure_space lc p =
     bindE (line_at p (ms_current p)) (\<lambda>l.
     bindE (STRING_ENSURE_SPACE (lc_malloc lc) (li_data l)) (\<lambda>d.
     assertE (ve_size d < ve_alloc_size d) ''STRING_SIZE < STRING_ALLOC_SIZE''
     (let space = ve_alloc_size d - ve_size d in
      assertE (space > 0) ''space > 0'' (Inr (space, set_line (ms_current p) (l\<lparr>li_data := d\<rparr>) p)))))"

definition put_char :: "byte \<Rightarrow> mt_source \<Rightarrow> mt_source res" where
  "put_char c p =
     bindE (line_at p (ms_current p)) (\<lambda>l.
     let d = li_data l in
     assertE (ve_size d < ve_alloc_size d) ''STRING_SIZE < STRING_ALLOC_SIZE''
     (let d = d\<lparr>ve_size := ve_size d + 1\<rparr> in
      bindE (mem_write (ve_data d) (unat (ve_size d - 1)) [c]) (\<lambda>mem.
      Inr (set_line (ms_current p) (l\<lparr>li_data := d\<lparr>ve_data := mem\<rparr>\<rparr>) p))))"

text \<open>A step of the machine with the timestamp counter; \<open>None\<close>: it waits.\<close>

fun app_step :: "libc \<Rightarrow> size_t \<Rightarrow> app_pc \<Rightarrow> size_t \<Rightarrow> mt_source \<Rightarrow> (app_pc \<times> size_t \<times> mt_source) option res" where
  "app_step lc junk AIdle ts p = Inr None"
| "app_step lc junk (ALoop [] space) ts p = Inr (Some (AIdle, ts, p))"
| "app_step lc junk (ALoop (c # cs) space) ts p =
     bindE (if space = 0 then ensure_space lc p else Inr (space, p)) (\<lambda>(space, p).
     if c = 10 \<or> c = 0 then bindE (put_char 0 p) (\<lambda>p. Inr (Some (AFinish cs, ts, p)))
     else bindE (put_char c p) (\<lambda>p. Inr (Some (ALoop cs (space - 1), ts, p))))"
| "app_step lc junk (AFinish cs) ts p = bindE (finish_line ts p) (\<lambda>(ts, p). Inr (Some (AInit cs, ts, p)))"
| "app_step lc junk (AInit cs) ts p =
     bindE (init_new_line lc junk p) (\<lambda>r.
     case r of None \<Rightarrow> Inr None
     | Some p \<Rightarrow> bindE (line_at p (ms_current p)) (\<lambda>l.
         assertE (ve_size (li_data l) = 0) ''STRING_SIZE(line->data) == 0'' (Inr (Some (ALoop cs 0, ts, p)))))"

section \<open>The parser\<close>

text \<open>
  Waiting for space gives up (\<open>Returned None\<close>) when the monitor has gone; \<open>w\<close> is the local counter.
\<close>

function mt_wait_push :: "size_t \<Rightarrow> text_source \<Rightarrow> (size_t option waiting \<times> text_source) res" where
  "mt_wait_push w s =
     bindE (buffer_start_push (tx_shm s)) (\<lambda>(p, b).
     case p of
       Some a \<Rightarrow> Inr (Returned (Some a), s\<lparr>tx_shm := b\<rparr>)
     | None \<Rightarrow>
         let s = s\<lparr>tx_shm := b, tx_waiting := tx_waiting s + 1\<rparr>; w = w + 1 in
         if w > 5000 \<and> \<not> buffer_monitor_attached b then Inr (Returned None, s)
         else (let w = (if w > 5000 then 0 else w) in
           case tx_env s of
             [] \<Rightarrow> Inr (Waiting, s)
           | act # env \<Rightarrow> mt_wait_push w (s\<lparr>tx_shm := act b, tx_env := env\<rparr>)))"
  by pat_completeness auto
termination
  by (relation "measure (\<lambda>(w, s). length (tx_env s))") auto

declare mt_wait_push.simps [simp del]

text \<open>The result is whether the monitor is still there; \<open>first_match_only\<close> and \<open>timestamps\<close> are the options.\<close>

definition mt_push_match ::
    "libc \<Rightarrow> bool \<Rightarrow> shm_kind \<Rightarrow> string \<Rightarrow> byte list \<Rightarrow> size_t \<Rightarrow> regmatch_t list \<Rightarrow> text_source \<Rightarrow> (bool \<times> text_source) waiting res" where
  "mt_push_match lc timestamps kind sig line ts matches s =
     bindE (mt_wait_push 0 s) (\<lambda>(r, s).
     case r of
       Waiting \<Rightarrow> Inr Waiting
     | Returned None \<Rightarrow> Inr (Returned (False, s))
     | Returned (Some addr) \<Rightarrow>
         let s = s\<lparr>tx_id := tx_id s + 1\<rparr> in
         bindE (push_bytes (le64 kind @ le64 (tx_id s)) addr s) (\<lambda>(addr, s).
         bindE (if \<not> timestamps then Inr (sig, addr, s)
                else (case sig of
                    [] \<Rightarrow> Inl (Assertion ''no timestamp in the signature'')
                  | c # sig \<Rightarrow> assertE (c = CHR ''t'') ''no timestamp in the signature''
                      (bindE (push_bytes (le64 ts) addr s) (\<lambda>(addr, s). Inr (sig, addr, s))))) (\<lambda>(sig, addr, s).
         bindE (push_args lc line matches sig 1 addr s) (\<lambda>s.
         bindE (buffer_finish_push (tx_shm s)) (\<lambda>b. Inr (Returned (True, s\<lparr>tx_shm := b\<rparr>)))))))"

fun mt_parse_exprs ::
    "libc \<Rightarrow> bool \<Rightarrow> bool \<Rightarrow> byte list \<Rightarrow> size_t \<Rightarrow> nat \<Rightarrow> (regex_t \<times> string) list \<Rightarrow> text_source \<Rightarrow> (bool \<times> text_source) waiting res" where
  "mt_parse_exprs lc timestamps first_match_only line ts i [] s = Inr (Returned (True, s))"
| "mt_parse_exprs lc timestamps first_match_only line ts i ((re, sig) # es) s =
     bindE (kind_at s i) (\<lambda>kind.
     if kind = 0 then mt_parse_exprs lc timestamps first_match_only line ts (Suc i) es s
     else (case re line of
        None \<Rightarrow> mt_parse_exprs lc timestamps first_match_only line ts (Suc i) es s
      | Some matches \<Rightarrow>
          bindW (mt_push_match lc timestamps kind sig line ts matches s) (\<lambda>(ok, s).
          if \<not> ok then Inr (Returned (False, s))
          else if first_match_only then Inr (Returned (True, s))
          else mt_parse_exprs lc timestamps first_match_only line ts (Suc i) es s)))"

definition mt_parse_line :: "libc \<Rightarrow> bool \<Rightarrow> bool \<Rightarrow> line \<Rightarrow> text_source \<Rightarrow> (bool \<times> text_source) waiting res" where
  "mt_parse_line lc timestamps first_match_only l s =
     mt_parse_exprs lc timestamps first_match_only (bstr (ve_data (li_data l))) (li_timestamp l) 0 (tx_exprs s) s"

text \<open>
  The state of the source: per file descriptor the lines (\<open>None\<close>: no buffer, the descriptor is not observed), the call in progress and
  whether the application has ended; the temporary buffer, which all descriptors share; where the parser thread is.
\<close>

datatype par_pc = PLook nat | PParse nat nat | PPut nat nat | PCheck | PFinished

record drregex_mt =
  mt_fds :: "nat \<Rightarrow> mt_source option"
  mt_app :: "nat \<Rightarrow> app_pc"
  mt_done :: "nat \<Rightarrow> bool"
  mt_timestamp :: size_t
  mt_timestamps :: bool
  mt_first_match_only :: bool
  mt_tmpline :: "byte list option"
  mt_tmpline_len :: size_t
  mt_par :: par_pc
  mt_no_line :: size_t

definition get_line :: "mt_source \<Rightarrow> nat option" where
  "get_line p = (case ms_lines p of [] \<Rightarrow> None | a # _ \<Rightarrow> Some a)"

definition all_done :: "drregex_mt \<Rightarrow> bool" where
  "all_done s \<longleftrightarrow> (\<forall>i \<in> {0, 1, 2}. mt_done s i)"

definition monitor_disconected :: "drregex_mt \<Rightarrow> bool" where
  "monitor_disconected s \<longleftrightarrow> (\<forall>i \<in> {0, 1, 2}. case mt_fds s i of None \<Rightarrow> True | Some p \<Rightarrow> \<not> buffer_monitor_attached (tx_shm (ms_src p)))"

text \<open>A step of the parser thread; \<open>None\<close>: it has finished, or the call to parse a line has not returned.\<close>

definition next_fd :: "nat \<Rightarrow> par_pc" where
  "next_fd i = (if i < 2 then PLook (Suc i) else PCheck)"

fun par_step :: "libc \<Rightarrow> par_pc \<Rightarrow> drregex_mt \<Rightarrow> drregex_mt option res" where
  "par_step lc (PLook i) s =
     (case mt_fds s i of
        None \<Rightarrow> Inr (Some (s\<lparr>mt_par := next_fd i\<rparr>))
      | Some p \<Rightarrow>
          (case get_line p of
             None \<Rightarrow> Inr (Some (s\<lparr>mt_par := next_fd i\<rparr>))
           | Some a \<Rightarrow> Inr (Some (s\<lparr>mt_fds := (mt_fds s)(i \<mapsto> p\<lparr>ms_lines := tl (ms_lines p)\<rparr>), mt_par := PParse i a\<rparr>))))"
| "par_step lc (PParse i a) s =
     (case mt_fds s i of
        None \<Rightarrow> Inl (UB ''NULL dereference'')
      | Some p \<Rightarrow>
          bindE (line_at p (Some a)) (\<lambda>l.
          bindE (mt_parse_line lc (mt_timestamps s) (mt_first_match_only s) l
              ((ms_src p)\<lparr>tx_tmpline := mt_tmpline s, tx_tmpline_len := mt_tmpline_len s\<rparr>)) (\<lambda>r.
          case r of
            Waiting \<Rightarrow> Inr None
          | Returned (ok, src) \<Rightarrow>
              Inr (Some (s\<lparr>mt_fds := (mt_fds s)(i \<mapsto> p\<lparr>ms_src := src\<rparr>), mt_tmpline := tx_tmpline src,
                mt_tmpline_len := tx_tmpline_len src, mt_par := (if ok then PPut i a else PFinished)\<rparr>)))))"
| "par_step lc (PPut i a) s =
     (case mt_fds s i of
        None \<Rightarrow> Inl (UB ''NULL dereference'')
      | Some p \<Rightarrow> bindE (put_to_pool a p) (\<lambda>p.
          Inr (Some (s\<lparr>mt_fds := (mt_fds s)(i \<mapsto> p), mt_no_line := 0, mt_par := PLook i\<rparr>))))"
| "par_step lc PCheck s =
     (let s = s\<lparr>mt_no_line := mt_no_line s + 1\<rparr> in
      if mt_no_line s > 1000 \<and> (all_done s \<or> monitor_disconected s) then Inr (Some (s\<lparr>mt_par := PFinished\<rparr>))
      else Inr (Some (s\<lparr>mt_par := PLook 0\<rparr>)))"
| "par_step lc PFinished s = Inr None"

text \<open>The callback after a system call (the result as a signed number), and the end of the application.\<close>

definition mt_post_syscall :: "int \<Rightarrow> 32 word \<Rightarrow> byte list \<Rightarrow> int \<Rightarrow> drregex_mt \<Rightarrow> drregex_mt res" where
  "mt_post_syscall sysnum fd buf len s =
     (if sysnum \<noteq> SYS_read \<and> sysnum \<noteq> SYS_write then Inr s
      else if sint fd > 2 then Inr s
      else if sint fd < 0 then Inl (UB ''read out of bounds'')
      else (case mt_fds s (unat fd) of
         None \<Rightarrow> Inr s
       | Some _ \<Rightarrow> if len \<le> 0 then Inr s
           else if int (length buf) < len then Inl (UB ''read out of bounds'')
           else Inr (s\<lparr>mt_app := (mt_app s)(unat fd := ALoop (take (nat len) buf) 0)\<rparr>)))"

definition event_exit_begin :: "drregex_mt \<Rightarrow> drregex_mt" where
  "event_exit_begin s = s\<lparr>mt_done := (\<lambda>i. mt_done s i \<or> mt_fds s i \<noteq> None)\<rparr>"

section \<open>Runs\<close>

text \<open>
  A run: the state, what has been written to each file descriptor, and the lines the parser has parsed, as the strings it read. The
  monitor may do anything to the shared buffers.
\<close>

record mt_run =
  ru_s :: drregex_mt
  ru_written :: "nat \<Rightarrow> byte list"
  ru_parsed :: "nat \<Rightarrow> byte list list"

definition note_call :: "nat \<Rightarrow> drregex_mt \<Rightarrow> (nat \<Rightarrow> byte list) \<Rightarrow> (nat \<Rightarrow> byte list)" where
  "note_call i s w = (case mt_app s i of ALoop bs _ \<Rightarrow> w(i := w i @ bs) | _ \<Rightarrow> w)"

definition note_parsed :: "drregex_mt \<Rightarrow> (nat \<Rightarrow> byte list list) \<Rightarrow> (nat \<Rightarrow> byte list list)" where
  "note_parsed s w =
     (case mt_par s of
        PParse i a \<Rightarrow>
          (case mt_fds s i of None \<Rightarrow> w
           | Some p \<Rightarrow> (case ms_heap p a of None \<Rightarrow> w | Some l \<Rightarrow> w(i := w i @ [bstr (ve_data (li_data l))])))
      | _ \<Rightarrow> w)"

inductive mt_step :: "libc \<Rightarrow> mt_run \<Rightarrow> mt_run \<Rightarrow> bool" for lc where
  mt_call:
    "mt_app (ru_s r) (unat fd) = AIdle \<Longrightarrow> mt_post_syscall sysnum fd buf len (ru_s r) = Inr s' \<Longrightarrow>
     mt_step lc r (r\<lparr>ru_s := s', ru_written := note_call (unat fd) s' (ru_written r)\<rparr>)"
| mt_app_step:
    "mt_fds (ru_s r) i = Some p \<Longrightarrow> app_step lc junk (mt_app (ru_s r) i) (mt_timestamp (ru_s r)) p = Inr (Some (pc, ts, p')) \<Longrightarrow>
     mt_step lc r (r\<lparr>ru_s := (ru_s r)\<lparr>mt_fds := (mt_fds (ru_s r))(i \<mapsto> p'), mt_app := (mt_app (ru_s r))(i := pc), mt_timestamp := ts\<rparr>\<rparr>)"
| mt_par_step:
    "par_step lc (mt_par (ru_s r)) (ru_s r) = Inr (Some s') \<Longrightarrow>
     mt_step lc r (r\<lparr>ru_s := s', ru_parsed := note_parsed (ru_s r) (ru_parsed r)\<rparr>)"
| mt_monitor:
    "mt_fds (ru_s r) i = Some p \<Longrightarrow>
     mt_step lc r (r\<lparr>ru_s := (ru_s r)\<lparr>mt_fds := (mt_fds (ru_s r))(i \<mapsto> p\<lparr>ms_src := (ms_src p)\<lparr>tx_shm := b\<rparr>\<rparr>)\<rparr>\<rparr>)"
| mt_exit: "mt_step lc r (r\<lparr>ru_s := event_exit_begin (ru_s r)\<rparr>)"

text \<open>The state after \<open>dr_client_main\<close>: every observed descriptor has its first line.\<close>

definition no_lines :: "text_source \<Rightarrow> mt_source" where
  "no_lines src = \<lparr>ms_heap = Map.empty, ms_lines = [], ms_pool = [], ms_pool_max_size = 0, ms_current = None, ms_allocated_lines = 0, ms_src = src\<rparr>"

definition mt_ready :: "libc \<Rightarrow> drregex_mt \<Rightarrow> bool" where
  "mt_ready lc s \<longleftrightarrow> (\<forall>i. mt_app s i = AIdle) \<and> mt_par s = PLook 0 \<and>
     (\<forall>i p. mt_fds s i = Some p \<longrightarrow> (\<exists>junk src. init_new_line lc junk (no_lines src) = Inr (Some p)))"

inductive mt_reach :: "libc \<Rightarrow> mt_run \<Rightarrow> bool" for lc where
  mt_start: "mt_ready lc s \<Longrightarrow> mt_reach lc \<lparr>ru_s = s, ru_written = (\<lambda>_. []), ru_parsed = (\<lambda>_. [])\<rparr>"
| mt_continue: "mt_reach lc r \<Longrightarrow> mt_step lc r r' \<Longrightarrow> mt_reach lc r'"

section \<open>The invariant\<close>

text \<open>\<open>handle_event\<close> ends a line at a newline and at a NUL.\<close>

fun cut_lines :: "byte list \<Rightarrow> byte list \<Rightarrow> byte list list \<times> byte list" where
  "cut_lines acc [] = ([], acc)"
| "cut_lines acc (c # cs) =
     (if c = 10 \<or> c = 0 then (let (ls, r) = cut_lines [] cs in (acc # ls, r)) else cut_lines (acc @ [c]) cs)"

lemma cut_lines_append:
  "cut_lines acc (x @ y) =
     (fst (cut_lines acc x) @ fst (cut_lines (snd (cut_lines acc x)) y), snd (cut_lines (snd (cut_lines acc x)) y))"
  by (induction acc x rule: cut_lines.induct) (auto split: prod.splits)

lemma cut_lines_snoc:
  "cut_lines [] (x @ [c]) =
     (if c = 10 \<or> c = 0 then (fst (cut_lines [] x) @ [snd (cut_lines [] x)], []) else (fst (cut_lines [] x), snd (cut_lines [] x) @ [c]))"
  by (simp add: cut_lines_append)

lemma cut_lines_no_nul: "0 \<notin> set acc \<Longrightarrow> 0 \<notin> set (snd (cut_lines acc x)) \<and> (\<forall>l \<in> set (fst (cut_lines acc x)). 0 \<notin> set l)"
  by (induction acc x rule: cut_lines.induct) (auto split: prod.splits)

text \<open>The line the parser holds of the descriptor \<open>i\<close>, and the one it is about to read.\<close>

definition held :: "nat \<Rightarrow> par_pc \<Rightarrow> nat list" where
  "held i pc = (case pc of PParse j a \<Rightarrow> if j = i then [a] else [] | PPut j a \<Rightarrow> if j = i then [a] else [] | _ \<Rightarrow> [])"

definition unread :: "nat \<Rightarrow> par_pc \<Rightarrow> nat list" where
  "unread i pc = (case pc of PParse j a \<Rightarrow> if j = i then [a] else [] | _ \<Rightarrow> [])"

text \<open>The current line, while it belongs to the application.\<close>

definition filled :: "app_pc \<Rightarrow> mt_source \<Rightarrow> nat list" where
  "filled pc p = (case pc of AInit _ \<Rightarrow> [] | _ \<Rightarrow> (case ms_current p of None \<Rightarrow> [] | Some c \<Rightarrow> [c]))"

definition ended :: "app_pc \<Rightarrow> mt_source \<Rightarrow> nat list" where
  "ended pc p = (case pc of AFinish _ \<Rightarrow> filled pc p | _ \<Rightarrow> [])"

definition left :: "app_pc \<Rightarrow> byte list" where
  "left pc = (case pc of AIdle \<Rightarrow> [] | ALoop cs _ \<Rightarrow> cs | AFinish cs \<Rightarrow> cs | AInit cs \<Rightarrow> cs)"

definition text_at :: "mt_source \<Rightarrow> nat \<Rightarrow> byte list" where
  "text_at p a = (case ms_heap p a of None \<Rightarrow> [] | Some l \<Rightarrow> string_text (li_data l))"

definition line_ok :: "line \<Rightarrow> bool" where
  "line_ok l \<longleftrightarrow> string_inv (li_data l) \<and> 128 \<le> ve_alloc_size (li_data l)"

text \<open>Every line is in one place: current, in the list, in the pool, or in the hands of the parser.\<close>

definition places :: "nat \<Rightarrow> mt_source \<Rightarrow> app_pc \<Rightarrow> par_pc \<Rightarrow> nat list" where
  "places i p pc par = filled pc p @ ms_lines p @ ms_pool p @ held i par"

definition heap_inv :: "nat \<Rightarrow> mt_source \<Rightarrow> app_pc \<Rightarrow> par_pc \<Rightarrow> bool" where
  "heap_inv i p pc par \<longleftrightarrow> distinct (places i p pc par) \<and> set (places i p pc par) \<subseteq> {..<unat (ms_allocated_lines p)} \<and>
     (par \<noteq> PFinished \<longrightarrow> set (places i p pc par) = {..<unat (ms_allocated_lines p)}) \<and>
     (\<forall>a < unat (ms_allocated_lines p). \<exists>l. ms_heap p a = Some l \<and> line_ok l) \<and> ms_current p \<noteq> None \<and>
     (\<forall>a \<in> set (ms_pool p). text_at p a = []) \<and> unat (ms_allocated_lines p) \<le> 2000"

text \<open>The lines in their places are those of the bytes handled so far.\<close>

definition text_inv :: "nat \<Rightarrow> mt_source \<Rightarrow> app_pc \<Rightarrow> par_pc \<Rightarrow> byte list \<Rightarrow> byte list list \<Rightarrow> bool" where
  "text_inv i p pc par w d \<longleftrightarrow> (\<exists>x. w = x @ left pc \<and>
     map (text_at p) (unread i par @ ms_lines p @ ended pc p) = map (\<lambda>l. l @ [0]) (drop (length d) (fst (cut_lines [] x))) \<and>
     d = take (length d) (fst (cut_lines [] x)) \<and>
     (ended pc p \<noteq> [] \<or> filled pc p = [] \<longrightarrow> snd (cut_lines [] x) = []) \<and>
     (ended pc p = [] \<longrightarrow> map (text_at p) (filled pc p) = map (\<lambda>_. snd (cut_lines [] x)) (filled pc p)))"

definition space_inv :: "mt_source \<Rightarrow> app_pc \<Rightarrow> bool" where
  "space_inv p pc \<longleftrightarrow> (\<forall>cs sp c l. pc = ALoop cs sp \<longrightarrow> sp \<noteq> 0 \<longrightarrow> ms_current p = Some c \<longrightarrow> ms_heap p c = Some l \<longrightarrow>
     sp = ve_alloc_size (li_data l) - ve_size (li_data l))"

definition fd_inv :: "nat \<Rightarrow> mt_source \<Rightarrow> app_pc \<Rightarrow> par_pc \<Rightarrow> byte list \<Rightarrow> byte list list \<Rightarrow> bool" where
  "fd_inv i p pc par w d \<longleftrightarrow> heap_inv i p pc par \<and> text_inv i p pc par w d \<and> space_inv p pc"

definition mt_inv :: "mt_run \<Rightarrow> bool" where
  "mt_inv r \<longleftrightarrow> (\<forall>i p. mt_fds (ru_s r) i = Some p \<longrightarrow> fd_inv i p (mt_app (ru_s r) i) (mt_par (ru_s r)) (ru_written r i) (ru_parsed r i)) \<and>
     (\<forall>i. mt_fds (ru_s r) i = None \<longrightarrow> mt_app (ru_s r) i = AIdle)"

section \<open>The steps of the application keep the invariant\<close>

lemma lib_total_alloc: "lib_ok lc \<Longrightarrow> total_alloc (lc_malloc lc)"
  unfolding lib_ok_def total_alloc_def malloc_ok_def by (metis option.distinct(1) option.inject)

lemma ensure_string:
  assumes i: "string_inv s" "128 \<le> ve_alloc_size s" and m: "malloc_ok m" and e: "STRING_ENSURE_SPACE m s = Inr d"
  shows "string_inv d" "string_text d = string_text s" "ve_size d < ve_alloc_size d" "128 \<le> ve_alloc_size d" "ve_size d = ve_size s"
proof -
  have "string_inv d \<and> string_text d = string_text s \<and> ve_size d < ve_alloc_size d \<and> 128 \<le> ve_alloc_size d \<and> ve_size d = ve_size s"
  proof (cases "ve_size s \<ge> ve_alloc_size s")
    case True
    define n where "n = (if ve_alloc_size s < 32 then 32 else 2 * ve_alloc_size s)"
    obtain blk where b: "m n = Some blk" "d = s\<lparr>ve_alloc_size := n, ve_data := take (length blk) (ve_data s @ drop (length (ve_data s)) blk)\<rparr>" "ve_size s < n"
      using e True by (auto simp: STRING_ENSURE_SPACE_def vec_realloc_def realloc_def Let_def n_def [symmetric] split: option.splits)
    have l: "length blk = unat n" "length (ve_data s) = unat (ve_alloc_size s)" "unat (ve_size s) \<le> unat (ve_alloc_size s)" "unat (ve_size s) < unat n"
      using m b(1,3) i(1) by (auto simp: malloc_ok_def string_inv_def word_le_nat_alt word_less_nat_alt)
    have "take (unat (ve_size s)) (take (length blk) (ve_data s @ drop (length (ve_data s)) blk)) = take (unat (ve_size s)) (ve_data s)"
      using l by (simp add: min_def)
    then have "string_text d = string_text s" using b(2) by (simp add: string_text_def)
    moreover have "string_inv d" using b(2,3) l True by (auto simp: string_inv_def word_le_nat_alt)
    moreover have "128 \<le> n" using b(3) True i(2) by (simp add: word_le_nat_alt word_less_nat_alt)
    ultimately show ?thesis using b(2,3) by simp
  next
    case False
    then have "d = s" using e by (auto simp: STRING_ENSURE_SPACE_def)
    then show ?thesis using False i by simp
  qed
  then show "string_inv d" "string_text d = string_text s" "ve_size d < ve_alloc_size d" "128 \<le> ve_alloc_size d" "ve_size d = ve_size s" by blast+
qed

lemma ensure_string_works:
  assumes "total_alloc m" and "unat (ve_size s) < 4611686018427387904" and "string_inv s"
  shows "\<exists>d. STRING_ENSURE_SPACE m s = Inr d"
proof (cases "ve_size s \<ge> ve_alloc_size s")
  case True
  define n where "n = (if ve_alloc_size s < 32 then 32 else 2 * ve_alloc_size s)"
  obtain blk where "m n = Some blk" using assms(1) by (auto simp: total_alloc_def)
  moreover have "ve_size s < n"
    using assms(2,3) True by (auto simp: n_def word_le_nat_alt word_less_nat_alt string_inv_def unat_mult_64)
  ultimately show ?thesis using True by (auto simp: STRING_ENSURE_SPACE_def vec_realloc_def realloc_def Let_def n_def [symmetric])
next
  case False
  then show ?thesis by (auto simp: STRING_ENSURE_SPACE_def)
qed

text \<open>The current line with a changed string.\<close>

lemma line_at_Some [simp]: "ms_heap p c = Some l \<Longrightarrow> line_at p (Some c) = Inr l"
  by (simp add: line_at_def)

definition with_line :: "mt_source \<Rightarrow> nat \<Rightarrow> line \<Rightarrow> mt_source" where
  "with_line p c l = p\<lparr>ms_heap := (ms_heap p)(c \<mapsto> l)\<rparr>"

lemma with_line_simps [simp]:
  "ms_heap (with_line p c l) = (ms_heap p)(c \<mapsto> l)" "ms_lines (with_line p c l) = ms_lines p" "ms_pool (with_line p c l) = ms_pool p"
  "ms_current (with_line p c l) = ms_current p" "ms_allocated_lines (with_line p c l) = ms_allocated_lines p"
  "set_line (Some c) l p = with_line p c l" "with_line (with_line p c l) c l' = with_line p c l'"
  "filled pc (with_line p c l) = filled pc p" "ended pc (with_line p c l) = ended pc p" "places i (with_line p c l) pc par = places i p pc par"
  by (simp_all add: with_line_def set_line_def filled_def ended_def places_def split: app_pc.splits)

lemma text_at_with_line: "text_at (with_line p c l) a = (if a = c then string_text (li_data l) else text_at p a)"
  by (simp add: text_at_def)

lemma put_char_ok:
  assumes c: "ms_current p = Some c" "ms_heap p c = Some l" and l: "line_ok l" and r: "put_char b p = Inr p'"
  shows "\<exists>l'. p' = with_line p c l' \<and> line_ok l' \<and> string_text (li_data l') = string_text (li_data l) @ [b] \<and>
    ve_size (li_data l') = ve_size (li_data l) + 1 \<and> ve_alloc_size (li_data l') = ve_alloc_size (li_data l)"
proof -
  let ?d = "li_data l"
  have lt: "ve_size ?d < ve_alloc_size ?d" using r c by (auto simp: put_char_def Let_def)
  then have u: "unat (ve_size ?d) < unat (ve_alloc_size ?d)" by (simp add: word_less_nat_alt)
  then have u1: "unat (ve_size ?d + 1) = Suc (unat (ve_size ?d))" using unat_less_2p64 [of "ve_alloc_size ?d"] by (simp add: unat_add_64)
  have ld: "length (ve_data ?d) = unat (ve_alloc_size ?d)" using l by (simp add: line_ok_def string_inv_def)
  let ?l' = "l\<lparr>li_data := ?d\<lparr>ve_size := ve_size ?d + 1, ve_data := mem_upd (ve_data ?d) (unat (ve_size ?d)) [b]\<rparr>\<rparr>"
  have "p' = with_line p c ?l'" using r c lt u ld by (simp add: put_char_def Let_def)
  moreover have "line_ok ?l'" using l u u1 ld by (simp add: line_ok_def string_inv_def word_le_nat_alt)
  moreover have "string_text (li_data ?l') = string_text ?d @ [b]"
    using u u1 ld take_mem_upd [of "unat (ve_size ?d)" "[b]" "ve_data ?d"] by (simp add: string_text_def)
  ultimately show ?thesis by auto
qed

lemma filled_line:
  assumes "heap_inv i p pc par" and "filled pc p \<noteq> []"
  obtains c l where "ms_current p = Some c" "filled pc p = [c]" "ms_heap p c = Some l" "line_ok l" "c < unat (ms_allocated_lines p)"
    "c \<notin> set (ms_lines p)" "c \<notin> set (ms_pool p)" "c \<notin> set (held i par)"
proof -
  obtain c where c: "ms_current p = Some c" using assms(1) by (auto simp: heap_inv_def)
  then have f: "filled pc p = [c]" using assms(2) by (simp add: filled_def split: app_pc.splits)
  then have a: "c < unat (ms_allocated_lines p)" "c \<notin> set (ms_lines p)" "c \<notin> set (ms_pool p)" "c \<notin> set (held i par)"
    using assms(1) by (simp_all add: heap_inv_def places_def)
  then obtain l where "ms_heap p c = Some l" "line_ok l" using assms(1) by (auto simp: heap_inv_def)
  then show thesis using that c f a by blast
qed

text \<open>Changing the current line.\<close>

lemma heap_inv_with_line:
  assumes "heap_inv i p pc par" and "line_ok l" and "c \<notin> set (ms_pool p)"
  shows "heap_inv i (with_line p c l) pc par"
  using assms by (auto simp: heap_inv_def text_at_with_line)

lemma heap_inv_pc:
  assumes "heap_inv i p pc par" and "filled pc' p = filled pc p"
  shows "heap_inv i p pc' par"
  using assms by (simp add: heap_inv_def places_def)

lemma texts_with_line:
  assumes "c \<notin> set xs"
  shows "map (text_at (with_line p c l)) xs = map (text_at p) xs"
  using assms by (auto simp: text_at_with_line)

lemma unread_held: "set (unread i par) \<subseteq> set (held i par)"
  by (auto simp: unread_def held_def split: par_pc.splits)

lemma app_char_inv:
  assumes lc: "lib_ok lc" and inv: "fd_inv i p (ALoop (b # cs) sp) par w d"
    and st: "app_step lc junk (ALoop (b # cs) sp) ts p = Inr (Some (pc, ts', p'))"
  shows "fd_inv i p' pc par w d"
proof -
  have hi: "heap_inv i p (ALoop (b # cs) sp) par" and ti: "text_inv i p (ALoop (b # cs) sp) par w d" and si: "space_inv p (ALoop (b # cs) sp)"
    using inv by (simp_all add: fd_inv_def)
  have "filled (ALoop (b # cs) sp) p \<noteq> []" using hi by (auto simp: heap_inv_def filled_def)
  from filled_line [OF hi this] obtain c l where c: "ms_current p = Some c" "filled (ALoop (b # cs) sp) p = [c]" "ms_heap p c = Some l" "line_ok l"
      "c < unat (ms_allocated_lines p)" "c \<notin> set (ms_lines p)" "c \<notin> set (ms_pool p)" "c \<notin> set (held i par)" .
  define ch where "ch = (if b = 10 \<or> b = 0 then 0 else b)"
  obtain sp1 p1 where p1: "(if sp = 0 then ensure_space lc p else Inr (sp, p)) = Inr (sp1, p1)" "put_char ch p1 = Inr p'"
      "pc = (if b = 10 \<or> b = 0 then AFinish cs else ALoop cs (sp1 - 1))"
    using st by (auto simp: ch_def split: if_splits)
  obtain l1 where l1: "p1 = with_line p c l1" "line_ok l1" "string_text (li_data l1) = string_text (li_data l)"
      "sp1 = ve_alloc_size (li_data l1) - ve_size (li_data l1)"
  proof (cases "sp = 0")
    case True
    then obtain e where e: "STRING_ENSURE_SPACE (lc_malloc lc) (li_data l) = Inr e" "sp1 = ve_alloc_size e - ve_size e" "p1 = with_line p c (l\<lparr>li_data := e\<rparr>)"
      using p1(1) c(1,3) by (auto simp: ensure_space_def Let_def)
    have "malloc_ok (lc_malloc lc)" using lib_total_alloc [OF lc] by (simp add: total_alloc_def)
    from ensure_string [OF _ _ this e(1)] c(4) show thesis using that [of "l\<lparr>li_data := e\<rparr>"] e(2,3) by (simp add: line_ok_def)
  next
    case False
    then have "p1 = with_line p c l" using p1(1) c(3) by (simp add: with_line_def fun_upd_idem)
    moreover have "sp1 = ve_alloc_size (li_data l) - ve_size (li_data l)" using False p1(1) si c(1,3) by (auto simp: space_inv_def)
    ultimately show thesis using that c(4) by blast
  qed
  have c1: "ms_current p1 = Some c" "ms_heap p1 c = Some l1" using l1(1) c(1) by simp_all
  obtain l2 where l2: "p' = with_line p c l2" "line_ok l2" "string_text (li_data l2) = string_text (li_data l) @ [ch]"
      "ve_size (li_data l2) = ve_size (li_data l1) + 1" "ve_alloc_size (li_data l2) = ve_alloc_size (li_data l1)"
    using put_char_ok [OF c1 l1(2) p1(2)] l1(1,3) by auto
  have fl: "filled pc p = [c]" using c(1) p1(3) by (simp add: filled_def)
  have h': "heap_inv i p' pc par"
    unfolding l2(1) using heap_inv_with_line [OF heap_inv_pc [OF hi] l2(2) c(7)] fl c(2) by simp
  obtain x where x: "w = x @ b # cs" "map (text_at p) (unread i par @ ms_lines p) = map (\<lambda>l. l @ [0]) (drop (length d) (fst (cut_lines [] x)))"
      "d = take (length d) (fst (cut_lines [] x))" "text_at p c = snd (cut_lines [] x)"
    using ti c(2) by (auto simp: text_inv_def left_def ended_def)
  have tc: "text_at p' c = snd (cut_lines [] x) @ [ch]" using x(4) c(3) l2(1,3) by (simp add: text_at_with_line text_at_def)
  have "c \<notin> set (unread i par @ ms_lines p)" using c(6,8) unread_held [of i par] by auto
  then have tx: "map (text_at p') (unread i par @ ms_lines p) = map (\<lambda>l. l @ [0]) (drop (length d) (fst (cut_lines [] x)))"
    unfolding l2(1) using texts_with_line x(2) by metis
  have ld: "length d \<le> length (fst (cut_lines [] x))" using x(3) by (metis nat_le_linear take_all_iff length_take min.absorb_iff2)
  have "text_inv i p' pc par w d"
  proof (cases "b = 10 \<or> b = 0")
    case True
    then have "cut_lines [] (x @ [b]) = (fst (cut_lines [] x) @ [snd (cut_lines [] x)], [])" by (simp add: cut_lines_snoc)
    moreover have "ended pc p' = [c]" "filled pc p' = [c]" "left pc = cs" "ms_lines p' = ms_lines p"
      using True p1(3) l2(1) c(1) by (simp_all add: ended_def filled_def left_def)
    ultimately show ?thesis unfolding text_inv_def using x(1,3) tx tc ld True
      by (intro exI [of _ "x @ [b]"]) (auto simp: ch_def)
  next
    case False
    then have "cut_lines [] (x @ [b]) = (fst (cut_lines [] x), snd (cut_lines [] x) @ [b])" by (simp add: cut_lines_snoc)
    moreover have "ended pc p' = []" "filled pc p' = [c]" "left pc = cs" "ms_lines p' = ms_lines p"
      using False p1(3) l2(1) c(1) by (simp_all add: ended_def filled_def left_def)
    ultimately show ?thesis unfolding text_inv_def using x(1,3) tx tc False
      by (intro exI [of _ "x @ [b]"]) (auto simp: ch_def)
  qed
  moreover have "space_inv p' pc" using p1(3) l1(4) l2 c(1) by (auto simp: space_inv_def split: if_splits)
  ultimately show ?thesis using h' by (simp add: fd_inv_def)
qed

lemma app_end_inv:
  assumes "fd_inv i p (ALoop [] sp) par w d"
  shows "fd_inv i p AIdle par w d"
proof -
  have "filled AIdle p = filled (ALoop [] sp) p" "ended AIdle p = ended (ALoop [] sp) p" "left AIdle = left (ALoop [] sp)"
    by (simp_all add: filled_def ended_def left_def)
  then show ?thesis using assms by (simp add: fd_inv_def heap_inv_def places_def text_inv_def space_inv_def)
qed

lemma app_finish_inv:
  assumes inv: "fd_inv i p (AFinish cs) par w d" and st: "finish_line ts p = Inr (ts', p')"
  shows "fd_inv i p' (AInit cs) par w d"
proof -
  have hi: "heap_inv i p (AFinish cs) par" and ti: "text_inv i p (AFinish cs) par w d" using inv by (simp_all add: fd_inv_def)
  have "filled (AFinish cs) p \<noteq> []" using hi by (auto simp: heap_inv_def filled_def)
  from filled_line [OF hi this] obtain c l where c: "ms_current p = Some c" "filled (AFinish cs) p = [c]" "ms_heap p c = Some l" "line_ok l"
      "c < unat (ms_allocated_lines p)" "c \<notin> set (ms_lines p)" "c \<notin> set (ms_pool p)" "c \<notin> set (held i par)" .
  let ?l = "l\<lparr>li_timestamp := ts + 1\<rparr>"
  have p': "p' = (with_line p c ?l)\<lparr>ms_lines := ms_lines p @ [c]\<rparr>" using st c(1,3) by (auto simp: finish_line_def Let_def)
  have tx: "text_at p' = text_at p" using p' c(3) by (auto simp: text_at_def)
  have pl: "mset (places i p' (AInit cs) par) = mset (places i p (AFinish cs) par)"
    using p' c(2) by (simp add: places_def filled_def)
  have f: "ms_allocated_lines p' = ms_allocated_lines p" "ms_pool p' = ms_pool p" "ms_current p' = Some c" "ms_heap p' = (ms_heap p)(c \<mapsto> ?l)"
    using p' c(1) by simp_all
  have "heap_inv i p' (AInit cs) par"
    using hi f c(4) tx mset_eq_setD [OF pl] mset_eq_imp_distinct_iff [OF pl] by (auto simp: heap_inv_def line_ok_def)
  moreover have "text_inv i p' (AInit cs) par w d"
    using ti c(1) p' unfolding text_inv_def tx by (auto simp: ended_def filled_def left_def)
  ultimately show ?thesis by (simp add: fd_inv_def space_inv_def)
qed

lemma app_init_inv:
  assumes lc: "lib_ok lc" and inv: "fd_inv i p (AInit cs) par w d" and st: "init_new_line lc junk p = Inr (Some p')"
  shows "fd_inv i p' (ALoop cs 0) par w d \<and> (\<exists>c l. ms_current p' = Some c \<and> ms_heap p' c = Some l \<and> ve_size (li_data l) = 0)"
proof -
  have hi: "heap_inv i p (AInit cs) par" and ti: "text_inv i p (AInit cs) par w d" using inv by (simp_all add: fd_inv_def)
  have pool: "\<forall>a \<in> set (ms_pool p). \<exists>l. ms_heap p a = Some l \<and> line_ok l \<and> ve_size (li_data l) = 0"
  proof
    fix a assume a: "a \<in> set (ms_pool p)"
    then have "a < unat (ms_allocated_lines p)" using hi by (auto simp: heap_inv_def places_def)
    then obtain l where l: "ms_heap p a = Some l" "line_ok l" using hi by (auto simp: heap_inv_def)
    then have "string_text (li_data l) = []" using hi a by (auto simp: heap_inv_def text_at_def)
    then have "ve_size (li_data l) = 0"
      using l(2) by (auto simp: string_text_def line_ok_def string_inv_def word_le_nat_alt word_64_eq_iff)
    then show "\<exists>l. ms_heap p a = Some l \<and> line_ok l \<and> ve_size (li_data l) = 0" using l by blast
  qed
  have "\<exists>c l. ms_current p' = Some c \<and> ms_heap p' c = Some l \<and> line_ok l \<and> ve_size (li_data l) = 0 \<and> ms_lines p' = ms_lines p \<and>
      (\<forall>a \<in> set (ms_lines p @ ms_pool p' @ held i par). text_at p' a = text_at p a) \<and> heap_inv i p' (ALoop cs 0) par"
  proof (cases "ms_pool p = []")
    case False
    let ?c = "last (ms_pool p)"
    have p': "p' = p\<lparr>ms_pool := butlast (ms_pool p), ms_current := Some ?c\<rparr>"
      using st False by (simp add: init_new_line_def get_line_from_pool_def Let_def)
    obtain l where l: "ms_heap p ?c = Some l" "line_ok l" "ve_size (li_data l) = 0" using bspec [OF pool last_in_set [OF False]] by blast
    have "ms_pool p = butlast (ms_pool p) @ [?c]" using False by simp
    then have "mset (ms_pool p) = mset (butlast (ms_pool p)) + {#?c#}" by (metis mset_append mset.simps add_mset_add_single empty_neutral(1))
    then have pl: "mset (places i p' (ALoop cs 0) par) = mset (places i p (AInit cs) par)"
      using p' by (simp add: places_def filled_def)
    have "heap_inv i p' (ALoop cs 0) par"
      using hi p' mset_eq_setD [OF pl] mset_eq_imp_distinct_iff [OF pl] by (auto simp: heap_inv_def text_at_def dest: in_set_butlastD)
    then show ?thesis using p' l by (intro exI [of _ ?c] exI [of _ l]) (simp add: text_at_def)
  next
    case True
    let ?c = "unat (ms_allocated_lines p)"
    obtain l where l: "create_new_line lc junk = Inr l" and lt: "ms_allocated_lines p < 2000"
        and p': "p' = p\<lparr>ms_heap := (ms_heap p)(?c \<mapsto> l), ms_allocated_lines := ms_allocated_lines p + 1, ms_current := Some ?c\<rparr>"
      using st True by (auto simp: init_new_line_def get_line_from_pool_def Let_def ALLOCATED_LINES_THRESHOLD_def split: if_splits)
    obtain blk where "lc_malloc lc 128 = Some blk" "length blk = 128" using lib_malloc [OF lc, of 128] by auto
    then have lok: "line_ok l" "ve_size (li_data l) = 0"
      using l by (auto simp: create_new_line_def VEC_GROW_def VEC_INIT_def vec_realloc_def realloc_def line_ok_def string_inv_def)
    have u: "unat (ms_allocated_lines p + 1) = Suc ?c" using lt by (simp add: unat_add_64 word_less_nat_alt)
    have pl: "places i p' (ALoop cs 0) par = ?c # places i p (AInit cs) par" using p' by (simp add: places_def filled_def)
    have sub: "set (places i p (AInit cs) par) \<subseteq> {..<?c}" using hi by (simp add: heap_inv_def)
    then have tx: "text_at p' a = text_at p a" if "a \<in> set (places i p (AInit cs) par)" for a using that p' by (auto simp: text_at_def)
    have "heap_inv i p' (ALoop cs 0) par"
      unfolding heap_inv_def pl
    proof (intro conjI impI allI ballI)
      show "distinct (?c # places i p (AInit cs) par)" using hi sub by (auto simp: heap_inv_def)
      show "set (?c # places i p (AInit cs) par) \<subseteq> {..<unat (ms_allocated_lines p')}" using p' u sub by auto
      show "set (?c # places i p (AInit cs) par) = {..<unat (ms_allocated_lines p')}" if "par \<noteq> PFinished"
        using that hi p' u by (auto simp: heap_inv_def)
      show "\<exists>l. ms_heap p' a = Some l \<and> line_ok l" if "a < unat (ms_allocated_lines p')" for a
        using that hi p' u lok(1) by (auto simp: heap_inv_def less_Suc_eq)
      show "ms_current p' \<noteq> None" "unat (ms_allocated_lines p') \<le> 2000" using p' u lt by (simp_all add: word_less_nat_alt)
      show "text_at p' a = []" if "a \<in> set (ms_pool p')" for a using that True p' by simp
    qed
    moreover have "text_at p' a = text_at p a" if "a \<in> set (ms_lines p @ ms_pool p' @ held i par)" for a
      using that tx p' True by (auto simp: places_def)
    ultimately show ?thesis using p' lok by auto
  qed
  then obtain c l where c: "ms_current p' = Some c" "ms_heap p' c = Some l" "ve_size (li_data l) = 0" "ms_lines p' = ms_lines p"
      "\<forall>a \<in> set (ms_lines p @ ms_pool p' @ held i par). text_at p' a = text_at p a" "heap_inv i p' (ALoop cs 0) par"
    by blast
  have "text_at p' c = []" using c(2,3) by (simp add: text_at_def string_text_def)
  moreover have "map (text_at p') (unread i par) = map (text_at p) (unread i par)" "map (text_at p') (ms_lines p) = map (text_at p) (ms_lines p)"
    using c(5) unread_held [of i par] by auto
  ultimately have "text_inv i p' (ALoop cs 0) par w d"
    using ti c(1,4) by (auto simp: text_inv_def ended_def filled_def left_def simp del: map_eq_conv)
  then show ?thesis using c by (auto simp: fd_inv_def space_inv_def)
qed

lemma app_step_inv:
  assumes "lib_ok lc" and "fd_inv i p pc par w d" and "app_step lc junk pc ts p = Inr (Some (pc', ts', p'))"
  shows "fd_inv i p' pc' par w d"
proof (cases pc)
  case (ALoop cs sp)
  then show ?thesis using assms app_char_inv [OF assms(1)] app_end_inv by (cases cs) auto
next
  case (AFinish cs)
  then show ?thesis using assms(2,3) app_finish_inv [of i p cs] by auto
next
  case (AInit cs)
  then show ?thesis using assms(3) app_init_inv [OF assms(1), of i p cs par w d junk] assms(2)
    by (auto split: option.splits)
qed (use assms(3) in simp)

section \<open>The steps of the parser keep the invariant\<close>

lemma held_simps [simp]:
  "held i (PLook j) = []" "held i PCheck = []" "held i PFinished = []" "held i (next_fd j) = []"
  "held i (PParse j a) = (if j = i then [a] else [])" "held i (PPut j a) = (if j = i then [a] else [])"
  "unread i (PLook j) = []" "unread i PCheck = []" "unread i PFinished = []" "unread i (next_fd j) = []"
  "unread i (PParse j a) = (if j = i then [a] else [])" "unread i (PPut j a) = []" "next_fd j \<noteq> PFinished"
  by (simp_all add: held_def unread_def next_fd_def)

text \<open>Moves of the parser that do not touch the lines of a descriptor.\<close>

lemma fd_inv_par:
  assumes "fd_inv i p pc par w d" and "held i par' = held i par" "unread i par' = unread i par" "par \<noteq> PFinished"
  shows "fd_inv i p pc par' w d"
  using assms by (simp add: fd_inv_def heap_inv_def text_inv_def places_def)

lemma fd_inv_src [simp]: "fd_inv i (p\<lparr>ms_src := x\<rparr>) pc par w d = fd_inv i p pc par w d"
proof -
  have "filled pc (p\<lparr>ms_src := x\<rparr>) = filled pc p" "ended pc (p\<lparr>ms_src := x\<rparr>) = ended pc p" "text_at (p\<lparr>ms_src := x\<rparr>) = text_at p"
    by (auto simp: filled_def ended_def text_at_def split: app_pc.splits)
  then show ?thesis by (simp add: fd_inv_def heap_inv_def text_inv_def space_inv_def places_def)
qed

lemma par_take_inv:
  assumes inv: "fd_inv i p pc (PLook j) w d" and a: "ms_lines p = a # as"
  shows "fd_inv i (p\<lparr>ms_lines := as\<rparr>) pc (PParse i a) w d"
proof -
  let ?p = "p\<lparr>ms_lines := as\<rparr>"
  have f: "filled pc ?p = filled pc p" "ended pc ?p = ended pc p" "text_at ?p = text_at p"
    by (auto simp: filled_def ended_def text_at_def split: app_pc.splits)
  then have "mset (places i ?p pc (PParse i a)) = mset (places i p pc (PLook j))" using a by (simp add: places_def)
  from mset_eq_setD [OF this] mset_eq_imp_distinct_iff [OF this]
  have "heap_inv i ?p pc (PParse i a)" using inv f by (simp add: fd_inv_def heap_inv_def)
  moreover have "text_inv i ?p pc (PParse i a) w d" using inv f a by (auto simp: fd_inv_def text_inv_def)
  ultimately show ?thesis using inv by (simp add: fd_inv_def space_inv_def)
qed

lemma bstr_string:
  assumes "string_inv s" and "string_text s = x @ [0]" and "0 \<notin> set x"
  shows "bstr (ve_data s) = x"
proof -
  have "ve_data s = string_text s @ drop (unat (ve_size s)) (ve_data s)" by (simp add: string_text_def)
  also have "\<dots> = x @ 0 # drop (unat (ve_size s)) (ve_data s)" using assms(2) by simp
  finally have "bstr (ve_data s) = bstr (x @ 0 # drop (unat (ve_size s)) (ve_data s))" by (rule arg_cong)
  also have "\<dots> = takeWhile (\<lambda>c. c \<noteq> 0) x" unfolding bstr_def by (rule takeWhile_tail) simp
  also have "\<dots> = x" using assms(3) by (auto simp: takeWhile_eq_all_conv)
  finally show ?thesis .
qed

lemma par_parse_inv:
  assumes inv: "fd_inv i p pc (PParse i a) w d" and par: "par' = PPut i a \<or> par' = PFinished"
  shows "\<exists>l. ms_heap p a = Some l \<and> fd_inv i p pc par' w (d @ [bstr (ve_data (li_data l))])"
proof -
  have "a < unat (ms_allocated_lines p)" using inv by (auto simp: fd_inv_def heap_inv_def places_def)
  then obtain l where l: "ms_heap p a = Some l" "line_ok l" using inv by (auto simp: fd_inv_def heap_inv_def)
  obtain x where x: "w = x @ left pc" "map (text_at p) (a # ms_lines p @ ended pc p) = map (\<lambda>l. l @ [0]) (drop (length d) (fst (cut_lines [] x)))"
     "d = take (length d) (fst (cut_lines [] x))" "ended pc p \<noteq> [] \<or> filled pc p = [] \<longrightarrow> snd (cut_lines [] x) = []"
     "ended pc p = [] \<longrightarrow> map (text_at p) (filled pc p) = map (\<lambda>_. snd (cut_lines [] x)) (filled pc p)"
    using inv unfolding fd_inv_def text_inv_def held_simps if_P [OF refl] append_Cons append_Nil by (elim exE conjE) (rule that)
  let ?L = "fst (cut_lines [] x)"
  obtain y ys where y: "drop (length d) ?L = y # ys" using x(2) by (cases "drop (length d) ?L") auto
  then have t: "text_at p a = y @ [0]" "map (text_at p) (ms_lines p @ ended pc p) = map (\<lambda>l. l @ [0]) ys" using x(2) by auto
  have L: "?L = d @ y # ys" using append_take_drop_id [of "length d" ?L] x(3) y by simp
  have "0 \<notin> set y" using cut_lines_no_nul [of "[]" x] L by simp
  then have b: "bstr (ve_data (li_data l)) = y" using bstr_string [of "li_data l" y] l t(1) by (simp add: line_ok_def text_at_def)
  have "text_inv i p pc par' w (d @ [y])"
    unfolding text_inv_def using x(1,4,5) L t(2) par by (intro exI [of _ x]) auto
  moreover have "heap_inv i p pc par'" using inv par by (auto simp: fd_inv_def heap_inv_def places_def)
  ultimately show ?thesis using inv l(1) b by (auto simp: fd_inv_def)
qed

lemma par_put_inv:
  assumes inv: "fd_inv i p pc (PPut i a) w d" and st: "put_to_pool a p = Inr p'"
  shows "fd_inv i p' pc (PLook j) w d"
proof -
  have hi: "heap_inv i p pc (PPut i a)" and ti: "text_inv i p pc (PPut i a) w d" using inv by (simp_all add: fd_inv_def)
  have a: "a \<notin> set (filled pc p)" "a \<notin> set (ms_lines p)" "a \<notin> set (ms_pool p)" "a < unat (ms_allocated_lines p)"
    using hi by (auto simp: heap_inv_def places_def)
  then obtain l where l: "ms_heap p a = Some l" "line_ok l" using hi by (auto simp: heap_inv_def)
  let ?l = "l\<lparr>li_data := (li_data l)\<lparr>ve_size := 0\<rparr>\<rparr>"
  have lok: "line_ok ?l" using l(2) by (simp add: line_ok_def string_inv_def)
  obtain n where p': "p' = (with_line p a ?l)\<lparr>ms_pool := ms_pool p @ [a], ms_pool_max_size := n\<rparr>"
  proof -
    let ?q = "(with_line p a ?l)\<lparr>ms_pool := ms_pool p @ [a]\<rparr>"
    have "p' = ?q \<or> (\<exists>n. p' = ?q\<lparr>ms_pool_max_size := n\<rparr>)" using st l(1) by (auto simp: put_to_pool_def Let_def split: if_splits)
    moreover have "?q = ?q\<lparr>ms_pool_max_size := ms_pool_max_size ?q\<rparr>" by simp
    ultimately show thesis using that by metis
  qed
  have f: "filled pc p' = filled pc p" "ended pc p' = ended pc p" "ms_lines p' = ms_lines p" "ms_pool p' = ms_pool p @ [a]"
      "ms_allocated_lines p' = ms_allocated_lines p" "ms_current p' = ms_current p" "ms_heap p' = (ms_heap p)(a \<mapsto> ?l)"
    using p' by (simp_all add: filled_def ended_def split: app_pc.splits)
  have tx: "text_at p' x = (if x = a then [] else text_at p x)" for x using f(7) by (simp add: text_at_def string_text_def)
  have "mset (places i p' pc (PLook j)) = mset (places i p pc (PPut i a))" using f by (simp add: places_def)
  from mset_eq_setD [OF this] mset_eq_imp_distinct_iff [OF this]
  have "heap_inv i p' pc (PLook j)" using hi f tx lok by (auto simp: heap_inv_def)
  moreover have "set (ended pc p) \<subseteq> set (filled pc p)" by (auto simp: ended_def split: app_pc.splits)
  then have m: "map (text_at p') (ms_lines p @ ended pc p) = map (text_at p) (ms_lines p @ ended pc p)"
      "map (text_at p') (filled pc p) = map (text_at p) (filled pc p)" using a tx by auto
  have "text_inv i p' pc (PLook j) w d" using ti by (simp only: text_inv_def f m held_simps append_Nil)
  moreover have "space_inv p' pc"
    unfolding space_inv_def
  proof (intro allI impI)
    fix cs sp c l' assume h: "pc = ALoop cs sp" "sp \<noteq> 0" "ms_current p' = Some c" "ms_heap p' c = Some l'"
    then have "c \<noteq> a" using a(1) f(6) by (auto simp: filled_def)
    then show "sp = ve_alloc_size (li_data l') - ve_size (li_data l')" using h f(6,7) inv by (auto simp: fd_inv_def space_inv_def)
  qed
  ultimately show ?thesis by (simp add: fd_inv_def)
qed

section \<open>All runs\<close>

lemma mt_ready_inv:
  assumes lc: "lib_ok lc" and s: "mt_ready lc s"
  shows "mt_inv \<lparr>ru_s = s, ru_written = (\<lambda>_. []), ru_parsed = (\<lambda>_. [])\<rparr>"
proof -
  have "fd_inv i p AIdle (PLook 0) [] []" if fd: "mt_fds s i = Some p" for i p
  proof -
    have "\<exists>junk src. init_new_line lc junk (no_lines src) = Inr (Some p)" using s fd by (simp add: mt_ready_def)
    then obtain junk src where "init_new_line lc junk (no_lines src) = Inr (Some p)" by (elim exE) (rule that)
    then obtain l where l: "create_new_line lc junk = Inr l"
        and p: "p = (no_lines src)\<lparr>ms_heap := [0 \<mapsto> l], ms_allocated_lines := 1, ms_current := Some 0\<rparr>"
      by (auto simp: init_new_line_def get_line_from_pool_def no_lines_def ALLOCATED_LINES_THRESHOLD_def Let_def)
    obtain blk where "lc_malloc lc 128 = Some blk" "length blk = 128" using lib_malloc [OF lc, of 128] by auto
    then have "line_ok l" "ve_size (li_data l) = 0"
      using l by (auto simp: create_new_line_def VEC_GROW_def VEC_INIT_def vec_realloc_def realloc_def line_ok_def string_inv_def)
    then show ?thesis using p
      by (auto simp: fd_inv_def heap_inv_def text_inv_def space_inv_def places_def filled_def ended_def left_def text_at_def string_text_def no_lines_def)
  qed
  then show ?thesis using s by (auto simp: mt_inv_def mt_ready_def)
qed

lemma par_step_inv:
  assumes inv: "mt_inv r" and st: "par_step lc (mt_par (ru_s r)) (ru_s r) = Inr (Some s')"
  shows "mt_inv (r\<lparr>ru_s := s', ru_parsed := note_parsed (ru_s r) (ru_parsed r)\<rparr>)"
proof -
  let ?s = "ru_s r"
  have fd: "fd_inv i p (mt_app ?s i) (mt_par ?s) (ru_written r i) (ru_parsed r i)" if "mt_fds ?s i = Some p" for i p
    using inv that by (auto simp: mt_inv_def)
  have idle: "mt_app ?s i = AIdle" if "mt_fds ?s i = None" for i using inv that by (auto simp: mt_inv_def)
  have other: "fd_inv i p (mt_app ?s i) par' (ru_written r i) (ru_parsed r i)"
    if "mt_fds ?s i = Some p" "held i par' = held i (mt_par ?s)" "unread i par' = unread i (mt_par ?s)" "mt_par ?s \<noteq> PFinished" for i p par'
    by (rule fd_inv_par [OF fd [OF that(1)] that(2-4)])
  show ?thesis
  proof (cases "mt_par ?s")
    case (PLook i)
    then have np: "note_parsed ?s (ru_parsed r) = ru_parsed r" by (simp add: note_parsed_def)
    consider "s' = ?s\<lparr>mt_par := next_fd i\<rparr>"
      | p a as where "mt_fds ?s i = Some p" "ms_lines p = a # as" "s' = ?s\<lparr>mt_fds := (mt_fds ?s)(i \<mapsto> p\<lparr>ms_lines := as\<rparr>), mt_par := PParse i a\<rparr>"
      using st PLook by (auto simp: get_line_def split: option.splits list.splits)
    then show ?thesis
    proof cases
      case 1
      then show ?thesis using other [of _ _ "next_fd i"] idle PLook np by (auto simp: mt_inv_def)
    next
      case 2
      have "fd_inv i (p\<lparr>ms_lines := as\<rparr>) (mt_app ?s i) (PParse i a) (ru_written r i) (ru_parsed r i)"
        using par_take_inv [OF fd [OF 2(1), unfolded PLook] 2(2)] .
      then show ?thesis using other [of _ _ "PParse i a"] idle 2 PLook np by (auto simp: mt_inv_def)
    qed
  next
    case (PParse i a)
    obtain p l wt where w: "mt_fds ?s i = Some p" "ms_heap p a = Some l"
        "mt_parse_line lc (mt_timestamps ?s) (mt_first_match_only ?s) l
              ((ms_src p)\<lparr>tx_tmpline := mt_tmpline ?s, tx_tmpline_len := mt_tmpline_len ?s\<rparr>) = Inr wt"
      using st PParse by (auto simp: line_at_def split: option.splits)
    obtain ok src where wt: "wt = Returned (ok, src)" using st PParse w by (cases wt) auto
    have p: "mt_fds ?s i = Some p" "ms_heap p a = Some l"
        "s' = ?s\<lparr>mt_fds := (mt_fds ?s)(i \<mapsto> p\<lparr>ms_src := src\<rparr>), mt_tmpline := tx_tmpline src,
            mt_tmpline_len := tx_tmpline_len src, mt_par := (if ok then PPut i a else PFinished)\<rparr>"
      using st PParse w wt by simp_all
    have "fd_inv i p (mt_app ?s i) (if ok then PPut i a else PFinished) (ru_written r i) (ru_parsed r i @ [bstr (ve_data (li_data l))])"
      using par_parse_inv [OF fd [OF p(1), unfolded PParse], of "if ok then PPut i a else PFinished"] p(2) by auto
    moreover have "note_parsed ?s (ru_parsed r) = (ru_parsed r)(i := ru_parsed r i @ [bstr (ve_data (li_data l))])"
      using p(1,2) PParse by (simp add: note_parsed_def)
    ultimately show ?thesis using other [of _ _ "if ok then PPut i a else PFinished"] idle p(1,3) PParse by (auto simp: mt_inv_def)
  next
    case (PPut i a)
    then have np: "note_parsed ?s (ru_parsed r) = ru_parsed r" by (simp add: note_parsed_def)
    obtain p p' where p: "mt_fds ?s i = Some p" "put_to_pool a p = Inr p'" "s' = ?s\<lparr>mt_fds := (mt_fds ?s)(i \<mapsto> p'), mt_no_line := 0, mt_par := PLook i\<rparr>"
      using st PPut by (auto split: option.splits)
    have "fd_inv i p' (mt_app ?s i) (PLook i) (ru_written r i) (ru_parsed r i)"
      using par_put_inv [OF fd [OF p(1), unfolded PPut] p(2)] .
    then show ?thesis using other [of _ _ "PLook i"] idle p PPut np by (auto simp: mt_inv_def)
  next
    case PCheck
    then have np: "note_parsed ?s (ru_parsed r) = ru_parsed r" by (simp add: note_parsed_def)
    have "\<exists>n par. s' = ?s\<lparr>mt_no_line := n, mt_par := par\<rparr> \<and> (par = PFinished \<or> par = PLook 0)"
      using st PCheck by (auto simp: Let_def split: if_splits)
    then show ?thesis using other [of _ _ PFinished] other [of _ _ "PLook 0"] idle PCheck np by (auto simp: mt_inv_def)
  next
    case PFinished
    then show ?thesis using st by simp
  qed
qed

lemma mt_post_syscall_cases:
  assumes "mt_post_syscall sysnum fd buf len s = Inr s'"
  shows "s' = s \<or> (\<exists>p bs. mt_fds s (unat fd) = Some p \<and> s' = s\<lparr>mt_app := (mt_app s)(unat fd := ALoop bs 0)\<rparr>)"
proof (cases "mt_fds s (unat fd)")
  case None
  then show ?thesis using assms by (simp add: mt_post_syscall_def split: if_splits)
next
  case (Some p)
  then have "s' = s \<or> s' = s\<lparr>mt_app := (mt_app s)(unat fd := ALoop (take (nat len) buf) 0)\<rparr>"
    using assms by (simp add: mt_post_syscall_def split: if_splits)
  then show ?thesis using Some by blast
qed

lemma mt_step_inv:
  assumes lc: "lib_ok lc" and "mt_step lc r r'" and inv: "mt_inv r"
  shows "mt_inv r'"
  using assms(2)
proof cases
  case (mt_call fd sysnum buf len s')
  let ?i = "unat fd"
  consider "s' = ru_s r" | p bs where "mt_fds (ru_s r) ?i = Some p" "s' = (ru_s r)\<lparr>mt_app := (mt_app (ru_s r))(?i := ALoop bs 0)\<rparr>"
    using mt_post_syscall_cases [OF mt_call(3)] by (elim disjE exE conjE) (rule that)+
  then show ?thesis
  proof cases
    case 1
    then show ?thesis using mt_call inv by (simp add: note_call_def)
  next
    case 2
    have "fd_inv ?i p (mt_app (ru_s r) ?i) (mt_par (ru_s r)) (ru_written r ?i) (ru_parsed r ?i)"
      using inv 2(1) unfolding mt_inv_def by blast
    then have "fd_inv ?i p AIdle (mt_par (ru_s r)) (ru_written r ?i) (ru_parsed r ?i)" unfolding mt_call(2) .
    then have "fd_inv ?i p (ALoop bs 0) (mt_par (ru_s r)) (ru_written r ?i @ bs) (ru_parsed r ?i)"
      by (auto simp: fd_inv_def heap_inv_def text_inv_def space_inv_def places_def filled_def ended_def left_def)
    then show ?thesis using mt_call(1) 2 inv by (auto simp: mt_inv_def note_call_def)
  qed
next
  case (mt_app_step i p junk pc ts p')
  have "fd_inv i p' pc (mt_par (ru_s r)) (ru_written r i) (ru_parsed r i)"
    using app_step_inv [OF lc _ mt_app_step(3)] inv mt_app_step(2) by (auto simp: mt_inv_def)
  then show ?thesis using mt_app_step(1,2) inv by (auto simp: mt_inv_def)
next
  case (mt_par_step s')
  then show ?thesis using par_step_inv [OF inv] by simp
next
  case (mt_monitor i p b)
  then show ?thesis using inv by (auto simp: mt_inv_def)
next
  case mt_exit
  then show ?thesis using inv by (simp add: mt_inv_def event_exit_begin_def)
qed

lemma mt_reach_inv: "mt_reach lc r \<Longrightarrow> lib_ok lc \<Longrightarrow> mt_inv r"
  by (induction rule: mt_reach.induct) (simp_all add: mt_ready_inv mt_step_inv)

lemma length_cut_lines_rest: "length (snd (cut_lines acc x)) \<le> length acc + length x"
  by (induction acc x rule: cut_lines.induct) (auto split: prod.splits)

lemma app_char_works:
  assumes lc: "lib_ok lc" and inv: "fd_inv i p (ALoop (b # cs) sp) par w d" and bound: "length w < 4611686018427387904"
  shows "\<exists>r. app_step lc junk (ALoop (b # cs) sp) ts p = Inr r"
proof -
  have hi: "heap_inv i p (ALoop (b # cs) sp) par" and ti: "text_inv i p (ALoop (b # cs) sp) par w d" and si: "space_inv p (ALoop (b # cs) sp)"
    using inv by (simp_all add: fd_inv_def)
  have "filled (ALoop (b # cs) sp) p \<noteq> []" using hi by (auto simp: heap_inv_def filled_def)
  from filled_line [OF hi this] obtain c l where c: "ms_current p = Some c" "filled (ALoop (b # cs) sp) p = [c]" "ms_heap p c = Some l" "line_ok l" .
  obtain x where "w = x @ b # cs" "text_at p c = snd (cut_lines [] x)"
    using ti c(2) by (auto simp: text_inv_def left_def ended_def)
  then have "length (string_text (li_data l)) < 4611686018427387904"
    using bound c(3) length_cut_lines_rest [of "[]" x] by (simp add: text_at_def)
  then have sz: "unat (ve_size (li_data l)) < 4611686018427387904"
    using c(4) by (auto simp: string_text_def line_ok_def string_inv_def word_le_nat_alt min_def split: if_splits)
  have put: "\<exists>q. put_char ch (with_line p c k) = Inr q" if "line_ok k" "ve_size (li_data k) < ve_alloc_size (li_data k)" for ch k
    using that c(1) by (simp add: put_char_def Let_def line_ok_def string_inv_def word_less_nat_alt)
  have "\<exists>sp1 k. (if sp = 0 then ensure_space lc p else Inr (sp, p)) = Inr (sp1, with_line p c k) \<and> line_ok k \<and> ve_size (li_data k) < ve_alloc_size (li_data k)"
  proof (cases "sp = 0")
    case True
    have ta: "total_alloc (lc_malloc lc)" using lib_total_alloc [OF lc] .
    then obtain e where e: "STRING_ENSURE_SPACE (lc_malloc lc) (li_data l) = Inr e"
      using ensure_string_works [OF _ sz] c(4) by (auto simp: line_ok_def)
    have "malloc_ok (lc_malloc lc)" using ta by (simp add: total_alloc_def)
    from ensure_string [OF _ _ this e] c(4)
    have "string_inv e" "128 \<le> ve_alloc_size e" "ve_size e < ve_alloc_size e" by (simp_all add: line_ok_def)
    then show ?thesis using True e c(1,3)
      by (intro exI [of _ "ve_alloc_size e - ve_size e"] exI [of _ "l\<lparr>li_data := e\<rparr>"])
        (auto simp: ensure_space_def Let_def line_ok_def word_less_nat_alt unat_sub_if')
  next
    case False
    then have "ve_size (li_data l) \<noteq> ve_alloc_size (li_data l)" using si c(1,3) by (auto simp: space_inv_def)
    moreover have "with_line p c l = p" using c(3) by (simp add: with_line_def fun_upd_idem)
    ultimately show ?thesis using False c(4) by (intro exI [of _ sp] exI [of _ l]) (simp add: line_ok_def string_inv_def order.strict_iff_order)
  qed
  then obtain sp1 k where k: "(if sp = 0 then ensure_space lc p else Inr (sp, p)) = Inr (sp1, with_line p c k)" "line_ok k"
      "ve_size (li_data k) < ve_alloc_size (li_data k)" by blast
  obtain q1 q2 where "put_char 0 (with_line p c k) = Inr q1" "put_char b (with_line p c k) = Inr q2" using put [OF k(2,3)] by blast
  then show ?thesis using k(1) by simp
qed

lemma app_step_works:
  assumes lc: "lib_ok lc" and inv: "fd_inv i p pc par w d" and bound: "length w < 4611686018427387904"
  shows "\<exists>r. app_step lc junk pc ts p = Inr r"
proof (cases pc)
  case (ALoop cs sp)
  then show ?thesis using app_char_works [OF lc _ bound] inv by (cases cs) auto
next
  case (AFinish cs)
  then have hi: "heap_inv i p (AFinish cs) par" using inv by (simp add: fd_inv_def)
  have "filled (AFinish cs) p \<noteq> []" using hi by (auto simp: heap_inv_def filled_def)
  from filled_line [OF hi this] obtain c l where "ms_current p = Some c" "ms_heap p c = Some l" .
  then show ?thesis using AFinish by (simp add: finish_line_def Let_def)
next
  case (AInit cs)
  obtain blk where "lc_malloc lc 128 = Some blk" using lib_malloc [OF lc, of 128] by blast
  then have "\<exists>l. create_new_line lc junk = Inr l" by (simp add: create_new_line_def VEC_GROW_def VEC_INIT_def vec_realloc_def realloc_def)
  then have "\<exists>r. init_new_line lc junk p = Inr r" by (auto simp: init_new_line_def get_line_from_pool_def Let_def)
  then obtain r where r: "init_new_line lc junk p = Inr r" by blast
  show ?thesis
  proof (cases r)
    case None
    then show ?thesis using r AInit by simp
  next
    case (Some q)
    then obtain c l where "ms_current q = Some c" "ms_heap q c = Some l" "ve_size (li_data l) = 0"
      using app_init_inv [OF lc inv [unfolded AInit], of junk q] r by blast
    then show ?thesis using r Some AInit by simp
  qed
qed simp

section \<open>Properties\<close>


text \<open>A schedule that can be run.\<close>

datatype mt_action = DoWrite "32 word" "byte list" | DoApp nat | DoParse

definition mt_do :: "libc \<Rightarrow> mt_action \<Rightarrow> mt_run \<Rightarrow> mt_run option" where
  "mt_do lc a r =
     (case a of
        DoWrite fd bs \<Rightarrow>
          (if mt_app (ru_s r) (unat fd) \<noteq> AIdle then None
           else case mt_post_syscall SYS_write fd bs (int (length bs)) (ru_s r) of Inl _ \<Rightarrow> None
             | Inr s \<Rightarrow> Some (r\<lparr>ru_s := s, ru_written := note_call (unat fd) s (ru_written r)\<rparr>))
      | DoApp i \<Rightarrow>
          (case mt_fds (ru_s r) i of None \<Rightarrow> None
           | Some p \<Rightarrow> (case app_step lc 0 (mt_app (ru_s r) i) (mt_timestamp (ru_s r)) p of
               Inr (Some (pc, ts, q)) \<Rightarrow>
                 Some (r\<lparr>ru_s := (ru_s r)\<lparr>mt_fds := (mt_fds (ru_s r))(i \<mapsto> q), mt_app := (mt_app (ru_s r))(i := pc), mt_timestamp := ts\<rparr>\<rparr>)
             | _ \<Rightarrow> None))
      | DoParse \<Rightarrow>
          (case par_step lc (mt_par (ru_s r)) (ru_s r) of
             Inr (Some s) \<Rightarrow> Some (r\<lparr>ru_s := s, ru_parsed := note_parsed (ru_s r) (ru_parsed r)\<rparr>)
           | _ \<Rightarrow> None))"

fun mt_schedule :: "libc \<Rightarrow> mt_action list \<Rightarrow> mt_run \<Rightarrow> mt_run option" where
  "mt_schedule lc [] r = Some r"
| "mt_schedule lc (a # as) r = (case mt_do lc a r of None \<Rightarrow> None | Some r \<Rightarrow> mt_schedule lc as r)"

lemma mt_do_step: "mt_do lc a r = Some r' \<Longrightarrow> mt_step lc r r'"
  by (auto simp: mt_do_def intro: mt_step.intros split: mt_action.splits if_splits option.splits sum.splits)

lemma mt_schedule_reach: "mt_schedule lc as r = Some r' \<Longrightarrow> mt_reach lc r \<Longrightarrow> mt_reach lc r'"
  by (induction lc as r rule: mt_schedule.induct) (auto split: option.splits intro: mt_continue mt_do_step)

definition line_example :: line where
  "line_example = \<lparr>li_data = \<lparr>ve_data = replicate 128 0, ve_size = 0, ve_alloc_size = 128\<rparr>, li_timestamp = 0\<rparr>"

definition mt_example :: mt_run where
  "mt_example = \<lparr>ru_s = \<lparr>mt_fds = [1 \<mapsto> (no_lines tx_example)\<lparr>ms_heap := [0 \<mapsto> line_example], ms_allocated_lines := 1, ms_current := Some 0\<rparr>],
     mt_app = (\<lambda>_. AIdle), mt_done = (\<lambda>_. False), mt_timestamp = 0, mt_timestamps = False, mt_first_match_only = True,
     mt_tmpline = None, mt_tmpline_len = 0, mt_par = PLook 0, mt_no_line = 0\<rparr>, ru_written = (\<lambda>_. []), ru_parsed = (\<lambda>_. [])\<rparr>"

lemma mt_example_reach: "mt_reach lc_example mt_example"
proof -
  have "init_new_line lc_example 0 (no_lines tx_example) =
      Inr (Some ((no_lines tx_example)\<lparr>ms_heap := [0 \<mapsto> line_example], ms_allocated_lines := 1, ms_current := Some 0\<rparr>))"
    by (simp add: init_new_line_def get_line_from_pool_def no_lines_def ALLOCATED_LINES_THRESHOLD_def create_new_line_def VEC_GROW_def VEC_INIT_def
        vec_realloc_def realloc_def lc_example_def zero_malloc_def line_example_def Let_def)
  then have "mt_ready lc_example (ru_s mt_example)" by (auto simp: mt_ready_def mt_example_def)
  from mt_start [OF this] show ?thesis by (simp add: mt_example_def)
qed


text \<open>
  C11: In every reachable state a step of \<open>handle_event\<close> succeeds: no assertion fails, no access is out of bounds, as long as
  less than \<open>2 ^ 62\<close> bytes have been written. A line is in one place only; and when the application has to wait for
  a line, all 2000 lines are in the list or with the parser, so that as long as the parser runs the wait can end.
\<close>

theorem mt_lines_safe:
  assumes lc: "lib_ok lc" and r: "mt_reach lc r" and fd: "mt_fds (ru_s r) i = Some p" and bound: "length (ru_written r i) < 4611686018427387904"
  shows "(\<exists>res. app_step lc junk (mt_app (ru_s r) i) ts p = Inr res) \<and> distinct (places i p (mt_app (ru_s r) i) (mt_par (ru_s r))) \<and>
    (mt_par (ru_s r) \<noteq> PFinished \<and> mt_app (ru_s r) i \<noteq> AIdle \<and> app_step lc junk (mt_app (ru_s r) i) ts p = Inr None \<longrightarrow>
       length (ms_lines p) + length (held i (mt_par (ru_s r))) = 2000)"
proof -
  let ?pc = "mt_app (ru_s r) i" and ?par = "mt_par (ru_s r)"
  have inv: "fd_inv i p ?pc ?par (ru_written r i) (ru_parsed r i)" using mt_reach_inv [OF r lc] fd by (simp add: mt_inv_def)
  then have hi: "heap_inv i p ?pc ?par" by (simp add: fd_inv_def)
  have "length (ms_lines p) + length (held i ?par) = 2000" if h: "?par \<noteq> PFinished" "?pc \<noteq> AIdle" "app_step lc junk ?pc ts p = Inr None"
  proof -
    obtain cs where "?pc = AInit cs" "init_new_line lc junk p = Inr None"
      using h(2,3) by (cases "(lc, junk, ?pc, ts, p)" rule: app_step.cases) (auto split: option.splits if_splits)
    then have "filled ?pc p = []" "ms_pool p = []" "ms_allocated_lines p \<ge> 2000"
      by (auto simp: filled_def init_new_line_def get_line_from_pool_def ALLOCATED_LINES_THRESHOLD_def Let_def split: if_splits)
    moreover have "card (set (places i p ?pc ?par)) = unat (ms_allocated_lines p)" "unat (ms_allocated_lines p) \<le> 2000"
      using hi h(1) by (simp_all add: heap_inv_def)
    moreover have "card (set (places i p ?pc ?par)) = length (places i p ?pc ?par)" using hi by (simp add: heap_inv_def distinct_card)
    ultimately show ?thesis by (simp add: places_def word_le_nat_alt)
  qed
  then show ?thesis using app_step_works [OF lc inv bound] hi by (simp add: heap_inv_def)
qed

theorem mt_lines_safe_witness:
  "\<exists>r p res. mt_schedule lc_example [DoWrite 1 [97, 10], DoApp 1, DoApp 1, DoApp 1] mt_example = Some r \<and> mt_fds (ru_s r) 1 = Some p \<and>
     mt_app (ru_s r) 1 = AInit [] \<and> app_step lc_example 0 (AInit []) 1 p = Inr res"
proof -
  let ?a = "[DoWrite 1 [97, 10], DoApp 1, DoApp 1, DoApp 1]"
  have "case mt_schedule lc_example ?a mt_example of None \<Rightarrow> False | Some r \<Rightarrow> length (ru_written r 1) = 2 \<and> mt_app (ru_s r) 1 = AInit [] \<and>
      (case mt_fds (ru_s r) 1 of None \<Rightarrow> False | Some p \<Rightarrow> True)"
    by code_simp
  then obtain r p where r: "mt_schedule lc_example ?a mt_example = Some r" "length (ru_written r 1) = 2" "mt_app (ru_s r) 1 = AInit []"
      "mt_fds (ru_s r) 1 = Some p" by (auto split: option.splits)
  have "length (ru_written r 1) < 4611686018427387904" using r(2) by simp
  from mt_lines_safe [OF lc_example_ok mt_schedule_reach [OF r(1) mt_example_reach] r(4) this, of 0 1] show ?thesis using r(1,3,4) by auto
qed

section \<open>The arguments\<close>

definition arg_fd :: "string \<Rightarrow> nat option" where
  "arg_fd a =
     (if strncmp_eq a ''-stdin'' 7 then Some 0
      else if strncmp_eq a ''-stdout'' 7 then Some 1
      else if strncmp_eq a ''-stderr'' 7 then Some 2
      else None)"

text \<open>
  The number of events of each descriptor; \<open>None\<close>: an event lacks its expression or signature. Both passes start with the standard
  output.
\<close>

fun count_exprs :: "string list \<Rightarrow> nat \<Rightarrow> (nat \<Rightarrow> nat) \<Rightarrow> (nat \<Rightarrow> nat) option" where
  "count_exprs [] cur_fd exprs_num = Some exprs_num"
| "count_exprs (a # as) cur_fd exprs_num =
     (if strncmp_eq a ''--'' 3 then Some exprs_num
      else (case arg_fd a of
        Some fd \<Rightarrow> count_exprs as fd exprs_num
      | None \<Rightarrow>
          (case as of
             expr # sig # bs \<Rightarrow> count_exprs bs cur_fd (exprs_num(cur_fd := exprs_num cur_fd + 1))
           | _ \<Rightarrow> None)))"

definition after_key :: "string list \<Rightarrow> nat res" where
  "after_key argv = bindE (arg_at argv 1) (\<lambda>a. Inr (if strncmp_eq a ''-t'' 3 then 3 else 2))"

definition get_exprs_num :: "string list \<Rightarrow> (nat \<Rightarrow> nat) option res" where
  "get_exprs_num argv = bindE (after_key argv) (\<lambda>i. Inr (count_exprs (drop i argv) 1 (\<lambda>_. 0)))"

text \<open>The tables have the counted sizes; \<open>None\<close>: an expression does not compile.\<close>

fun define_events :: "libc \<Rightarrow> bool \<Rightarrow> (nat \<Rightarrow> nat) \<Rightarrow> string list \<Rightarrow> nat \<Rightarrow> (nat \<Rightarrow> (string \<times> regex_t \<times> string) list) \<Rightarrow>
    (nat \<Rightarrow> (string \<times> regex_t \<times> string) list) option res" where
  "define_events lc timestamps exprs_num [] cur_fd evs =
     assertE (\<forall>fd \<in> {0, 1, 2}. exprs_num fd = length (evs fd)) ''exprs_num == args_i'' (Inr (Some evs))"
| "define_events lc timestamps exprs_num (a # as) cur_fd evs =
     (case arg_fd a of
        Some fd \<Rightarrow> define_events lc timestamps exprs_num as fd evs
      | None \<Rightarrow>
          if length (evs cur_fd) \<ge> exprs_num cur_fd then Inl (UB ''write out of bounds'')
          else (case as of
             expr # sig # bs \<Rightarrow>
               (case lc_regcomp lc expr of
                  None \<Rightarrow> Inr None
                | Some re \<Rightarrow>
                    define_events lc timestamps exprs_num bs cur_fd
                      (evs(cur_fd := evs cur_fd @ [(a, re, if timestamps then CHR ''t'' # sig else sig)])))
           | _ \<Rightarrow> Inl (UB ''read out of bounds'')))"

definition parse_args :: "libc \<Rightarrow> (nat \<Rightarrow> nat) \<Rightarrow> string list \<Rightarrow> (bool \<times> string \<times> (nat \<Rightarrow> (string \<times> regex_t \<times> string) list)) option res" where
  "parse_args lc exprs_num argv =
     bindE (after_key argv) (\<lambda>i.
     bindE (arg_at argv (i - 1)) (\<lambda>shmkey.
     bindE (define_events lc (i = 3) exprs_num (drop i argv) 1 (\<lambda>_. [])) (\<lambda>r.
     Inr (case r of None \<Rightarrow> None | Some evs \<Rightarrow> Some (i = 3, shmkey, evs)))))"

text \<open>Without \<open>--\<close> the two passes agree: the tables have the room that the second pass needs.\<close>

lemma count_exprs_mono: "count_exprs as cur_fd k = Some n \<Longrightarrow> k fd \<le> n fd"
proof (induction as cur_fd k rule: count_exprs.induct)
  case (2 a as cur_fd k)
  show ?case
  proof (cases "strncmp_eq a ''--'' 3")
    case False
    show ?thesis
    proof (cases "arg_fd a")
      case None
      then obtain e sg bs where as: "as = e # sg # bs" using 2(3) False by (auto split: list.splits)
      then have "count_exprs bs cur_fd (k(cur_fd := k cur_fd + 1)) = Some n" using 2(3) False None by simp
      then have "(k(cur_fd := k cur_fd + 1)) fd \<le> n fd" by (rule 2(1) [OF False None as refl])
      then show ?thesis by (simp split: if_splits)
    next
      case (Some f)
      then show ?thesis using 2(2) [OF False Some] 2(3) False by simp
    qed
  qed (use 2(3) in simp)
qed simp

lemma define_events_fit:
  assumes "count_exprs as cur_fd k = Some n" and "\<forall>a \<in> set as. \<not> strncmp_eq a ''--'' 3" and "\<forall>fd. length (evs fd) = k fd"
  shows "\<exists>r. define_events lc ts n as cur_fd evs = Inr r \<and> (\<forall>evs' fd. r = Some evs' \<longrightarrow> length (evs' fd) = n fd)"
  using assms
proof (induction as cur_fd k arbitrary: evs rule: count_exprs.induct)
  case (2 a as cur_fd k)
  have no: "\<not> strncmp_eq a ''--'' 3" using 2(4) by simp
  show ?case
  proof (cases "arg_fd a")
    case None
    then obtain e sg bs where as: "as = e # sg # bs" using 2(3) no by (auto split: list.splits)
    then have c: "count_exprs bs cur_fd (k(cur_fd := k cur_fd + 1)) = Some n" using 2(3) no None by simp
    from count_exprs_mono [OF this, of cur_fd] have room: "length (evs cur_fd) < n cur_fd" using 2(5) by simp
    show ?thesis
    proof (cases "lc_regcomp lc e")
      case (Some re)
      let ?evs = "evs(cur_fd := evs cur_fd @ [(a, re, if ts then CHR ''t'' # sg else sg)])"
      have len: "\<forall>fd. length (?evs fd) = (k(cur_fd := k cur_fd + 1)) fd" and bs: "\<forall>a \<in> set bs. \<not> strncmp_eq a ''--'' 3"
        using 2(4,5) as by simp_all
      have eq: "define_events lc ts n (a # as) cur_fd evs = define_events lc ts n bs cur_fd ?evs" using as room None Some by simp
      show ?thesis unfolding eq by (rule 2(1) [OF no None as refl c bs len])
    qed (use as room None in simp)
  next
    case (Some f)
    then show ?thesis using 2(2) [OF no Some _ _ 2(5)] 2(3,4) no by simp
  qed
qed simp

lemma parse_args_fit:
  assumes "get_exprs_num argv = Inr (Some n)" and "\<forall>a \<in> set argv. \<not> strncmp_eq a ''--'' 3" and "4 \<le> length argv"
  shows "\<exists>r. parse_args lc n argv = Inr r \<and> (\<forall>ts key evs fd. r = Some (ts, key, evs) \<longrightarrow> length (evs fd) = n fd)"
proof -
  obtain i where i: "after_key argv = Inr i" "count_exprs (drop i argv) 1 (\<lambda>_. 0) = Some n" "i = 2 \<or> i = 3"
    using assms(1) by (auto simp: get_exprs_num_def after_key_def split: if_splits)
  have "\<forall>a \<in> set (drop i argv). \<not> strncmp_eq a ''--'' 3" using assms(2) by (auto dest: in_set_dropD)
  from define_events_fit [OF i(2) this, of "\<lambda>_. []" lc "i = 3"] obtain r where
    r: "define_events lc (i = 3) n (drop i argv) 1 (\<lambda>_. []) = Inr r" "\<forall>evs' fd. r = Some evs' \<longrightarrow> length (evs' fd) = n fd" by auto
  have "\<exists>key. arg_at argv (i - 1) = Inr key" using i(3) assms(3) by (auto simp: arg_at_def)
  then show ?thesis using i(1) r by (cases r) (auto simp: parse_args_def)
qed

section \<open>Findings\<close>

text \<open>
  When the monitor has gone the parser thread finishes and nobody returns lines to the pool any more: an application that has used
  its 2000 lines spins in \<open>init_new_line\<close> for ever.
\<close>

lemma writer_waits_for_ever:
  assumes "mt_step lc r r'" and "mt_par (ru_s r) = PFinished" and "mt_app (ru_s r) i = AInit cs"
    and "mt_fds (ru_s r) i = Some p" "ms_pool p = []" "ms_allocated_lines p \<ge> ALLOCATED_LINES_THRESHOLD"
  shows "mt_par (ru_s r') = PFinished \<and> mt_app (ru_s r') i = AInit cs \<and>
    (\<exists>q. mt_fds (ru_s r') i = Some q \<and> ms_pool q = [] \<and> ms_allocated_lines q \<ge> ALLOCATED_LINES_THRESHOLD)"
  using assms(1)
proof cases
  case (mt_call fd sysnum buf len s')
  then show ?thesis using mt_post_syscall_cases [OF mt_call(3)] assms(2-) by auto
next
  case (mt_app_step j q junk pc ts q')
  have "j \<noteq> i"
  proof
    assume "j = i"
    moreover have "init_new_line lc junk p = Inr None" using assms(5,6) by (simp add: init_new_line_def get_line_from_pool_def)
    ultimately show False using mt_app_step(2,3) assms(3,4) by simp
  qed
  then show ?thesis using mt_app_step(1) assms(2-) by simp
next
  case (mt_par_step s')
  then show ?thesis using assms(2) by simp
next
  case (mt_monitor j q b)
  then show ?thesis using assms(2-) by auto
next
  case mt_exit
  then show ?thesis using assms(2-) by (simp add: event_exit_begin_def)
qed

text \<open>A call on a bad descriptor (the application passes \<open>-1\<close>) reads the table of the sources out of bounds.\<close>

lemma bad_descriptor_out_of_bounds:
  "mt_post_syscall SYS_write (- 1) buf len s = Inl (UB ''read out of bounds'')"
  by (simp add: mt_post_syscall_def)

text \<open>
  The first pass stops at \<open>--\<close>, the second does not: it takes \<open>--\<close> for the name of an event and writes behind the
  tables.
\<close>

lemma dashes_write_out_of_bounds:
  "\<exists>n. get_exprs_num [''drregex'', ''/key'', ''ev'', ''(.*)'', ''L'', ''--''] = Inr (Some n) \<and>
     (lc_regcomp lc ''(.*)'' \<noteq> None \<longrightarrow>
        parse_args lc n [''drregex'', ''/key'', ''ev'', ''(.*)'', ''L'', ''--''] = Inl (UB ''write out of bounds''))"
  by (auto simp: get_exprs_num_def after_key_def arg_at_def parse_args_def strncmp_eq_def cstr_def arg_fd_def)

end
