(* ===== verification/Spec2Isabelle.thy ===== *)
theory Spec2Isabelle
  imports Shm_Prelude Fifo_Spec Spsc_Ringbuf Par_Queue Spsc_Queues Spsc_Concurrent Event_Source Shm_Buffer Shm_Aux Shm_Stream Arbiter Arbiter_Flow
    Monitor_Buffer Vectors Linked_Lists Shm_Files Buffer_Groups Shamon Shamon_Rounds Tsan_Source Tsan_Threads
    Text_Source Text_Lines Text_Events Text_Threads
begin

text \<open>
  A verification of Shamon (VAMOS), a runtime monitoring framework in C.

  \<^bold>\<open>The program.\<close> A monitored program, the source, describes its kinds of events and pushes events into a
  buffer in shared memory; strings go to auxiliary buffers. The monitor opens the buffer as a
  stream. For every stream a thread (the buffer manager) moves events from the shared buffer to an
  arbiter buffer; when the arbiter buffer is full it drops events and announces them by a hole, an
  event that stands for the dropped ones. The monitor reads the arbiter buffers, either through the
  library's round robin or through an arbiter of its own, which hands events over to a monitor thread through a
  monitor buffer. All buffers are single-producer single-consumer queues on one ring buffer.

  \<^bold>\<open>The theories\<close>, in the order of the layers, with the files of \<open>src/\<close> they model:
  \<^item> \<open>Shm_Prelude\<close>: the machine types, the errors, memory as lists of bytes, lemmas on words and lists.
  \<^item> \<open>Fifo_Spec\<close>: the contract \<open>bounded_fifo\<close> of a queue (a locale) and what its clients may conclude. It is
    interpreted by the parallel queue, the legacy queue, the shared buffer and the monitor buffer.
  \<^item> \<open>Spsc_Ringbuf\<close>: \<open>core/spsc_ringbuf.c\<close>, all functions: positions, cached positions, wrap-around.
  \<^item> \<open>Par_Queue\<close>: \<open>core/par_queue.c\<close>; \<open>Spsc_Queues\<close>: \<open>core/queue_spsc.c\<close> and \<open>core/legacy/queue.c\<close>.
  \<^item> \<open>Spsc_Concurrent\<close>: a producer and a consumer thread on a parallel queue, interleaved at every access to
    shared memory (\<open>prod_step\<close>, \<open>cons_step\<close>, \<open>reach\<close>).
  \<^item> \<open>Event_Source\<close>: \<open>core/event.c\<close>, \<open>core/signatures.c\<close>, \<open>core/source.c\<close>.
  \<^item> \<open>Shm_Buffer\<close> and \<open>Shm_Aux\<close>: the queue operations, dropped ranges and strings of \<open>shmbuf/buffer.c\<close> and
    \<open>shmbuf/buffer-aux.c\<close>.
  \<^item> \<open>Shm_Files\<close>: the files behind the buffers: \<open>shmbuf/shm.c\<close>, \<open>shmbuf/utils.c\<close>, \<open>shmbuf/buffer-control.c\<close>,
    \<open>shmbuf/buffer-sub.c\<close>, \<open>shmbuf/buffer-local.c\<close>, \<open>shmbuf/client.c\<close>, creation, opening and destruction in \<open>shmbuf/buffer.c\<close>.
  \<^item> \<open>Shm_Stream\<close>: \<open>core/stream.c\<close>; \<open>Arbiter\<close>: \<open>core/arbiter.c\<close>; \<open>Arbiter_Flow\<close>: \<open>streams/stream-generic.c\<close> and
    the buffer manager thread of \<open>core/shamon.c\<close>, with the other threads as an environment.
  \<^item> \<open>Shamon\<close> and \<open>Shamon_Rounds\<close>: the rest of \<open>core/shamon.c\<close>, \<open>streams/streams.c\<close> and the kinds of streams in
    \<open>streams/\<close>, the sub-streams of \<open>core/stream.c\<close>.
  \<^item> \<open>Monitor_Buffer\<close>: \<open>core/monitor.c\<close>.
  \<^item> \<open>Vectors\<close>: \<open>core/utils.c\<close>, \<open>core/vector.c\<close>, \<open>core/vector-aligned.c\<close>, \<open>core/vector-macro.h\<close>, \<open>core/shm_string.c\<close> and its macros,
    with the contract \<open>growing_array\<close> (a locale), interpreted by the vector and the string.
  \<^item> \<open>Linked_Lists\<close>: \<open>core/list.c\<close> and \<open>core/list-embedded.c\<close> on an explicit heap.
  \<^item> \<open>Buffer_Groups\<close>: \<open>compiler/cfiles/compiler_utils.c\<close> on the same heap: the ordered lists of streams of
    compiled monitors.
  \<^item> \<open>Tsan_Source\<close> and \<open>Tsan_Threads\<close>: \<open>sources/tsan/tsan_impl.c\<close>, the runtime of the race detector, which the instrumented
    program calls at memory accesses, locks and the start and end of threads; its runs with any number of threads.
  \<^item> \<open>Text_Source\<close>: the sources that match lines of text, \<open>sources/regex.c\<close> and \<open>sources/drregex/regex.c\<close>; \<open>Text_Lines\<close>: how the
    writes of a program are cut into lines; \<open>Text_Events\<close>: the events of a line.
  \<^item> \<open>Text_Threads\<close>: \<open>sources/drregex/regex-mt.c\<close>, which parses the lines in a thread of its own.

  \<^bold>\<open>How the code is modelled.\<close> A C struct is a record with the fields in the order of the source, a
  function is a definition with its name. The target is LP64; \<open>size_t\<close> and the other integers are
  words of their width, so additions wrap around. The build has assertions on (where \<open>NDEBUG\<close> matters it is
  an argument) and \<open>DUMP_STATS\<close> off. A result of type \<open>'a res\<close> is \<open>Inl\<close> of a failed assertion, an
  abort or undefined behaviour (an access out of bounds, a dangling pointer, a division by zero), or \<open>Inr\<close> of the
  result; pointers into a block are byte offsets, pointers to nodes are addresses of a heap. What is
  not in the sources is an argument: the memory \<open>malloc\<close>, \<open>realloc\<close> and \<open>mmap\<close> return or that they
  fail, compiled regular expressions, conversions to floating-point numbers, which system calls fail (\<open>os\<close>), what other processes do to the files between two attempts.
  Freeing memory, closing descriptors and printing are left out where nothing can observe them.

  Concurrency: in \<open>Spsc_Concurrent\<close> the threads interleave at every shared access, in a sequentially
  consistent memory. Its theorems justify that the layers above treat a call on a queue as one step of
  its thread. There, a loop that waits for another thread takes the list of the actions the others perform while
  it waits, and returns \<open>Waiting\<close> when the list ends before the loop does; statements hold for all such lists.
  In \<open>Tsan_Threads\<close> a call of a function of the runtime is one step of its thread; in \<open>Text_Threads\<close> the threads interleave at the
  operations that spin locks protect and at every byte that is handled.
  A loop over a linked structure has fuel (\<open>None\<close>: not enough); the theorems show that as many steps as
  there are nodes suffice (\<open>bg_update_sorts\<close>: passes bounded by the number of inversions). Every other
  loop is a total function.

  \<^bold>\<open>What is shown.\<close> Of the threads on a queue: elements leave in the order they entered, whatever the
  interleaving, the two threads never access the same slot, no assertion fails, and a call gives up only
  if the queue was full or empty during it. Of a stream: every event the source pushed is delivered once, or
  counted by a hole that is delivered in its place. Of the library: no stream starves, adding streams keeps its
  state well-formed. Of the files: two processes that open a key share the buffer, creation is atomic
  whatever calls fail, a destroyed buffer cannot be opened. Of the data structures: refinement of lists,
  termination of their loops, round trips of strings, source descriptions and stream specifications. Of the race detector: timestamps are given once and in order,
  ids have no gap, no function called in a running thread fails. Of the text sources: each line gives the events its
  expressions ask for, however the program cuts its output into writes, and the parser thread parses every line once
  and in order. Bugs of
  the code are stated as lemmas in the sections \<open>Findings\<close>.

  \<^bold>\<open>Not modelled\<close>: weak memory orders; the example monitors (\<open>monitors/\<close>), which print events; of the sources the clients of DynamoRIO that instrument functions and system
  calls (\<open>sources/drfun\<close>, \<open>sources/drsyscalls\<close>), the set-up and clean-up of the modelled clients (\<open>dr_client_main\<close>, \<open>event_exit\<close>), the
  earlier race detector (\<open>sources/racetest\<close>), the LLVM pass and the programs for BPF: their work is done by frameworks that are not part
  of the repository; the compiler, which is written in Python; generated monitors and programs for the evaluation
  (\<open>experiments/\<close>); the legacy streams, which are not built; tests; \<open>shm_stream_register_events\<close>, which
  passes its \<open>va_list\<close> to a variadic function.
\<close>

end
